(* ===== verification/Prelude.thy ===== *)
theory Prelude
  imports Main "HOL-Library.Word" "HOL-Library.Sublist" "HOL-Library.Multiset"
begin

unbundle bit_operations_syntax

text \<open>
  Shared vocabulary of the development: names for the machine types the C++ code uses, the
  bit-list view of words on which the bit-stream proofs are carried out, and the generic facts
  on lists and words that several components share.
\<close>

section \<open>Machine types\<close>

type_synonym byte = "8 word"     \<comment> \<open>\<open>unsigned char\<close>, \<open>jubyte\<close>\<close>
type_synonym u16 = "16 word"     \<comment> \<open>\<open>UInt16\<close>, \<open>jushort\<close>\<close>
type_synonym uint = "32 word"    \<comment> \<open>\<open>uint\<close>, and the bit pattern of \<open>jint\<close>\<close>
type_synonym u64 = "64 word"     \<comment> \<open>\<open>size_t\<close>, \<open>uintptr_t\<close>, the bit pattern of \<open>jlong\<close>\<close>

named_theorems bitlist_simps \<open>bit lists of words, most significant bit first\<close>

section \<open>Words as bit lists, most significant bit first\<close>

definition word_bits :: "nat \<Rightarrow> 'a::len word \<Rightarrow> bool list" where
  "word_bits n v = map (\<lambda>i. bit v (n - 1 - i)) [0..<n]"

abbreviation byte_bits :: "byte \<Rightarrow> bool list" where
  "byte_bits b \<equiv> word_bits 8 b"

definition bytes_bits :: "byte list \<Rightarrow> bool list" where
  "bytes_bits bs = concat (map byte_bits bs)"

lemma length_word_bits [simp]: "length (word_bits n v) = n"
  by (simp add: word_bits_def)

lemma nth_word_bits [simp]: "i < n \<Longrightarrow> word_bits n v ! i = bit v (n - 1 - i)"
  by (simp add: word_bits_def)

lemma word_bits_0 [simp]: "word_bits 0 v = []"
  by (simp add: word_bits_def)

lemma bytes_bits_Nil [simp]: "bytes_bits [] = []"
  by (simp add: bytes_bits_def)

lemma bytes_bits_Cons [simp]: "bytes_bits (b # bs) = byte_bits b @ bytes_bits bs"
  by (simp add: bytes_bits_def)

lemma bytes_bits_append [simp]: "bytes_bits (xs @ ys) = bytes_bits xs @ bytes_bits ys"
  by (simp add: bytes_bits_def)

lemma length_bytes_bits [simp]: "length (bytes_bits bs) = 8 * length bs"
  by (induction bs) simp_all

lemma nth_bytes_bits:
  "p < length bs \<Longrightarrow> i < 8 \<Longrightarrow> bytes_bits bs ! (8 * p + i) = bit (bs ! p) (7 - i)"
proof (induction bs arbitrary: p)
  case Nil
  then show ?case by simp
next
  case (Cons b bs)
  show ?case
  proof (cases p)
    case 0
    with Cons.prems show ?thesis by (simp add: nth_append)
  next
    case (Suc q)
    with Cons.prems have "bytes_bits bs ! (8 * q + i) = bit (bs ! q) (7 - i)"
      by (intro Cons.IH) simp_all
    with Suc show ?thesis by (simp add: nth_append)
  qed
qed

text \<open>Splitting the low \<open>n\<close> bits of a word after its first \<open>k\<close> (high) bits.\<close>

lemma word_bits_split:
  "k \<le> n \<Longrightarrow> word_bits n v = word_bits k (drop_bit (n - k) v) @ word_bits (n - k) v"
  by (rule nth_equalityI) (auto simp: nth_append bit_drop_bit_eq algebra_simps)

lemma take_word_bits: "k \<le> n \<Longrightarrow> take k (word_bits n v) = word_bits k (drop_bit (n - k) v)"
  by (subst word_bits_split [of k n v]) simp_all

lemma word_bits_cong:
  "(\<And>i. i < n \<Longrightarrow> bit v i = bit w i) \<Longrightarrow> word_bits n v = word_bits n w"
  by (rule nth_equalityI) auto

lemma word_bits_inj:
  fixes v w :: "'a::len word"
  assumes "word_bits n v = word_bits n w" and "unat v < 2 ^ n" and "unat w < 2 ^ n"
  shows "v = w"
proof (rule bit_word_eqI)
  fix i assume i: "i < LENGTH('a)"
  show "bit v i = bit w i"
  proof (cases "i < n")
    case True
    then have "word_bits n v ! (n - 1 - i) = word_bits n w ! (n - 1 - i)"
      using assms(1) by simp
    with True show ?thesis by simp
  next
    case False
    have "\<not> bit x i" if "unat x < 2 ^ n" for x :: "'a word"
    proof -
      have "unat x < 2 ^ i"
        using that False by (meson less_le_trans linorder_not_less one_le_numeral power_increasing)
      then have "\<not> bit (unat x) i"
        by (simp add: bit_iff_odd)
      then show ?thesis by (simp add: bit_unsigned_iff)
    qed
    with assms(2,3) show ?thesis by simp
  qed
qed

section \<open>Lists\<close>

lemma ball_list_update: "\<forall>x \<in> set xs. P x \<Longrightarrow> P y \<Longrightarrow> \<forall>x \<in> set (xs[i := y]). P x"
  by (auto dest!: set_update_subset_insert [THEN subsetD])

lemma sorted_wrt_distinct:
  "sorted_wrt R xs \<Longrightarrow> (\<And>a b. R a b \<Longrightarrow> f a \<noteq> f b) \<Longrightarrow> distinct (map f xs)"
  by (induction xs) force+

section \<open>Association lists\<close>

lemma card_dom_map_of: "distinct (map fst es) \<Longrightarrow> card (dom (map_of es)) = length es"
  using distinct_card [of "map fst es"] by (simp add: dom_map_of_conv_image_fst)

lemma map_of_perm:
  assumes "distinct (map fst es)" and "mset es = mset es'"
  shows "map_of es = map_of es'"
proof (rule map_of_eqI)
  have "set es = set es'" using assms(2) by (metis set_mset_mset)
  then show "set (map fst es) = set (map fst es')" by simp
  have "distinct (map fst es')"
    using assms by (metis mset_map mset_eq_imp_distinct_iff)
  with assms(1) \<open>set es = set es'\<close>
  show "\<forall>k \<in> set (map fst es). map_of es k = map_of es' k"
    by (auto simp: map_of_is_SomeI)
qed

lemma map_add_new: "m s = None \<Longrightarrow> [s \<mapsto> v] ++ m = m(s \<mapsto> v)"
  by (auto simp: map_add_def fun_eq_iff split: option.splits)

section \<open>Bounds of words built by shifts and masks\<close>

lemma unat_of_nat_small: "n < 2 ^ LENGTH('a) \<Longrightarrow> unat (of_nat n :: 'a::len word) = n"
  by (simp add: unat_of_nat take_bit_nat_eq_self)

lemma unat_less_256: "unat (b :: byte) < 256"
  using unsigned_less [of b] by simp

lemma unat_power_2:
  "n < LENGTH('a) \<Longrightarrow> unat (2 ^ n :: 'a::len word) = 2 ^ n"
  using unat_of_nat [where 'a = 'a and x = "2 ^ n"] by simp

lemma push_bit_mask: "push_bit n 1 - 1 = (mask n :: 'a::len word)"
  by (simp add: mask_eq_exp_minus_1)

lemma unat_mask_word:
  "n < LENGTH('a) \<Longrightarrow> unat (push_bit n 1 - 1 :: 'a::len word) = 2 ^ n - 1"
proof -
  assume n: "n < LENGTH('a)"
  then have "(1 :: 'a word) \<le> 2 ^ n"
    by (simp add: word_le_nat_alt unat_power_2)
  then show ?thesis by (simp add: unat_sub unat_power_2 n)
qed

lemma bit_mask_word:
  "bit (push_bit n 1 - 1 :: 'a::len word) i \<longleftrightarrow> i < n \<and> i < LENGTH('a)"
  unfolding push_bit_mask by (auto simp: bit_mask_iff)

end
