(* ===== verification/EventBuffer.thy ===== *)
theory EventBuffer
  imports Prelude
begin

text \<open>
  Event buffers (\<open>EventBuffer.hpp\<close>, \<open>EventBuffer.cpp\<close>) and the memory behind them.  An event buffer is
  a struct of pointers into a data area which copies of the struct share.  A data area is a block of
  the memory, a pointer into it is the number of the block and an offset in bytes: \<open>bottom\<close> is the
  number of the block (0 is \<open>NULL\<close>), \<open>top\<close> and \<open>end\<close> are offsets.  The debug build's \<open>assert\<close>s are
  compiled out; the condition of \<open>EventBuffer_assert_is_valid\<close> is the invariant of a buffer in use.
\<close>

section \<open>Memory\<close>

record memory =
  mem_block :: "nat \<Rightarrow> byte list option"   \<comment> \<open>the allocated blocks\<close>
  mem_next :: nat                        \<comment> \<open>the blocks from here on were never allocated\<close>
  mem_last_id :: uint                    \<comment> \<open>the static \<open>last_id\<close> of \<open>EventBuffer_create\<close>\<close>

definition memory_init :: memory where
  "memory_init = \<lparr>mem_block = (\<lambda>_. None), mem_next = 1, mem_last_id = 0\<rparr>"

definition load_bytes :: "memory \<Rightarrow> nat \<Rightarrow> nat \<Rightarrow> nat \<Rightarrow> byte list option" where
  "load_bytes m b i n = (case mem_block m b of None \<Rightarrow> None
     | Some bs \<Rightarrow> if i + n \<le> length bs then Some (take n (drop i bs)) else None)"

definition store_bytes :: "memory \<Rightarrow> nat \<Rightarrow> nat \<Rightarrow> byte list \<Rightarrow> memory option" where
  "store_bytes m b i vs = (case mem_block m b of None \<Rightarrow> None
     | Some bs \<Rightarrow> if i + length vs \<le> length bs
         then Some (m\<lparr>mem_block := (mem_block m)(b \<mapsto> take i bs @ vs @ drop (i + length vs) bs)\<rparr>) else None)"

definition calloc :: "memory \<Rightarrow> nat \<Rightarrow> nat \<times> memory" where
  "calloc m n = (mem_next m, m\<lparr>mem_block := (mem_block m)(mem_next m \<mapsto> replicate n 0), mem_next := Suc (mem_next m)\<rparr>)"

definition free :: "memory \<Rightarrow> nat \<Rightarrow> memory" where
  "free m b = m\<lparr>mem_block := (mem_block m)(b := None)\<rparr>"

definition memory_ok :: "memory \<Rightarrow> bool" where
  "memory_ok m \<longleftrightarrow> 0 < mem_next m \<and> mem_block m 0 = None \<and> (\<forall>b \<ge> mem_next m. mem_block m b = None)"

section \<open>The buffer\<close>

datatype EventBufferSyncLevel = Sync_None | Sync_Ensure_Order | Sync_Full

record EventBuffer =
  eb_bottom :: nat
  eb_top :: nat
  eb_end :: nat
  eb_id :: uint
  eb_owner :: nat      \<comment> \<open>a \<open>Thread*\<close>; 0 is \<open>NULL\<close>\<close>
  eb_sync :: EventBufferSyncLevel
  eb_is_compressed :: bool

text \<open>\<open>MAX_EVENT_SIZE\<close> of \<open>EventsRuntime.hpp\<close>, in words, and \<open>sizeof(jint)\<close>.\<close>

definition MAX_EVENT_SIZE :: nat where
  "MAX_EVENT_SIZE = 200"

abbreviation jint_size :: nat where
  "jint_size \<equiv> 4"

definition EventBuffer_get_raw_length :: "EventBuffer \<Rightarrow> nat" where
  "EventBuffer_get_raw_length thiz = eb_top thiz"

definition EventBuffer_get_length :: "EventBuffer \<Rightarrow> nat" where
  "EventBuffer_get_length thiz = eb_top thiz div jint_size"

definition EventBuffer_get_capacity :: "EventBuffer \<Rightarrow> nat" where
  "EventBuffer_get_capacity thiz = eb_end thiz div jint_size"

text \<open>The argument \<open>usable\<close> is what \<open>malloc_usable_size\<close> returns for a block of the requested size;
  the usable part behind the requested one is part of the block.\<close>

definition EventBuffer_create :: "(nat \<Rightarrow> nat) \<Rightarrow> nat \<Rightarrow> bool \<Rightarrow> memory \<Rightarrow> EventBuffer \<times> memory" where
  "EventBuffer_create usable capacity enforce_exact_capacity m =
    (let capacity = max MAX_EVENT_SIZE capacity;
         id = mem_last_id m + 1;
         real = (if enforce_exact_capacity then capacity else usable (capacity * jint_size) div jint_size);
         (bottom, m) = calloc (m\<lparr>mem_last_id := id\<rparr>) (real * jint_size)
     in (\<lparr>eb_bottom = bottom, eb_top = 0, eb_end = real * jint_size, eb_id = id, eb_owner = 0,
          eb_sync = Sync_None, eb_is_compressed = False\<rparr>, m))"

definition EventBuffer_create_dummy :: EventBuffer where
  "EventBuffer_create_dummy = \<lparr>eb_bottom = 0, eb_top = 0, eb_end = 0, eb_id = - 1, eb_owner = 0,
     eb_sync = Sync_None, eb_is_compressed = False\<rparr>"

definition EventBuffer_destroy :: "EventBuffer \<Rightarrow> memory \<Rightarrow> EventBuffer \<times> memory" where
  "EventBuffer_destroy thiz m =
    (thiz\<lparr>eb_id := 0, eb_bottom := 0, eb_top := 0, eb_end := 0, eb_owner := 0, eb_is_compressed := False\<rparr>,
     free m (eb_bottom thiz))"

definition EventBuffer_is_valid :: "EventBuffer \<Rightarrow> bool" where
  "EventBuffer_is_valid thiz \<longleftrightarrow> 0 < sint (eb_id thiz)"

definition EventBuffer_assert_is_valid :: "EventBuffer \<Rightarrow> bool" where
  "EventBuffer_assert_is_valid thiz \<longleftrightarrow>
     0 < sint (eb_id thiz) \<and> eb_bottom thiz \<noteq> 0 \<and> 0 < eb_end thiz \<and> eb_top thiz \<le> eb_end thiz
     \<and> (EventBuffer_get_raw_length thiz mod 4 = 0 \<or> eb_is_compressed thiz)"

definition EventBuffer_assert_is_dummy :: "EventBuffer \<Rightarrow> bool" where
  "EventBuffer_assert_is_dummy thiz \<longleftrightarrow> sint (eb_id thiz) < 0"

definition EventBuffer_get_data :: "EventBuffer \<Rightarrow> nat" where
  "EventBuffer_get_data thiz = eb_bottom thiz"

definition EventBuffer_is_compressed :: "EventBuffer \<Rightarrow> bool" where
  "EventBuffer_is_compressed thiz = eb_is_compressed thiz"

definition EventBuffer_set_compression :: "EventBuffer \<Rightarrow> nat \<Rightarrow> EventBuffer" where
  "EventBuffer_set_compression thiz compressed_length = thiz\<lparr>eb_top := compressed_length, eb_is_compressed := True\<rparr>"

text \<open>The result is the offset of the allocated words, \<open>None\<close> for \<open>NULL\<close>.\<close>

definition EventBuffer_allocate :: "EventBuffer \<Rightarrow> nat \<Rightarrow> nat option \<times> EventBuffer" where
  "EventBuffer_allocate thiz req_size =
    (let top = eb_top thiz; top_new = eb_top thiz + req_size * jint_size
     in if top_new \<le> eb_end thiz then (Some top, thiz\<lparr>eb_top := top_new\<rparr>) else (None, thiz))"

definition EventBuffer_reset :: "EventBuffer \<Rightarrow> EventBuffer" where
  "EventBuffer_reset thiz = thiz\<lparr>eb_top := 0, eb_owner := 0, eb_sync := Sync_None, eb_is_compressed := False\<rparr>"

definition EventBuffer_set_owner :: "EventBuffer \<Rightarrow> nat \<Rightarrow> EventBuffer" where
  "EventBuffer_set_owner thiz thread = thiz\<lparr>eb_owner := thread\<rparr>"

definition EventBuffer_get_owner :: "EventBuffer \<Rightarrow> nat" where
  "EventBuffer_get_owner thiz = eb_owner thiz"

text \<open>What the buffer holds: the bytes between \<open>bottom\<close> and \<open>top\<close>.\<close>

definition EventBuffer_content :: "memory \<Rightarrow> EventBuffer \<Rightarrow> byte list option" where
  "EventBuffer_content m thiz = load_bytes m (eb_bottom thiz) 0 (eb_top thiz)"

text \<open>A buffer whose data area is allocated and as long as the struct says.\<close>

definition buffer_ok :: "memory \<Rightarrow> EventBuffer \<Rightarrow> bool" where
  "buffer_ok m b \<longleftrightarrow> EventBuffer_assert_is_valid b \<and> MAX_EVENT_SIZE * jint_size \<le> eb_end b \<and> eb_end b mod jint_size = 0
     \<and> (\<exists>bs. mem_block m (eb_bottom b) = Some bs \<and> length bs = eb_end b)"

section \<open>Loads and stores\<close>

lemma load_store_same:
  "store_bytes m b i vs = Some m' \<Longrightarrow> load_bytes m' b i (length vs) = Some vs"
  by (auto simp: load_bytes_def store_bytes_def split: option.splits if_splits)

lemma take_drop_take: "j + n \<le> i \<Longrightarrow> take n (drop j (take i xs)) = take n (drop j xs)"
  by (simp add: drop_take)

lemma load_store_before:
  "store_bytes m b i vs = Some m' \<Longrightarrow> j + n \<le> i \<Longrightarrow> load_bytes m' b j n = load_bytes m b j n"
  by (auto simp: load_bytes_def store_bytes_def take_drop_take split: option.splits if_splits)

lemma load_store_other:
  "store_bytes m b i vs = Some m' \<Longrightarrow> c \<noteq> b \<Longrightarrow> load_bytes m' c j n = load_bytes m c j n"
  by (auto simp: load_bytes_def store_bytes_def split: option.splits if_splits)

lemma store_block_length:
  "store_bytes m b i vs = Some m' \<Longrightarrow> map_option length (mem_block m' c) = map_option length (mem_block m c)"
  by (auto simp: store_bytes_def split: option.splits if_splits)

lemma store_inside:
  "mem_block m b = Some bs \<Longrightarrow> i + length vs \<le> length bs \<Longrightarrow> \<exists>m'. store_bytes m b i vs = Some m'"
  by (simp add: store_bytes_def)

lemma load_append:
  assumes "load_bytes m b i n = Some xs" and "load_bytes m b (i + n) k = Some ys"
  shows "load_bytes m b i (n + k) = Some (xs @ ys)"
proof -
  have "take (n + k) (drop i bs) = take n (drop i bs) @ take k (drop (i + n) bs)" for bs :: "byte list"
    by (simp add: take_add) (simp add: add.commute)
  with assms show ?thesis by (auto simp: load_bytes_def split: option.splits if_splits)
qed

lemma load_length: "load_bytes m b i n = Some xs \<Longrightarrow> length xs = n"
  by (auto simp: load_bytes_def split: option.splits if_splits)

lemma store_memory_ok: "memory_ok m \<Longrightarrow> store_bytes m b i vs = Some m' \<Longrightarrow> memory_ok m'"
  by (cases "b = 0") (auto simp: memory_ok_def store_bytes_def split: option.splits if_splits)

lemma store_buffer_ok: "store_bytes m b i vs = Some m' \<Longrightarrow> buffer_ok m' c \<longleftrightarrow> buffer_ok m c"
  by (auto simp: buffer_ok_def store_bytes_def split: option.splits if_splits)

section \<open>Every operation keeps a buffer usable\<close>

lemma buffer_okD:
  assumes "buffer_ok m b"
  shows "EventBuffer_is_valid b" "eb_top b \<le> eb_end b" "eb_bottom b \<noteq> 0" "0 < eb_end b"
    "MAX_EVENT_SIZE * jint_size \<le> eb_end b"
  using assms by (auto simp: buffer_ok_def EventBuffer_assert_is_valid_def EventBuffer_is_valid_def)

lemma reset_ok: "buffer_ok m b \<Longrightarrow> buffer_ok m (EventBuffer_reset b)"
  by (simp add: buffer_ok_def EventBuffer_reset_def EventBuffer_assert_is_valid_def EventBuffer_get_raw_length_def)

lemma set_owner_ok: "buffer_ok m b \<Longrightarrow> buffer_ok m (EventBuffer_set_owner b t)"
  by (simp add: buffer_ok_def EventBuffer_set_owner_def EventBuffer_assert_is_valid_def EventBuffer_get_raw_length_def)

lemma set_compression_ok: "buffer_ok m b \<Longrightarrow> n \<le> eb_end b \<Longrightarrow> buffer_ok m (EventBuffer_set_compression b n)"
  by (simp add: buffer_ok_def EventBuffer_set_compression_def EventBuffer_assert_is_valid_def)

lemma allocate_ok:
  "buffer_ok m b \<Longrightarrow> \<not> eb_is_compressed b \<Longrightarrow> EventBuffer_allocate b n = (p, b') \<Longrightarrow> buffer_ok m b' \<and> \<not> eb_is_compressed b'"
  by (auto simp: buffer_ok_def EventBuffer_allocate_def EventBuffer_assert_is_valid_def Let_def
      EventBuffer_get_raw_length_def mod_add_right_eq [symmetric] split: if_splits)

lemma content_ok: "buffer_ok m b \<Longrightarrow> \<exists>bs. EventBuffer_content m b = Some bs \<and> length bs = eb_top b"
  by (auto simp: buffer_ok_def EventBuffer_content_def load_bytes_def EventBuffer_assert_is_valid_def)

lemma next_id:
  fixes i :: uint
  assumes "0 \<le> sint i" and "sint i < 2 ^ 31 - 1"
  shows "sint (i + 1) = sint i + 1"
proof -
  have "sint (i + 1) = signed_take_bit 31 (sint i + 1)" by (simp add: signed_take_bit_add sint_word_ariths(1))
  also have "\<dots> = sint i + 1" using assms by (intro signed_take_bit_int_eq_self) simp_all
  finally show ?thesis .
qed

lemma create_ok:
  assumes "EventBuffer_create usable n exact m = (b, m')" and "memory_ok m"
    and "0 \<le> sint (mem_last_id m)" and "sint (mem_last_id m) < 2 ^ 31 - 1" and "\<And>k. k \<le> usable k"
  shows "buffer_ok m' b" "memory_ok m'" "EventBuffer_get_length b = 0" "eb_owner b = 0" "eb_bottom b = mem_next m"
    "max MAX_EVENT_SIZE n \<le> EventBuffer_get_capacity b" "\<And>c. buffer_ok m c \<Longrightarrow> buffer_ok m' c \<and> eb_bottom c \<noteq> eb_bottom b"
proof -
  note id = next_id [OF assms(3,4)]
  define real where "real = (if exact then max MAX_EVENT_SIZE n else usable (max MAX_EVENT_SIZE n * jint_size) div jint_size)"
  have real: "max MAX_EVENT_SIZE n \<le> real"
    using div_le_mono [OF assms(5) [of "max MAX_EVENT_SIZE n * jint_size"], of jint_size] by (simp add: real_def)
  have eqs: "b = \<lparr>eb_bottom = mem_next m, eb_top = 0, eb_end = real * jint_size, eb_id = mem_last_id m + 1, eb_owner = 0,
      eb_sync = Sync_None, eb_is_compressed = False\<rparr>"
    "m' = m\<lparr>mem_last_id := mem_last_id m + 1, mem_block := (mem_block m)(mem_next m \<mapsto> replicate (real * jint_size) 0),
       mem_next := Suc (mem_next m)\<rparr>"
    using assms(1) by (auto simp: EventBuffer_create_def calloc_def Let_def real_def)
  show "buffer_ok m' b"
    using real assms(2,3) id by (simp add: eqs buffer_ok_def EventBuffer_assert_is_valid_def memory_ok_def
        EventBuffer_get_raw_length_def MAX_EVENT_SIZE_def)
  show "memory_ok m'" using assms(2) by (simp add: eqs memory_ok_def)
  show "EventBuffer_get_length b = 0" "eb_owner b = 0" "eb_bottom b = mem_next m" by (simp_all add: eqs EventBuffer_get_length_def)
  show "max MAX_EVENT_SIZE n \<le> EventBuffer_get_capacity b" using real by (simp add: eqs EventBuffer_get_capacity_def)
  show "buffer_ok m' c \<and> eb_bottom c \<noteq> eb_bottom b" if "buffer_ok m c" for c
    using that assms(2) by (auto simp: eqs buffer_ok_def memory_ok_def)
qed

end
