(* ===== verification/Bytes.thy ===== *)
theory Bytes
  imports Prelude
begin

text \<open>
  Machine integers in memory and in files: the little-endian byte sequences of the machine the
  virtual machine runs on, and which the analyzer selects with \<open>ByteOrder.LITTLE_ENDIAN\<close>.
\<close>

primrec le_bytes :: "nat \<Rightarrow> 'a::len word \<Rightarrow> byte list" where
  "le_bytes 0 w = []"
| "le_bytes (Suc n) w = ucast w # le_bytes n (drop_bit 8 w)"

primrec le_word :: "byte list \<Rightarrow> 'a::len word" where
  "le_word [] = 0"
| "le_word (b # bs) = ucast b OR push_bit 8 (le_word bs)"

abbreviation jint_bytes :: "uint \<Rightarrow> byte list" where
  "jint_bytes w \<equiv> le_bytes 4 w"

abbreviation jlong_bytes :: "u64 \<Rightarrow> byte list" where
  "jlong_bytes w \<equiv> le_bytes 8 w"

lemma length_le_bytes [simp]: "length (le_bytes n w) = n"
  by (induction n arbitrary: w) simp_all

lemma le_word_bytes: "le_word (le_bytes n w) = take_bit (8 * n) w" for w :: "'a::len word"
proof (induction n arbitrary: w)
  case 0
  then show ?case by simp
next
  case (Suc n)
  have "ucast (ucast w :: byte) OR push_bit 8 (take_bit (8 * n) (drop_bit 8 w)) = take_bit (8 * Suc n) w"
  proof (rule bit_word_eqI)
    fix i assume "i < LENGTH('a)"
    then show "bit (ucast (ucast w :: byte) OR push_bit 8 (take_bit (8 * n) (drop_bit 8 w))) i = bit (take_bit (8 * Suc n) w) i"
      by (cases "i < 8") (auto simp: bit_or_iff bit_ucast_iff bit_push_bit_iff bit_take_bit_iff bit_drop_bit_eq)
  qed
  then show ?case by (simp add: Suc.IH)
qed

lemma take_bit_word_eq: "LENGTH('a) \<le> n \<Longrightarrow> take_bit n w = w" for w :: "'a::len word"
  by (simp add: take_bit_word_eq_self)

lemma jint_roundtrip [simp]: "le_word (le_bytes 4 w) = w" for w :: uint
  by (simp add: le_word_bytes take_bit_word_eq)

lemma jlong_roundtrip [simp]: "le_word (le_bytes 8 w) = w" for w :: u64
  by (simp add: le_word_bytes take_bit_word_eq)

section \<open>Reading from a stream of bytes\<close>

text \<open>Readers consume a prefix of what is left; \<open>None\<close> is the end of the stream (an \<open>IOException\<close>).\<close>

definition read_bytes :: "nat \<Rightarrow> byte list \<Rightarrow> (byte list \<times> byte list) option" where
  "read_bytes n bs = (if n \<le> length bs then Some (take n bs, drop n bs) else None)"

definition read_jint :: "byte list \<Rightarrow> (uint \<times> byte list) option" where
  "read_jint bs = map_option (map_prod le_word id) (read_bytes 4 bs)"

definition read_jlong :: "byte list \<Rightarrow> (u64 \<times> byte list) option" where
  "read_jlong bs = map_option (map_prod le_word id) (read_bytes 8 bs)"

primrec read_jints :: "nat \<Rightarrow> byte list \<Rightarrow> (uint list \<times> byte list) option" where
  "read_jints 0 bs = Some ([], bs)"
| "read_jints (Suc n) bs = Option.bind (read_jint bs) (\<lambda>(v, bs). map_option (map_prod (Cons v) id) (read_jints n bs))"

named_theorems stream_simps \<open>reading what was just written\<close>

lemma read_bytes_append [stream_simps]: "length xs = n \<Longrightarrow> read_bytes n (xs @ rest) = Some (xs, rest)"
  by (auto simp: read_bytes_def)

lemma read_jint_append [stream_simps]: "read_jint (jint_bytes w @ rest) = Some (w, rest)"
  by (simp add: read_jint_def read_bytes_append)

lemma read_jlong_append [stream_simps]: "read_jlong (jlong_bytes w @ rest) = Some (w, rest)"
  by (simp add: read_jlong_def read_bytes_append)

lemma read_jints_append [stream_simps]: "length ws = n \<Longrightarrow> read_jints n (concat (map jint_bytes ws) @ rest) = Some (ws, rest)"
  by (induction ws arbitrary: n) (auto simp: read_jint_append)

lemma read_bytes_length: "read_bytes n bs = Some (xs, rest) \<Longrightarrow> length xs = n \<and> length bs = n + length rest"
  by (auto simp: read_bytes_def split: if_splits)

lemma read_jint_length: "read_jint bs = Some (v, rest) \<Longrightarrow> length bs = 4 + length rest"
  by (auto simp: read_jint_def dest!: read_bytes_length)

lemma read_jlong_length: "read_jlong bs = Some (v, rest) \<Longrightarrow> length bs = 8 + length rest"
  by (auto simp: read_jlong_def dest!: read_bytes_length)

end
