(* ===== verification/TraceWriter.thy ===== *)
theory TraceWriter
  imports Complex_Main EventBuffer Bytes
begin

text \<open>
  Writing trace files: \<open>AllocationTracingIO.cpp\<close> (a file with an identification header that can be
  rotated), and \<open>EventsWriter.cpp\<close>, which writes event buffers.  The disk maps file names to contents;
  the writer holds the name of its open file.  \<open>None\<close> stands for a failed \<open>guarantee\<close> or the use of a
  \<open>FILE*\<close> that is \<open>NULL\<close>.  \<open>fopen\<close>, \<open>fwrite\<close>, \<open>fflush\<close> and \<open>fclose\<close> succeed: the virtual machine stops
  when they fail.  The monitor makes every operation atomic.
\<close>

section \<open>Files with a header\<close>

record AllocationTracingIO =
  io_path_to_file :: string
  io_max_files :: nat
  io_cur_file_index :: nat
  io_total_bytes_written :: nat
  io_file :: "string option"
  io_disk :: "string \<Rightarrow> byte list option"

definition FILE_TYPE_SYMBOLS :: uint where
  "FILE_TYPE_SYMBOLS = 0"

definition FILE_TYPE_TRACE :: uint where
  "FILE_TYPE_TRACE = 1"

definition FILE_TYPE_CLASS_DEFINITIONS :: uint where
  "FILE_TYPE_CLASS_DEFINITIONS = 2"

definition MAGIC :: uint where
  "MAGIC = 0xC0FFEE"

text \<open>\<open>init_header\<close> fills the header that all files of a run share with random words, once.\<close>

definition AllocationTracingIO_init_header :: "uint list \<Rightarrow> (nat \<Rightarrow> uint) \<Rightarrow> uint list" where
  "AllocationTracingIO_init_header identification_header rand =
    (if length identification_header = 0 then map rand [0..<42] else identification_header)"

definition AllocationTracingIO_create ::
    "string \<Rightarrow> nat \<Rightarrow> (string \<Rightarrow> byte list option) \<Rightarrow> AllocationTracingIO" where
  "AllocationTracingIO_create path_to_file max_files disk =
    \<lparr>io_path_to_file = path_to_file, io_max_files = max 1 max_files, io_cur_file_index = 0, io_total_bytes_written = 0,
     io_file = None, io_disk = disk\<rparr>"

text \<open>The decimal digits \<open>printf\<close> prints.\<close>

fun decimal :: "nat \<Rightarrow> string" where
  "decimal n = (if n < 10 then [char_of (48 + n)] else decimal (n div 10) @ [char_of (48 + n mod 10)])"

declare decimal.simps [simp del]

definition AllocationTracingIO_get_file_name :: "AllocationTracingIO \<Rightarrow> nat \<Rightarrow> string" where
  "AllocationTracingIO_get_file_name io index =
    (if io_max_files io > 1 then io_path_to_file io @ ''_'' @ decimal index else io_path_to_file io)"

definition AllocationTracingIO_write :: "AllocationTracingIO \<Rightarrow> byte list \<Rightarrow> AllocationTracingIO option" where
  "AllocationTracingIO_write io data =
    Option.bind (io_file io) (\<lambda>name. Option.bind (io_disk io name) (\<lambda>content.
      Some (io\<lparr>io_disk := (io_disk io)(name \<mapsto> content @ data),
               io_total_bytes_written := io_total_bytes_written io + length data\<rparr>)))"

text \<open>The virtual functions \<open>get_file_type\<close> and \<open>write_header\<close> of the subclass are arguments.\<close>

definition AllocationTracingIO_write_global_header ::
    "uint list \<Rightarrow> uint \<Rightarrow> (AllocationTracingIO \<Rightarrow> AllocationTracingIO option) \<Rightarrow> AllocationTracingIO \<Rightarrow> AllocationTracingIO option" where
  "AllocationTracingIO_write_global_header identification_header file_type write_header io =
    Option.bind (AllocationTracingIO_write io (jint_bytes MAGIC)) (\<lambda>io.
    Option.bind (AllocationTracingIO_write io (jint_bytes (of_nat (length identification_header)))) (\<lambda>io.
    Option.bind (AllocationTracingIO_write io (concat (map jint_bytes identification_header))) (\<lambda>io.
    Option.bind (AllocationTracingIO_write io (jint_bytes file_type)) write_header)))"

text \<open>The argument \<open>time\<close> is what \<open>time(NULL)\<close> returns.\<close>

definition AllocationTracingIO_create_file ::
    "uint list \<Rightarrow> uint \<Rightarrow> (AllocationTracingIO \<Rightarrow> AllocationTracingIO option) \<Rightarrow> nat \<Rightarrow> AllocationTracingIO
      \<Rightarrow> AllocationTracingIO option" where
  "AllocationTracingIO_create_file identification_header file_type write_header time io =
    (let file_name = AllocationTracingIO_get_file_name io (io_cur_file_index io mod io_max_files io);
         fileName = file_name @ ''_'' @ decimal time
     in AllocationTracingIO_write_global_header identification_header file_type write_header
          (io\<lparr>io_file := Some fileName, io_disk := (io_disk io)(fileName \<mapsto> []), io_total_bytes_written := 0\<rparr>))"

definition AllocationTracingIO_flush :: "AllocationTracingIO \<Rightarrow> AllocationTracingIO option" where
  "AllocationTracingIO_flush io = (if io_file io = None then None else Some io)"

definition AllocationTracingIO_close :: "AllocationTracingIO \<Rightarrow> AllocationTracingIO option" where
  "AllocationTracingIO_close io = (if io_file io = None then None else Some (io\<lparr>io_file := None\<rparr>))"

definition AllocationTracingIO_reset ::
    "uint list \<Rightarrow> uint \<Rightarrow> (AllocationTracingIO \<Rightarrow> AllocationTracingIO option) \<Rightarrow> nat \<Rightarrow> AllocationTracingIO
      \<Rightarrow> AllocationTracingIO option" where
  "AllocationTracingIO_reset identification_header file_type write_header time io =
    Option.bind (AllocationTracingIO_close io) (\<lambda>io.
      AllocationTracingIO_create_file identification_header file_type write_header time
        (io\<lparr>io_cur_file_index := io_cur_file_index io + 1\<rparr>))"

section \<open>Writing event buffers\<close>

text \<open>The number of files; the deviation is a \<open>double\<close> of the command line, here a rational number.\<close>

definition EventsWriter_max_files :: "nat \<Rightarrow> int \<Rightarrow> rat \<Rightarrow> nat" where
  "EventsWriter_max_files TraceObjectsMaxTraceSize TraceObjectsMaxTraceFileCount TraceObjectsTraceSizeMaxDeviation =
    (if TraceObjectsMaxTraceSize > 0
     then if TraceObjectsMaxTraceFileCount > 0 then nat TraceObjectsMaxTraceFileCount
          else nat (max 1 \<lfloor>1 / TraceObjectsTraceSizeMaxDeviation\<rfloor>)
     else 1)"

definition EventsWriter_write_header :: "AllocationTracingIO \<Rightarrow> AllocationTracingIO option" where
  "EventsWriter_write_header io = AllocationTracingIO_write io (jint_bytes (of_nat (io_cur_file_index io)))"

definition EventsWriter_get_file_type :: uint where
  "EventsWriter_get_file_type = FILE_TYPE_TRACE"

definition EventsWriter_create ::
    "uint list \<Rightarrow> string \<Rightarrow> nat \<Rightarrow> (string \<Rightarrow> byte list option) \<Rightarrow> nat \<Rightarrow> AllocationTracingIO option" where
  "EventsWriter_create identification_header path max_files disk time =
    AllocationTracingIO_create_file identification_header EventsWriter_get_file_type EventsWriter_write_header time
      (AllocationTracingIO_create path max_files disk)"

definition EventsWriter_reset :: "uint list \<Rightarrow> nat \<Rightarrow> AllocationTracingIO \<Rightarrow> AllocationTracingIO option" where
  "EventsWriter_reset identification_header time io =
    AllocationTracingIO_reset identification_header EventsWriter_get_file_type EventsWriter_write_header time io"

fun sync_code :: "EventBufferSyncLevel \<Rightarrow> uint" where
  "sync_code Sync_None = 0"
| "sync_code Sync_Ensure_Order = 1"
| "sync_code Sync_Full = 2"

definition EventsWriter_metadata :: "nat \<Rightarrow> bool \<Rightarrow> EventBufferSyncLevel \<Rightarrow> uint" where
  "EventsWriter_metadata len compressed sync =
    of_nat len OR push_bit 31 (if compressed then 1 else 0) OR push_bit 29 (sync_code sync)"

definition EventsWriter_write_buffer ::
    "bool \<Rightarrow> memory \<Rightarrow> EventBuffer \<Rightarrow> AllocationTracingIO \<Rightarrow> (EventBuffer \<times> AllocationTracingIO) option" where
  "EventsWriter_write_buffer TraceObjectsEagerFlush m local_buffer io =
    (let compressed = EventBuffer_is_compressed local_buffer;
         len = EventBuffer_get_raw_length local_buffer;
         metadata = EventsWriter_metadata len compressed (eb_sync local_buffer);
         owner = EventBuffer_get_owner local_buffer
     in Option.bind (load_bytes m (EventBuffer_get_data local_buffer) 0 len) (\<lambda>buffer.
        Option.bind (AllocationTracingIO_write io (jlong_bytes (of_nat owner))) (\<lambda>io.
        Option.bind (AllocationTracingIO_write io (jint_bytes metadata)) (\<lambda>io.
        Option.bind (AllocationTracingIO_write io buffer) (\<lambda>io.
        Option.bind (if TraceObjectsEagerFlush then AllocationTracingIO_flush io else Some io) (\<lambda>io.
          Some (EventBuffer_reset local_buffer, io)))))))"

section \<open>What is in the open file\<close>

definition open_content :: "AllocationTracingIO \<Rightarrow> byte list option" where
  "open_content io = Option.bind (io_file io) (io_disk io)"

lemma write_content:
  "open_content io = Some bs \<Longrightarrow> \<exists>io'. AllocationTracingIO_write io data = Some io' \<and> open_content io' = Some (bs @ data)
    \<and> io_total_bytes_written io' = io_total_bytes_written io + length data \<and> io_cur_file_index io' = io_cur_file_index io
    \<and> io_file io' = io_file io \<and> io_max_files io' = io_max_files io \<and> io_path_to_file io' = io_path_to_file io
    \<and> (\<forall>n. io_file io \<noteq> Some n \<longrightarrow> io_disk io' n = io_disk io n)"
  by (auto simp: open_content_def AllocationTracingIO_write_def split: Option.bind_splits)

definition trace_header :: "uint list \<Rightarrow> nat \<Rightarrow> byte list" where
  "trace_header h i = jint_bytes MAGIC @ jint_bytes (of_nat (length h)) @ concat (map jint_bytes h)
     @ jint_bytes FILE_TYPE_TRACE @ jint_bytes (of_nat i)"

definition trace_record :: "nat \<Rightarrow> bool \<Rightarrow> EventBufferSyncLevel \<Rightarrow> byte list \<Rightarrow> byte list" where
  "trace_record owner compressed sync data =
     jlong_bytes (of_nat owner) @ jint_bytes (EventsWriter_metadata (length data) compressed sync) @ data"

end
