(* ===== verification/VarInt.thy ===== *)
theory VarInt
  imports Prelude
begin

unbundle bit_operations_syntax

text \<open>
  The variable-width integer coding of \<open>prims/VarInt.hpp\<close> (with \<open>BITWISE_COMPRESSION\<close>, as the
  header defines it) and the reader of the trace analyzer (\<open>Decompressor.java\<close>,
  \<open>BitwiseVarIntReader\<close>).  A writer emits bytes through a one-byte buffer; an emitted value has
  the current width, and the all-ones value is a marker that widens the width by one.  The bytes a
  call of the C++ code stores at its \<open>cursor\<close> are the byte list it returns here; the returned
  \<open>size_t\<close> of the code is the length of that list.  Reading is from a byte list and a cursor
  position; \<open>None\<close> is a read past the end of the array (undefined in C++, an exception in Java).
\<close>

section \<open>Writer\<close>

record VarIntWriter =
  vw_width :: nat
  vw_fill_level :: nat
  vw_buffer :: byte

definition VarIntWriter_init :: VarIntWriter where
  "VarIntWriter_init = \<lparr>vw_width = 8, vw_fill_level = 0, vw_buffer = 0\<rparr>"

text \<open>
  The body of the \<open>do \<dots> while(bits > 0)\<close> loop: the bytes stored, the writer and the bits that
  are left.  The test \<open>bits' < bits\<close> in the loop makes the recursion well-founded; it holds
  whenever \<open>fill_level \<le> 8\<close>, which every operation preserves.
\<close>

definition VarIntWriter_write0_body ::
  "VarIntWriter \<Rightarrow> uint \<Rightarrow> nat \<Rightarrow> byte list \<times> VarIntWriter \<times> nat" where
  "VarIntWriter_write0_body w v bits =
    (let (out, fill_level, buffer) =
           (if vw_fill_level w = 8 then ([vw_buffer w], 0, 0)
            else ([], vw_fill_level w, vw_buffer w));
         bits_to_write = min (8 - fill_level) bits;
         value_mask = (push_bit bits_to_write 1 - 1 :: uint);
         value_to_write = (ucast (drop_bit (bits - bits_to_write) v AND value_mask) :: byte);
         location = 8 - fill_level - bits_to_write;
         value_in_place = push_bit location value_to_write
     in (out,
         w\<lparr>vw_buffer := buffer OR value_in_place, vw_fill_level := fill_level + bits_to_write\<rparr>,
         bits - bits_to_write))"

function VarIntWriter_write0 :: "VarIntWriter \<Rightarrow> uint \<Rightarrow> nat \<Rightarrow> byte list \<times> VarIntWriter" where
  "VarIntWriter_write0 w v bits =
    (case VarIntWriter_write0_body w v bits of (out, w', bits') \<Rightarrow>
       if 0 < bits' \<and> bits' < bits
       then (case VarIntWriter_write0 w' v bits' of (rest, w'') \<Rightarrow> (out @ rest, w''))
       else (out, w'))"
  by pat_completeness auto
termination
  by (relation "measure (\<lambda>(w, v, bits). bits)") auto

declare VarIntWriter_write0.simps [simp del]

definition VarIntWriter_expand :: "VarIntWriter \<Rightarrow> byte list \<times> VarIntWriter" where
  "VarIntWriter_expand w =
    (let marker = push_bit (vw_width w) 1 - 1
     in VarIntWriter_write0 (w\<lparr>vw_width := Suc (vw_width w)\<rparr>) marker (vw_width w))"

text \<open>
  The \<open>while\<close> loop of \<open>write\<close>.  For a width of 32 or more the shift \<open>1u << width\<close> is
  undefined in C++; the loop of the model stops there.
\<close>

lemma VarIntWriter_write0_width:
  "vw_width (snd (VarIntWriter_write0 w v bits)) = vw_width w"
  by (induction w v bits rule: VarIntWriter_write0.induct)
    (subst VarIntWriter_write0.simps,
      auto simp: VarIntWriter_write0_body_def Let_def split: prod.splits if_splits)

lemma VarIntWriter_expand_width [simp]:
  "vw_width (snd (VarIntWriter_expand w)) = Suc (vw_width w)"
  by (simp add: VarIntWriter_expand_def Let_def VarIntWriter_write0_width)

function VarIntWriter_write :: "VarIntWriter \<Rightarrow> uint \<Rightarrow> byte list \<times> VarIntWriter" where
  "VarIntWriter_write w value =
    (if push_bit (vw_width w) 1 - 1 - 1 \<le> value \<and> vw_width w < 32
     then (let (out, w') = VarIntWriter_expand w;
               (rest, w'') = VarIntWriter_write w' value
           in (out @ rest, w''))
     else VarIntWriter_write0 w value (vw_width w))"
  by pat_completeness auto
termination
proof (relation "measure (\<lambda>(w, v). 32 - vw_width w)")
  show "wf (measure (\<lambda>(w, v :: uint). 32 - vw_width w))" by simp
next
  fix w :: VarIntWriter and v :: uint and x xa y
  assume le: "push_bit (vw_width w) 1 - 1 - 1 \<le> v \<and> vw_width w < 32"
    and "x = VarIntWriter_expand w" and "(xa, y) = x"
  then have "vw_width y = Suc (vw_width w)"
    by (metis VarIntWriter_expand_width snd_conv)
  with le show "((y, v), w, v) \<in> measure (\<lambda>(w, v). 32 - vw_width w)" by auto
qed

declare VarIntWriter_write.simps [simp del]

definition VarIntWriter_flush :: "VarIntWriter \<Rightarrow> byte list \<times> VarIntWriter" where
  "VarIntWriter_flush w =
    (let (out1, w1) = VarIntWriter_expand w;
         (out2, w2) = VarIntWriter_write0 w1 0 (vw_width w1)
     in (out1 @ out2 @ [vw_buffer w2], w2))"

section \<open>Readers\<close>

text \<open>\<open>VarIntReader\<close> of \<open>VarInt.hpp\<close>; \<open>pos\<close> is the index of \<open>*cursor\<close>.\<close>

record VarIntReader =
  vr_width :: nat
  vr_in_byte_offset :: nat

definition VarIntReader_init :: VarIntReader where
  "VarIntReader_init = \<lparr>vr_width = 8, vr_in_byte_offset = 0\<rparr>"

definition VarIntReader_read0_body ::
  "byte list \<Rightarrow> nat \<Rightarrow> VarIntReader \<Rightarrow> uint \<Rightarrow> nat
    \<Rightarrow> (nat \<times> VarIntReader \<times> uint \<times> nat) option" where
  "VarIntReader_read0_body src pos r v bits =
    (let (in_byte_offset, cursor) =
           (if vr_in_byte_offset r = 8 then (0, Suc pos) else (vr_in_byte_offset r, pos));
         bits_to_read = min (8 - in_byte_offset) bits;
         value_part_mask = (push_bit bits_to_read 1 - 1 :: byte)
     in if cursor < length src then
          (let value_part_in_place = src ! cursor;
               value_part =
                 drop_bit (8 - in_byte_offset - bits_to_read) value_part_in_place
                 AND value_part_mask
           in Some (cursor, r\<lparr>vr_in_byte_offset := in_byte_offset + bits_to_read\<rparr>,
                    v OR push_bit (bits - bits_to_read) (ucast value_part),
                    bits - bits_to_read))
        else None)"

function VarIntReader_read0 ::
  "byte list \<Rightarrow> nat \<Rightarrow> VarIntReader \<Rightarrow> uint \<Rightarrow> nat \<Rightarrow> (nat \<times> VarIntReader \<times> uint) option" where
  "VarIntReader_read0 src pos r v bits =
    (case VarIntReader_read0_body src pos r v bits of
       None \<Rightarrow> None
     | Some (cursor, r', v', bits') \<Rightarrow>
         if 0 < bits' \<and> bits' < bits then VarIntReader_read0 src cursor r' v' bits'
         else Some (cursor, r', v'))"
  by pat_completeness auto
termination
  by (relation "measure (\<lambda>(src, pos, r, v, bits). bits)") auto

declare VarIntReader_read0.simps [simp del]

partial_function (option) VarIntReader_read ::
  "byte list \<Rightarrow> nat \<Rightarrow> VarIntReader \<Rightarrow> (nat \<times> VarIntReader \<times> uint) option" where
  "VarIntReader_read src pos r =
    Option.bind (VarIntReader_read0 src pos r 0 (vr_width r))
      (\<lambda>(cursor, r', value).
         if value = push_bit (vr_width r) 1 - 1
         then VarIntReader_read src cursor (r'\<lparr>vr_width := Suc (vr_width r)\<rparr>)
         else Some (cursor, r', value))"

text \<open>
  \<open>BitwiseVarIntReader\<close> of \<open>Decompressor.java\<close>.  The reader fetches a byte into \<open>b\<close> when its
  offset is 8; \<open>jr_pos\<close> is the position of the \<open>ByteBuffer\<close>.  Java's \<open>int\<close> results are the
  integer read or \<open>-1\<close> at the end marker, a widened zero.
\<close>

record BitwiseVarIntReader =
  jr_pos :: nat
  jr_width :: nat
  jr_in_byte_offset :: nat
  jr_b :: byte

definition BitwiseVarIntReader_init :: BitwiseVarIntReader where
  "BitwiseVarIntReader_init = \<lparr>jr_pos = 0, jr_width = 8, jr_in_byte_offset = 8, jr_b = 0\<rparr>"

definition BitwiseVarIntReader_fetch ::
  "byte list \<Rightarrow> BitwiseVarIntReader \<Rightarrow> BitwiseVarIntReader option" where
  "BitwiseVarIntReader_fetch src r =
    (if jr_in_byte_offset r = 8 then
       (if jr_pos r < length src
        then Some (r\<lparr>jr_in_byte_offset := 0, jr_b := src ! jr_pos r, jr_pos := Suc (jr_pos r)\<rparr>)
        else None)
     else Some r)"

definition BitwiseVarIntReader_read_body ::
  "byte list \<Rightarrow> BitwiseVarIntReader \<Rightarrow> uint \<Rightarrow> nat
    \<Rightarrow> (BitwiseVarIntReader \<times> uint \<times> nat) option" where
  "BitwiseVarIntReader_read_body src r v bits =
    (case BitwiseVarIntReader_fetch src r of
       None \<Rightarrow> None
     | Some r1 \<Rightarrow>
        (let bits_to_read = min (8 - jr_in_byte_offset r1) bits;
             value_part_mask = (push_bit bits_to_read 1 - 1 :: byte);
             value_part =
               drop_bit (8 - jr_in_byte_offset r1 - bits_to_read) (jr_b r1) AND value_part_mask
         in Some (r1\<lparr>jr_in_byte_offset := jr_in_byte_offset r1 + bits_to_read\<rparr>,
                  v OR push_bit (bits - bits_to_read) (ucast value_part),
                  bits - bits_to_read)))"

function BitwiseVarIntReader_read ::
  "byte list \<Rightarrow> BitwiseVarIntReader \<Rightarrow> uint \<Rightarrow> nat \<Rightarrow> (BitwiseVarIntReader \<times> uint) option" where
  "BitwiseVarIntReader_read src r v bits =
    (case BitwiseVarIntReader_read_body src r v bits of
       None \<Rightarrow> None
     | Some (r', v', bits') \<Rightarrow>
         if 0 < bits' \<and> bits' < bits then BitwiseVarIntReader_read src r' v' bits'
         else Some (r', v'))"
  by pat_completeness auto
termination
  by (relation "measure (\<lambda>(src, r, v, bits). bits)") auto

declare BitwiseVarIntReader_read.simps [simp del]

partial_function (option) BitwiseVarIntReader_next ::
  "byte list \<Rightarrow> BitwiseVarIntReader \<Rightarrow> (BitwiseVarIntReader \<times> int) option" where
  "BitwiseVarIntReader_next src r =
    Option.bind (BitwiseVarIntReader_read src r 0 (jr_width r))
      (\<lambda>(r1, value).
         if value = push_bit (jr_width r) 1 - 1
         then Option.bind (BitwiseVarIntReader_next src (r1\<lparr>jr_width := Suc (jr_width r)\<rparr>))
                (\<lambda>(r2, value2). if value2 = 0 then Some (r2, -1) else Some (r2, value2))
         else Some (r1, uint value))"

section \<open>The bits a writer emits\<close>

definition writer_bits :: "VarIntWriter \<Rightarrow> bool list" where
  "writer_bits w = take (vw_fill_level w) (byte_bits (vw_buffer w))"

definition wf_writer :: "VarIntWriter \<Rightarrow> bool" where
  "wf_writer w \<longleftrightarrow> vw_fill_level w \<le> 8 \<and> (\<forall>i < 8 - vw_fill_level w. \<not> bit (vw_buffer w) i)"

text \<open>
  The bits that stand for a value at a given width, and the width afterwards: an all-ones marker
  for every widening, then the value.
\<close>

function code_bits :: "nat \<Rightarrow> uint \<Rightarrow> bool list" where
  "code_bits w v = (if w < 32 \<and> 2 ^ w - 2 \<le> unat v then replicate w True @ code_bits (Suc w) v
                    else word_bits w v)"
  by pat_completeness auto
termination
  by (relation "measure (\<lambda>(w, v). 32 - w)") auto

function code_width :: "nat \<Rightarrow> uint \<Rightarrow> nat" where
  "code_width w v = (if w < 32 \<and> 2 ^ w - 2 \<le> unat v then code_width (Suc w) v else w)"
  by pat_completeness auto
termination
  by (relation "measure (\<lambda>(w, v). 32 - w)") auto

declare code_bits.simps [simp del] code_width.simps [simp del]

lemma byte_append_bits:
  fixes buf x :: byte
  assumes "f + k \<le> 8" and "\<And>i. i < 8 - f \<Longrightarrow> \<not> bit buf i" and "\<And>i. k \<le> i \<Longrightarrow> \<not> bit x i"
  shows "take (f + k) (byte_bits (buf OR push_bit (8 - f - k) x))
       = take f (byte_bits buf) @ word_bits k x"
proof (rule nth_equalityI)
  show "length (take (f + k) (byte_bits (buf OR push_bit (8 - f - k) x)))
      = length (take f (byte_bits buf) @ word_bits k x)"
    using assms(1) by simp
next
  fix i assume "i < length (take (f + k) (byte_bits (buf OR push_bit (8 - f - k) x)))"
  then have i: "i < f + k" using assms(1) by simp
  show "take (f + k) (byte_bits (buf OR push_bit (8 - f - k) x)) ! i
      = (take f (byte_bits buf) @ word_bits k x) ! i"
  proof (cases "i < f")
    case True
    have "\<not> bit x (7 - i - (8 - f - k))"
      using True assms(1) by (intro assms(3)) simp
    with True i assms(1) show ?thesis
      by (auto simp: nth_append bit_or_iff bit_push_bit_iff)
  next
    case False
    then have "\<not> bit buf (7 - i)"
      using i assms(1) by (intro assms(2)) simp
    moreover have "7 - i - (8 - f - k) = k - 1 - (i - f)"
      using False i assms(1) by simp
    ultimately show ?thesis
      using False i assms(1) by (auto simp: nth_append bit_or_iff bit_push_bit_iff)
  qed
qed

lemma VarIntWriter_write0_body_bits:
  assumes "wf_writer w" and "0 < bits" and "VarIntWriter_write0_body w v bits = (out, w', bits')"
  shows "wf_writer w' \<and> 0 < vw_fill_level w' \<and> bits' < bits
    \<and> bytes_bits out @ writer_bits w' @ word_bits bits' v = writer_bits w @ word_bits bits v"
proof -
  define f where "f = (if vw_fill_level w = 8 then 0 else vw_fill_level w)"
  define buf where "buf = (if vw_fill_level w = 8 then 0 else vw_buffer w)"
  define o1 where "o1 = (if vw_fill_level w = 8 then [vw_buffer w] else [])"
  define k where "k = min (8 - f) bits"
  define x :: byte where "x = ucast (drop_bit (bits - k) v AND (push_bit k 1 - 1))"
  have f: "f < 8" "\<And>i. i < 8 - f \<Longrightarrow> \<not> bit buf i"
    using assms(1) by (auto simp: f_def buf_def wf_writer_def)
  have k: "0 < k" "k \<le> bits" "f + k \<le> 8"
    using f(1) assms(2) by (auto simp: k_def)
  have x: "\<And>i. k \<le> i \<Longrightarrow> \<not> bit x i"
    by (auto simp: x_def bit_and_iff bit_mask_word bit_unsigned_iff simp del: push_bit_of_1)
  have xk: "word_bits k x = word_bits k (drop_bit (bits - k) v)"
    using k by (intro word_bits_cong)
      (auto simp: x_def bit_and_iff bit_mask_word bit_unsigned_iff simp del: push_bit_of_1)
  have start: "writer_bits w = bytes_bits o1 @ take f (byte_bits buf)"
    by (auto simp: o1_def f_def buf_def writer_bits_def)
  have "(out, w', bits') =
    (o1, w\<lparr>vw_buffer := buf OR push_bit (8 - f - k) x, vw_fill_level := f + k\<rparr>, bits - k)"
    unfolding assms(3) [symmetric] VarIntWriter_write0_body_def f_def buf_def o1_def k_def x_def
    by (simp add: Let_def)
  then have res: "out = o1" "bits' = bits - k"
    "w' = w\<lparr>vw_buffer := buf OR push_bit (8 - f - k) x, vw_fill_level := f + k\<rparr>" by simp_all
  have "wf_writer w'" "writer_bits w' = take f (byte_bits buf) @ word_bits k x"
    using byte_append_bits [OF k(3) f(2) x] f x k
    by (auto simp: res wf_writer_def writer_bits_def bit_or_iff bit_push_bit_iff)
  with k start xk res show ?thesis
    by (simp add: word_bits_split [of k bits v])
qed

lemma VarIntWriter_write0_bits:
  assumes "wf_writer w" and "0 < bits" and "VarIntWriter_write0 w v bits = (out, w')"
  shows "wf_writer w' \<and> 0 < vw_fill_level w'
    \<and> bytes_bits out @ writer_bits w' = writer_bits w @ word_bits bits v"
  using assms
proof (induction w v bits arbitrary: out w' rule: VarIntWriter_write0.induct)
  case (1 w v bits)
  obtain o1 w1 bits1 where body: "VarIntWriter_write0_body w v bits = (o1, w1, bits1)"
    by (cases "VarIntWriter_write0_body w v bits")
  note step = VarIntWriter_write0_body_bits [OF "1.prems"(1,2) body]
  show ?case
  proof (cases "0 < bits1")
    case False
    with body step "1.prems"(3) show ?thesis
      by (subst (asm) VarIntWriter_write0.simps) auto
  next
    case True
    then obtain rest where r: "VarIntWriter_write0 w1 v bits1 = (rest, w')" "out = o1 @ rest"
      using body step "1.prems"(3)
      by (subst (asm) (2) VarIntWriter_write0.simps) (auto split: prod.splits)
    from "1.IH" [OF body [symmetric] refl _ _ _ r(1)] step True
    have "wf_writer w' \<and> 0 < vw_fill_level w'
      \<and> bytes_bits rest @ writer_bits w' = writer_bits w1 @ word_bits bits1 v"
      by simp
    with r step show ?thesis by simp
  qed
qed

lemma word_bits_mask: "n \<le> 32 \<Longrightarrow> word_bits n (push_bit n 1 - 1 :: uint) = replicate n True"
  by (rule nth_equalityI) (auto simp: bit_mask_word simp del: push_bit_of_1)

lemma VarIntWriter_expand_bits:
  assumes "wf_writer w" and "0 < vw_width w" and "vw_width w \<le> 32"
    and "VarIntWriter_expand w = (out, w')"
  shows "wf_writer w' \<and> 0 < vw_fill_level w' \<and> vw_width w' = Suc (vw_width w)
    \<and> bytes_bits out @ writer_bits w' = writer_bits w @ replicate (vw_width w) True"
proof -
  have "VarIntWriter_write0 (w\<lparr>vw_width := Suc (vw_width w)\<rparr>) (push_bit (vw_width w) 1 - 1)
      (vw_width w) = (out, w')"
    using assms(4) by (simp add: VarIntWriter_expand_def Let_def)
  moreover have "wf_writer (w\<lparr>vw_width := Suc (vw_width w)\<rparr>)"
    using assms(1) by (simp add: wf_writer_def)
  ultimately have "wf_writer w' \<and> 0 < vw_fill_level w'
    \<and> bytes_bits out @ writer_bits w' = writer_bits (w\<lparr>vw_width := Suc (vw_width w)\<rparr>)
        @ word_bits (vw_width w) (push_bit (vw_width w) 1 - 1 :: uint)"
    using VarIntWriter_write0_bits assms(2) by blast
  moreover have "vw_width w' = Suc (vw_width w)"
    using VarIntWriter_expand_width [of w] assms(4) by simp
  ultimately show ?thesis
    using assms(3) by (simp add: writer_bits_def word_bits_mask del: push_bit_of_1)
qed

lemma limit_le_iff:
  "2 \<le> w \<Longrightarrow> w < 32 \<Longrightarrow> push_bit w 1 - 1 - 1 \<le> (v :: uint) \<longleftrightarrow> 2 ^ w - 2 \<le> unat v"
proof -
  assume w: "2 \<le> w" "w < 32"
  then have "(2::nat) ^ 2 \<le> 2 ^ w" by (intro power_increasing) simp_all
  then have "unat (push_bit w 1 - 1 - 1 :: uint) = 2 ^ w - 2"
    using w unat_mask_word [of w, where 'a = 32]
    by (subst unat_sub) (auto simp: word_le_nat_alt simp del: push_bit_of_1)
  then show ?thesis by (simp add: word_le_nat_alt del: push_bit_of_1)
qed

lemma VarIntWriter_write_bits:
  assumes "wf_writer w" and "2 \<le> vw_width w" and "vw_width w < 32" and "unat v + 2 < 2 ^ 31"
    and "VarIntWriter_write w v = (out, w')"
  shows "wf_writer w' \<and> 0 < vw_fill_level w' \<and> vw_width w' = code_width (vw_width w) v
    \<and> bytes_bits out @ writer_bits w' = writer_bits w @ code_bits (vw_width w) v"
  using assms
proof (induction w v arbitrary: out w' rule: VarIntWriter_write.induct)
  case (1 w v)
  note iff = limit_le_iff [OF "1.prems"(2,3), of v]
  show ?case
  proof (cases "2 ^ vw_width w - 2 \<le> unat v")
    case True
    have "(2::nat) ^ vw_width w < 2 ^ 31" using True "1.prems"(4) by linarith
    then have lt: "vw_width w < 31" by (rule power_less_imp_less_exp [rotated]) simp
    obtain o1 w1 where e: "VarIntWriter_expand w = (o1, w1)" by (cases "VarIntWriter_expand w")
    note ex = VarIntWriter_expand_bits [OF "1.prems"(1) _ _ e]
    obtain rest where r: "VarIntWriter_write w1 v = (rest, w')" "out = o1 @ rest"
      using True iff "1.prems"(3,5) e
      by (subst (asm) (2) VarIntWriter_write.simps) (auto split: prod.splits simp del: push_bit_of_1)
    have "wf_writer w' \<and> 0 < vw_fill_level w' \<and> vw_width w' = code_width (vw_width w1) v
      \<and> bytes_bits rest @ writer_bits w' = writer_bits w1 @ code_bits (vw_width w1) v"
      by (rule "1.IH" [OF _ e [symmetric] refl _ _ _ _ r(1)])
        (use True iff ex lt "1.prems" in \<open>auto simp del: push_bit_of_1\<close>)
    with ex True lt r "1.prems"(2,3) show ?thesis
      by (simp add: code_width.simps [of "vw_width w"] code_bits.simps [of "vw_width w"])
  next
    case False
    with iff "1.prems"(5) have w0: "VarIntWriter_write0 w v (vw_width w) = (out, w')"
      by (subst (asm) VarIntWriter_write.simps) (auto simp del: push_bit_of_1)
    have "vw_width w' = vw_width w"
      using VarIntWriter_write0_width [of w v "vw_width w"] w0 by simp
    with False VarIntWriter_write0_bits [OF "1.prems"(1) _ w0] "1.prems"(2) show ?thesis
      by (simp add: code_width.simps [of "vw_width w"] code_bits.simps [of "vw_width w"])
  qed
qed

lemma VarIntWriter_flush_bits:
  assumes "wf_writer w" and "0 < vw_width w" and "vw_width w < 32"
    and "VarIntWriter_flush w = (out, w')"
  shows "\<exists>pad. length pad < 8 \<and>
    bytes_bits out = writer_bits w @ replicate (vw_width w) True
      @ replicate (Suc (vw_width w)) False @ pad"
proof -
  obtain o1 w1 where e: "VarIntWriter_expand w = (o1, w1)" by (cases "VarIntWriter_expand w")
  obtain o2 where z: "VarIntWriter_write0 w1 0 (vw_width w1) = (o2, w')"
    and out: "out = o1 @ o2 @ [vw_buffer w']"
    using assms(4) e by (auto simp: VarIntWriter_flush_def split: prod.splits)
  note ex = VarIntWriter_expand_bits [OF assms(1,2) _ e]
  have zb: "wf_writer w' \<and> 0 < vw_fill_level w'
    \<and> bytes_bits o2 @ writer_bits w' = writer_bits w1 @ word_bits (vw_width w1) (0 :: uint)"
    by (rule VarIntWriter_write0_bits [OF _ _ z]) (use ex assms in auto)
  define pad where "pad = drop (vw_fill_level w') (byte_bits (vw_buffer w'))"
  have "byte_bits (vw_buffer w') = writer_bits w' @ pad"
    by (simp add: writer_bits_def pad_def)
  moreover have "word_bits (vw_width w1) (0 :: uint) = replicate (Suc (vw_width w)) False"
    by (rule nth_equalityI) (use ex assms(3) in \<open>auto simp del: replicate.simps\<close>)
  ultimately have "bytes_bits out
      = bytes_bits o1 @ (bytes_bits o2 @ writer_bits w') @ pad"
    and "bytes_bits o2 @ writer_bits w' = writer_bits w1 @ replicate (Suc (vw_width w)) False"
    using zb by (simp_all add: out)
  then have "bytes_bits out
      = (bytes_bits o1 @ writer_bits w1) @ replicate (Suc (vw_width w)) False @ pad"
    by (simp del: replicate.simps)
  with ex assms(3) have "bytes_bits out
      = writer_bits w @ replicate (vw_width w) True @ replicate (Suc (vw_width w)) False @ pad"
    by (simp del: replicate.simps)
  moreover have "length pad < 8" using zb by (simp add: pad_def)
  ultimately show ?thesis by blast
qed

section \<open>Reading a bit stream\<close>

text \<open>
  The contract the two bit readers share: the loop unfolds to its body, and the body copies a
  non-empty run of stream bits into the value.
\<close>

locale bit_reader =
  fixes src :: "byte list"
    and body :: "'s \<Rightarrow> uint \<Rightarrow> nat \<Rightarrow> ('s \<times> uint \<times> nat) option"
    and loop :: "'s \<Rightarrow> uint \<Rightarrow> nat \<Rightarrow> ('s \<times> uint) option"
    and wf_reader :: "'s \<Rightarrow> bool"
    and bitpos :: "'s \<Rightarrow> nat"
    and rwidth :: "'s \<Rightarrow> nat"
  assumes loop_unfold: "loop s v n =
      (case body s v n of None \<Rightarrow> None
       | Some (s', v', n') \<Rightarrow> if 0 < n' \<and> n' < n then loop s' v' n' else Some (s', v'))"
    and body_law: "wf_reader s \<Longrightarrow> 0 < n \<Longrightarrow> n \<le> 32 \<Longrightarrow> bitpos s + n \<le> 8 * length src \<Longrightarrow>
      \<exists>s' v' n'. body s v n = Some (s', v', n') \<and> wf_reader s' \<and> rwidth s' = rwidth s \<and> n' < n
        \<and> bitpos s' + n' = bitpos s + n
        \<and> (\<forall>i. bit v' i \<longleftrightarrow> bit v i \<or> n' \<le> i \<and> i < n \<and> bytes_bits src ! (bitpos s + (n - 1 - i)))"
begin

lemma loop_law:
  "wf_reader s \<Longrightarrow> 0 < n \<Longrightarrow> n \<le> 32 \<Longrightarrow> bitpos s + n \<le> 8 * length src \<Longrightarrow>
    \<exists>s' v'. loop s v n = Some (s', v') \<and> wf_reader s' \<and> rwidth s' = rwidth s
      \<and> bitpos s' = bitpos s + n
      \<and> (\<forall>i. bit v' i \<longleftrightarrow> bit v i \<or> i < n \<and> bytes_bits src ! (bitpos s + (n - 1 - i)))"
proof (induction n arbitrary: s v rule: less_induct)
  case (less n)
  obtain s1 v1 n1 where b: "body s v n = Some (s1, v1, n1)" "wf_reader s1" "rwidth s1 = rwidth s"
      "n1 < n" "bitpos s1 + n1 = bitpos s + n"
    and v1: "\<And>i. bit v1 i \<longleftrightarrow>
      bit v i \<or> n1 \<le> i \<and> i < n \<and> bytes_bits src ! (bitpos s + (n - 1 - i))"
    using body_law [OF less.prems] by blast
  show ?case
  proof (cases "n1 = 0")
    case True
    with b v1 show ?thesis by (subst loop_unfold) auto
  next
    case False
    then have "\<exists>s' v'. loop s1 v1 n1 = Some (s', v') \<and> wf_reader s' \<and> rwidth s' = rwidth s1
      \<and> bitpos s' = bitpos s1 + n1
      \<and> (\<forall>i. bit v' i \<longleftrightarrow> bit v1 i \<or> i < n1 \<and> bytes_bits src ! (bitpos s1 + (n1 - 1 - i)))"
      using b less.prems by (intro less.IH) simp_all
    then obtain s2 v2 where r: "loop s1 v1 n1 = Some (s2, v2)" "wf_reader s2" "rwidth s2 = rwidth s1"
        "bitpos s2 = bitpos s1 + n1"
      and v2: "\<And>i. bit v2 i \<longleftrightarrow> bit v1 i \<or> i < n1 \<and> bytes_bits src ! (bitpos s1 + (n1 - 1 - i))"
      by blast
    have "loop s v n = Some (s2, v2)"
      using b r False by (subst loop_unfold) simp
    moreover have "bitpos s1 + (n1 - 1 - i) = bitpos s + (n - 1 - i)" if "i < n1" for i
      using that b by simp
    then have "bit v2 i \<longleftrightarrow> bit v i \<or> i < n \<and> bytes_bits src ! (bitpos s + (n - 1 - i))" for i
      using v1 [of i] v2 [of i] b(4) by (cases "i < n1") auto
    ultimately show ?thesis using r b by auto
  qed
qed

text \<open>Reading \<open>n\<close> bits where the stream holds the bits of a value that fits.\<close>

lemma loop_reads:
  assumes "wf_reader s" and "0 < n" and "n \<le> 32" and "bitpos s = length pre"
    and "bytes_bits src = pre @ word_bits n v @ post" and "unat v < 2 ^ n"
  shows "\<exists>s'. loop s 0 n = Some (s', v) \<and> wf_reader s' \<and> rwidth s' = rwidth s
    \<and> bitpos s' = length (pre @ word_bits n v)"
proof -
  have "bitpos s + n \<le> length (bytes_bits src)" unfolding assms(5) using assms(4) by simp
  then have "bitpos s + n \<le> 8 * length src" by simp
  from loop_law [OF assms(1-3) this, of 0] obtain s' v'
    where r: "loop s 0 n = Some (s', v')" "wf_reader s'" "rwidth s' = rwidth s" "bitpos s' = bitpos s + n"
      and v': "\<And>i. bit v' i \<longleftrightarrow> i < n \<and> bytes_bits src ! (bitpos s + (n - 1 - i))"
    by auto
  have stream: "bytes_bits src ! (bitpos s + (n - 1 - i)) = bit v i" if "i < n" for i
    unfolding assms(4,5) nth_append_length_plus using that by (simp add: nth_append)
  have "v' = v"
  proof (rule bit_word_eqI)
    fix i
    show "bit v' i = bit v i"
    proof (cases "i < n")
      case True
      with v' stream show ?thesis by simp
    next
      case False
      have "unat v < 2 ^ i"
        using False assms(6) by (meson less_le_trans linorder_not_less one_le_numeral power_increasing)
      then have "\<not> bit v i" by (metis bit_take_bit_iff less_irrefl unsigned_take_bit_eq word_unat_eq_iff take_bit_nat_eq_self)
      with False v' show ?thesis by simp
    qed
  qed
  with r assms(4) show ?thesis by auto
qed

end

section \<open>The C++ reader\<close>

definition wf_vr :: "nat \<times> VarIntReader \<Rightarrow> bool" where
  "wf_vr s \<longleftrightarrow> vr_in_byte_offset (snd s) \<le> 8"

definition vr_bitpos :: "nat \<times> VarIntReader \<Rightarrow> nat" where
  "vr_bitpos s = 8 * fst s + vr_in_byte_offset (snd s)"

lemma bit_value_part:
  fixes b :: byte and v :: uint
  assumes "k \<le> n" and "n \<le> 32" and "off + k \<le> 8"
  shows "bit (v OR push_bit (n - k) (ucast (drop_bit (8 - off - k) b AND (push_bit k 1 - 1)))) i
    \<longleftrightarrow> bit v i \<or> n - k \<le> i \<and> i < n \<and> bit b (7 - (off + (n - 1 - i)))"
proof (cases "n - k \<le> i \<and> i < n")
  case True
  then have "8 - off - k + (i - (n - k)) = 7 - (off + (n - 1 - i))"
    using assms by linarith
  with True assms show ?thesis
    by (auto simp: bit_or_iff bit_push_bit_iff bit_unsigned_iff bit_and_iff bit_drop_bit_eq
        bit_mask_word simp del: push_bit_of_1)
next
  case False
  with assms show ?thesis
    by (auto simp: bit_or_iff bit_push_bit_iff bit_unsigned_iff bit_and_iff bit_drop_bit_eq
        bit_mask_word simp del: push_bit_of_1)
qed

lemma VarIntReader_read0_body_law:
  assumes "vr_in_byte_offset r \<le> 8" and "0 < n" and "n \<le> 32"
    and "8 * pos + vr_in_byte_offset r + n \<le> 8 * length src"
  shows "\<exists>pos' r' v' n'. VarIntReader_read0_body src pos r v n = Some (pos', r', v', n')
    \<and> vr_in_byte_offset r' \<le> 8 \<and> vr_width r' = vr_width r \<and> n' < n
    \<and> 8 * pos' + vr_in_byte_offset r' + n' = 8 * pos + vr_in_byte_offset r + n
    \<and> (\<forall>i. bit v' i \<longleftrightarrow> bit v i
        \<or> n' \<le> i \<and> i < n \<and> bytes_bits src ! (8 * pos + vr_in_byte_offset r + (n - 1 - i)))"
proof -
  define off where "off = (if vr_in_byte_offset r = 8 then 0 else vr_in_byte_offset r)"
  define c where "c = (if vr_in_byte_offset r = 8 then Suc pos else pos)"
  define k where "k = min (8 - off) n"
  define v' where "v' = (v OR push_bit (n - k) (ucast (drop_bit (8 - off - k) (src ! c) AND (push_bit k 1 - 1))))"
  have off: "off < 8" "8 * c + off = 8 * pos + vr_in_byte_offset r"
    using assms(1) by (auto simp: off_def c_def)
  have c: "c < length src" using assms(2,4) off by linarith
  have k: "0 < k" "k \<le> n" "off + k \<le> 8" using off assms(2) by (auto simp: k_def)
  have "VarIntReader_read0_body src pos r v n
      = Some (c, r\<lparr>vr_in_byte_offset := off + k\<rparr>, v', n - k)"
    unfolding VarIntReader_read0_body_def v'_def k_def off_def c_def
    using c by (auto simp: c_def Let_def split: if_splits)
  moreover have "bit v' i \<longleftrightarrow> bit v i \<or>
      n - k \<le> i \<and> i < n \<and> bytes_bits src ! (8 * pos + vr_in_byte_offset r + (n - 1 - i))" for i
  proof (cases "n - k \<le> i \<and> i < n")
    case True
    then have "off + (n - 1 - i) < 8" using k by linarith
    then have "bytes_bits src ! (8 * c + (off + (n - 1 - i))) = bit (src ! c) (7 - (off + (n - 1 - i)))"
      by (rule nth_bytes_bits [OF c])
    with True bit_value_part [OF k(2) assms(3) k(3)] show ?thesis
      by (simp add: v'_def off(2) [symmetric] add.assoc del: push_bit_of_1)
  next
    case False
    with bit_value_part [OF k(2) assms(3) k(3)] show ?thesis
      by (auto simp: v'_def simp del: push_bit_of_1)
  qed
  ultimately show ?thesis using k off by auto
qed

lemma BitwiseVarIntReader_read_body_law:
  assumes "jr_in_byte_offset r \<le> 8" and "jr_pos r \<le> length src"
    and "jr_in_byte_offset r < 8 \<Longrightarrow> 0 < jr_pos r \<and> jr_b r = src ! (jr_pos r - 1)"
    and "0 < n" and "n \<le> 32"
    and "8 * jr_pos r + jr_in_byte_offset r - 8 + n \<le> 8 * length src"
  shows "\<exists>r' v' n'. BitwiseVarIntReader_read_body src r v n = Some (r', v', n')
    \<and> jr_in_byte_offset r' \<le> 8 \<and> jr_pos r' \<le> length src
    \<and> (0 < jr_pos r' \<and> jr_b r' = src ! (jr_pos r' - 1))
    \<and> jr_width r' = jr_width r \<and> n' < n
    \<and> 8 * jr_pos r' + jr_in_byte_offset r' - 8 + n' = 8 * jr_pos r + jr_in_byte_offset r - 8 + n
    \<and> (\<forall>i. bit v' i \<longleftrightarrow> bit v i
        \<or> n' \<le> i \<and> i < n \<and> bytes_bits src ! (8 * jr_pos r + jr_in_byte_offset r - 8 + (n - 1 - i)))"
proof -
  obtain r1 where fetch: "BitwiseVarIntReader_fetch src r = Some r1"
    and r1: "jr_in_byte_offset r1 < 8" "jr_pos r1 \<le> length src" "0 < jr_pos r1"
      "jr_b r1 = src ! (jr_pos r1 - 1)" "jr_width r1 = jr_width r"
      "8 * jr_pos r1 + jr_in_byte_offset r1 - 8 = 8 * jr_pos r + jr_in_byte_offset r - 8"
    using assms by (cases "jr_in_byte_offset r = 8") (auto simp: BitwiseVarIntReader_fetch_def)
  define off where "off = jr_in_byte_offset r1"
  define c where "c = jr_pos r1 - 1"
  define k where "k = min (8 - off) n"
  define v' where "v' = (v OR push_bit (n - k) (ucast (drop_bit (8 - off - k) (src ! c) AND (push_bit k 1 - 1))))"
  have off: "off < 8" "8 * c + off = 8 * jr_pos r + jr_in_byte_offset r - 8"
    using r1 by (auto simp: off_def c_def)
  have c: "c < length src" using r1 by (simp add: c_def)
  have k: "0 < k" "k \<le> n" "off + k \<le> 8" using off assms(4) by (auto simp: k_def)
  have "BitwiseVarIntReader_read_body src r v n
      = Some (r1\<lparr>jr_in_byte_offset := off + k\<rparr>, v', n - k)"
    unfolding BitwiseVarIntReader_read_body_def v'_def k_def off_def c_def
    using fetch r1 by (simp add: Let_def)
  moreover have "bit v' i \<longleftrightarrow> bit v i \<or>
      n - k \<le> i \<and> i < n \<and> bytes_bits src ! (8 * jr_pos r + jr_in_byte_offset r - 8 + (n - 1 - i))" for i
  proof (cases "n - k \<le> i \<and> i < n")
    case True
    then have "off + (n - 1 - i) < 8" using k by linarith
    then have "bytes_bits src ! (8 * c + (off + (n - 1 - i))) = bit (src ! c) (7 - (off + (n - 1 - i)))"
      by (rule nth_bytes_bits [OF c])
    with True bit_value_part [OF k(2) assms(5) k(3)] show ?thesis
      by (simp add: v'_def off(2) [symmetric] add.assoc del: push_bit_of_1)
  next
    case False
    with bit_value_part [OF k(2) assms(5) k(3)] show ?thesis
      by (auto simp: v'_def simp del: push_bit_of_1)
  qed
  ultimately show ?thesis using k off r1 by (auto simp: off_def)
qed

section \<open>Reading variable-width values\<close>

primrec codes_bits :: "nat \<Rightarrow> uint list \<Rightarrow> bool list" where
  "codes_bits w [] = []"
| "codes_bits w (v # vs) = code_bits w v @ codes_bits (code_width w v) vs"

primrec codes_width :: "nat \<Rightarrow> uint list \<Rightarrow> nat" where
  "codes_width w [] = w"
| "codes_width w (v # vs) = codes_width (code_width w v) vs"

primrec read_n :: "('s \<Rightarrow> ('s \<times> 'v) option) \<Rightarrow> nat \<Rightarrow> 's \<Rightarrow> ('s \<times> 'v list) option" where
  "read_n nxt 0 s = Some (s, [])"
| "read_n nxt (Suc n) s = Option.bind (nxt s) (\<lambda>(s1, v).
    Option.bind (read_n nxt n s1) (\<lambda>(s2, vs). Some (s2, v # vs)))"

lemma code_width_bounds:
  "unat v + 2 < 2 ^ k \<Longrightarrow> w \<le> k \<Longrightarrow> w \<le> code_width w v \<and> code_width w v \<le> k"
proof (induction w v rule: code_width.induct)
  case (1 w v)
  show ?case
  proof (cases "w < 32 \<and> 2 ^ w - 2 \<le> unat v")
    case True
    have "(2::nat) ^ w < 2 ^ k" using True 1(2) by linarith
    then have "w < k" by (rule power_less_imp_less_exp [rotated]) simp
    with 1 True show ?thesis by (auto simp: code_width.simps [of w])
  next
    case False
    with 1 show ?thesis by (auto simp: code_width.simps [of w])
  qed
qed

text \<open>
  A reader of variable-width values on top of a bit reader: it re-reads with one more bit after
  an all-ones value; \<open>finish\<close> is what a reader does with a value it read after widening.
\<close>

locale varint_reader = bit_reader src body loop wf_reader bitpos rwidth
  for src and body :: "'s \<Rightarrow> uint \<Rightarrow> nat \<Rightarrow> ('s \<times> uint \<times> nat) option"
    and loop wf_reader bitpos rwidth +
  fixes set_width :: "'s \<Rightarrow> nat \<Rightarrow> 's"
    and ret :: "uint \<Rightarrow> 'v"
    and finish :: "'s \<times> 'v \<Rightarrow> ('s \<times> 'v) option"
    and next_value :: "'s \<Rightarrow> ('s \<times> 'v) option"
  assumes set_width_law: "wf_reader (set_width s n) = wf_reader s"
      "bitpos (set_width s n) = bitpos s" "rwidth (set_width s n) = n"
    and finish_value: "v \<noteq> 0 \<Longrightarrow> finish (s, ret v) = Some (s, ret v)"
    and next_unfold: "next_value s = Option.bind (loop s 0 (rwidth s)) (\<lambda>(s1, v).
        if v = push_bit (rwidth s) 1 - 1
        then Option.bind (next_value (set_width s1 (Suc (rwidth s)))) finish
        else Some (s1, ret v))"
begin

lemma next_plain:
  assumes "wf_reader s" and "0 < rwidth s" and "rwidth s < 32" and "bitpos s = length pre"
    and "bytes_bits src = pre @ word_bits (rwidth s) v @ post" and "unat v < 2 ^ rwidth s - 1"
  shows "\<exists>s'. next_value s = Some (s', ret v) \<and> wf_reader s' \<and> rwidth s' = rwidth s
    \<and> bitpos s' = length (pre @ word_bits (rwidth s) v)"
proof -
  have "unat v < 2 ^ rwidth s" using assms(6) by simp
  from loop_reads [OF assms(1,2) less_imp_le [OF assms(3)] assms(4,5) this]
  obtain s' where s': "loop s 0 (rwidth s) = Some (s', v)" "wf_reader s'" "rwidth s' = rwidth s"
    "bitpos s' = length (pre @ word_bits (rwidth s) v)"
    by blast
  have "v \<noteq> push_bit (rwidth s) 1 - 1"
    using assms(6) unat_mask_word [of "rwidth s", where 'a = 32] assms(3) by auto
  with s' show ?thesis by (subst next_unfold) simp
qed

lemma next_marker:
  assumes "wf_reader s" and "0 < rwidth s" and "rwidth s < 32" and "bitpos s = length pre"
    and "bytes_bits src = pre @ replicate (rwidth s) True @ post"
  shows "\<exists>s'. next_value s = Option.bind (next_value s') finish \<and> wf_reader s'
    \<and> rwidth s' = Suc (rwidth s) \<and> bitpos s' = length (pre @ replicate (rwidth s) True)"
proof -
  let ?m = "push_bit (rwidth s) 1 - 1 :: uint"
  have m: "unat ?m < 2 ^ rwidth s"
    using unat_mask_word [of "rwidth s", where 'a = 32] assms(3) by simp
  have "bytes_bits src = pre @ word_bits (rwidth s) ?m @ post"
    using assms(3,5) word_bits_mask [of "rwidth s"] by simp
  from loop_reads [OF assms(1,2) less_imp_le [OF assms(3)] assms(4) this m]
  obtain s1 where "loop s 0 (rwidth s) = Some (s1, ?m)" "wf_reader s1" "rwidth s1 = rwidth s"
    "bitpos s1 = length (pre @ word_bits (rwidth s) ?m)"
    by blast
  then show ?thesis
    by (intro exI [of _ "set_width s1 (Suc (rwidth s))"], subst next_unfold)
      (simp add: set_width_law del: push_bit_of_1)
qed

lemma next_code:
  assumes "wf_reader s" and "2 \<le> rwidth s" and "rwidth s < 32" and "bitpos s = length pre"
    and "bytes_bits src = pre @ code_bits (rwidth s) v @ post" and "unat v + 2 < 2 ^ 31"
  shows "\<exists>s'. next_value s = Some (s', ret v) \<and> wf_reader s' \<and> rwidth s' = code_width (rwidth s) v
    \<and> bitpos s' = length (pre @ code_bits (rwidth s) v)"
  using assms
proof (induction "32 - rwidth s" arbitrary: s pre rule: less_induct)
  case less
  show ?case
  proof (cases "2 ^ rwidth s - 2 \<le> unat v")
    case True
    have "(2::nat) ^ rwidth s < 2 ^ 31" using True less.prems(6) by linarith
    then have lt: "rwidth s < 31" by (rule power_less_imp_less_exp [rotated]) simp
    have eqs: "code_bits (rwidth s) v = replicate (rwidth s) True @ code_bits (Suc (rwidth s)) v"
      "code_width (rwidth s) v = code_width (Suc (rwidth s)) v"
      using True less.prems(3) by (simp_all add: code_bits.simps [of "rwidth s"] code_width.simps [of "rwidth s"])
    have pos: "0 < rwidth s" using less.prems(2) by simp
    have "bytes_bits src = pre @ replicate (rwidth s) True @ code_bits (Suc (rwidth s)) v @ post"
      using less.prems(5) eqs by simp
    from next_marker [OF less.prems(1) pos less.prems(3,4) this]
    obtain s1 where s1: "next_value s = Option.bind (next_value s1) finish" "wf_reader s1"
      "rwidth s1 = Suc (rwidth s)" "bitpos s1 = length (pre @ replicate (rwidth s) True)"
      by blast
    have "\<exists>s'. next_value s1 = Some (s', ret v) \<and> wf_reader s' \<and> rwidth s' = code_width (rwidth s1) v
      \<and> bitpos s' = length ((pre @ replicate (rwidth s) True) @ code_bits (rwidth s1) v)"
      using less.prems lt s1 eqs by (intro less.hyps) simp_all
    moreover have "(2::nat) ^ 2 \<le> 2 ^ rwidth s" using less.prems(2) by (intro power_increasing) simp_all
    then have "v \<noteq> 0" using True by auto
    ultimately show ?thesis using s1 eqs finish_value by auto
  next
    case False
    then have eqs: "code_bits (rwidth s) v = word_bits (rwidth s) v" "code_width (rwidth s) v = rwidth s"
      by (simp_all add: code_bits.simps [of "rwidth s"] code_width.simps [of "rwidth s"])
    show ?thesis
      using next_plain [OF less.prems(1) _ less.prems(3,4), of v post] less.prems(2,5) False eqs by auto
  qed
qed

lemma next_end:
  assumes "wf_reader s" and "0 < rwidth s" and "rwidth s < 31" and "bitpos s = length pre"
    and "bytes_bits src = pre @ replicate (rwidth s) True @ replicate (Suc (rwidth s)) False @ post"
  shows "\<exists>s'. next_value s = finish (s', ret 0)"
proof -
  have lt: "rwidth s < 32" using assms(3) by simp
  from next_marker [OF assms(1,2) lt assms(4,5)]
  obtain s1 where s1: "next_value s = Option.bind (next_value s1) finish" "wf_reader s1"
    "rwidth s1 = Suc (rwidth s)" "bitpos s1 = length (pre @ replicate (rwidth s) True)"
    by blast
  have z: "replicate (Suc (rwidth s)) False = word_bits (rwidth s1) (0 :: uint)"
    by (rule nth_equalityI) (simp_all add: s1(3) del: replicate.simps)
  have "bytes_bits src = (pre @ replicate (rwidth s) True) @ word_bits (rwidth s1) (0 :: uint) @ post"
    using assms(5) z by simp
  moreover have "unat (0 :: uint) < 2 ^ rwidth s1 - 1"
    using one_less_power [of "2 :: nat" "rwidth s1"] by (simp add: s1(3))
  ultimately obtain s2 where "next_value s1 = Some (s2, ret 0)"
    using next_plain [OF s1(2) _ _ s1(4)] s1(3) assms(3) by fastforce
  with s1(1) show ?thesis by auto
qed


lemma next_codes:
  assumes "wf_reader s" and "2 \<le> rwidth s" and "rwidth s < 32" and "bitpos s = length pre"
    and "bytes_bits src = pre @ codes_bits (rwidth s) vs @ post" and "\<forall>v \<in> set vs. unat v + 2 < 2 ^ 31"
  shows "\<exists>s'. read_n next_value (length vs) s = Some (s', map ret vs) \<and> wf_reader s'
    \<and> rwidth s' = codes_width (rwidth s) vs \<and> bitpos s' = length (pre @ codes_bits (rwidth s) vs)"
  using assms
proof (induction vs arbitrary: s pre)
  case Nil
  then show ?case by simp
next
  case (Cons v vs)
  have b: "bytes_bits src = pre @ code_bits (rwidth s) v
      @ (codes_bits (code_width (rwidth s) v) vs @ post)"
    using Cons.prems(5) by simp
  from next_code [OF Cons.prems(1-4) b] Cons.prems(6)
  obtain s1 where s1: "next_value s = Some (s1, ret v)" "wf_reader s1"
    "rwidth s1 = code_width (rwidth s) v" "bitpos s1 = length (pre @ code_bits (rwidth s) v)"
    by auto
  have "2 \<le> rwidth s1" "rwidth s1 < 32"
    using code_width_bounds [of v 31 "rwidth s"] Cons.prems s1 by auto
  then have "\<exists>s'. read_n next_value (length vs) s1 = Some (s', map ret vs) \<and> wf_reader s'
    \<and> rwidth s' = codes_width (rwidth s1) vs
    \<and> bitpos s' = length ((pre @ code_bits (rwidth s) v) @ codes_bits (rwidth s1) vs)"
    using Cons.prems s1 b by (intro Cons.IH) simp_all
  with s1 show ?case by auto
qed

end

interpretation cpp: varint_reader src
  "\<lambda>(pos, r) v n. map_option (\<lambda>(c, r', v', n'). ((c, r'), v', n')) (VarIntReader_read0_body src pos r v n)"
  "\<lambda>(pos, r) v n. map_option (\<lambda>(c, r', v'). ((c, r'), v')) (VarIntReader_read0 src pos r v n)"
  wf_vr vr_bitpos "\<lambda>s. vr_width (snd s)" "\<lambda>(pos, r) n. (pos, r\<lparr>vr_width := n\<rparr>)"
  "\<lambda>v. v" Some "\<lambda>(pos, r). map_option (\<lambda>(c, r', v). ((c, r'), v)) (VarIntReader_read src pos r)"
  for src
proof (unfold_locales, goal_cases)
  case (1 s v n)
  then show ?case
    by (subst VarIntReader_read0.simps) (auto split: option.splits prod.splits)
next
  case (2 s n v)
  then show ?case
    using VarIntReader_read0_body_law [of "snd s" n "fst s" src v]
    by (cases s) (fastforce simp: wf_vr_def vr_bitpos_def)
next
  case (7 s)
  then show ?case
    by (subst VarIntReader_read.simps)
      (auto split: option.splits prod.splits bind_splits simp: map_option_case)
qed (auto simp: wf_vr_def vr_bitpos_def)

definition wf_jr :: "byte list \<Rightarrow> BitwiseVarIntReader \<Rightarrow> bool" where
  "wf_jr src r \<longleftrightarrow> jr_in_byte_offset r \<le> 8 \<and> jr_pos r \<le> length src
    \<and> (jr_in_byte_offset r < 8 \<longrightarrow> 0 < jr_pos r \<and> jr_b r = src ! (jr_pos r - 1))"

definition jr_bitpos :: "BitwiseVarIntReader \<Rightarrow> nat" where
  "jr_bitpos r = 8 * jr_pos r + jr_in_byte_offset r - 8"

interpretation java: varint_reader src
  "BitwiseVarIntReader_read_body src" "BitwiseVarIntReader_read src"
  "wf_jr src" jr_bitpos jr_width "\<lambda>r n. r\<lparr>jr_width := n\<rparr>"
  "\<lambda>v. uint v" "\<lambda>(r, v). if v = 0 then Some (r, -1) else Some (r, v)" "BitwiseVarIntReader_next src"
  for src
proof (unfold_locales, goal_cases)
  case (1 s v n)
  then show ?case by (subst BitwiseVarIntReader_read.simps) simp
next
  case (2 s n v)
  then show ?case
    using BitwiseVarIntReader_read_body_law [of s src n v]
    by (fastforce simp: wf_jr_def jr_bitpos_def)
next
  case (6 v s)
  then show ?case by (simp add: uint_0_iff)
next
  case (7 s)
  then show ?case by (subst BitwiseVarIntReader_next.simps) (simp add: case_prod_unfold)
qed (auto simp: wf_jr_def jr_bitpos_def)

section \<open>Streams of values\<close>

text \<open>The stream of a sequence of values, closed by \<open>flush\<close>.\<close>

primrec VarIntWriter_write_all :: "VarIntWriter \<Rightarrow> uint list \<Rightarrow> byte list \<times> VarIntWriter" where
  "VarIntWriter_write_all w [] = ([], w)"
| "VarIntWriter_write_all w (v # vs) =
    (let (out, w1) = VarIntWriter_write w v; (rest, w2) = VarIntWriter_write_all w1 vs
     in (out @ rest, w2))"

definition VarIntWriter_stream :: "uint list \<Rightarrow> byte list" where
  "VarIntWriter_stream vs =
    (let (out, w) = VarIntWriter_write_all VarIntWriter_init vs in out @ fst (VarIntWriter_flush w))"

lemma VarIntWriter_write_all_bits:
  assumes "wf_writer w" and "2 \<le> vw_width w" and "vw_width w \<le> k" and "k \<le> 31"
    and "\<forall>v \<in> set vs. unat v + 2 < 2 ^ k"
    and "VarIntWriter_write_all w vs = (out, w')"
  shows "wf_writer w' \<and> 2 \<le> vw_width w' \<and> vw_width w' \<le> k \<and> vw_width w' = codes_width (vw_width w) vs
    \<and> bytes_bits out @ writer_bits w' = writer_bits w @ codes_bits (vw_width w) vs"
  using assms
proof (induction vs arbitrary: w out)
  case Nil
  then show ?case by simp
next
  case (Cons v vs)
  obtain o1 w1 where w1: "VarIntWriter_write w v = (o1, w1)" by (cases "VarIntWriter_write w v")
  then obtain o2 where w2: "VarIntWriter_write_all w1 vs = (o2, w')" and out: "out = o1 @ o2"
    using Cons.prems(6) by (auto split: prod.splits)
  have "unat v + 2 < 2 ^ k" using Cons.prems(5) by simp
  moreover have "(2::nat) ^ k \<le> 2 ^ 31" using Cons.prems(4) by (intro power_increasing) simp_all
  ultimately have v: "unat v + 2 < 2 ^ k" "unat v + 2 < 2 ^ 31" by linarith+
  have "vw_width w < 32" using Cons.prems(3,4) by simp
  note wr = VarIntWriter_write_bits [OF Cons.prems(1,2) this v(2) w1]
  have "wf_writer w' \<and> 2 \<le> vw_width w' \<and> vw_width w' \<le> k \<and> vw_width w' = codes_width (vw_width w1) vs
    \<and> bytes_bits o2 @ writer_bits w' = writer_bits w1 @ codes_bits (vw_width w1) vs"
    using Cons.prems wr w2 code_width_bounds [OF v(1) Cons.prems(3)] by (intro Cons.IH) auto
  with wr out show ?case by auto
qed

lemma VarIntWriter_stream_bits:
  assumes "\<forall>v \<in> set vs. unat v + 2 < 2 ^ k" and "8 \<le> k" and "k \<le> 30"
  obtains pad where "codes_width 8 vs \<le> k" and "2 \<le> codes_width 8 vs" and "length pad < 8" and
    "bytes_bits (VarIntWriter_stream vs) = codes_bits 8 vs @ replicate (codes_width 8 vs) True
      @ replicate (Suc (codes_width 8 vs)) False @ pad"
proof -
  obtain o1 w where w: "VarIntWriter_write_all VarIntWriter_init vs = (o1, w)" by (cases "VarIntWriter_write_all VarIntWriter_init vs")
  obtain o2 w2 where f: "VarIntWriter_flush w = (o2, w2)" by (cases "VarIntWriter_flush w")
  have wb: "wf_writer w \<and> 2 \<le> vw_width w \<and> vw_width w \<le> k \<and> vw_width w = codes_width (vw_width VarIntWriter_init) vs
    \<and> bytes_bits o1 @ writer_bits w = writer_bits VarIntWriter_init @ codes_bits (vw_width VarIntWriter_init) vs"
    using assms by (intro VarIntWriter_write_all_bits [OF _ _ _ _ _ w])
      (auto simp: VarIntWriter_init_def wf_writer_def)
  have "\<exists>pad. length pad < 8 \<and> bytes_bits o2 = writer_bits w @ replicate (vw_width w) True
      @ replicate (Suc (vw_width w)) False @ pad"
    using wb assms by (intro VarIntWriter_flush_bits [OF _ _ _ f]) auto
  then obtain pad where pad: "length pad < 8" "bytes_bits o2 = writer_bits w @ replicate (vw_width w) True
      @ replicate (Suc (vw_width w)) False @ pad" by blast
  have init: "vw_width VarIntWriter_init = 8" "writer_bits VarIntWriter_init = []"
    by (simp_all add: VarIntWriter_init_def writer_bits_def)
  have "bytes_bits (VarIntWriter_stream vs) = (bytes_bits o1 @ writer_bits w) @ replicate (vw_width w) True
      @ replicate (Suc (vw_width w)) False @ pad"
    using w f pad by (simp add: VarIntWriter_stream_def del: replicate.simps)
  with that pad wb init show ?thesis by simp
qed

lemma read_n_Suc_last:
  "read_n nxt n s = Some (s1, vs) \<Longrightarrow> nxt s1 = Some (s2, v) \<Longrightarrow>
    read_n nxt (Suc n) s = Some (s2, vs @ [v])"
proof (induction n arbitrary: s vs)
  case 0
  then show ?case by simp
next
  case (Suc n)
  then show ?case by (auto simp: bind_eq_Some_conv simp del: read_n.simps simp add: read_n.simps(2) [of nxt n] read_n.simps(2) [of nxt "Suc n"])
qed

lemma BitwiseVarIntReader_reads_stream:
  assumes "\<forall>v \<in> set vs. unat v + 2 < 2 ^ 30"
  shows "\<exists>r. read_n (BitwiseVarIntReader_next (VarIntWriter_stream vs)) (Suc (length vs))
    BitwiseVarIntReader_init = Some (r, map uint vs @ [-1])"
proof -
  let ?src = "VarIntWriter_stream vs" and ?r = BitwiseVarIntReader_init
  obtain pad where w: "codes_width 8 vs \<le> 30" "2 \<le> codes_width 8 vs" and b:
    "bytes_bits ?src = codes_bits 8 vs @ replicate (codes_width 8 vs) True
      @ replicate (Suc (codes_width 8 vs)) False @ pad"
    using VarIntWriter_stream_bits [OF assms] by auto
  have init: "wf_jr ?src ?r" "jr_width ?r = 8" "jr_bitpos ?r = length []"
    by (simp_all add: BitwiseVarIntReader_init_def wf_jr_def jr_bitpos_def)
  have b': "bytes_bits ?src = [] @ codes_bits (jr_width ?r) vs @ (replicate (codes_width 8 vs) True
      @ replicate (Suc (codes_width 8 vs)) False @ pad)"
    using b init(2) by simp
  have lim: "\<forall>v \<in> set vs. unat v + 2 < 2 ^ 31" using assms by force
  from java.next_codes [OF init(1) _ _ init(3) b' lim] init(2)
  obtain r1 where r1: "read_n (BitwiseVarIntReader_next ?src) (length vs) ?r = Some (r1, map uint vs)"
    "wf_jr ?src r1" "jr_width r1 = codes_width 8 vs" "jr_bitpos r1 = length (codes_bits 8 vs)"
    by auto
  have "\<exists>r2. BitwiseVarIntReader_next ?src r1
      = (case (r2, uint (0 :: uint)) of (r, v) \<Rightarrow> if v = 0 then Some (r, -1) else Some (r, v))"
    using b r1(3) w by (intro java.next_end [OF r1(2) _ _ r1(4)]) (simp_all del: replicate.simps)
  then obtain r2 where "BitwiseVarIntReader_next ?src r1 = Some (r2, -1)" by auto
  from read_n_Suc_last [OF r1(1) this] show ?thesis by (rule exI)
qed

lemma VarIntReader_reads_stream:
  assumes "\<forall>v \<in> set vs. unat v + 2 < 2 ^ 30"
  shows "\<exists>s. read_n (\<lambda>(pos, r). map_option (\<lambda>(c, r', v). ((c, r'), v)) (VarIntReader_read (VarIntWriter_stream vs) pos r))
     (Suc (length vs)) (0, VarIntReader_init) = Some (s, vs @ [0])"
proof -
  let ?src = "VarIntWriter_stream vs" and ?s = "(0, VarIntReader_init)"
  let ?next = "\<lambda>(pos, r). map_option (\<lambda>(c, r', v). ((c, r'), v)) (VarIntReader_read ?src pos r)"
  obtain pad where w: "codes_width 8 vs \<le> 30" "2 \<le> codes_width 8 vs" and b:
    "bytes_bits ?src = codes_bits 8 vs @ replicate (codes_width 8 vs) True
      @ replicate (Suc (codes_width 8 vs)) False @ pad"
    using VarIntWriter_stream_bits [OF assms] by auto
  have init: "wf_vr ?s" "vr_width (snd ?s) = 8" "vr_bitpos ?s = length []"
    by (simp_all add: VarIntReader_init_def wf_vr_def vr_bitpos_def)
  have b': "bytes_bits ?src = [] @ codes_bits (vr_width (snd ?s)) vs @ (replicate (codes_width 8 vs) True
      @ replicate (Suc (codes_width 8 vs)) False @ pad)"
    using b init(2) by simp
  have lim: "\<forall>v \<in> set vs. unat v + 2 < 2 ^ 31" using assms by force
  from cpp.next_codes [OF init(1) _ _ init(3) b' lim] init(2)
  obtain s1 where s1: "read_n ?next (length vs) ?s = Some (s1, vs)"
    "wf_vr s1" "vr_width (snd s1) = codes_width 8 vs" "vr_bitpos s1 = length (codes_bits 8 vs)"
    by auto
  have "\<exists>s2. ?next s1 = Some (s2, 0)"
    using b s1(3) w by (intro cpp.next_end [OF s1(2) _ _ s1(4)]) (simp_all del: replicate.simps)
  then obtain s2 where "?next s1 = Some (s2, 0)" by (rule exE)
  from read_n_Suc_last [OF s1(1) this] show ?thesis by (rule exI)
qed

section \<open>The size of a stream\<close>

lemma length_code_bits:
  "w \<le> 32 \<Longrightarrow> w \<le> code_width w v \<and> length (code_bits w v) = \<Sum>{w..<code_width w v} + code_width w v"
proof (induction w v rule: code_bits.induct)
  case (1 w v)
  show ?case
  proof (cases "w < 32 \<and> 2 ^ w - 2 \<le> unat v")
    case True
    then have "Suc w \<le> code_width (Suc w) v
        \<and> length (code_bits (Suc w) v) = \<Sum>{Suc w..<code_width (Suc w) v} + code_width (Suc w) v"
      using 1 by auto
    with True show ?thesis
      by (simp add: code_bits.simps [of w] code_width.simps [of w] sum.atLeast_Suc_lessThan)
  next
    case False
    then show ?thesis by (auto simp: code_bits.simps [of w] code_width.simps [of w])
  qed
qed

lemma length_codes_bits:
  assumes "\<forall>v \<in> set vs. unat v + 2 < 2 ^ k" and "w \<le> k" and "k \<le> 32"
  shows "w \<le> codes_width w vs \<and> codes_width w vs \<le> k
    \<and> length (codes_bits w vs) \<le> \<Sum>{w..<codes_width w vs} + length vs * k"
  using assms(1,2)
proof (induction vs arbitrary: w)
  case Nil
  then show ?case by simp
next
  case (Cons v vs)
  let ?w = "code_width w v" let ?w' = "codes_width ?w vs"
  have w: "w \<le> ?w" "?w \<le> k" using code_width_bounds [of v k w] Cons.prems by auto
  have l: "length (code_bits w v) = \<Sum>{w..<?w} + ?w"
    using length_code_bits [of w v] Cons.prems(2) assms(3) by simp
  have ih: "?w \<le> ?w' \<and> ?w' \<le> k \<and> length (codes_bits ?w vs) \<le> \<Sum>{?w..<?w'} + length vs * k"
    using Cons.IH [of ?w] Cons.prems w by simp
  have "\<Sum>{w..<?w} + \<Sum>{?w..<?w'} = \<Sum>{w..<?w'}"
    using w(1) ih by (intro sum.atLeastLessThan_concat) auto
  with l ih w show ?case by simp
qed

lemma VarIntWriter_write_all_append:
  "VarIntWriter_write_all w (us @ vs) =
    (let (out1, w1) = VarIntWriter_write_all w us; (out2, w2) = VarIntWriter_write_all w1 vs in (out1 @ out2, w2))"
  by (induction us arbitrary: w) (auto simp: Let_def split: prod.splits)

text \<open>
  The writer starts with 8 bits and widens to at most 15 for the indices of the compression, so
  that all its markers together are 8 + 9 + \<open>\<dots>\<close> + 14 = 77 bits long.
\<close>

lemma sum_markers: "8 \<le> w \<Longrightarrow> w' \<le> 15 \<Longrightarrow> \<Sum>{w..<w'} \<le> (77 :: nat)"
proof -
  assume "8 \<le> w" "w' \<le> 15"
  then have "\<Sum>{w..<w'} \<le> \<Sum>{8..<15::nat}" by (intro sum_mono2) auto
  then show ?thesis by (simp add: eval_nat_numeral)
qed

lemma VarIntWriter_write_all_length:
  assumes "wf_writer w" and "8 \<le> vw_width w" and "vw_width w \<le> 15"
    and "\<forall>v \<in> set vs. unat v + 2 < 2 ^ 15" and "VarIntWriter_write_all w vs = (out, w')"
  shows "wf_writer w' \<and> 8 \<le> vw_width w' \<and> vw_width w' \<le> 15
    \<and> 8 * length out \<le> length (writer_bits w) + 77 + 15 * length vs"
proof -
  have l: "vw_width w \<le> codes_width (vw_width w) vs \<and> codes_width (vw_width w) vs \<le> 15
    \<and> length (codes_bits (vw_width w) vs) \<le> \<Sum>{vw_width w..<codes_width (vw_width w) vs} + length vs * 15"
    using assms by (intro length_codes_bits) auto
  have b: "wf_writer w' \<and> 2 \<le> vw_width w' \<and> vw_width w' \<le> 15 \<and> vw_width w' = codes_width (vw_width w) vs
    \<and> bytes_bits out @ writer_bits w' = writer_bits w @ codes_bits (vw_width w) vs"
    using assms by (intro VarIntWriter_write_all_bits) auto
  then have "length (bytes_bits out @ writer_bits w') = length (writer_bits w @ codes_bits (vw_width w) vs)"
    by simp
  then have "8 * length out \<le> length (writer_bits w) + length (codes_bits (vw_width w) vs)" by simp
  with l b assms(2) sum_markers [OF assms(2), of "codes_width (vw_width w) vs"] show ?thesis by linarith
qed

lemma VarIntWriter_flush_length:
  assumes "wf_writer w" and "0 < vw_width w" and "vw_width w \<le> 15" and "VarIntWriter_flush w = (out, w')"
  shows "length out \<le> 5"
proof -
  obtain pad where "length pad < 8" and b: "bytes_bits out = writer_bits w @ replicate (vw_width w) True
      @ replicate (Suc (vw_width w)) False @ pad"
    using VarIntWriter_flush_bits [OF assms(1,2) _ assms(4)] assms(3) by auto
  moreover have "length (writer_bits w) \<le> 8" by (simp add: writer_bits_def)
  ultimately have "length (bytes_bits out) < 47" using assms(3) by (simp add: b del: length_bytes_bits)
  then show ?thesis by simp
qed

section \<open>Properties\<close>

text \<open>
  C16. Round trip of the index stream between the virtual machine and the analyzer: whatever
  values the C++ writer is given, each below 2 to the 30 minus 2, the Java reader gets back from
  the flushed stream exactly these values in this order, followed by the end of the stream (-1).
\<close>

theorem varint_java_roundtrip:
  assumes "\<forall>v \<in> set vs. unat v + 2 < 2 ^ 30"
  shows "\<exists>r. read_n (BitwiseVarIntReader_next (VarIntWriter_stream vs)) (Suc (length vs))
    BitwiseVarIntReader_init = Some (r, map uint vs @ [-1])"
  by (rule BitwiseVarIntReader_reads_stream [OF assms])

theorem varint_java_roundtrip_witness:
  "\<exists>r. read_n (BitwiseVarIntReader_next (VarIntWriter_stream [7, 300, 254, 70000])) (Suc (length [7, 300, 254, 70000 :: uint]))
    BitwiseVarIntReader_init = Some (r, [7, 300, 254, 70000, -1])"
  using varint_java_roundtrip [of "[7, 300, 254, 70000]"] by (simp del: read_n.simps)

text \<open>
  C22. The C++ reader gets back the written values as well, but it does not know the end marker: it
  returns a further value 0 for it.
\<close>

theorem varint_cpp_end_marker:
  assumes "\<forall>v \<in> set vs. unat v + 2 < 2 ^ 30"
  shows "\<exists>s. read_n (\<lambda>(pos, r). map_option (\<lambda>(c, r', v). ((c, r'), v)) (VarIntReader_read (VarIntWriter_stream vs) pos r))
     (Suc (length vs)) (0, VarIntReader_init) = Some (s, vs @ [0])"
  by (rule VarIntReader_reads_stream [OF assms])

theorem varint_cpp_end_marker_witness:
  "\<exists>s. read_n (\<lambda>(pos, r). map_option (\<lambda>(c, r', v). ((c, r'), v)) (VarIntReader_read (VarIntWriter_stream [7, 300]) pos r))
     (Suc (length [7, 300 :: uint])) (0, VarIntReader_init) = Some (s, [7, 300, 0])"
  using varint_cpp_end_marker [of "[7, 300]"] by (simp del: read_n.simps)

end
