(* ===== verification/Sequences.thy ===== *)
theory Sequences
  imports Prelude
begin

unbundle bit_operations_syntax

text \<open>
  \<open>prims/Sequence.hpp\<close>: the byte sequences that are the keys of the compression dictionaries, on
  a 64-bit machine.  A \<open>Sequence*\<close> is either a tagged word that holds up to seven bytes itself
  (\<open>SeqValue\<close>) or an object with its metadata length (a 15-bit field) and its array
  (\<open>SeqObj\<close>).  Whether an object's array is adjacent or relocated is where the bytes are stored
  and not part of the model; a relocated array is not written while the sequence is in use.
  \<open>operator&\<close> yields a value for a short sequence, so short sequences are always values.
\<close>

section \<open>Representation\<close>

datatype Sequence = SeqValue u64 | SeqObj nat "byte list"

text \<open>\<open>*((intptr_t*) array)\<close>: eight bytes, least significant first.\<close>

primrec load_word :: "byte list \<Rightarrow> u64" where
  "load_word [] = 0"
| "load_word (b # bs) = ucast b OR push_bit 8 (load_word bs)"

definition Sequence_can_be_value :: "nat \<Rightarrow> bool" where
  "Sequence_can_be_value len \<longleftrightarrow> len \<le> min (8 - 1) (2 ^ 7 - 1)"

definition Sequence_is_value :: "Sequence \<Rightarrow> bool" where
  "Sequence_is_value s \<longleftrightarrow> (case s of SeqValue w \<Rightarrow> w AND 1 \<noteq> 0 | SeqObj _ _ \<Rightarrow> False)"

definition Sequence_create_as_value :: "nat \<Rightarrow> byte list \<Rightarrow> Sequence" where
  "Sequence_create_as_value len array =
    SeqValue (push_bit (1 * 8) (load_word array AND (push_bit (len * 8) 1 - 1))
              OR push_bit 1 (of_nat len) OR 1)"

definition Sequence_create_as_obj :: "nat \<Rightarrow> byte list \<Rightarrow> Sequence" where
  "Sequence_create_as_obj len array = SeqObj (len mod 2 ^ 15) (take len array)"

definition Sequence_create :: "nat \<Rightarrow> byte list \<Rightarrow> Sequence" where
  "Sequence_create len array =
    (if Sequence_can_be_value len then Sequence_create_as_value len array
     else Sequence_create_as_obj len array)"

definition Sequence_create_empty :: Sequence where
  "Sequence_create_empty = Sequence_create 0 (replicate 8 0)"

primrec Sequence_get_length :: "Sequence \<Rightarrow> nat" where
  "Sequence_get_length (SeqValue w) = unat (drop_bit 1 (w AND 0xFF))"
| "Sequence_get_length (SeqObj len array) = len"

primrec Sequence_get :: "Sequence \<Rightarrow> nat \<Rightarrow> byte" where
  "Sequence_get (SeqValue w) index = ucast (drop_bit ((index + 1) * 8) w AND 0xFF)"
| "Sequence_get (SeqObj len array) index = array ! index"

text \<open>
  The macro \<open>get_array_of\<close>: the bytes of a value start at its second byte.  A value has seven of
  them; what lies behind is not part of the sequence.
\<close>

primrec Sequence_array :: "Sequence \<Rightarrow> byte list" where
  "Sequence_array (SeqValue w) = map (\<lambda>i. ucast (drop_bit ((i + 1) * 8) w)) [0..<7]"
| "Sequence_array (SeqObj len array) = array"

section \<open>Operations\<close>

definition Sequence_concat :: "Sequence \<Rightarrow> Sequence \<Rightarrow> Sequence" where
  "Sequence_concat s1 s2 =
    (let length1 = Sequence_get_length s1; length2 = Sequence_get_length s2
     in Sequence_create (length1 + length2)
          (take length1 (Sequence_array s1) @ take length2 (Sequence_array s2)))"

definition Sequence_trim :: "Sequence \<Rightarrow> nat \<Rightarrow> Sequence" where
  "Sequence_trim s new_length =
    Sequence_create (min (Sequence_get_length s) new_length) (Sequence_array s)"

definition Sequence_copy_to :: "Sequence \<Rightarrow> byte list \<times> nat" where
  "Sequence_copy_to s =
    (let len = Sequence_get_length s in (take len (Sequence_array s), len))"

primrec first_mismatch_from :: "nat \<Rightarrow> nat \<Rightarrow> byte list \<Rightarrow> byte list \<Rightarrow> nat" where
  "first_mismatch_from i 0 xs ys = i"
| "first_mismatch_from i (Suc n) xs ys =
    (if xs ! i \<noteq> ys ! i then i else first_mismatch_from (Suc i) n xs ys)"

definition Sequence_get_index_of_first_mismatch :: "Sequence \<Rightarrow> Sequence \<Rightarrow> nat" where
  "Sequence_get_index_of_first_mismatch s that =
    first_mismatch_from 0 (min (Sequence_get_length s) (Sequence_get_length that))
      (Sequence_array s) (Sequence_array that)"

definition Sequence_starts_with :: "Sequence \<Rightarrow> Sequence \<Rightarrow> bool" where
  "Sequence_starts_with s pre \<longleftrightarrow>
    Sequence_get_length pre \<le> Sequence_get_length s
    \<and> Sequence_get_index_of_first_mismatch pre s = Sequence_get_length pre"

text \<open>
  \<open>hash\<close> (without \<open>SEQUENCE_COMPLETE_HASH\<close>).  It loads eight bytes wherever the array is;
  \<open>junk\<close> are the bytes of memory behind the array.  The shift \<open>1 << (length * 8)\<close> for eight or
  more bytes is undefined in C++; the model takes the count modulo 64, as the x86-64 shift does.
\<close>

definition Sequence_hash :: "byte list \<Rightarrow> Sequence \<Rightarrow> uint" where
  "Sequence_hash junk s =
    (let len = Sequence_get_length s;
         big_hash = load_word (take 8 (Sequence_array s @ junk));
         mask = push_bit (len * 8 mod 64) 1 - 1;
         big_hash = big_hash AND mask;
         hash = ucast (big_hash XOR signed_drop_bit 32 big_hash);
         hash = hash XOR of_nat len;
         some_big_prime_number = push_bit 19 1 - 1
     in hash * some_big_prime_number)"

text \<open>\<open>memcmp\<close> of \<open>n\<close> bytes: the difference of the first bytes that differ.\<close>

fun memcmp :: "byte list \<Rightarrow> byte list \<Rightarrow> nat \<Rightarrow> int" where
  "memcmp (x # xs) (y # ys) (Suc n) =
    (if x = y then memcmp xs ys n else uint x - uint y)"
| "memcmp _ _ _ = 0"

definition Sequence_equals :: "Sequence \<Rightarrow> Sequence \<Rightarrow> bool" where
  "Sequence_equals s that =
    (if s = that then True
     else if Sequence_get_length s = Sequence_get_length that then
       memcmp (Sequence_array s) (Sequence_array that) (Sequence_get_length s) = 0
     else False)"

definition Sequence_compare :: "Sequence \<Rightarrow> Sequence \<Rightarrow> int" where
  "Sequence_compare s that =
    (if s = that then 0
     else (let this_length = Sequence_get_length s; that_length = Sequence_get_length that;
               diff = memcmp (Sequence_array s) (Sequence_array that) (min this_length that_length)
           in if diff \<noteq> 0 then diff else int this_length - int that_length))"

definition Sequence_compareByLength :: "Sequence \<Rightarrow> Sequence \<Rightarrow> int" where
  "Sequence_compareByLength s that =
    (if s = that then 0
     else (let this_length = Sequence_get_length s; that_length = Sequence_get_length that;
               diff = int this_length - int that_length
           in if diff \<noteq> 0 then diff
              else memcmp (Sequence_array s) (Sequence_array that) (min this_length that_length)))"

section \<open>Content\<close>

definition seq_content :: "Sequence \<Rightarrow> byte list" where
  "seq_content s = take (Sequence_get_length s) (Sequence_array s)"

definition seq_of :: "byte list \<Rightarrow> Sequence" where
  "seq_of bs = Sequence_create (length bs) bs"

text \<open>The sequences the code builds: of a length the metadata can hold, short ones as values.\<close>

definition valid_seq :: "Sequence \<Rightarrow> bool" where
  "valid_seq s \<longleftrightarrow> length (seq_content s) < 2 ^ 15 \<and> s = seq_of (seq_content s)"

lemma bit_load_word:
  "bit (load_word bs) i \<longleftrightarrow> i < 64 \<and> i div 8 < length bs \<and> bit (bs ! (i div 8)) (i mod 8)"
proof (induction bs arbitrary: i)
  case Nil
  then show ?case by simp
next
  case (Cons b bs)
  show ?case
  proof (cases "i < 8")
    case True
    then show ?thesis by (auto simp: bit_or_iff bit_push_bit_iff bit_unsigned_iff)
  next
    case False
    have "\<not> bit b i" using False bit_imp_le_length [of b i] by auto
    moreover have "i div 8 = Suc ((i - 8) div 8)" "(i - 8) mod 8 = i mod 8"
      using False by (auto simp: le_div_geq le_mod_geq)
    ultimately show ?thesis
      using False Cons.IH [of "i - 8"] by (auto simp: bit_or_iff bit_push_bit_iff bit_unsigned_iff)
  qed
qed

lemma bit_of_nat_small:
  assumes "n < 2 ^ k" and "k \<le> i"
  shows "\<not> bit (of_nat n :: 'a::len word) i"
proof -
  have "(2::nat) ^ k \<le> 2 ^ i" using assms(2) by (rule power_increasing) simp
  then have "n < 2 ^ i" using assms(1) by (rule less_le_trans [rotated])
  then have "\<not> bit n i" by (simp only: bit_iff_odd div_less) simp
  then show ?thesis by (simp only: bit_of_nat_iff) simp
qed

lemma bit_value_payload:
  assumes "len \<le> 7" and "i < 7" and "j < 8"
  shows "bit (push_bit (1 * 8) (load_word array AND (push_bit (len * 8) 1 - 1))
      OR push_bit 1 (of_nat len) OR 1 :: u64) ((i + 1) * 8 + j)
    \<longleftrightarrow> i < len \<and> i < length array \<and> bit (array ! i) j"
proof -
  have n: "(i + 1) * 8 + j = Suc (i * 8 + j + 7)" by simp
  have "\<not> bit (of_nat len :: u64) (i * 8 + j + 7)"
    using assms(1) by (intro bit_of_nat_small [of _ 3]) simp_all
  then have low: "\<not> bit (push_bit 1 (of_nat len :: u64)) ((i + 1) * 8 + j)"
    unfolding n bit_push_bit_iff by (simp add: add.commute)
  have one: "\<not> bit (1 :: u64) ((i + 1) * 8 + j)" unfolding n by (simp add: bit_1_iff)
  have "bit (push_bit (1 * 8) (load_word array AND (push_bit (len * 8) 1 - 1))) ((i + 1) * 8 + j)
      \<longleftrightarrow> bit (load_word array) (i * 8 + j) \<and> i * 8 + j < len * 8"
    using assms by (simp only: bit_push_bit_iff bit_and_iff bit_mask_word) simp
  also have "\<dots> \<longleftrightarrow> i < len \<and> i < length array \<and> bit (array ! i) j"
  proof -
    have "(i * 8 + j) div 8 = i" "(i * 8 + j) mod 8 = j" using assms(3) by simp_all
    moreover have "i * 8 + j < len * 8 \<longleftrightarrow> i < len" using assms(3) by auto
    ultimately have "(i * 8 + j) div 8 = i" "(i * 8 + j) mod 8 = j" "i * 8 + j < len * 8 \<longleftrightarrow> i < len"
      by blast+
    then show ?thesis using assms by (auto simp: bit_load_word)
  qed
  finally show ?thesis unfolding bit_or_iff using low one by blast
qed

lemma create_as_value_length:
  assumes "len \<le> 7"
  shows "Sequence_get_length (Sequence_create_as_value len array) = len"
proof -
  define p where "p = load_word array AND (push_bit (len * 8) 1 - 1)"
  have "drop_bit 1 ((push_bit (1 * 8) p OR push_bit 1 (of_nat len) OR 1) AND 0xFF) = (of_nat len :: u64)"
  proof (rule bit_word_eqI)
    fix i assume "i < LENGTH(64)"
    have "bit (0xFF :: u64) (Suc i) \<longleftrightarrow> i < 7"
      using bit_mask_word [of 8 "Suc i", where 'a = 64] by auto
    then have "bit (drop_bit 1 ((push_bit (1 * 8) p OR push_bit 1 (of_nat len) OR 1) AND 0xFF)) i
        \<longleftrightarrow> bit (of_nat len :: u64) i \<and> i < 7"
      using \<open>i < LENGTH(64)\<close>
      unfolding bit_drop_bit_eq bit_and_iff bit_or_iff bit_push_bit_iff o_def by (auto simp: bit_1_iff)
    also have "\<dots> \<longleftrightarrow> bit (of_nat len :: u64) i"
      using assms bit_of_nat_small [of len 3 i, where 'a = 64] by (cases "i < 7") auto
    finally show "bit (drop_bit 1 ((push_bit (1 * 8) p OR push_bit 1 (of_nat len) OR 1) AND 0xFF)) i
        = bit (of_nat len :: u64) i" .
  qed
  then show ?thesis
    using assms unfolding Sequence_create_as_value_def p_def [symmetric] Sequence_get_length.simps
    by (simp only:) (simp add: unat_of_nat)
qed

lemma bit_value_array:
  "i < 7 \<Longrightarrow> j < 8 \<Longrightarrow> bit (Sequence_array (SeqValue w) ! i) j = bit w ((i + 1) * 8 + j)"
  by (simp add: bit_unsigned_iff bit_drop_bit_eq)

lemma create_as_value_array:
  assumes "len \<le> 7" and "i < len" and "i < length array"
  shows "Sequence_array (Sequence_create_as_value len array) ! i = array ! i"
proof (rule bit_word_eqI)
  fix j assume "j < LENGTH(8)"
  then have j: "j < 8" by simp
  have i: "i < 7" using assms by simp
  show "bit (Sequence_array (Sequence_create_as_value len array) ! i) j = bit (array ! i) j"
    unfolding Sequence_create_as_value_def bit_value_array [OF i j] bit_value_payload [OF assms(1) i j]
    using assms by simp
qed

lemma create_length:
  "len < 2 ^ 15 \<Longrightarrow> Sequence_get_length (Sequence_create len array) = len"
  by (simp add: Sequence_create_def Sequence_can_be_value_def create_as_value_length
      Sequence_create_as_obj_def)

lemma length_array_create:
  "len \<le> length array \<Longrightarrow> len \<le> length (Sequence_array (Sequence_create len array))"
  by (auto simp: Sequence_create_def Sequence_can_be_value_def Sequence_create_as_value_def
      Sequence_create_as_obj_def)

lemma create_content:
  assumes "len < 2 ^ 15" and "len \<le> length array"
  shows "seq_content (Sequence_create len array) = take len array"
proof (rule nth_equalityI)
  show "length (seq_content (Sequence_create len array)) = length (take len array)"
    using assms length_array_create [OF assms(2)] by (simp add: seq_content_def create_length)
  fix i assume "i < length (seq_content (Sequence_create len array))"
  then have "i < len" using assms(1) by (simp add: seq_content_def create_length)
  then show "seq_content (Sequence_create len array) ! i = take len array ! i"
    using assms create_as_value_array [of len i array]
    by (auto simp: seq_content_def create_length)
      (auto simp: Sequence_create_def Sequence_can_be_value_def Sequence_create_as_obj_def)
qed

lemma create_cong:
  assumes "len \<le> length xs" and "len \<le> length ys" and "take len xs = take len ys"
  shows "Sequence_create len xs = Sequence_create len ys"
proof (cases "len \<le> 7")
  case True
  have eq: "xs ! k = ys ! k" if "k < len" for k
    using that assms(3) by (metis nth_take)
  have "load_word xs AND (push_bit (len * 8) 1 - 1) = load_word ys AND (push_bit (len * 8) 1 - 1)"
  proof (rule bit_word_eqI)
    fix i assume "i < LENGTH(64)"
    have "i < len * 8 \<Longrightarrow> i div 8 < len" by (rule less_mult_imp_div_less)
    then show "bit (load_word xs AND (push_bit (len * 8) 1 - 1)) i
        = bit (load_word ys AND (push_bit (len * 8) 1 - 1)) i"
      unfolding bit_and_iff bit_mask_word bit_load_word using assms(1,2) eq by auto
  qed
  with True show ?thesis
    by (simp only: Sequence_create_def Sequence_create_as_value_def Sequence_can_be_value_def) simp
next
  case False
  with assms(3) show ?thesis
    by (simp add: Sequence_create_def Sequence_can_be_value_def Sequence_create_as_obj_def)
qed

lemma valid_create:
  assumes "len < 2 ^ 15" and "len \<le> length array"
  shows "valid_seq (Sequence_create len array)"
proof -
  let ?s = "Sequence_create len array"
  have "?s = Sequence_create len (take len array)"
    using assms(2) by (intro create_cong) simp_all
  moreover have c: "seq_content ?s = take len array" by (rule create_content [OF assms])
  moreover have "length (take len array) = len" using assms(2) by simp
  ultimately have "?s = seq_of (seq_content ?s)" by (simp only: seq_of_def)
  then show ?thesis unfolding valid_seq_def using c assms by simp
qed

lemma valid_seq_length [simp]:
  "valid_seq s \<Longrightarrow> length (seq_content s) = Sequence_get_length s"
  by (metis create_length seq_of_def valid_seq_def)

lemma valid_seq_bound: "valid_seq s \<Longrightarrow> Sequence_get_length s < 2 ^ 15"
  by (metis valid_seq_def valid_seq_length)

lemma valid_seq_array: "valid_seq s \<Longrightarrow> Sequence_get_length s \<le> length (Sequence_array s)"
  using valid_seq_length [of s] by (simp add: seq_content_def)

lemma seq_content_inj: "valid_seq s \<Longrightarrow> valid_seq t \<Longrightarrow> seq_content s = seq_content t \<longleftrightarrow> s = t"
  by (metis valid_seq_def)

lemma trim_content:
  assumes "valid_seq s"
  shows "valid_seq (Sequence_trim s n) \<and> seq_content (Sequence_trim s n) = take n (seq_content s)"
proof -
  let ?m = "min (Sequence_get_length s) n"
  have m: "?m < 2 ^ 15" "?m \<le> length (Sequence_array s)"
    using valid_seq_bound [OF assms] valid_seq_array [OF assms] by auto
  from valid_create [OF m] create_content [OF m] show ?thesis
    by (simp add: Sequence_trim_def seq_content_def min.commute)
qed

lemma get_content:
  assumes "valid_seq s" and "i < Sequence_get_length s"
  shows "Sequence_get s i = seq_content s ! i"
proof (cases s)
  case (SeqObj len array)
  with assms show ?thesis by (simp add: seq_content_def)
next
  case (SeqValue w)
  have "length (Sequence_array s) = 7" using SeqValue by simp
  then have i: "i < 7" using assms valid_seq_array [OF assms(1)] by linarith
  have "Sequence_get s i = Sequence_array s ! i"
  proof (rule bit_word_eqI)
    fix j assume "j < LENGTH(8)"
    then have "j < 8" by simp
    moreover from this have "bit (0xFF :: u64) j"
      using bit_mask_word [of 8 j, where 'a = 64] by simp
    ultimately show "bit (Sequence_get s i) j = bit (Sequence_array s ! i) j"
      using i SeqValue by (simp add: bit_unsigned_iff bit_and_iff)
  qed
  with assms show ?thesis by (simp add: seq_content_def)
qed

text \<open>Bytes of memory behind a sequence do not reach its hash.\<close>

lemma hash_junk:
  assumes "valid_seq s"
  shows "Sequence_hash junk s = Sequence_hash [] s"
proof (cases "Sequence_get_length s < 8")
  case False
  then have "8 \<le> length (Sequence_array s)" using valid_seq_array [OF assms] by linarith
  then show ?thesis by (simp add: Sequence_hash_def)
next
  case True
  let ?n = "Sequence_get_length s" and ?a = "Sequence_array s"
  have "load_word (take 8 (?a @ junk)) AND (push_bit (?n * 8 mod 64) 1 - 1)
      = load_word (take 8 (?a @ [])) AND (push_bit (?n * 8 mod 64) 1 - 1)"
  proof (rule bit_word_eqI)
    fix i assume i: "i < LENGTH(64)"
    show "bit (load_word (take 8 (?a @ junk)) AND (push_bit (?n * 8 mod 64) 1 - 1)) i
      = bit (load_word (take 8 (?a @ [])) AND (push_bit (?n * 8 mod 64) 1 - 1)) i"
    proof (cases "i < ?n * 8")
      case True
      then have "i div 8 < ?n" by (rule less_mult_imp_div_less)
      then have "i div 8 < length ?a" using valid_seq_array [OF assms] by linarith
      moreover have "i div 8 < 8" using i by (simp add: div_less_iff_less_mult)
      ultimately show ?thesis
        unfolding bit_and_iff bit_load_word by (auto simp: nth_append)
    next
      case False
      then show ?thesis using True unfolding bit_and_iff bit_mask_word by simp
    qed
  qed
  then show ?thesis unfolding Sequence_hash_def Let_def by (simp only:)
qed

section \<open>Comparing sequences\<close>

lemma memcmp_take: "memcmp xs ys n = memcmp (take n xs) (take n ys) n"
  by (induction xs ys n rule: memcmp.induct) auto

lemma memcmp_take_le: "n \<le> m \<Longrightarrow> memcmp (take m xs) (take m ys) n = memcmp xs ys n"
  by (subst (1 2) memcmp_take) (simp add: min_def)

lemma memcmp_content:
  assumes "n \<le> Sequence_get_length s" and "n \<le> Sequence_get_length t"
  shows "memcmp (Sequence_array s) (Sequence_array t) n = memcmp (seq_content s) (seq_content t) n"
  using assms
  by (subst (1 2) memcmp_take) (simp add: seq_content_def min_def)

lemma memcmp_eq_0:
  "n \<le> length xs \<Longrightarrow> n \<le> length ys \<Longrightarrow> memcmp xs ys n = 0 \<longleftrightarrow> take n xs = take n ys"
  by (induction xs ys n rule: memcmp.induct) (auto simp: word_uint_eq_iff)

lemma memcmp_sym: "memcmp ys xs n = - memcmp xs ys n"
  by (induction xs ys n rule: memcmp.induct) auto

text \<open>The lexicographic order, on lists first.\<close>

lemma memcmp_lexord:
  "(let diff = memcmp xs ys (min (length xs) (length ys))
    in (if diff \<noteq> 0 then diff else int (length xs) - int (length ys)) < 0) \<longleftrightarrow> ord_class.lexordp xs ys"
proof (induction xs arbitrary: ys)
  case Nil
  then show ?case by (cases ys) auto
next
  case (Cons x xs)
  show ?case
  proof (cases ys)
    case Nil
    then show ?thesis by simp
  next
    case (Cons y ys')
    with Cons.IH [of ys'] show ?thesis
      by (auto simp: Let_def word_less_def word_uint_eq_iff not_less split: if_splits)
  qed
qed

lemma memcmp_lexord_same:
  "length xs = length ys \<Longrightarrow> memcmp xs ys (length xs) < 0 \<longleftrightarrow> ord_class.lexordp xs ys"
  using memcmp_lexord [of xs ys] by (auto simp: Let_def split: if_splits)

definition shortlex :: "byte list \<Rightarrow> byte list \<Rightarrow> bool" where
  "shortlex xs ys \<longleftrightarrow> length xs < length ys \<or> length xs = length ys \<and> ord_class.lexordp xs ys"

lemma lexordp_total: "xs \<noteq> (ys :: byte list) \<Longrightarrow> ord_class.lexordp xs ys \<or> ord_class.lexordp ys xs"
  using lexordp_linear [of xs ys] by auto

lemma shortlex_irrefl: "\<not> shortlex xs xs"
  by (simp add: shortlex_def lexordp_irreflexive')

lemma shortlex_trans: "shortlex xs ys \<Longrightarrow> shortlex ys zs \<Longrightarrow> shortlex xs zs"
  by (auto simp: shortlex_def intro: lexordp_trans)

lemma equals_correct:
  assumes "valid_seq s" and "valid_seq t"
  shows "Sequence_equals s t \<longleftrightarrow> s = t"
proof (cases "Sequence_get_length s = Sequence_get_length t")
  case True
  have "memcmp (Sequence_array s) (Sequence_array t) (Sequence_get_length s) = 0
      \<longleftrightarrow> seq_content s = seq_content t"
    using True assms valid_seq_array [OF assms(1)] valid_seq_array [OF assms(2)]
    by (subst memcmp_eq_0) (simp_all add: seq_content_def)
  with True assms show ?thesis by (auto simp: Sequence_equals_def seq_content_inj)
next
  case False
  then show ?thesis by (auto simp: Sequence_equals_def)
qed

lemma compare_less:
  assumes "valid_seq s" and "valid_seq t"
  shows "Sequence_compare s t < 0 \<longleftrightarrow> ord_class.lexordp (seq_content s) (seq_content t)"
proof (cases "s = t")
  case True
  then show ?thesis by (simp add: Sequence_compare_def lexordp_irreflexive')
next
  case False
  then show ?thesis
    using memcmp_lexord [of "seq_content s" "seq_content t"] assms
    by (simp add: Sequence_compare_def memcmp_content Let_def split: if_splits)
qed

lemma compare_antisym: "Sequence_compare t s = - Sequence_compare s t"
  by (auto simp: Sequence_compare_def Let_def min.commute memcmp_sym [of "Sequence_array t"])

lemma compare_eq:
  assumes "valid_seq s" and "valid_seq t"
  shows "Sequence_compare s t = 0 \<longleftrightarrow> s = t"
proof -
  have "seq_content s \<noteq> seq_content t" if "s \<noteq> t" using that assms by (simp add: seq_content_inj)
  then have "Sequence_compare s t < 0 \<or> Sequence_compare t s < 0" if "s \<noteq> t"
    using that lexordp_total compare_less [OF assms] compare_less [OF assms(2,1)] by blast
  then show ?thesis using compare_antisym [of s t] by (auto simp: Sequence_compare_def)
qed

lemma compareByLength_less:
  assumes "valid_seq s" and "valid_seq t"
  shows "Sequence_compareByLength s t < 0 \<longleftrightarrow> shortlex (seq_content s) (seq_content t)"
proof (cases "s = t")
  case True
  then show ?thesis by (simp add: Sequence_compareByLength_def shortlex_irrefl)
next
  case False
  then show ?thesis
    using memcmp_lexord_same [of "seq_content s" "seq_content t"] assms
    by (auto simp: Sequence_compareByLength_def memcmp_content shortlex_def Let_def)
qed

lemma compareByLength_antisym: "Sequence_compareByLength t s = - Sequence_compareByLength s t"
  by (auto simp: Sequence_compareByLength_def Let_def min.commute memcmp_sym [of "Sequence_array t"])

lemma compareByLength_eq:
  assumes "valid_seq s" and "valid_seq t"
  shows "Sequence_compareByLength s t = 0 \<longleftrightarrow> s = t"
proof -
  have "seq_content s \<noteq> seq_content t" if "s \<noteq> t" using that assms by (simp add: seq_content_inj)
  then have "Sequence_compareByLength s t < 0 \<or> Sequence_compareByLength t s < 0" if "s \<noteq> t"
    using that lexordp_total [of "seq_content s" "seq_content t"] compareByLength_less [OF assms]
      compareByLength_less [OF assms(2,1)] by (auto simp: shortlex_def)
  then show ?thesis using compareByLength_antisym [of s t] by (auto simp: Sequence_compareByLength_def)
qed

text \<open>\<open>starts_with\<close> is the prefix relation.\<close>

lemma first_mismatch_all:
  "first_mismatch_from i n xs ys = i + n \<longleftrightarrow> (\<forall>k. i \<le> k \<and> k < i + n \<longrightarrow> xs ! k = ys ! k)"
proof (induction n arbitrary: i)
  case 0
  then show ?case by auto
next
  case (Suc n)
  show ?case
  proof (cases "xs ! i = ys ! i")
    case True
    then have "(\<forall>k. i \<le> k \<and> k < i + Suc n \<longrightarrow> xs ! k = ys ! k)
        \<longleftrightarrow> (\<forall>k. Suc i \<le> k \<and> k < Suc i + n \<longrightarrow> xs ! k = ys ! k)"
      by (metis add_Suc_right add_Suc_shift le_eq_less_or_eq Suc_le_eq)
    with True Suc.IH [of "Suc i"] show ?thesis by simp
  next
    case False
    then show ?thesis by auto
  qed
qed

lemma starts_with_correct:
  assumes "valid_seq s" and "valid_seq t"
  shows "Sequence_starts_with s t \<longleftrightarrow> prefix (seq_content t) (seq_content s)"
proof (cases "Sequence_get_length t \<le> Sequence_get_length s")
  case True
  let ?n = "Sequence_get_length t"
  have "Sequence_starts_with s t \<longleftrightarrow> (\<forall>k < ?n. Sequence_array t ! k = Sequence_array s ! k)"
    using True first_mismatch_all [of 0 ?n "Sequence_array t" "Sequence_array s"]
    by (simp add: Sequence_starts_with_def Sequence_get_index_of_first_mismatch_def min_def)
  also have "\<dots> \<longleftrightarrow> seq_content t = take ?n (seq_content s)"
    using True valid_seq_array [OF assms(1)] valid_seq_array [OF assms(2)]
    by (auto simp: seq_content_def min_def list_eq_iff_nth_eq)
  finally show ?thesis
    using assms True by (simp add: prefix_def) (metis append_eq_conv_conj append_take_drop_id valid_seq_length)
next
  case False
  moreover have "length (seq_content t) \<le> length (seq_content s)" if "prefix (seq_content t) (seq_content s)"
    using that by (rule prefix_length_le)
  ultimately show ?thesis using assms by (auto simp: Sequence_starts_with_def)
qed

lemma concat_content:
  assumes "valid_seq s" and "valid_seq t" and "Sequence_get_length s + Sequence_get_length t < 2 ^ 15"
  shows "valid_seq (Sequence_concat s t) \<and> seq_content (Sequence_concat s t) = seq_content s @ seq_content t"
proof -
  let ?n = "Sequence_get_length s + Sequence_get_length t" and ?a = "seq_content s @ seq_content t"
  have l: "length ?a = ?n" using assms by simp
  then have n: "?n \<le> length ?a" by simp
  have "Sequence_concat s t = Sequence_create ?n ?a"
    by (simp add: Sequence_concat_def seq_content_def Let_def)
  with valid_create [OF assms(3) n] create_content [OF assms(3) n] l show ?thesis by simp
qed

end
