(* ===== verification/MapSpec.thy ===== *)
theory MapSpec
  imports Prelude
begin

text \<open>
  The map interfaces of \<open>prims/Map.hpp\<close>.  \<open>Maybe\<close> is HOL's option type, \<open>MapEntry\<close> a pair.  The
  abstract classes \<open>Map\<close> and \<open>NavigableMap\<close> become records of their virtual functions, so that a
  client (\<open>InflatableMap\<close>, \<open>LZWCompression\<close>) calls through the record exactly as the code calls
  through the virtual table; a mutating function returns its result and the changed map.  The
  locales state what an implementation promises; every implementation interprets them.
\<close>

section \<open>The virtual function tables\<close>

type_synonym ('k, 'v) MapEntry = "'k \<times> 'v"

record ('k, 'v, 'm) Map_ops =
  Map_get_size :: "'m \<Rightarrow> nat"
  Map_get :: "'m \<Rightarrow> 'k \<Rightarrow> 'v option"
  Map_put :: "'m \<Rightarrow> 'k \<Rightarrow> 'v \<Rightarrow> bool \<times> 'm"
  Map_remove :: "'m \<Rightarrow> 'k \<Rightarrow> bool \<times> 'm"
  Map_clear :: "'m \<Rightarrow> 'm"

text \<open>\<open>get_floor\<close> returns a \<open>Maybe\<close>; the outer \<open>None\<close> is a call that does not return.\<close>

record ('k, 'v, 'm) NavigableMap_ops = "('k, 'v, 'm) Map_ops" +
  Map_get_floor :: "'m \<Rightarrow> 'k \<Rightarrow> ('k, 'v) MapEntry option option"

text \<open>Putting a list of entries one after the other, ignoring the results.\<close>

primrec Map_put_all :: "('k, 'v, 'm, 'z) Map_ops_scheme \<Rightarrow> 'm \<Rightarrow> ('k, 'v) MapEntry list \<Rightarrow> 'm" where
  "Map_put_all ops m [] = m"
| "Map_put_all ops m (e # es) = Map_put_all ops (snd (Map_put ops m (fst e) (snd e))) es"

section \<open>Contracts\<close>

text \<open>
  A map that never replaces a value: \<open>put\<close> stores a new key or leaves the map alone, and its
  result says which.  \<open>valid\<close> restricts the keys a client may pass.
\<close>

locale insert_only_map =
  fixes ops :: "('k, 'v, 'm, 'z) Map_ops_scheme"
    and inv :: "'m \<Rightarrow> bool"
    and abs :: "'m \<Rightarrow> 'k \<rightharpoonup> 'v"
    and valid :: "'k \<Rightarrow> bool"
  assumes get_law: "inv m \<Longrightarrow> valid k \<Longrightarrow> Map_get ops m k = abs m k"
    and put_inv: "inv m \<Longrightarrow> valid k \<Longrightarrow> inv (snd (Map_put ops m k v))"
    and put_abs: "inv m \<Longrightarrow> valid k \<Longrightarrow>
      abs (snd (Map_put ops m k v)) = (if fst (Map_put ops m k v) then (abs m)(k \<mapsto> v) else abs m)"
    and put_new: "inv m \<Longrightarrow> valid k \<Longrightarrow> fst (Map_put ops m k v) \<Longrightarrow> abs m k = None"
    and clear_inv: "inv m \<Longrightarrow> inv (Map_clear ops m)"
    and clear_abs: "inv m \<Longrightarrow> abs (Map_clear ops m) = Map.empty"
begin

lemma get_put_same:
  "inv m \<Longrightarrow> valid k \<Longrightarrow> fst (Map_put ops m k v) \<Longrightarrow> Map_get ops (snd (Map_put ops m k v)) k = Some v"
  by (simp add: get_law put_inv put_abs)

lemma get_put_other:
  "inv m \<Longrightarrow> valid k \<Longrightarrow> valid k' \<Longrightarrow> k' \<noteq> k \<Longrightarrow>
    Map_get ops (snd (Map_put ops m k v)) k' = Map_get ops m k'"
  by (simp add: get_law put_inv put_abs)

lemma put_refused:
  "inv m \<Longrightarrow> valid k \<Longrightarrow> abs m k = Some v' \<Longrightarrow>
    \<not> fst (Map_put ops m k v) \<and> Map_get ops (snd (Map_put ops m k v)) k = Some v'"
  using put_new [of m k v] by (auto simp: get_law put_inv put_abs)

end

text \<open>A map without a capacity: a new key is always stored.\<close>

locale unbounded_map = insert_only_map +
  assumes put_fresh: "inv m \<Longrightarrow> valid k \<Longrightarrow> abs m k = None \<Longrightarrow> fst (Map_put ops m k v)"
begin

lemma put_result: "inv m \<Longrightarrow> valid k \<Longrightarrow> fst (Map_put ops m k v) \<longleftrightarrow> abs m k = None"
  using put_fresh put_new by blast

lemma put_all_inv:
  "inv m \<Longrightarrow> (\<forall>e \<in> set es. valid (fst e)) \<Longrightarrow> inv (Map_put_all ops m es)"
  by (induction es arbitrary: m) (auto simp: put_inv)

lemma put_all_abs:
  "inv m \<Longrightarrow> (\<forall>e \<in> set es. valid (fst e)) \<Longrightarrow> distinct (map fst es) \<Longrightarrow>
    (\<forall>e \<in> set es. abs m (fst e) = None) \<Longrightarrow> abs (Map_put_all ops m es) = abs m ++ map_of es"
proof (induction es arbitrary: m)
  case Nil
  then show ?case by simp
next
  case (Cons e es)
  let ?m = "snd (Map_put ops m (fst e) (snd e))"
  have m: "abs ?m = (abs m)(fst e \<mapsto> snd e)"
    using Cons.prems put_fresh [of m "fst e" "snd e"] by (simp add: put_abs)
  have ni: "fst e \<notin> fst ` set es" using Cons.prems(3) by simp
  have "abs (Map_put_all ops ?m es) = abs ?m ++ map_of es"
    using Cons.prems m ni by (intro Cons.IH) (auto simp: put_inv, metis fst_conv rev_image_eqI)
  moreover have "(abs m)(fst e \<mapsto> snd e) ++ map_of es = abs m ++ map_of (e # es)"
    using ni by (auto simp: fun_eq_iff map_add_def map_of_eq_None_iff split: option.splits dest: map_of_SomeD
        intro: rev_image_eqI)
  ultimately have "abs (Map_put_all ops ?m es) = abs m ++ map_of (e # es)" by (simp only: m)
  then show ?case by (simp only: Map_put_all.simps)
qed

end

text \<open>A map whose \<open>get_size\<close> counts its keys.\<close>

locale counting_map = insert_only_map +
  assumes size_law: "inv m \<Longrightarrow> Map_get_size ops m = card (dom (abs m))"
    and finite_abs: "inv m \<Longrightarrow> finite (dom (abs m))"
begin

lemma size_put:
  "inv m \<Longrightarrow> valid k \<Longrightarrow> Map_get_size ops (snd (Map_put ops m k v)) =
    (if fst (Map_put ops m k v) then Suc (Map_get_size ops m) else Map_get_size ops m)"
  using put_new [of m k v] by (auto simp: size_law put_inv put_abs finite_abs domIff card_insert_if)

lemma size_clear: "inv m \<Longrightarrow> Map_get_size ops (Map_clear ops m) = 0"
  by (simp add: size_law clear_inv clear_abs)

end

text \<open>What a map requires of the comparison function it is instantiated with.\<close>

locale key_equality =
  fixes equals :: "'k \<Rightarrow> 'k \<Rightarrow> bool" and valid :: "'k \<Rightarrow> bool"
  assumes equals_iff: "valid k \<Longrightarrow> valid k' \<Longrightarrow> equals k k' \<longleftrightarrow> k = k'"
begin

lemma equals_refl: "valid k \<Longrightarrow> equals k k"
  by (simp add: equals_iff)

end

section \<open>Floors\<close>

text \<open>
  A navigable map over sequences answers \<open>get_floor\<close> with the longest stored prefix of the key.
  The faster implementations rely on what the compression guarantees of its dictionary: with a
  sequence, all its non-empty prefixes are stored, and a stored sequence is not stored again.
\<close>

definition prefix_closed :: "'a list set \<Rightarrow> bool" where
  "prefix_closed D \<longleftrightarrow> (\<forall>xs ys. xs @ ys \<in> D \<and> xs \<noteq> [] \<longrightarrow> xs \<in> D)"

definition longest_prefix :: "('a list \<rightharpoonup> 'v) \<Rightarrow> 'a list \<Rightarrow> 'a list \<Rightarrow> bool" where
  "longest_prefix m xs p \<longleftrightarrow> prefix p xs \<and> p \<in> dom m
    \<and> (\<forall>q. prefix q xs \<and> q \<in> dom m \<longrightarrow> length q \<le> length p)"

lemma longest_prefix_unique:
  "longest_prefix m xs p \<Longrightarrow> longest_prefix m xs q \<Longrightarrow> p = q"
proof -
  assume p: "longest_prefix m xs p" and q: "longest_prefix m xs q"
  have "length q \<le> length p" "length p \<le> length q"
    using p q unfolding longest_prefix_def by blast+
  moreover have "prefix p xs" "prefix q xs" using p q by (simp_all add: longest_prefix_def)
  ultimately show ?thesis by (auto simp: prefix_def)
qed

lemma prefix_closedD: "prefix_closed D \<Longrightarrow> xs @ ys \<in> D \<Longrightarrow> xs \<noteq> [] \<Longrightarrow> xs \<in> D"
  unfolding prefix_closed_def by blast

lemma prefix_closed_insert:
  assumes "prefix_closed D" and "xs = [x] \<or> (\<exists>ys y. xs = ys @ [y] \<and> ys \<in> D)"
  shows "prefix_closed (insert xs D)"
  unfolding prefix_closed_def
proof (intro allI impI)
  fix p q assume pq: "p @ q \<in> insert xs D \<and> p \<noteq> []"
  show "p \<in> insert xs D"
  proof (cases "p @ q = xs \<and> q \<noteq> []")
    case False
    then show ?thesis using pq prefix_closedD [OF assms(1), of p q] by (cases "p @ q = xs") auto
  next
    case True
    then obtain q' z where q: "q = q' @ [z]" by (metis append_butlast_last_id)
    from assms(2) show ?thesis
    proof
      assume "xs = [x]"
      with True q pq show ?thesis by (cases p) auto
    next
      assume "\<exists>ys y. xs = ys @ [y] \<and> ys \<in> D"
      then have "p @ q' \<in> D" using True q by (metis append.assoc butlast_snoc)
      with pq prefix_closedD [OF assms(1), of p q'] show ?thesis by blast
    qed
  qed
qed

locale floor_map =
  fixes ops :: "('k, 'v, 'm, 'z) NavigableMap_ops_scheme"
    and inv :: "'m \<Rightarrow> bool"
    and abs :: "'m \<Rightarrow> 'a list \<rightharpoonup> 'v"
    and content :: "'k \<Rightarrow> 'a list"
    and valid :: "'k \<Rightarrow> bool"
  assumes put_floor: "inv m \<Longrightarrow> valid k \<Longrightarrow> content k \<noteq> [] \<Longrightarrow> prefix_closed (dom (abs m)) \<Longrightarrow>
      abs m (content k) = None \<Longrightarrow> inv (snd (Map_put ops m k v))
        \<and> abs (snd (Map_put ops m k v)) = (abs m)(content k \<mapsto> v)"
    and clear_floor: "inv m \<Longrightarrow> inv (Map_clear ops m) \<and> abs (Map_clear ops m) = Map.empty"
    and get_floor_longest: "inv m \<Longrightarrow> valid k \<Longrightarrow> content k \<noteq> [] \<Longrightarrow> prefix_closed (dom (abs m)) \<Longrightarrow>
      [hd (content k)] \<in> dom (abs m) \<Longrightarrow>
      \<exists>k' v. Map_get_floor ops m k = Some (Some (k', v)) \<and> valid k'
        \<and> longest_prefix (abs m) (content k) (content k') \<and> abs m (content k') = Some v"
begin

text \<open>A key that is stored is its own floor.\<close>

lemma get_floor_stored:
  assumes "inv m" and "valid k" and "content k \<noteq> []" and "prefix_closed (dom (abs m))"
    and "abs m (content k) = Some v"
  shows "\<exists>k'. Map_get_floor ops m k = Some (Some (k', v)) \<and> content k' = content k"
proof -
  have "[hd (content k)] @ tl (content k) \<in> dom (abs m)" using assms(3,5) by (simp add: domI)
  then have "[hd (content k)] \<in> dom (abs m)" using prefix_closedD [OF assms(4)] by blast
  from get_floor_longest [OF assms(1-4) this] obtain k' v'
    where k': "Map_get_floor ops m k = Some (Some (k', v'))"
      "longest_prefix (abs m) (content k) (content k')" "abs m (content k') = Some v'"
    by blast
  have "longest_prefix (abs m) (content k) (content k)"
    using assms(5) by (auto simp: longest_prefix_def prefix_length_le)
  with k' assms(5) show ?thesis using longest_prefix_unique by fastforce
qed

end

text \<open>A map on keys seen as a map on the contents of the keys.\<close>

definition content_abs :: "('k \<Rightarrow> 'c) \<Rightarrow> ('k \<Rightarrow> bool) \<Rightarrow> ('k \<rightharpoonup> 'v) \<Rightarrow> 'c \<rightharpoonup> 'v" where
  "content_abs content valid A xs =
    (if \<exists>k. valid k \<and> content k = xs then A (SOME k. valid k \<and> content k = xs) else None)"

locale key_content =
  fixes content :: "'k \<Rightarrow> 'c" and valid :: "'k \<Rightarrow> bool"
  assumes content_inj: "valid k \<Longrightarrow> valid k' \<Longrightarrow> content k = content k' \<longleftrightarrow> k = k'"
begin

lemma content_abs_key: "valid k \<Longrightarrow> content_abs content valid A (content k) = A k"
  unfolding content_abs_def using content_inj by (metis (mono_tags, lifting) someI)

lemma content_abs_dom: "xs \<in> dom (content_abs content valid A) \<longleftrightarrow> (\<exists>k \<in> dom A. valid k \<and> content k = xs)"
proof
  assume "xs \<in> dom (content_abs content valid A)"
  then obtain k where "valid k" "content k = xs" by (auto simp: content_abs_def split: if_splits)
  with \<open>xs \<in> _\<close> content_abs_key [of k A] show "\<exists>k \<in> dom A. valid k \<and> content k = xs"
    by (auto simp: domIff)
next
  assume "\<exists>k \<in> dom A. valid k \<and> content k = xs"
  then obtain k where "k \<in> dom A" "valid k" "content k = xs" by blast
  then show "xs \<in> dom (content_abs content valid A)" using content_abs_key [of k A] by (simp add: domIff)
qed

lemma content_abs_update:
  assumes "valid k"
  shows "content_abs content valid (A(k \<mapsto> v)) = (content_abs content valid A)(content k \<mapsto> v)"
proof
  fix xs
  show "content_abs content valid (A(k \<mapsto> v)) xs = ((content_abs content valid A)(content k \<mapsto> v)) xs"
  proof (cases "\<exists>k'. valid k' \<and> content k' = xs")
    case True
    then obtain k' where "valid k'" "content k' = xs" by blast
    with assms show ?thesis
      using content_inj [of k k'] content_abs_key [of k' A] content_abs_key [of k' "A(k \<mapsto> v)"] by auto
  next
    case False
    with assms have "xs \<noteq> content k" by blast
    with False show ?thesis by (auto simp: content_abs_def)
  qed
qed

lemma content_abs_empty: "content_abs content valid Map.empty = Map.empty"
  by (auto simp: content_abs_def)

end

end
