(* ===== verification/SmallMap.thy ===== *)
theory SmallMap
  imports MapSpec
begin

text \<open>
  \<open>prims/SmallMap.hpp\<close>: a map in a fixed array, searched linearly.  The model keeps the \<open>size\<close>
  slots in use as a list; a slot at or above \<open>size\<close> is never read before it is written.  The
  template arguments \<open>capacity\<close> and \<open>equals\<close> are parameters.
\<close>

record ('k, 'v) SmallMap =
  sm_slots :: "('k, 'v) MapEntry list"

definition SmallMap_init :: "('k, 'v) SmallMap" where
  "SmallMap_init = \<lparr>sm_slots = []\<rparr>"

definition SmallMap_get_size :: "('k, 'v) SmallMap \<Rightarrow> nat" where
  "SmallMap_get_size m = length (sm_slots m)"

text \<open>The loop of \<open>get_index\<close>, from \<open>index\<close> on.\<close>

primrec SmallMap_index_from ::
  "('k \<Rightarrow> 'k \<Rightarrow> bool) \<Rightarrow> 'k \<Rightarrow> nat \<Rightarrow> ('k, 'v) MapEntry list \<Rightarrow> nat option" where
  "SmallMap_index_from equals key index [] = None"
| "SmallMap_index_from equals key index (e # es) =
    (if equals key (fst e) then Some index else SmallMap_index_from equals key (Suc index) es)"

definition SmallMap_get_index :: "('k \<Rightarrow> 'k \<Rightarrow> bool) \<Rightarrow> ('k, 'v) SmallMap \<Rightarrow> 'k \<Rightarrow> nat option" where
  "SmallMap_get_index equals m key = SmallMap_index_from equals key 0 (sm_slots m)"

definition SmallMap_get_at :: "('k, 'v) SmallMap \<Rightarrow> nat \<Rightarrow> ('k, 'v) MapEntry" where
  "SmallMap_get_at m index = sm_slots m ! index"

definition SmallMap_get :: "('k \<Rightarrow> 'k \<Rightarrow> bool) \<Rightarrow> ('k, 'v) SmallMap \<Rightarrow> 'k \<Rightarrow> 'v option" where
  "SmallMap_get equals m key =
    (case SmallMap_get_index equals m key of
       Some index \<Rightarrow> Some (snd (sm_slots m ! index))
     | None \<Rightarrow> None)"

definition SmallMap_put ::
  "nat \<Rightarrow> ('k \<Rightarrow> 'k \<Rightarrow> bool) \<Rightarrow> ('k, 'v) SmallMap \<Rightarrow> 'k \<Rightarrow> 'v \<Rightarrow> bool \<times> ('k, 'v) SmallMap" where
  "SmallMap_put capacity equals m key val =
    (if SmallMap_get equals m key \<noteq> None then (False, m)
     else if SmallMap_get_size m < capacity then
       (True, m\<lparr>sm_slots := sm_slots m @ [(key, val)]\<rparr>)
     else (False, m))"

definition SmallMap_remove :: "('k, 'v) SmallMap \<Rightarrow> 'k \<Rightarrow> bool \<times> ('k, 'v) SmallMap" where
  "SmallMap_remove m key = (False, m)"

definition SmallMap_clear :: "('k, 'v) SmallMap \<Rightarrow> ('k, 'v) SmallMap" where
  "SmallMap_clear m = m\<lparr>sm_slots := []\<rparr>"

definition SmallMap_ops ::
  "nat \<Rightarrow> ('k \<Rightarrow> 'k \<Rightarrow> bool) \<Rightarrow> ('k, 'v, ('k, 'v) SmallMap) Map_ops" where
  "SmallMap_ops capacity equals =
    \<lparr>Map_get_size = SmallMap_get_size, Map_get = SmallMap_get equals,
     Map_put = SmallMap_put capacity equals, Map_remove = SmallMap_remove,
     Map_clear = SmallMap_clear\<rparr>"

section \<open>The contract\<close>

definition SmallMap_abs :: "('k, 'v) SmallMap \<Rightarrow> 'k \<rightharpoonup> 'v" where
  "SmallMap_abs m = map_of (sm_slots m)"

definition SmallMap_inv :: "nat \<Rightarrow> ('k \<Rightarrow> bool) \<Rightarrow> ('k, 'v) SmallMap \<Rightarrow> bool" where
  "SmallMap_inv capacity valid m \<longleftrightarrow> length (sm_slots m) \<le> capacity \<and>
    distinct (map fst (sm_slots m)) \<and> (\<forall>e \<in> set (sm_slots m). valid (fst e))"

context key_equality
begin

lemma index_from_lookup:
  "valid key \<Longrightarrow> (\<forall>e \<in> set es. valid (fst e)) \<Longrightarrow>
    (case SmallMap_index_from equals key n es of
       Some i \<Rightarrow> n \<le> i \<and> i < n + length es \<and> map_of es key = Some (snd (es ! (i - n)))
     | None \<Rightarrow> map_of es key = None)"
proof (induction es arbitrary: n)
  case Nil
  then show ?case by simp
next
  case (Cons e es)
  have IH: "case SmallMap_index_from equals key (Suc n) es of
       Some i \<Rightarrow> Suc n \<le> i \<and> i < Suc n + length es \<and> map_of es key = Some (snd (es ! (i - Suc n)))
     | None \<Rightarrow> map_of es key = None"
    using Cons.prems by (intro Cons.IH) auto
  have eq: "equals key (fst e) \<longleftrightarrow> key = fst e" using Cons.prems by (simp add: equals_iff)
  show ?case
  proof (cases "key = fst e")
    case True
    then show ?thesis using eq by (cases e) auto
  next
    case False
    with IH eq show ?thesis
      by (cases e) (auto split: option.splits simp: nth_Cons' Suc_diff_le diff_Suc split: nat.splits)
  qed
qed

lemma SmallMap_get_abs:
  "SmallMap_inv capacity valid m \<Longrightarrow> valid k \<Longrightarrow> SmallMap_get equals m k = SmallMap_abs m k"
  using index_from_lookup [of k "sm_slots m" 0]
  by (auto simp: SmallMap_get_def SmallMap_get_index_def SmallMap_abs_def SmallMap_inv_def
      split: option.splits)

lemma SmallMap_put_cases:
  assumes "SmallMap_inv capacity valid m" and "valid k"
  shows "SmallMap_put capacity equals m k v =
    (if SmallMap_abs m k = None \<and> length (sm_slots m) < capacity
     then (True, \<lparr>sm_slots = sm_slots m @ [(k, v)]\<rparr>) else (False, m))"
  using assms by (auto simp: SmallMap_put_def SmallMap_get_abs SmallMap_get_size_def)

end

sublocale key_equality \<subseteq> small: insert_only_map
  "SmallMap_ops capacity equals" "SmallMap_inv capacity valid" SmallMap_abs valid
  for capacity
proof (unfold_locales, goal_cases)
  case (1 m k)
  then show ?case by (simp add: SmallMap_ops_def SmallMap_get_abs)
next
  case (2 m k v)
  then show ?case
    by (auto simp: SmallMap_ops_def SmallMap_put_cases)
      (auto simp: SmallMap_inv_def SmallMap_abs_def map_of_eq_None_iff)
next
  case (3 m k v)
  then show ?case
    by (auto simp: SmallMap_ops_def SmallMap_put_cases)
      (auto simp: SmallMap_abs_def map_add_def fun_eq_iff split: option.splits)
next
  case (4 m k v)
  then show ?case by (auto simp: SmallMap_ops_def SmallMap_put_cases split: if_splits)
qed (auto simp: SmallMap_ops_def SmallMap_clear_def SmallMap_inv_def SmallMap_abs_def)

sublocale key_equality \<subseteq> small: counting_map
  "SmallMap_ops capacity equals" "SmallMap_inv capacity valid" SmallMap_abs valid
  for capacity
  by unfold_locales
    (auto simp: SmallMap_ops_def SmallMap_get_size_def SmallMap_inv_def SmallMap_abs_def
      card_dom_map_of finite_dom_map_of)

end
