(* ===== verification/HashMap.thy ===== *)
theory HashMap
  imports MapSpec
begin

unbundle bit_operations_syntax

text \<open>
  \<open>HashMap\<close> of \<open>prims/HashMap.hpp\<close>: an array of buckets, each a growable array of entries.  The
  model keeps a bucket's \<open>count\<close> entries in use as a list next to its \<open>capacity\<close>, and the bucket
  array as a list (\<open>bucket_count\<close> is its length).  Arena memory is not modelled; sizes are
  natural numbers.  The template arguments \<open>hash\<close> and \<open>equals\<close> are parameters.
\<close>

section \<open>The operations\<close>

record ('k, 'v) Bucket =
  bk_entries :: "('k, 'v) MapEntry list"
  bk_capacity :: nat

record ('k, 'v) HashMap =
  hm_buckets :: "('k, 'v) Bucket list"
  hm_count :: nat

definition HashMap_init_bucket :: "('k, 'v) Bucket" where
  "HashMap_init_bucket = \<lparr>bk_entries = [], bk_capacity = 0\<rparr>"

definition HashMap_grow_bucket :: "('k, 'v) Bucket \<Rightarrow> ('k, 'v) Bucket" where
  "HashMap_grow_bucket b = b\<lparr>bk_capacity := max 1 (bk_capacity b * 2)\<rparr>"

definition HashMap_reset_bucket :: "('k, 'v) Bucket \<Rightarrow> ('k, 'v) Bucket" where
  "HashMap_reset_bucket b = \<lparr>bk_entries = [], bk_capacity = 0\<rparr>"

text \<open>The constructor's loop that rounds the capacity up to a power of two.\<close>

function HashMap_better_capacity :: "nat \<Rightarrow> nat \<Rightarrow> nat" where
  "HashMap_better_capacity better init_capacity =
    (if 0 < better \<and> better < init_capacity
     then HashMap_better_capacity (better * 2) init_capacity else better)"
  by pat_completeness auto
termination
  by (relation "measure (\<lambda>(better, init_capacity). init_capacity - better)") auto

declare HashMap_better_capacity.simps [simp del]

definition HashMap_init :: "nat \<Rightarrow> ('k, 'v) HashMap" where
  "HashMap_init init_capacity =
    \<lparr>hm_buckets = replicate (HashMap_better_capacity 1 init_capacity) HashMap_init_bucket,
     hm_count = 0\<rparr>"

text \<open>\<open>h & (bucket_count - 1)\<close>, with \<open>h\<close> sign-extended to the width of \<open>size_t\<close>.\<close>

definition HashMap_index :: "uint \<Rightarrow> nat \<Rightarrow> nat" where
  "HashMap_index h bucket_count = nat (sint h AND (int bucket_count - 1))"

definition HashMap_get_size :: "('k, 'v) HashMap \<Rightarrow> nat" where
  "HashMap_get_size m = hm_count m"

text \<open>The scan of a bucket, shared by \<open>get\<close> and \<open>put\<close>.\<close>

primrec HashMap_scan :: "('k \<Rightarrow> 'k \<Rightarrow> bool) \<Rightarrow> 'k \<Rightarrow> ('k, 'v) MapEntry list \<Rightarrow> 'v option" where
  "HashMap_scan equals key [] = None"
| "HashMap_scan equals key (e # es) =
    (if equals key (fst e) then Some (snd e) else HashMap_scan equals key es)"

definition HashMap_get ::
  "('k \<Rightarrow> uint) \<Rightarrow> ('k \<Rightarrow> 'k \<Rightarrow> bool) \<Rightarrow> ('k, 'v) HashMap \<Rightarrow> 'k \<Rightarrow> 'v option" where
  "HashMap_get hash equals m key =
    (let index = HashMap_index (hash key) (length (hm_buckets m));
         bucket = hm_buckets m ! index
     in HashMap_scan equals key (bk_entries bucket))"

text \<open>Storing an entry behind the last one of a bucket that may have to grow first.\<close>

definition HashMap_append_entry :: "('k, 'v) Bucket \<Rightarrow> ('k, 'v) MapEntry \<Rightarrow> ('k, 'v) Bucket" where
  "HashMap_append_entry bucket e =
    (let bucket = (if length (bk_entries bucket) = bk_capacity bucket
                   then HashMap_grow_bucket bucket else bucket)
     in bucket\<lparr>bk_entries := bk_entries bucket @ [e]\<rparr>)"

text \<open>
  \<open>grow\<close> rehashes in place.  The inner loop walks a bucket; an entry that now belongs elsewhere is
  cut out (\<open>memmove\<close>) and appended to its new bucket, and the same position is looked at again.
\<close>

definition HashMap_relocate ::
  "('k, 'v) Bucket list \<Rightarrow> nat \<Rightarrow> nat \<Rightarrow> nat \<Rightarrow> ('k, 'v) Bucket list" where
  "HashMap_relocate bs bucket_index entry_index new_bucket_index =
    (let bucket = bs ! bucket_index;
         e = bk_entries bucket ! entry_index;
         bs1 = bs[bucket_index := bucket\<lparr>bk_entries :=
                 take entry_index (bk_entries bucket) @ drop (Suc entry_index) (bk_entries bucket)\<rparr>]
     in bs1[new_bucket_index := HashMap_append_entry (bs1 ! new_bucket_index) e])"

function HashMap_rehash_bucket ::
  "('k \<Rightarrow> uint) \<Rightarrow> nat \<Rightarrow> nat \<Rightarrow> nat \<Rightarrow> ('k, 'v) Bucket list \<Rightarrow> bool
    \<Rightarrow> ('k, 'v) Bucket list \<times> bool" where
  "HashMap_rehash_bucket hash old_capacity bucket_index entry_index bs change_in_old =
    (if bucket_index < length bs \<and> entry_index < length (bk_entries (bs ! bucket_index)) then
       (let key = fst (bk_entries (bs ! bucket_index) ! entry_index);
            new_bucket_index = HashMap_index (hash key) (length bs)
        in if bucket_index \<noteq> new_bucket_index
           then HashMap_rehash_bucket hash old_capacity bucket_index entry_index
                  (HashMap_relocate bs bucket_index entry_index new_bucket_index)
                  (change_in_old \<or> new_bucket_index < old_capacity)
           else HashMap_rehash_bucket hash old_capacity bucket_index (Suc entry_index) bs
                  change_in_old)
     else (bs, change_in_old))"
  by pat_completeness auto
termination
  by (relation "measure (\<lambda>(hash, old, b, e, bs, ch). length (bk_entries (bs ! b)) - e)")
    (auto simp: HashMap_relocate_def Let_def nth_list_update)

declare HashMap_rehash_bucket.simps [simp del]

text \<open>The loop over the old buckets, from \<open>bucket_index\<close> for \<open>n\<close> buckets.\<close>

primrec HashMap_rehash_pass ::
  "('k \<Rightarrow> uint) \<Rightarrow> nat \<Rightarrow> nat \<Rightarrow> nat \<Rightarrow> ('k, 'v) Bucket list \<Rightarrow> bool
    \<Rightarrow> ('k, 'v) Bucket list \<times> bool" where
  "HashMap_rehash_pass hash old_capacity bucket_index 0 bs change_in_old = (bs, change_in_old)"
| "HashMap_rehash_pass hash old_capacity bucket_index (Suc n) bs change_in_old =
    (case HashMap_rehash_bucket hash old_capacity bucket_index 0 bs change_in_old of (bs', ch) \<Rightarrow>
       HashMap_rehash_pass hash old_capacity (Suc bucket_index) n bs' ch)"

text \<open>
  Every relocation removes one misplaced entry, so the \<open>do \<dots> while(change_in_old)\<close> loop ends.
\<close>

definition misplaced :: "('k \<Rightarrow> uint) \<Rightarrow> ('k, 'v) Bucket list \<Rightarrow> nat" where
  "misplaced hash bs = (\<Sum>i < length bs.
     length (filter (\<lambda>e. HashMap_index (hash (fst e)) (length bs) \<noteq> i) (bk_entries (bs ! i))))"

lemma length_HashMap_relocate [simp]: "length (HashMap_relocate bs b e j) = length bs"
  by (simp add: HashMap_relocate_def Let_def)

lemma bk_entries_append_entry [simp]:
  "bk_entries (HashMap_append_entry b e) = bk_entries b @ [e]"
  by (simp add: HashMap_append_entry_def HashMap_grow_bucket_def Let_def)

lemma bk_entries_relocate:
  assumes "b < length bs" and "b \<noteq> j" and "i < length bs"
  shows "bk_entries (HashMap_relocate bs b e j ! i) =
    (if i = b then take e (bk_entries (bs ! b)) @ drop (Suc e) (bk_entries (bs ! b))
     else if i = j then bk_entries (bs ! j) @ [bk_entries (bs ! b) ! e] else bk_entries (bs ! i))"
  using assms by (auto simp: HashMap_relocate_def Let_def nth_list_update)

lemma length_filter_cut:
  "e < length xs \<Longrightarrow> P (xs ! e) \<Longrightarrow>
    length (filter P xs) = Suc (length (filter P (take e xs @ drop (Suc e) xs)))"
  by (subst id_take_nth_drop [of e xs]) simp_all

lemma misplaced_relocate:
  assumes "b < length bs" and "e < length (bk_entries (bs ! b))"
    and "j = HashMap_index (hash (fst (bk_entries (bs ! b) ! e))) (length bs)" and "b \<noteq> j"
  shows "misplaced hash bs = Suc (misplaced hash (HashMap_relocate bs b e j))"
proof -
  let ?bs = "HashMap_relocate bs b e j" and ?n = "length bs"
  let ?f = "\<lambda>bs i. length (filter (\<lambda>e. HashMap_index (hash (fst e)) ?n \<noteq> i) (bk_entries (bs ! i)))"
  have eq: "?f ?bs i = ?f bs i" if "i < ?n" "i \<noteq> b" for i
    using that assms by (auto simp: bk_entries_relocate)
  have "?f bs b = Suc (?f ?bs b)"
    using assms by (subst length_filter_cut [of e]) (auto simp: bk_entries_relocate)
  moreover have "(\<Sum>i < ?n. ?f bs i) = ?f bs b + (\<Sum>i \<in> {..<?n} - {b}. ?f bs i)"
    "(\<Sum>i < ?n. ?f ?bs i) = ?f ?bs b + (\<Sum>i \<in> {..<?n} - {b}. ?f ?bs i)"
    using assms(1) by (auto intro: sum.remove)
  moreover have "(\<Sum>i \<in> {..<?n} - {b}. ?f ?bs i) = (\<Sum>i \<in> {..<?n} - {b}. ?f bs i)"
    by (rule sum.cong) (auto simp: eq)
  ultimately show ?thesis by (simp add: misplaced_def)
qed

lemma misplaced_rehash_bucket:
  "HashMap_rehash_bucket hash old b e bs ch = (bs', ch') \<Longrightarrow>
    misplaced hash bs' \<le> misplaced hash bs
      \<and> (ch' \<and> \<not> ch \<longrightarrow> misplaced hash bs' < misplaced hash bs)"
proof (induction hash old b e bs ch rule: HashMap_rehash_bucket.induct)
  case (1 hash old b e bs ch)
  let ?j = "HashMap_index (hash (fst (bk_entries (bs ! b) ! e))) (length bs)"
  show ?case
  proof (cases "b < length bs \<and> e < length (bk_entries (bs ! b))")
    case True
    show ?thesis
    proof (cases "b = ?j")
      case False
      with 1(1) [OF True refl refl] True 1(3) misplaced_relocate [of b bs e ?j hash]
      show ?thesis by (auto simp: HashMap_rehash_bucket.simps [of hash old b e bs ch] Let_def)
    next
      case eq: True
      have "HashMap_rehash_bucket hash old b (Suc e) bs ch = (bs', ch')"
        using 1(3) True eq by (simp add: HashMap_rehash_bucket.simps [of hash old b e bs ch] Let_def)
      with 1(2) [OF True refl refl] eq show ?thesis by blast
    qed
  next
    case False
    with 1(3) show ?thesis by (auto simp: HashMap_rehash_bucket.simps [of hash old b e bs ch])
  qed
qed

lemma misplaced_rehash_pass:
  "HashMap_rehash_pass hash old b n bs ch = (bs', ch') \<Longrightarrow>
    misplaced hash bs' \<le> misplaced hash bs
      \<and> (ch' \<and> \<not> ch \<longrightarrow> misplaced hash bs' < misplaced hash bs)"
proof (induction n arbitrary: b bs ch)
  case 0
  then show ?case by simp
next
  case (Suc n)
  obtain bs1 ch1 where r: "HashMap_rehash_bucket hash old b 0 bs ch = (bs1, ch1)"
    by (cases "HashMap_rehash_bucket hash old b 0 bs ch")
  with Suc.prems Suc.IH [of "Suc b" bs1 ch1] misplaced_rehash_bucket [OF r]
  show ?case by (cases ch1) auto
qed

function HashMap_rehash :: "('k \<Rightarrow> uint) \<Rightarrow> nat \<Rightarrow> ('k, 'v) Bucket list \<Rightarrow> ('k, 'v) Bucket list" where
  "HashMap_rehash hash old_capacity bs =
    (case HashMap_rehash_pass hash old_capacity 0 old_capacity bs False of
       (bs', change_in_old) \<Rightarrow>
         if change_in_old then HashMap_rehash hash old_capacity bs' else bs')"
  by pat_completeness auto
termination
  by (relation "measure (\<lambda>(hash, old, bs). misplaced hash bs)")
    (auto dest!: sym [of "(_, True)"] misplaced_rehash_pass)

declare HashMap_rehash.simps [simp del]

definition HashMap_grow :: "('k \<Rightarrow> uint) \<Rightarrow> ('k, 'v) HashMap \<Rightarrow> ('k, 'v) HashMap" where
  "HashMap_grow hash m =
    (let old_capacity = length (hm_buckets m);
         bucket_count = max 3 (old_capacity * 2);
         bs = hm_buckets m @ replicate (bucket_count - old_capacity) HashMap_init_bucket
     in m\<lparr>hm_buckets := HashMap_rehash hash old_capacity bs\<rparr>)"

definition HashMap_put ::
  "('k \<Rightarrow> uint) \<Rightarrow> ('k \<Rightarrow> 'k \<Rightarrow> bool) \<Rightarrow> ('k, 'v) HashMap \<Rightarrow> 'k \<Rightarrow> 'v
    \<Rightarrow> bool \<times> ('k, 'v) HashMap" where
  "HashMap_put hash equals m0 key val =
    (let m = (if hm_count m0 = length (hm_buckets m0) then HashMap_grow hash m0 else m0);
         index = HashMap_index (hash key) (length (hm_buckets m));
         bucket = hm_buckets m ! index
     in case HashMap_scan equals key (bk_entries bucket) of
          Some _ \<Rightarrow> (False, m)
        | None \<Rightarrow>
            (True, m\<lparr>hm_buckets := (hm_buckets m)[index := HashMap_append_entry bucket (key, val)],
                     hm_count := Suc (hm_count m)\<rparr>))"

definition HashMap_remove :: "('k, 'v) HashMap \<Rightarrow> 'k \<Rightarrow> bool \<times> ('k, 'v) HashMap" where
  "HashMap_remove m key = (False, m)"

definition HashMap_clear :: "('k, 'v) HashMap \<Rightarrow> ('k, 'v) HashMap" where
  "HashMap_clear m =
    m\<lparr>hm_buckets := map (\<lambda>b. b\<lparr>bk_entries := []\<rparr>) (hm_buckets m), hm_count := 0\<rparr>"

definition HashMap_ops ::
  "('k \<Rightarrow> uint) \<Rightarrow> ('k \<Rightarrow> 'k \<Rightarrow> bool) \<Rightarrow> ('k, 'v, ('k, 'v) HashMap) Map_ops" where
  "HashMap_ops hash equals =
    \<lparr>Map_get_size = HashMap_get_size, Map_get = HashMap_get hash equals,
     Map_put = HashMap_put hash equals, Map_remove = HashMap_remove, Map_clear = HashMap_clear\<rparr>"

section \<open>Rehashing\<close>

definition entries_of :: "('k, 'v) Bucket list \<Rightarrow> ('k, 'v) MapEntry list" where
  "entries_of bs = concat (map bk_entries bs)"

definition placed :: "('k \<Rightarrow> uint) \<Rightarrow> ('k, 'v) Bucket list \<Rightarrow> nat \<Rightarrow> bool" where
  "placed hash bs i \<longleftrightarrow>
    (\<forall>e \<in> set (bk_entries (bs ! i)). HashMap_index (hash (fst e)) (length bs) = i)"

lemma HashMap_index_less: "0 < n \<Longrightarrow> HashMap_index h n < n"
proof -
  assume n: "0 < n"
  have "sint h AND (int n - 1) \<le> int n - 1" using n by (intro AND_upper2) simp
  moreover have "0 \<le> sint h AND (int n - 1)" using n by simp
  ultimately show ?thesis
    unfolding HashMap_index_def using n by (subst nat_less_iff) auto
qed

lemma mset_entries_update:
  "i < length bs \<Longrightarrow> mset (entries_of (bs[i := x])) + mset (bk_entries (bs ! i))
    = mset (entries_of bs) + mset (bk_entries x)"
proof -
  assume i: "i < length bs"
  show ?thesis
    unfolding upd_conv_take_nth_drop [OF i]
    by (subst (4) id_take_nth_drop [OF i]) (simp add: entries_of_def)
qed

lemma set_entries_of: "set (entries_of bs) = (\<Union>i < length bs. set (bk_entries (bs ! i)))"
proof -
  have "set bs = (!) bs ` {..<length bs}" by (auto simp: set_conv_nth)
  then show ?thesis by (simp add: entries_of_def)
qed

lemma mset_cut: "e < length xs \<Longrightarrow> mset xs = add_mset (xs ! e) (mset (take e xs @ drop (Suc e) xs))"
  by (subst id_take_nth_drop [of e xs]) simp_all

lemma mset_entries_relocate:
  assumes "b < length bs" and "e < length (bk_entries (bs ! b))" and "j < length bs" and "b \<noteq> j"
  shows "mset (entries_of (HashMap_relocate bs b e j)) = mset (entries_of bs)"
proof -
  let ?x = "(bs ! b)\<lparr>bk_entries :=
    take e (bk_entries (bs ! b)) @ drop (Suc e) (bk_entries (bs ! b))\<rparr>"
  let ?bs = "bs[b := ?x]" and ?e = "bk_entries (bs ! b) ! e"
  have "mset (entries_of (HashMap_relocate bs b e j)) + mset (bk_entries (?bs ! j))
      = mset (entries_of ?bs) + mset (bk_entries (?bs ! j) @ [?e])"
    using mset_entries_update [of j ?bs "HashMap_append_entry (?bs ! j) ?e"] assms
    by (simp add: HashMap_relocate_def Let_def)
  then have "mset (entries_of (HashMap_relocate bs b e j)) = add_mset ?e (mset (entries_of ?bs))"
    by simp
  moreover have "mset (entries_of ?bs) + mset (bk_entries (bs ! b)) = mset (entries_of bs) + mset (bk_entries ?x)"
    by (rule mset_entries_update) (rule assms(1))
  moreover have "mset (bk_entries (bs ! b)) = add_mset ?e (mset (bk_entries ?x))"
    using mset_cut [OF assms(2)] by simp
  ultimately show ?thesis by simp
qed

text \<open>
  One walk over a bucket keeps the entries and what was already placed, and places the bucket.
\<close>

lemma rehash_bucket_correct:
  assumes "HashMap_rehash_bucket hash old b e bs ch = (bs', ch')" and "b < length bs"
    and "\<forall>i < e. HashMap_index (hash (fst (bk_entries (bs ! b) ! i))) (length bs) = b"
    and "e \<le> length (bk_entries (bs ! b))"
  shows "length bs' = length bs \<and> mset (entries_of bs') = mset (entries_of bs) \<and> placed hash bs' b
    \<and> (\<forall>i < length bs. placed hash bs i \<longrightarrow> placed hash bs' i)"
  using assms
proof (induction hash old b e bs ch rule: HashMap_rehash_bucket.induct)
  case (1 hash old b e bs ch)
  let ?j = "HashMap_index (hash (fst (bk_entries (bs ! b) ! e))) (length bs)"
  show ?case
  proof (cases "e < length (bk_entries (bs ! b))")
    case True
    show ?thesis
    proof (cases "b = ?j")
      case False
      let ?bs = "HashMap_relocate bs b e ?j"
      have j: "?j < length bs" using 1(4) by (intro HashMap_index_less) auto
      have ents: "bk_entries (?bs ! b) = take e (bk_entries (bs ! b)) @ drop (Suc e) (bk_entries (bs ! b))"
        using 1(4) False by (simp add: bk_entries_relocate)
      have "HashMap_rehash_bucket hash old b e ?bs (ch \<or> ?j < old) = (bs', ch')"
        using 1(3,4) True False by (simp add: HashMap_rehash_bucket.simps [of hash old b e bs ch] Let_def)
      moreover have "\<forall>i < e. HashMap_index (hash (fst (bk_entries (?bs ! b) ! i))) (length ?bs) = b"
        using 1(5) True by (simp add: ents nth_append)
      moreover have "e \<le> length (bk_entries (?bs ! b))" using True by (simp add: ents)
      ultimately have IH: "length bs' = length ?bs \<and> mset (entries_of bs') = mset (entries_of ?bs)
          \<and> placed hash bs' b \<and> (\<forall>i < length ?bs. placed hash ?bs i \<longrightarrow> placed hash bs' i)"
        using 1(1) [OF _ refl refl False] 1(4) True by simp
      have "placed hash ?bs i" if "i < length bs" "placed hash bs i" for i
        using that 1(4) False j
        by (auto simp: placed_def bk_entries_relocate dest: in_set_takeD in_set_dropD)
      with IH show ?thesis using mset_entries_relocate [OF 1(4) True j False] by auto
    next
      case eq: True
      have "HashMap_rehash_bucket hash old b (Suc e) bs ch = (bs', ch')"
        using 1(3,4) True eq by (simp add: HashMap_rehash_bucket.simps [of hash old b e bs ch] Let_def)
      moreover have "\<forall>i < Suc e. HashMap_index (hash (fst (bk_entries (bs ! b) ! i))) (length bs) = b"
        using 1(5) eq by (auto simp: less_Suc_eq)
      ultimately show ?thesis
        using 1(2) [OF _ refl refl _ _ 1(4)] 1(4) True eq by simp
    qed
  next
    case False
    then have "placed hash bs b"
      using 1(5,6) by (auto simp: placed_def in_set_conv_nth) (metis fst_conv)
    with False 1(3) show ?thesis by (auto simp: HashMap_rehash_bucket.simps [of hash old b e bs ch])
  qed
qed

lemma rehash_pass_correct:
  assumes "HashMap_rehash_pass hash old b n bs ch = (bs', ch')" and "b + n \<le> length bs"
  shows "length bs' = length bs \<and> mset (entries_of bs') = mset (entries_of bs)
    \<and> (\<forall>i < length bs. (b \<le> i \<and> i < b + n) \<or> placed hash bs i \<longrightarrow> placed hash bs' i)"
  using assms
proof (induction n arbitrary: b bs ch)
  case 0
  then show ?case by auto
next
  case (Suc n)
  obtain bs1 ch1 where r: "HashMap_rehash_bucket hash old b 0 bs ch = (bs1, ch1)"
    by (cases "HashMap_rehash_bucket hash old b 0 bs ch")
  have b: "length bs1 = length bs \<and> mset (entries_of bs1) = mset (entries_of bs) \<and> placed hash bs1 b
    \<and> (\<forall>i < length bs. placed hash bs i \<longrightarrow> placed hash bs1 i)"
    using Suc.prems(2) by (intro rehash_bucket_correct [OF r]) auto
  have p: "length bs' = length bs1 \<and> mset (entries_of bs') = mset (entries_of bs1)
    \<and> (\<forall>i < length bs1. (Suc b \<le> i \<and> i < Suc b + n) \<or> placed hash bs1 i \<longrightarrow> placed hash bs' i)"
    using Suc.prems r b by (intro Suc.IH) auto
  have "placed hash bs' i" if "i < length bs" "(b \<le> i \<and> i < b + Suc n) \<or> placed hash bs i" for i
    using that b p by (cases "i = b") auto
  with b p show ?case by auto
qed

lemma rehash_correct:
  assumes "old \<le> length bs" and "\<forall>i < length bs. old \<le> i \<longrightarrow> placed hash bs i"
  shows "length (HashMap_rehash hash old bs) = length bs
    \<and> mset (entries_of (HashMap_rehash hash old bs)) = mset (entries_of bs)
    \<and> (\<forall>i < length bs. placed hash (HashMap_rehash hash old bs) i)"
  using assms
proof (induction hash old bs rule: HashMap_rehash.induct)
  case (1 hash old bs)
  obtain bs1 ch1 where r: "HashMap_rehash_pass hash old 0 old bs False = (bs1, ch1)"
    by (cases "HashMap_rehash_pass hash old 0 old bs False")
  have "0 + old \<le> length bs" using 1(2) by simp
  from rehash_pass_correct [OF r this] 1(3)
  have p: "length bs1 = length bs \<and> mset (entries_of bs1) = mset (entries_of bs)
    \<and> (\<forall>i < length bs. placed hash bs1 i)"
    by (auto simp: linorder_not_less [symmetric])
  show ?case
  proof (cases ch1)
    case True
    with 1(1) [OF r [symmetric]] p 1(2) r show ?thesis
      by (simp add: HashMap_rehash.simps [of hash old bs])
  next
    case False
    with p r show ?thesis by (simp add: HashMap_rehash.simps [of hash old bs])
  qed
qed

text \<open>No bucket ever holds more entries than its array has room for.\<close>

definition bucket_ok :: "('k, 'v) Bucket \<Rightarrow> bool" where
  "bucket_ok b \<longleftrightarrow> length (bk_entries b) \<le> bk_capacity b"

lemma bucket_ok_append: "bucket_ok b \<Longrightarrow> bucket_ok (HashMap_append_entry b e)"
  by (auto simp: bucket_ok_def HashMap_append_entry_def HashMap_grow_bucket_def Let_def)

lemma buckets_ok_relocate:
  assumes "\<forall>b \<in> set bs. bucket_ok b" and "b < length bs" and "j < length bs"
  shows "\<forall>b \<in> set (HashMap_relocate bs b e j). bucket_ok b"
proof -
  let ?x = "(bs ! b)\<lparr>bk_entries :=
    take e (bk_entries (bs ! b)) @ drop (Suc e) (bk_entries (bs ! b))\<rparr>"
  have "bucket_ok (bs ! b)" using assms(1,2) by simp
  then have "bucket_ok ?x" by (auto simp: bucket_ok_def min_def)
  with assms(1) have ok: "\<forall>b \<in> set (bs[b := ?x]). bucket_ok b" by (rule ball_list_update)
  with assms(3) have "bucket_ok (bs[b := ?x] ! j)" by simp
  then show ?thesis
    unfolding HashMap_relocate_def Let_def by (intro ball_list_update ok bucket_ok_append)
qed

lemma buckets_ok_rehash_bucket:
  "HashMap_rehash_bucket hash old b e bs ch = (bs', ch') \<Longrightarrow> \<forall>b \<in> set bs. bucket_ok b \<Longrightarrow>
    length bs' = length bs \<and> (\<forall>b \<in> set bs'. bucket_ok b)"
proof (induction hash old b e bs ch rule: HashMap_rehash_bucket.induct)
  case (1 hash old b e bs ch)
  let ?j = "HashMap_index (hash (fst (bk_entries (bs ! b) ! e))) (length bs)"
  consider "\<not> (b < length bs \<and> e < length (bk_entries (bs ! b)))"
    | (keep) "b < length bs \<and> e < length (bk_entries (bs ! b))" "b = ?j"
    | (move) "b < length bs \<and> e < length (bk_entries (bs ! b))" "b \<noteq> ?j" by blast
  then show ?case
  proof cases
    case 1
    with "1.prems" show ?thesis by (auto simp: HashMap_rehash_bucket.simps [of hash old b e bs ch])
  next
    case keep
    have "HashMap_rehash_bucket hash old b (Suc e) bs ch = (bs', ch')"
      using 1(3) keep by (simp add: HashMap_rehash_bucket.simps [of hash old b e bs ch] Let_def)
    with 1(2) [OF keep(1) refl refl] keep(2) "1.prems"(2) show ?thesis by blast
  next
    case move
    have "HashMap_rehash_bucket hash old b e (HashMap_relocate bs b e ?j) (ch \<or> ?j < old) = (bs', ch')"
      using 1(3) move by (simp add: HashMap_rehash_bucket.simps [of hash old b e bs ch] Let_def)
    moreover have "?j < length bs" using move by (intro HashMap_index_less) auto
    then have "\<forall>b \<in> set (HashMap_relocate bs b e ?j). bucket_ok b"
      using move(1) by (intro buckets_ok_relocate [OF "1.prems"(2)]) auto
    ultimately show ?thesis using 1(1) [OF move(1) refl refl move(2)] by simp
  qed
qed

lemma buckets_ok_rehash_pass:
  "HashMap_rehash_pass hash old b n bs ch = (bs', ch') \<Longrightarrow> \<forall>b \<in> set bs. bucket_ok b \<Longrightarrow>
    \<forall>b \<in> set bs'. bucket_ok b"
  by (induction n arbitrary: b bs ch)
    (auto split: prod.splits dest!: buckets_ok_rehash_bucket)

lemma buckets_ok_rehash:
  "\<forall>b \<in> set bs. bucket_ok b \<Longrightarrow> \<forall>b \<in> set (HashMap_rehash hash old bs). bucket_ok b"
proof (induction hash old bs rule: HashMap_rehash.induct)
  case (1 hash old bs)
  obtain bs1 ch1 where r: "HashMap_rehash_pass hash old 0 old bs False = (bs1, ch1)"
    by (cases "HashMap_rehash_pass hash old 0 old bs False")
  with 1(1) [OF r [symmetric]] buckets_ok_rehash_pass [OF r 1(2)] show ?case
    by (simp add: HashMap_rehash.simps [of hash old bs])
qed

section \<open>The contract\<close>

definition HashMap_abs :: "('k, 'v) HashMap \<Rightarrow> 'k \<rightharpoonup> 'v" where
  "HashMap_abs m = map_of (entries_of (hm_buckets m))"

definition HashMap_inv :: "('k \<Rightarrow> uint) \<Rightarrow> ('k \<Rightarrow> bool) \<Rightarrow> ('k, 'v) HashMap \<Rightarrow> bool" where
  "HashMap_inv hash valid m \<longleftrightarrow> hm_buckets m \<noteq> []
    \<and> (\<forall>i < length (hm_buckets m). placed hash (hm_buckets m) i)
    \<and> distinct (map fst (entries_of (hm_buckets m)))
    \<and> (\<forall>e \<in> set (entries_of (hm_buckets m)). valid (fst e))
    \<and> hm_count m = length (entries_of (hm_buckets m))
    \<and> (\<forall>b \<in> set (hm_buckets m). bucket_ok b)"

lemma HashMap_grow_correct:
  assumes "HashMap_inv hash valid m"
  shows "HashMap_inv hash valid (HashMap_grow hash m) \<and> HashMap_abs (HashMap_grow hash m) = HashMap_abs m
    \<and> length (hm_buckets (HashMap_grow hash m)) = max 3 (2 * length (hm_buckets m))"
proof -
  let ?old = "length (hm_buckets m)"
  let ?bs = "hm_buckets m @ replicate (max 3 (?old * 2) - ?old) HashMap_init_bucket"
  let ?bs' = "HashMap_rehash hash ?old ?bs"
  note m = assms [unfolded HashMap_inv_def]
  have new: "\<forall>i < length ?bs. ?old \<le> i \<longrightarrow> placed hash ?bs i"
    by (simp add: placed_def nth_append HashMap_init_bucket_def)
  have r: "length ?bs' = length ?bs \<and> mset (entries_of ?bs') = mset (entries_of ?bs)
      \<and> (\<forall>i < length ?bs. placed hash ?bs' i)"
    by (rule rehash_correct [OF _ new]) simp
  have eo: "entries_of ?bs = entries_of (hm_buckets m)"
    by (simp add: entries_of_def HashMap_init_bucket_def)
  have perm: "mset (entries_of ?bs') = mset (entries_of (hm_buckets m))" using r eo by simp
  have "distinct (map fst (entries_of ?bs'))"
    using m perm by (metis mset_map mset_eq_imp_distinct_iff)
  moreover have "length (entries_of ?bs') = length (entries_of (hm_buckets m))"
    using perm by (metis size_mset)
  moreover have "set (entries_of ?bs') = set (entries_of (hm_buckets m))"
    using perm by (metis set_mset_mset)
  moreover have "\<forall>b \<in> set ?bs'. bucket_ok b"
    using m by (intro buckets_ok_rehash) (auto simp: bucket_ok_def HashMap_init_bucket_def)
  moreover have len: "length ?bs' = max 3 (2 * ?old)" using r by auto
  moreover have "?bs' \<noteq> []" using len by force
  moreover have "map_of (entries_of (hm_buckets m)) = map_of (entries_of ?bs')"
    using m perm by (intro map_of_perm) auto
  ultimately show ?thesis
    using m r by (simp add: HashMap_inv_def HashMap_abs_def HashMap_grow_def Let_def)
qed

lemma HashMap_abs_bucket:
  assumes "HashMap_inv hash valid m"
  shows "HashMap_abs m key =
    map_of (bk_entries (hm_buckets m ! HashMap_index (hash key) (length (hm_buckets m)))) key"
proof -
  let ?bs = "hm_buckets m" and ?i = "HashMap_index (hash key) (length (hm_buckets m))"
  note m = assms [unfolded HashMap_inv_def]
  have i: "?i < length ?bs" using m by (intro HashMap_index_less) auto
  show ?thesis
  proof (cases "map_of (bk_entries (?bs ! ?i)) key")
    case None
    have "key \<notin> fst ` set (entries_of ?bs)"
    proof
      assume "key \<in> fst ` set (entries_of ?bs)"
      then obtain j e where j: "j < length ?bs" "e \<in> set (bk_entries (?bs ! j))" "fst e = key"
        by (auto simp: set_entries_of)
      then have "j = ?i" using m by (auto simp: placed_def)
      with j None show False by (auto simp: map_of_eq_None_iff)
    qed
    then show ?thesis using None by (simp add: HashMap_abs_def map_of_eq_None_iff [symmetric])
  next
    case (Some v)
    then have "(key, v) \<in> set (entries_of ?bs)"
      using i by (auto simp: set_entries_of dest!: map_of_SomeD)
    with m have "map_of (entries_of ?bs) key = Some v" by (intro map_of_is_SomeI) auto
    with Some show ?thesis by (simp add: HashMap_abs_def)
  qed
qed

lemma better_capacity_pos: "0 < b \<Longrightarrow> 0 < HashMap_better_capacity b n"
  by (induction b n rule: HashMap_better_capacity.induct)
    (subst HashMap_better_capacity.simps, simp)

lemma better_capacity_power2:
  "\<exists>k. HashMap_better_capacity (2 ^ j) n = 2 ^ k \<and> n \<le> 2 ^ k"
proof (induction "n - 2 ^ j" arbitrary: j rule: less_induct)
  case less
  show ?case
  proof (cases "2 ^ j < n")
    case True
    have "n - 2 ^ Suc j < n - 2 ^ j" using True by (intro diff_less_mono2) simp_all
    with less.hyps [of "Suc j"] True show ?thesis
      by (subst HashMap_better_capacity.simps) (simp add: mult.commute)
  next
    case False
    then show ?thesis by (subst HashMap_better_capacity.simps) (auto intro!: exI [of _ j])
  qed
qed

lemma HashMap_init_correct:
  "HashMap_inv hash valid (HashMap_init n) \<and> HashMap_abs (HashMap_init n) = Map.empty"
  using better_capacity_pos [of 1 n]
  by (auto simp: HashMap_inv_def HashMap_abs_def HashMap_init_def HashMap_init_bucket_def
      entries_of_def placed_def bucket_ok_def)

context key_equality
begin

lemma HashMap_scan_map_of:
  "valid key \<Longrightarrow> (\<forall>e \<in> set es. valid (fst e)) \<Longrightarrow> HashMap_scan equals key es = map_of es key"
  by (induction es) (auto simp: equals_iff)

lemma HashMap_get_abs:
  assumes "HashMap_inv hash valid m" and "valid k"
  shows "HashMap_get hash equals m k = HashMap_abs m k"
proof -
  let ?i = "HashMap_index (hash k) (length (hm_buckets m))"
  have "?i < length (hm_buckets m)"
    using assms(1) by (intro HashMap_index_less) (auto simp: HashMap_inv_def)
  then have "\<forall>e \<in> set (bk_entries (hm_buckets m ! ?i)). valid (fst e)"
    using assms(1) by (auto simp: HashMap_inv_def set_entries_of)
  then show ?thesis
    using assms by (simp add: HashMap_get_def Let_def HashMap_abs_bucket HashMap_scan_map_of)
qed

text \<open>A put into a map that has room for one more entry without growing.\<close>

lemma HashMap_store:
  assumes m: "HashMap_inv hash valid m" and "valid k" and "HashMap_abs m k = None"
    and i: "i = HashMap_index (hash k) (length (hm_buckets m))"
    and m': "m' = m\<lparr>hm_buckets := (hm_buckets m)[i := HashMap_append_entry (hm_buckets m ! i) (k, v)],
                     hm_count := Suc (hm_count m)\<rparr>"
  shows "HashMap_inv hash valid m' \<and> HashMap_abs m' = (HashMap_abs m)(k \<mapsto> v)"
proof -
  note inv = m [unfolded HashMap_inv_def]
  let ?bs = "hm_buckets m" and ?bs' = "hm_buckets m'"
  have il: "i < length ?bs" using inv i by (auto intro: HashMap_index_less)
  have "mset (entries_of ?bs') + mset (bk_entries (?bs ! i))
      = mset (entries_of ?bs) + mset (bk_entries (HashMap_append_entry (?bs ! i) (k, v)))"
    using mset_entries_update [OF il] by (simp add: m')
  then have ms: "mset (entries_of ?bs') = mset ((k, v) # entries_of ?bs)" by simp
  have "k \<notin> fst ` set (entries_of ?bs)"
    using assms(3) by (simp add: HashMap_abs_def map_of_eq_None_iff)
  then have d: "distinct (map fst ((k, v) # entries_of ?bs))" using inv by simp
  have "distinct (map fst (entries_of ?bs'))"
    using d ms by (metis mset_map mset_eq_imp_distinct_iff)
  moreover have "set (entries_of ?bs') = insert (k, v) (set (entries_of ?bs))"
    using ms by (metis set_mset_mset list.set(2))
  moreover have "length (entries_of ?bs') = Suc (length (entries_of ?bs))"
    using ms by (metis size_mset length_Cons)
  moreover have "\<forall>j < length ?bs'. placed hash ?bs' j"
    using inv il i by (auto simp: m' placed_def nth_list_update)
  moreover have "\<forall>b \<in> set ?bs'. bucket_ok b"
    using inv il by (auto simp: m' dest!: set_update_subset_insert [THEN subsetD] intro!: bucket_ok_append)
  moreover have "map_of ((k, v) # entries_of ?bs) = map_of (entries_of ?bs')"
    using d ms [symmetric] by (rule map_of_perm)
  then have "HashMap_abs m' = (HashMap_abs m)(k \<mapsto> v)" by (simp add: HashMap_abs_def)
  ultimately show ?thesis
    using inv assms(2) by (auto simp: HashMap_inv_def m')
qed

lemma HashMap_put_correct:
  assumes "HashMap_inv hash valid m" and "valid k"
  shows "HashMap_inv hash valid (snd (HashMap_put hash equals m k v))
    \<and> fst (HashMap_put hash equals m k v) = (HashMap_abs m k = None)
    \<and> HashMap_abs (snd (HashMap_put hash equals m k v))
        = (if HashMap_abs m k = None then (HashMap_abs m)(k \<mapsto> v) else HashMap_abs m)"
proof -
  define m1 where "m1 = (if hm_count m = length (hm_buckets m) then HashMap_grow hash m else m)"
  have m1: "HashMap_inv hash valid m1" "HashMap_abs m1 = HashMap_abs m"
    using HashMap_grow_correct [OF assms(1)] assms(1) by (auto simp: m1_def)
  have scan: "HashMap_scan equals k (bk_entries (hm_buckets m1 !
      HashMap_index (hash k) (length (hm_buckets m1)))) = HashMap_abs m k"
    using HashMap_get_abs [OF m1(1) assms(2)] m1(2) by (simp add: HashMap_get_def Let_def)
  show ?thesis
  proof (cases "HashMap_abs m k")
    case None
    with HashMap_store [OF m1(1) assms(2) _ refl refl, of v] m1 scan show ?thesis
      by (simp add: HashMap_put_def Let_def m1_def [symmetric])
  next
    case (Some v')
    with m1 scan show ?thesis by (simp add: HashMap_put_def Let_def m1_def [symmetric])
  qed
qed

lemma HashMap_clear_correct:
  "HashMap_inv hash valid m \<Longrightarrow>
    HashMap_inv hash valid (HashMap_clear m) \<and> HashMap_abs (HashMap_clear m) = Map.empty"
proof -
  assume m: "HashMap_inv hash valid m"
  have "entries_of (hm_buckets (HashMap_clear m)) = []"
    by (simp add: entries_of_def HashMap_clear_def)
  with m show ?thesis
    by (auto simp: HashMap_inv_def HashMap_abs_def HashMap_clear_def placed_def bucket_ok_def)
qed

end

sublocale key_equality \<subseteq> hashed: unbounded_map
  "HashMap_ops hash equals" "HashMap_inv hash valid" HashMap_abs valid
  for hash
  by unfold_locales
    (auto simp: HashMap_ops_def HashMap_get_abs HashMap_put_correct HashMap_clear_correct)

sublocale key_equality \<subseteq> hashed: counting_map
  "HashMap_ops hash equals" "HashMap_inv hash valid" HashMap_abs valid
  for hash
  by unfold_locales
    (auto simp: HashMap_ops_def HashMap_get_size_def HashMap_inv_def HashMap_abs_def
      card_dom_map_of finite_dom_map_of)

end
