(* ===== verification/InflatableMap.thy ===== *)
theory InflatableMap
  imports SmallMap HashMap
begin

text \<open>
  \<open>prims/InflatableMap.hpp\<close>: a \<open>SmallMap\<close> that turns into a heavier map the first time it refuses
  a \<open>put\<close>.  The payload union with \<open>is_inflated\<close> is a datatype; the heavier map is reached through
  its virtual functions \<open>fat\<close>, and \<open>create_fat\<close> is the result of the template's factory
  (\<open>None\<close> for a null pointer).
\<close>

section \<open>The operations\<close>

datatype ('k, 'v, 'f) InflatableMap = Thin "('k, 'v) SmallMap" | Fat 'f

definition InflatableMap_init :: "('k, 'v, 'f) InflatableMap" where
  "InflatableMap_init = Thin SmallMap_init"

primrec InflatableMap_get_size :: "('k, 'v, 'f, 'z) Map_ops_scheme \<Rightarrow> ('k, 'v, 'f) InflatableMap \<Rightarrow> nat" where
  "InflatableMap_get_size fat (Thin t) = SmallMap_get_size t"
| "InflatableMap_get_size fat (Fat f) = Map_get_size fat f"

primrec InflatableMap_get ::
  "('k, 'v, 'f, 'z) Map_ops_scheme \<Rightarrow> ('k \<Rightarrow> 'k \<Rightarrow> bool) \<Rightarrow> ('k, 'v, 'f) InflatableMap \<Rightarrow> 'k \<Rightarrow> 'v option" where
  "InflatableMap_get fat equals (Thin t) key = SmallMap_get equals t key"
| "InflatableMap_get fat equals (Fat f) key = Map_get fat f key"

fun InflatableMap_put ::
  "('k, 'v, 'f, 'z) Map_ops_scheme \<Rightarrow> ('k \<Rightarrow> 'k \<Rightarrow> bool) \<Rightarrow> nat \<Rightarrow> 'f option
    \<Rightarrow> ('k, 'v, 'f) InflatableMap \<Rightarrow> 'k \<Rightarrow> 'v \<Rightarrow> bool \<times> ('k, 'v, 'f) InflatableMap" where
  "InflatableMap_put fat equals thin_capacity create_fat (Fat f) key val =
    (case Map_put fat f key val of (stored, f') \<Rightarrow> (stored, Fat f'))"
| "InflatableMap_put fat equals thin_capacity create_fat (Thin t) key val =
    (case SmallMap_put thin_capacity equals t key val of (stored, t') \<Rightarrow>
       if stored then (True, Thin t')
       else (case create_fat of
               Some f0 \<Rightarrow>
                 (let f1 = Map_put_all fat f0 (map (SmallMap_get_at t') [0..<SmallMap_get_size t'])
                  in case Map_put fat f1 key val of (stored, f2) \<Rightarrow> (stored, Fat f2))
             | None \<Rightarrow> (False, Thin t')))"

primrec InflatableMap_remove ::
  "('k, 'v, 'f, 'z) Map_ops_scheme \<Rightarrow> ('k, 'v, 'f) InflatableMap \<Rightarrow> 'k
    \<Rightarrow> bool \<times> ('k, 'v, 'f) InflatableMap" where
  "InflatableMap_remove fat (Thin t) key = (case SmallMap_remove t key of (b, t') \<Rightarrow> (b, Thin t'))"
| "InflatableMap_remove fat (Fat f) key = (case Map_remove fat f key of (b, f') \<Rightarrow> (b, Fat f'))"

primrec InflatableMap_clear ::
  "('k, 'v, 'f, 'z) Map_ops_scheme \<Rightarrow> ('k, 'v, 'f) InflatableMap \<Rightarrow> ('k, 'v, 'f) InflatableMap" where
  "InflatableMap_clear fat (Thin t) = Thin (SmallMap_clear t)"
| "InflatableMap_clear fat (Fat f) = Fat (Map_clear fat f)"

definition InflatableMap_ops ::
  "('k, 'v, 'f, 'z) Map_ops_scheme \<Rightarrow> ('k \<Rightarrow> 'k \<Rightarrow> bool) \<Rightarrow> nat \<Rightarrow> 'f option
    \<Rightarrow> ('k, 'v, ('k, 'v, 'f) InflatableMap) Map_ops" where
  "InflatableMap_ops fat equals thin_capacity create_fat =
    \<lparr>Map_get_size = InflatableMap_get_size fat, Map_get = InflatableMap_get fat equals,
     Map_put = InflatableMap_put fat equals thin_capacity create_fat,
     Map_remove = InflatableMap_remove fat, Map_clear = InflatableMap_clear fat\<rparr>"

section \<open>The contract\<close>

primrec InflatableMap_abs :: "('f \<Rightarrow> 'k \<rightharpoonup> 'v) \<Rightarrow> ('k, 'v, 'f) InflatableMap \<Rightarrow> 'k \<rightharpoonup> 'v" where
  "InflatableMap_abs fat_abs (Thin t) = SmallMap_abs t"
| "InflatableMap_abs fat_abs (Fat f) = fat_abs f"

primrec InflatableMap_inv ::
  "nat \<Rightarrow> ('k \<Rightarrow> bool) \<Rightarrow> ('f \<Rightarrow> bool) \<Rightarrow> ('k, 'v, 'f) InflatableMap \<Rightarrow> bool" where
  "InflatableMap_inv thin_capacity valid fat_inv (Thin t) \<longleftrightarrow> SmallMap_inv thin_capacity valid t"
| "InflatableMap_inv thin_capacity valid fat_inv (Fat f) \<longleftrightarrow> fat_inv f"

lemma SmallMap_entries: "map (SmallMap_get_at t) [0..<SmallMap_get_size t] = sm_slots t"
  by (rule nth_equalityI) (simp_all add: SmallMap_get_at_def SmallMap_get_size_def)

text \<open>An inflatable map over a heavier map that is unbounded and starts empty.\<close>

locale inflatable = key_equality equals valid + fat: unbounded_map fat fat_inv fat_abs valid
  for equals :: "'k \<Rightarrow> 'k \<Rightarrow> bool" and valid :: "'k \<Rightarrow> bool"
    and fat :: "('k, 'v, 'f, 'z) Map_ops_scheme" and fat_inv fat_abs +
  fixes thin_capacity :: nat and fat0 :: 'f
  assumes fat0_inv: "fat_inv fat0" and fat0_abs: "fat_abs fat0 = Map.empty"
begin

lemma inflate:
  assumes "SmallMap_inv thin_capacity valid t"
  shows "fat_inv (Map_put_all fat fat0 (sm_slots t))
    \<and> fat_abs (Map_put_all fat fat0 (sm_slots t)) = SmallMap_abs t"
  using assms fat.put_all_inv [OF fat0_inv, of "sm_slots t"] fat.put_all_abs [OF fat0_inv, of "sm_slots t"]
  by (auto simp: SmallMap_inv_def SmallMap_abs_def fat0_abs)

lemma InflatableMap_put_correct:
  assumes "InflatableMap_inv thin_capacity valid fat_inv m" and "valid k"
  shows "InflatableMap_inv thin_capacity valid fat_inv
      (snd (InflatableMap_put fat equals thin_capacity (Some fat0) m k v))
    \<and> fst (InflatableMap_put fat equals thin_capacity (Some fat0) m k v)
        = (InflatableMap_abs fat_abs m k = None)
    \<and> InflatableMap_abs fat_abs (snd (InflatableMap_put fat equals thin_capacity (Some fat0) m k v))
        = (if InflatableMap_abs fat_abs m k = None then (InflatableMap_abs fat_abs m)(k \<mapsto> v)
           else InflatableMap_abs fat_abs m)"
proof (cases m)
  case (Fat f)
  with assms fat.put_result [of f k v] show ?thesis
    by (auto split: prod.splits simp: fat.put_inv fat.put_abs prod_eq_iff)
next
  case (Thin t)
  then have t: "SmallMap_inv thin_capacity valid t" using assms(1) by simp
  show ?thesis
  proof (cases "fst (SmallMap_put thin_capacity equals t k v)")
    case True
    with t assms(2) Thin small.put_inv [of thin_capacity t k v] small.put_abs [of thin_capacity t k v]
      small.put_new [of thin_capacity t k v]
    show ?thesis by (auto simp: SmallMap_ops_def split: prod.splits)
  next
    case False
    let ?f = "Map_put_all fat fat0 (sm_slots t)"
    have "SmallMap_put thin_capacity equals t k v = (False, t)"
      using False t assms(2) by (simp add: SmallMap_put_cases split: if_splits)
    then have "InflatableMap_put fat equals thin_capacity (Some fat0) m k v
        = (fst (Map_put fat ?f k v), Fat (snd (Map_put fat ?f k v)))"
      using Thin by (simp add: SmallMap_entries split: prod.splits)
    with inflate [OF t] assms(2) Thin show ?thesis
      by (simp add: fat.put_inv fat.put_abs fat.put_result)
  qed
qed

end

sublocale inflatable \<subseteq> inflated: unbounded_map
  "InflatableMap_ops fat equals thin_capacity (Some fat0)"
  "InflatableMap_inv thin_capacity valid fat_inv" "InflatableMap_abs fat_abs" valid
proof (unfold_locales, goal_cases)
  case (1 m k)
  then show ?case by (cases m) (auto simp: InflatableMap_ops_def SmallMap_get_abs fat.get_law)
next
  case (2 m k v)
  then show ?case by (simp add: InflatableMap_ops_def InflatableMap_put_correct)
next
  case (3 m k v)
  then show ?case by (simp add: InflatableMap_ops_def InflatableMap_put_correct)
next
  case (4 m k v)
  then show ?case by (simp add: InflatableMap_ops_def InflatableMap_put_correct)
next
  case (5 m)
  then show ?case
    using small.clear_inv [of thin_capacity]
    by (cases m) (auto simp: InflatableMap_ops_def fat.clear_inv SmallMap_ops_def)
next
  case (6 m)
  then show ?case
    using small.clear_abs [of thin_capacity]
    by (cases m) (auto simp: InflatableMap_ops_def fat.clear_abs SmallMap_ops_def)
next
  case (7 m k v)
  then show ?case by (simp add: InflatableMap_ops_def InflatableMap_put_correct)
qed

end
