(* ===== verification/SortedList.thy ===== *)
theory SortedList
  imports Prelude
begin

text \<open>
  \<open>prims/SortedList.hpp\<close> with \<open>SORTED_LIST_USE_GAPS\<close>: a sorted array with a movable gap of
  unused slots, so that neighbouring insertions need not shift the tail.  \<open>sl_data\<close> holds the
  \<open>capacity\<close> slots (\<open>None\<close> for memory not yet written); \<open>gap_length\<close> is \<open>capacity - size\<close>.  The
  template arguments \<open>compare\<close> and \<open>is_floor_of\<close> are parameters.
\<close>

section \<open>The operations\<close>

record 'e SortedList =
  sl_data :: "'e option list"
  sl_size :: nat
  sl_gap_start :: nat

definition SortedList_init :: "nat \<Rightarrow> 'e SortedList" where
  "SortedList_init init_capacity =
    \<lparr>sl_data = replicate init_capacity None, sl_size = 0, sl_gap_start = 0\<rparr>"

definition SortedList_get_capacity :: "'e SortedList \<Rightarrow> nat" where
  "SortedList_get_capacity s = length (sl_data s)"

definition SortedList_get_size :: "'e SortedList \<Rightarrow> nat" where
  "SortedList_get_size s = sl_size s"

definition SortedList_gap_length :: "'e SortedList \<Rightarrow> nat" where
  "SortedList_gap_length s = SortedList_get_capacity s - sl_size s"

definition SortedList_get :: "'e SortedList \<Rightarrow> nat \<Rightarrow> 'e" where
  "SortedList_get s index =
    the (sl_data s ! (if sl_gap_start s \<le> index then index + SortedList_gap_length s else index))"

definition SortedList_foreach :: "('e \<Rightarrow> 'a \<Rightarrow> 'a) \<Rightarrow> 'e SortedList \<Rightarrow> 'a \<Rightarrow> 'a" where
  "SortedList_foreach visit s a = fold (\<lambda>index. visit (SortedList_get s index)) [0..<sl_size s] a"

text \<open>The binary search of \<open>get_index\<close>: whether the element was found, and where.\<close>

function SortedList_search ::
  "('e \<Rightarrow> 'e \<Rightarrow> int) \<Rightarrow> 'e SortedList \<Rightarrow> 'e \<Rightarrow> int \<Rightarrow> int \<Rightarrow> bool \<times> int" where
  "SortedList_search compare s element lo hi =
    (if lo \<le> hi then
       (let mi = lo + (hi - lo) div 2;
            comparison = compare (SortedList_get s (nat mi)) element
        in if comparison < 0 then SortedList_search compare s element (mi + 1) hi
           else if comparison > 0 then SortedList_search compare s element lo (mi - 1)
           else (True, mi))
     else (False, lo))"
  by pat_completeness auto
termination
  by (relation "measure (\<lambda>(compare, s, element, lo, hi). nat (hi - lo + 1))") auto

declare SortedList_search.simps [simp del]

text \<open>\<open>get_index\<close> first looks at the two neighbours of the gap.\<close>

definition SortedList_get_index :: "('e \<Rightarrow> 'e \<Rightarrow> int) \<Rightarrow> 'e SortedList \<Rightarrow> 'e \<Rightarrow> bool \<times> int" where
  "SortedList_get_index compare s element =
    (let gap_start = sl_gap_start s;
         comparison_left =
           (if gap_start = 0 then 1 else compare (SortedList_get s (gap_start - 1)) element);
         left_ok = (gap_start = 0 \<or> comparison_left \<le> 0);
         comparison_right =
           (if left_ok \<and> gap_start < sl_size s then compare element (SortedList_get s gap_start) else 1);
         right_ok = (sl_size s \<le> gap_start \<or> comparison_right \<le> 0)
     in if left_ok \<and> right_ok then
          (if comparison_left = 0 then (True, int gap_start - 1)
           else if comparison_right = 0 then (True, int gap_start)
           else (False, int gap_start))
        else SortedList_search compare s element 0 (int (sl_size s) - 1))"

definition SortedList_contains :: "('e \<Rightarrow> 'e \<Rightarrow> int) \<Rightarrow> 'e SortedList \<Rightarrow> 'e \<Rightarrow> bool" where
  "SortedList_contains compare s obj = fst (SortedList_get_index compare s obj)"

text \<open>The loop of \<open>floor\<close>: steps back to an element that \<open>is_floor_of\<close> accepts; \<open>-1\<close> if none.\<close>

primrec SortedList_floor_from :: "('e \<Rightarrow> 'e \<Rightarrow> bool) \<Rightarrow> 'e SortedList \<Rightarrow> 'e \<Rightarrow> nat \<Rightarrow> int" where
  "SortedList_floor_from is_floor_of s obj 0 = -1"
| "SortedList_floor_from is_floor_of s obj (Suc floor_index) =
    (if is_floor_of (SortedList_get s floor_index) obj then int floor_index
     else SortedList_floor_from is_floor_of s obj floor_index)"

definition SortedList_floor ::
  "('e \<Rightarrow> 'e \<Rightarrow> int) \<Rightarrow> ('e \<Rightarrow> 'e \<Rightarrow> bool) \<Rightarrow> 'e SortedList \<Rightarrow> 'e \<Rightarrow> int" where
  "SortedList_floor compare is_floor_of s obj =
    (case SortedList_get_index compare s obj of (exact, floor_index) \<Rightarrow>
       if exact then floor_index
       else SortedList_floor_from is_floor_of s obj (nat floor_index))"

definition SortedList_clear :: "'e SortedList \<Rightarrow> 'e SortedList" where
  "SortedList_clear s = s\<lparr>sl_size := 0, sl_gap_start := 0\<rparr>"

text \<open>\<open>memmove\<close> of \<open>n\<close> slots inside an array (\<open>memcpy\<close> when the ranges are disjoint).\<close>

definition memmove :: "'a list \<Rightarrow> nat \<Rightarrow> nat \<Rightarrow> nat \<Rightarrow> 'a list" where
  "memmove d dest src n = take dest d @ take n (drop src d) @ drop (dest + n) d"

definition SortedList_move_gap_to :: "'e SortedList \<Rightarrow> nat \<Rightarrow> 'e SortedList" where
  "SortedList_move_gap_to s index =
    (let gap_start = sl_gap_start s; gap_end = gap_start + SortedList_gap_length s;
         data = (if index = gap_start then sl_data s
                 else if gap_start \<le> index then
                   memmove (sl_data s) gap_start gap_end (index - gap_start)
                 else
                   memmove (sl_data s) (gap_end - (gap_start - index)) index (gap_start - index))
     in s\<lparr>sl_data := data, sl_gap_start := index\<rparr>)"

definition SortedList_grow :: "'e SortedList \<Rightarrow> 'e SortedList" where
  "SortedList_grow s0 =
    (let s = SortedList_move_gap_to s0 (sl_size s0);
         capacity = SortedList_get_capacity s;
         new_capacity = max 1 (capacity * 2)
     in s\<lparr>sl_data := sl_data s @ replicate (new_capacity - capacity) None\<rparr>)"

definition SortedList_add :: "('e \<Rightarrow> 'e \<Rightarrow> int) \<Rightarrow> 'e SortedList \<Rightarrow> 'e \<Rightarrow> 'e SortedList" where
  "SortedList_add compare s0 element =
    (let s1 = (if sl_size s0 = SortedList_get_capacity s0 then SortedList_grow s0 else s0);
         (match, pos) = SortedList_get_index compare s1 element; index = nat pos;
         s2 = (if match then s1
               else (let s = SortedList_move_gap_to s1 index
                     in s\<lparr>sl_gap_start := Suc (sl_gap_start s), sl_size := Suc (sl_size s)\<rparr>))
     in s2\<lparr>sl_data := (sl_data s2)[index := Some element]\<rparr>)"

definition SortedList_is_sorted :: "('e \<Rightarrow> 'e \<Rightarrow> int) \<Rightarrow> 'e SortedList \<Rightarrow> bool" where
  "SortedList_is_sorted compare s =
    (\<forall>index \<in> {1..<sl_size s}. compare (SortedList_get s (index - 1)) (SortedList_get s index) \<le> 0)"

section \<open>The gap\<close>

definition sl_list :: "'e SortedList \<Rightarrow> 'e list" where
  "sl_list s = map (SortedList_get s) [0..<sl_size s]"

definition SortedList_wf :: "'e SortedList \<Rightarrow> bool" where
  "SortedList_wf s \<longleftrightarrow> sl_gap_start s \<le> sl_size s \<and> sl_size s \<le> length (sl_data s)"

lemmas SortedList_gap_defs = SortedList_get_def SortedList_gap_length_def SortedList_get_capacity_def

lemma length_sl_list [simp]: "length (sl_list s) = sl_size s"
  by (simp add: sl_list_def)

lemma nth_sl_list [simp]: "i < sl_size s \<Longrightarrow> sl_list s ! i = SortedList_get s i"
  by (simp add: sl_list_def)

lemma length_memmove:
  "dest + n \<le> length d \<Longrightarrow> src + n \<le> length d \<Longrightarrow> length (memmove d dest src n) = length d"
  by (simp add: memmove_def)

lemma nth_memmove:
  "dest + n \<le> length d \<Longrightarrow> src + n \<le> length d \<Longrightarrow> i < length d \<Longrightarrow>
    memmove d dest src n ! i = (if dest \<le> i \<and> i < dest + n then d ! (src + (i - dest)) else d ! i)"
proof -
  assume "dest + n \<le> length d" "src + n \<le> length d" "i < length d"
  moreover from this have "min (length d - src) n = n" by simp
  ultimately show ?thesis by (auto simp: memmove_def nth_append)
qed

lemma move_gap_size [simp]: "sl_size (SortedList_move_gap_to s index) = sl_size s"
  "sl_gap_start (SortedList_move_gap_to s index) = index"
  by (simp_all add: SortedList_move_gap_to_def Let_def)

lemma move_gap_length:
  "SortedList_wf s \<Longrightarrow> index \<le> sl_size s \<Longrightarrow>
    length (sl_data (SortedList_move_gap_to s index)) = length (sl_data s)"
  by (auto simp: SortedList_move_gap_to_def Let_def SortedList_wf_def SortedList_gap_defs length_memmove)

lemma move_gap_get:
  assumes "SortedList_wf s" and "index \<le> sl_size s" and "i < sl_size s"
  shows "SortedList_get (SortedList_move_gap_to s index) i = SortedList_get s i"
proof -
  let ?gl = "SortedList_gap_length s" and ?gs = "sl_gap_start s"
  have wf: "?gs \<le> sl_size s" "sl_size s + ?gl = length (sl_data s)"
    using assms(1) by (auto simp: SortedList_wf_def SortedList_gap_defs)
  have gl: "SortedList_gap_length (SortedList_move_gap_to s index) = ?gl"
    using move_gap_length [OF assms(1,2)] by (simp add: SortedList_gap_defs)
  consider "index = ?gs" | "?gs < index" | "index < ?gs" by linarith
  then show ?thesis
  proof cases
    case 1
    then show ?thesis by (simp add: SortedList_move_gap_to_def Let_def)
  next
    case 2
    with wf assms gl show ?thesis
      by (auto simp: SortedList_get_def nth_memmove SortedList_move_gap_to_def Let_def ac_simps)
  next
    case 3
    with wf assms gl show ?thesis
      by (auto simp: SortedList_get_def nth_memmove SortedList_move_gap_to_def Let_def)
  qed
qed

lemma move_gap_list:
  "SortedList_wf s \<Longrightarrow> index \<le> sl_size s \<Longrightarrow> sl_list (SortedList_move_gap_to s index) = sl_list s"
  by (rule nth_equalityI) (simp_all add: move_gap_get)

lemma move_gap_wf:
  "SortedList_wf s \<Longrightarrow> index \<le> sl_size s \<Longrightarrow> SortedList_wf (SortedList_move_gap_to s index)"
  by (simp add: SortedList_wf_def [of "SortedList_move_gap_to s index"] move_gap_length)
    (simp add: SortedList_wf_def)

lemma grow_correct:
  assumes "SortedList_wf s"
  shows "SortedList_wf (SortedList_grow s) \<and> sl_list (SortedList_grow s) = sl_list s
    \<and> sl_size (SortedList_grow s) = sl_size s \<and> sl_gap_start (SortedList_grow s) = sl_size s
    \<and> length (sl_data (SortedList_grow s)) = max 1 (2 * length (sl_data s))"
proof -
  let ?s = "SortedList_move_gap_to s (sl_size s)"
  have wf: "SortedList_wf ?s" using assms by (rule move_gap_wf) simp
  have "SortedList_get (SortedList_grow s) i = SortedList_get ?s i" if "i < sl_size s" for i
    using that wf by (auto simp: SortedList_grow_def Let_def SortedList_get_def SortedList_wf_def nth_append)
  then have "sl_list (SortedList_grow s) = sl_list ?s"
    by (intro nth_equalityI) (simp_all add: SortedList_grow_def Let_def)
  then show ?thesis
    using wf move_gap_list [OF assms, of "sl_size s"] move_gap_length [OF assms, of "sl_size s"]
    by (auto simp: SortedList_grow_def Let_def SortedList_wf_def SortedList_get_capacity_def)
qed

section \<open>Searching and inserting\<close>

definition SortedList_sorted ::
  "('k \<Rightarrow> 'k \<Rightarrow> bool) \<Rightarrow> ('e \<Rightarrow> 'k) \<Rightarrow> ('e \<Rightarrow> bool) \<Rightarrow> 'e SortedList \<Rightarrow> bool" where
  "SortedList_sorted lt key valid s \<longleftrightarrow> SortedList_wf s
    \<and> sorted_wrt (\<lambda>a b. lt (key a) (key b)) (sl_list s) \<and> (\<forall>e \<in> set (sl_list s). valid e)"

text \<open>
  The place of an element in a list: where an equal element is, or where it belongs.
\<close>

definition index_spec :: "('k \<Rightarrow> 'k \<Rightarrow> bool) \<Rightarrow> ('e \<Rightarrow> 'k) \<Rightarrow> 'e list \<Rightarrow> 'e \<Rightarrow> bool \<Rightarrow> nat \<Rightarrow> bool" where
  "index_spec lt key xs e exact i \<longleftrightarrow>
    (if exact then i < length xs \<and> key (xs ! i) = key e
     else i \<le> length xs \<and> (\<forall>j < i. lt (key (xs ! j)) (key e))
       \<and> (\<forall>j < length xs. i \<le> j \<longrightarrow> lt (key e) (key (xs ! j))))"

text \<open>What the list requires of its comparison function: a strict linear order on the keys.\<close>

locale comparator =
  fixes compare :: "'e \<Rightarrow> 'e \<Rightarrow> int" and key :: "'e \<Rightarrow> 'k" and lt :: "'k \<Rightarrow> 'k \<Rightarrow> bool"
    and valid :: "'e \<Rightarrow> bool"
  assumes lt_irrefl: "\<not> lt k k"
    and lt_trans: "lt k1 k2 \<Longrightarrow> lt k2 k3 \<Longrightarrow> lt k1 k3"
    and cmp_less: "valid a \<Longrightarrow> valid b \<Longrightarrow> compare a b < 0 \<longleftrightarrow> lt (key a) (key b)"
    and cmp_greater: "valid a \<Longrightarrow> valid b \<Longrightarrow> compare a b > 0 \<longleftrightarrow> lt (key b) (key a)"
    and cmp_equal: "valid a \<Longrightarrow> valid b \<Longrightarrow> compare a b = 0 \<longleftrightarrow> key a = key b"
begin

abbreviation sl_sorted :: "'e SortedList \<Rightarrow> bool" where
  "sl_sorted s \<equiv> SortedList_sorted lt key valid s"

lemma sl_sorted_nth:
  "sl_sorted s \<Longrightarrow> i < j \<Longrightarrow> j < sl_size s \<Longrightarrow> lt (key (SortedList_get s i)) (key (SortedList_get s j))"
  using sorted_wrt_nth_less [of "\<lambda>a b. lt (key a) (key b)" "sl_list s" i j] by (simp add: SortedList_sorted_def)

lemma sl_sorted_valid: "sl_sorted s \<Longrightarrow> i < sl_size s \<Longrightarrow> valid (SortedList_get s i)"
  by (metis length_sl_list nth_mem nth_sl_list SortedList_sorted_def)

lemma below_lt:
  assumes "sl_sorted s" and "i < sl_size s" and "lt (key (SortedList_get s i)) k" and "j \<le> i"
  shows "lt (key (SortedList_get s j)) k"
proof (cases "j = i")
  case False
  with assms(4) have "j < i" by simp
  from lt_trans [OF sl_sorted_nth [OF assms(1) this assms(2)] assms(3)] show ?thesis .
qed (simp add: assms)

lemma above_lt:
  assumes "sl_sorted s" and "lt k (key (SortedList_get s i))" and "i \<le> j" and "j < sl_size s"
  shows "lt k (key (SortedList_get s j))"
proof (cases "j = i")
  case False
  with assms(3) have "i < j" by simp
  from lt_trans [OF assms(2) sl_sorted_nth [OF assms(1) this assms(4)]] show ?thesis .
qed (use assms in simp)

lemma search_correct:
  assumes "sl_sorted s" and "valid e" and "0 \<le> lo" and "hi < int (sl_size s)" and "lo \<le> hi + 1"
    and "\<forall>j < nat lo. lt (key (SortedList_get s j)) (key e)"
    and "\<forall>j < sl_size s. hi < int j \<longrightarrow> lt (key e) (key (SortedList_get s j))"
    and "SortedList_search compare s e lo hi = (exact, pos)"
  shows "0 \<le> pos \<and> index_spec lt key (sl_list s) e exact (nat pos)"
  using assms
proof (induction "nat (hi - lo + 1)" arbitrary: lo hi rule: less_induct)
  case less
  note prems = less.prems
  show ?case
  proof (cases "lo \<le> hi")
    case False
    then have hi: "hi = lo - 1" using prems(5) by simp
    have "SortedList_search compare s e lo hi = (False, lo)"
      using False by (simp add: SortedList_search.simps [of compare s e lo hi])
    then have "\<not> exact" "pos = lo" using prems(8) by auto
    moreover have "lt (key e) (key (SortedList_get s j))" if "j < sl_size s" "nat lo \<le> j" for j
      using that prems(7) hi by auto
    moreover have "nat lo \<le> sl_size s" using prems(4) hi by simp
    ultimately show ?thesis using prems(3,6) by (simp add: index_spec_def)
  next
    case True
    define mi where "mi = lo + (hi - lo) div 2"
    have mi: "lo \<le> mi" "mi \<le> hi" using True by (auto simp: mi_def)
    then have n: "nat mi < sl_size s" using prems(3,4) by linarith
    let ?c = "compare (SortedList_get s (nat mi)) e"
    have v: "valid (SortedList_get s (nat mi))" by (rule sl_sorted_valid [OF prems(1) n])
    note unf = SortedList_search.simps [of compare s e lo hi] mi_def [symmetric] Let_def
    consider "?c < 0" | "?c > 0" | "?c = 0" by linarith
    then show ?thesis
    proof cases
      case lower: 1
      then have l: "lt (key (SortedList_get s (nat mi))) (key e)" using v prems(2) by (simp add: cmp_less)
      have "\<forall>j < nat (mi + 1). lt (key (SortedList_get s j)) (key e)"
        using below_lt [OF prems(1) n l] prems(3) mi by auto
      moreover have "SortedList_search compare s e (mi + 1) hi = (exact, pos)"
        using prems(8) lower True by (simp add: unf)
      ultimately show ?thesis
        using prems(3,4,7) mi True by (intro less.hyps [OF _ prems(1,2), of hi "mi + 1"]) simp_all
    next
      case greater: 2
      then have l: "lt (key e) (key (SortedList_get s (nat mi)))" using v prems(2) by (simp add: cmp_greater)
      have "\<forall>j < sl_size s. mi - 1 < int j \<longrightarrow> lt (key e) (key (SortedList_get s j))"
        using above_lt [OF prems(1) l] by auto
      moreover have "SortedList_search compare s e lo (mi - 1) = (exact, pos)"
        using prems(8) greater True by (simp add: unf)
      ultimately show ?thesis
        using prems(3,4,6) mi True by (intro less.hyps [OF _ prems(1,2), of "mi - 1" lo]) simp_all
    next
      case 3
      then have "exact \<and> pos = mi" using prems(8) True by (simp add: unf)
      moreover have "key (SortedList_get s (nat mi)) = key e" using 3 v prems(2) by (simp add: cmp_equal)
      ultimately show ?thesis using n mi prems(3) by (simp add: index_spec_def)
    qed
  qed
qed

lemma get_index_correct:
  assumes "sl_sorted s" and "valid e" and "SortedList_get_index compare s e = (exact, pos)"
  shows "0 \<le> pos \<and> index_spec lt key (sl_list s) e exact (nat pos)"
proof -
  define gs where "gs = sl_gap_start s"
  define l where "l = (if gs = 0 then 1 else compare (SortedList_get s (gs - 1)) e)"
  define r where "r = (if (gs = 0 \<or> l \<le> 0) \<and> gs < sl_size s then compare e (SortedList_get s gs) else 1)"
  have gs: "gs \<le> sl_size s" using assms(1) by (simp add: SortedList_sorted_def SortedList_wf_def gs_def)
  have unf: "SortedList_get_index compare s e =
      (if (gs = 0 \<or> l \<le> 0) \<and> (sl_size s \<le> gs \<or> r \<le> 0) then
         (if l = 0 then (True, int gs - 1) else if r = 0 then (True, int gs) else (False, int gs))
       else SortedList_search compare s e 0 (int (sl_size s) - 1))"
    unfolding SortedList_get_index_def Let_def gs_def l_def r_def ..
  show ?thesis
  proof (cases "(gs = 0 \<or> l \<le> 0) \<and> (sl_size s \<le> gs \<or> r \<le> 0)")
    case False
    with assms(3) unf have "SortedList_search compare s e 0 (int (sl_size s) - 1) = (exact, pos)" by simp
    then show ?thesis by (intro search_correct [OF assms(1,2), of 0]) simp_all
  next
    case near: True
    have vl: "valid (SortedList_get s (gs - 1))" if "gs \<noteq> 0"
      using that gs sl_sorted_valid [OF assms(1), of "gs - 1"] by simp
    have vr: "valid (SortedList_get s gs)" if "gs < sl_size s"
      using that sl_sorted_valid [OF assms(1)] by simp
    consider "l = 0" | "l \<noteq> 0" "r = 0" | "l \<noteq> 0" "r \<noteq> 0" by blast
    then show ?thesis
    proof cases
      case 1
      have g: "gs \<noteq> 0" using 1 by (auto simp: l_def split: if_splits)
      have "compare (SortedList_get s (gs - 1)) e = 0" using 1 g by (simp add: l_def)
      then have "key (SortedList_get s (gs - 1)) = key e"
        using cmp_equal [OF vl [OF g] assms(2)] by simp
      moreover have "exact" "pos = int gs - 1"
        using assms(3) 1 unfolding unf if_P [OF near] by auto
      ultimately show ?thesis using g gs by (simp add: index_spec_def nat_diff_distrib)
    next
      case 2
      have g: "gs < sl_size s" using 2 by (auto simp: r_def split: if_splits)
      have "compare e (SortedList_get s gs) = 0" using 2 by (auto simp: r_def split: if_splits)
      then have "key (SortedList_get s gs) = key e"
        using cmp_equal [OF assms(2) vr [OF g]] by simp
      moreover have "exact" "pos = int gs"
        using assms(3) 2 unfolding unf if_P [OF near] by auto
      ultimately show ?thesis using g by (simp add: index_spec_def)
    next
      case 3
      have "lt (key (SortedList_get s j)) (key e)" if j: "j < gs" for j
      proof -
        have g: "gs \<noteq> 0" using j by simp
        have "compare (SortedList_get s (gs - 1)) e < 0" using g near 3(1) by (simp add: l_def)
        then have l: "lt (key (SortedList_get s (gs - 1))) (key e)"
          using cmp_less [OF vl [OF g] assms(2)] by simp
        have "gs - 1 < sl_size s" "j \<le> gs - 1" using j gs by simp_all
        from below_lt [OF assms(1) this(1) l this(2)] show ?thesis .
      qed
      moreover have "lt (key e) (key (SortedList_get s j))" if j: "gs \<le> j" "j < sl_size s" for j
      proof -
        have g: "gs < sl_size s" using j by simp
        have "compare e (SortedList_get s gs) = r" using g near by (simp add: r_def)
        then have "compare e (SortedList_get s gs) < 0" using g near 3(2) by linarith
        then have "lt (key e) (key (SortedList_get s gs))"
          using cmp_less [OF assms(2) vr [OF g]] by simp
        then show ?thesis using j by (rule above_lt [OF assms(1)])
      qed
      moreover have "\<not> exact" "pos = int gs"
        using assms(3) 3 unfolding unf if_P [OF near] by auto
      ultimately show ?thesis using gs by (simp add: index_spec_def)
    qed
  qed
qed

lemma add_new:
  assumes "sl_sorted s" and "valid e" and "\<forall>x \<in> set (sl_list s). key x \<noteq> key e"
  shows "sl_sorted (SortedList_add compare s e)
    \<and> (\<exists>xs ys. sl_list s = xs @ ys \<and> sl_list (SortedList_add compare s e) = xs @ e # ys)"
proof -
  define s1 where "s1 = (if sl_size s = SortedList_get_capacity s then SortedList_grow s else s)"
  obtain exact pos where gi: "SortedList_get_index compare s1 e = (exact, pos)"
    by (cases "SortedList_get_index compare s1 e")
  define i where "i = nat pos"
  define s2 where "s2 = SortedList_move_gap_to s1 i"
  define s3 where "s3 = s2\<lparr>sl_gap_start := Suc i, sl_size := Suc (sl_size s1),
    sl_data := (sl_data s2)[i := Some e]\<rparr>"
  have wf: "SortedList_wf s" using assms(1) by (simp add: SortedList_sorted_def)
  have s1: "SortedList_wf s1" "sl_list s1 = sl_list s" "sl_size s1 < length (sl_data s1)"
    "sl_size s1 = sl_size s"
    using wf grow_correct [OF wf]
    by (auto simp: s1_def SortedList_get_capacity_def SortedList_wf_def)
  then have so: "sl_sorted s1" using assms(1) by (simp add: SortedList_sorted_def)
  have spec: "index_spec lt key (sl_list s) e exact i"
    using get_index_correct [OF so assms(2) gi] s1(2) by (simp add: i_def)
  then have "\<not> exact"
    using assms(3) nth_mem [of i "sl_list s"] by (auto simp: index_spec_def split: if_splits)
  then have add: "SortedList_add compare s e = s3"
    using gi by (simp add: SortedList_add_def Let_def s1_def [symmetric] i_def [symmetric] s2_def s3_def)
  have i: "i \<le> sl_size s" "\<forall>j < i. lt (key (sl_list s ! j)) (key e)"
    "\<forall>j < sl_size s. i \<le> j \<longrightarrow> lt (key e) (key (sl_list s ! j))"
    using spec \<open>\<not> exact\<close> by (auto simp: index_spec_def)
  have s2: "SortedList_wf s2" "sl_list s2 = sl_list s" "length (sl_data s2) = length (sl_data s1)"
    "sl_size s2 = sl_size s" "sl_gap_start s2 = i"
    using move_gap_list [OF s1(1)] move_gap_wf [OF s1(1)] move_gap_length [OF s1(1)] i(1) s1
    by (auto simp: s2_def)
  have wf3: "SortedList_wf s3" using s1 s2 i(1) by (simp add: s3_def SortedList_wf_def)
  have get3: "SortedList_get s3 j = (if j < i then SortedList_get s2 j else if j = i then e
      else SortedList_get s2 (j - 1))" if "j < Suc (sl_size s)" for j
    using that s1 s2 i(1)
    by (auto simp: s3_def SortedList_gap_defs nth_list_update Suc_diff_Suc split: if_splits)
  have "sl_list s3 = take i (sl_list s2) @ e # drop i (sl_list s2)"
  proof (rule nth_equalityI)
    show "length (sl_list s3) = length (take i (sl_list s2) @ e # drop i (sl_list s2))"
      using s1 s2 i(1) by (simp add: s3_def)
    fix j assume "j < length (sl_list s3)"
    then have j: "j < Suc (sl_size s)" using s1 by (simp add: s3_def)
    show "sl_list s3 ! j = (take i (sl_list s2) @ e # drop i (sl_list s2)) ! j"
      using j get3 [OF j] s1 s2 i(1)
      by (auto simp: nth_append nth_Cons' s3_def min_def simp flip: nth_sl_list)
  qed
  then have l3: "sl_list s3 = take i (sl_list s) @ e # drop i (sl_list s)" using s2 by simp
  moreover have "sl_sorted s3"
  proof -
    let ?xs = "take i (sl_list s)" and ?ys = "drop i (sl_list s)"
    have "sorted_wrt (\<lambda>a b. lt (key a) (key b)) (?xs @ ?ys)" "\<forall>x \<in> set (?xs @ ?ys). valid x"
      using assms(1) by (simp_all add: SortedList_sorted_def)
    moreover have "\<forall>x \<in> set ?xs. lt (key x) (key e)" "\<forall>x \<in> set ?ys. lt (key e) (key x)"
      using i by (auto simp: in_set_conv_nth)
    ultimately show ?thesis
      using wf3 assms(2)
      by (auto simp: SortedList_sorted_def l3 sorted_wrt_append intro: lt_trans [of _ "key e"]
          sorted_wrt_take sorted_wrt_drop dest: in_set_takeD in_set_dropD)
  qed
  ultimately show ?thesis using add by (metis append_take_drop_id)
qed

lemma floor_from_correct:
  "(SortedList_floor_from is_floor_of s e n = -1 \<and> (\<forall>j < n. \<not> is_floor_of (SortedList_get s j) e))
    \<or> (\<exists>j < n. SortedList_floor_from is_floor_of s e n = int j \<and> is_floor_of (SortedList_get s j) e
         \<and> (\<forall>j' < n. j < j' \<longrightarrow> \<not> is_floor_of (SortedList_get s j') e))"
proof (induction n)
  case (Suc n)
  then show ?case
    by (cases "is_floor_of (SortedList_get s n) e") (auto simp: less_Suc_eq)
qed simp

lemma floor_correct:
  assumes "sl_sorted s" and "valid e" and "SortedList_floor compare is_floor_of s e = pos"
  shows "(\<exists>j < sl_size s. pos = int j \<and> key (SortedList_get s j) = key e)
    \<or> (\<forall>x \<in> set (sl_list s). key x \<noteq> key e)
      \<and> (pos = -1 \<and> (\<forall>x \<in> set (sl_list s). lt (key x) (key e) \<longrightarrow> \<not> is_floor_of x e)
        \<or> (\<exists>j < sl_size s. pos = int j \<and> is_floor_of (SortedList_get s j) e
             \<and> lt (key (SortedList_get s j)) (key e)
             \<and> (\<forall>x \<in> set (sl_list s). is_floor_of x e \<and> lt (key x) (key e) \<longrightarrow>
                   x = SortedList_get s j \<or> lt (key x) (key (SortedList_get s j)))))"
proof -
  obtain exact p where gi: "SortedList_get_index compare s e = (exact, p)"
    by (cases "SortedList_get_index compare s e")
  note spec = get_index_correct [OF assms(1,2) gi]
  show ?thesis
  proof (cases exact)
    case True
    then show ?thesis
      using spec gi assms(3)
      by (auto simp: index_spec_def SortedList_floor_def intro!: disjI1 exI [of _ "nat p"])
  next
    case False
    let ?n = "nat p"
    have n: "?n \<le> sl_size s" and lo: "\<And>j. j < ?n \<Longrightarrow> lt (key (SortedList_get s j)) (key e)"
      and hi: "\<And>j. ?n \<le> j \<Longrightarrow> j < sl_size s \<Longrightarrow> lt (key e) (key (SortedList_get s j))"
      using spec False by (auto simp: index_spec_def)
    have pos: "pos = SortedList_floor_from is_floor_of s e ?n"
      using gi False assms(3) by (simp add: SortedList_floor_def)
    have below: "j < ?n" if "lt (key (SortedList_get s j)) (key e)" "j < sl_size s" for j
      using that hi [of j] lt_trans lt_irrefl by (meson leI)
    have neq: "\<forall>x \<in> set (sl_list s). key x \<noteq> key e"
    proof
      fix x assume "x \<in> set (sl_list s)"
      then obtain j where "j < sl_size s" "x = SortedList_get s j" by (auto simp: in_set_conv_nth)
      with lo [of j] hi [of j] lt_irrefl show "key x \<noteq> key e" by (metis leI)
    qed
    from floor_from_correct [of is_floor_of s e ?n] show ?thesis
    proof (elim disjE exE conjE)
      assume "SortedList_floor_from is_floor_of s e ?n = -1"
        and no: "\<forall>j < ?n. \<not> is_floor_of (SortedList_get s j) e"
      then show ?thesis using pos neq below by (auto simp: in_set_conv_nth)
    next
      fix j assume j: "j < ?n" "SortedList_floor_from is_floor_of s e ?n = int j"
        "is_floor_of (SortedList_get s j) e"
        "\<forall>j' < ?n. j < j' \<longrightarrow> \<not> is_floor_of (SortedList_get s j') e"
      have "x = SortedList_get s j \<or> lt (key x) (key (SortedList_get s j))"
        if x: "x \<in> set (sl_list s)" "is_floor_of x e" "lt (key x) (key e)" for x
      proof -
        obtain i where i: "i < sl_size s" "x = SortedList_get s i"
          using x(1) by (auto simp: in_set_conv_nth)
        then have "i < ?n" using below x(3) by simp
        then have "i \<le> j" using j(4) x(2) i(2) by (meson not_le)
        then show ?thesis
          using i sl_sorted_nth [OF assms(1), of i j] j(1) n by (cases "i = j") auto
      qed
      then show ?thesis
        using neq pos j lo n by (intro disjI2 conjI exI [of _ j]) auto
    qed
  qed
qed

end

end
