(* ===== verification/LZWKeys.thy ===== *)
theory LZWKeys
  imports Sequences InflatableMap SortedList
begin

unbundle bit_operations_syntax

text \<open>
  The functions at the head of \<open>prims/LZWCompression.cpp\<close> with which the compression instantiates
  the map templates: comparisons, hashes, lengths and elements of sequences (whole bytes, halves
  and quarters of bytes), and the factory of a trie node's child map.
\<close>

definition equalsSequence :: "Sequence \<Rightarrow> Sequence \<Rightarrow> bool" where
  "equalsSequence s1 s2 = Sequence_equals s1 s2"

definition hashSequence :: "Sequence \<Rightarrow> uint" where
  "hashSequence s = Sequence_hash [] s"

definition compareSequence :: "Sequence \<Rightarrow> Sequence \<Rightarrow> int" where
  "compareSequence s1 s2 = Sequence_compare s1 s2"

definition compareSequenceByLength :: "Sequence \<Rightarrow> Sequence \<Rightarrow> int" where
  "compareSequenceByLength s1 s2 = Sequence_compareByLength s1 s2"

text \<open>Entries of the list map; the value of an entry built from a key alone is not initialised.\<close>

definition compareEntry :: "Sequence \<times> 'v option \<Rightarrow> Sequence \<times> 'v option \<Rightarrow> int" where
  "compareEntry entry1 entry2 = compareSequence (fst entry1) (fst entry2)"

definition compareEntryByLength :: "Sequence \<times> 'v option \<Rightarrow> Sequence \<times> 'v option \<Rightarrow> int" where
  "compareEntryByLength entry1 entry2 = compareSequenceByLength (fst entry1) (fst entry2)"

definition isSequenceFloorOf :: "Sequence \<Rightarrow> Sequence \<Rightarrow> bool" where
  "isSequenceFloorOf floor s = Sequence_starts_with s floor"

definition isEntryFloorOf :: "Sequence \<times> 'v option \<Rightarrow> Sequence \<times> 'v option \<Rightarrow> bool" where
  "isEntryFloorOf floor entry = isSequenceFloorOf (fst floor) (fst entry)"

text \<open>The class of a sequence is its length minus one; sequences used as keys are not empty.\<close>

definition getSequenceClass :: "Sequence \<Rightarrow> nat" where
  "getSequenceClass s = Sequence_get_length s - 1"

definition reduceSequence :: "Sequence \<Rightarrow> nat \<Rightarrow> Sequence" where
  "reduceSequence s clazz = Sequence_trim s (clazz + 1)"

definition getSequenceLength :: "Sequence \<Rightarrow> nat" where
  "getSequenceLength s = Sequence_get_length s"

definition getSequenceElement :: "Sequence \<Rightarrow> nat \<Rightarrow> byte" where
  "getSequenceElement s index = Sequence_get s index"

definition getSequenceNibbleLength :: "Sequence \<Rightarrow> nat" where
  "getSequenceNibbleLength s = Sequence_get_length s * 2"

definition getSequenceNibbleElement :: "Sequence \<Rightarrow> nat \<Rightarrow> byte" where
  "getSequenceNibbleElement s index =
    (let nibble_mask = push_bit 4 1 - 1;
         c = Sequence_get s (index div 2);
         hibble_index = index mod 2
     in drop_bit (((2 - 1) - hibble_index) * 4) c AND nibble_mask)"

definition getSequenceHibbleLength :: "Sequence \<Rightarrow> nat" where
  "getSequenceHibbleLength s = Sequence_get_length s * 4"

definition getSequenceHibbleElement :: "Sequence \<Rightarrow> nat \<Rightarrow> byte" where
  "getSequenceHibbleElement s index =
    (let hibble_mask = push_bit 2 1 - 1;
         c = Sequence_get s (index div 4);
         hibble_index = index mod 4
     in drop_bit (((4 - 1) - hibble_index) * 2) c AND hibble_mask)"

definition hashChar :: "byte \<Rightarrow> uint" where
  "hashChar c = ucast c"

definition equalsChar :: "byte \<Rightarrow> byte \<Rightarrow> bool" where
  "equalsChar c1 c2 \<longleftrightarrow> c1 = c2"

definition createMap :: "(byte, nat) HashMap option" where
  "createMap = Some (HashMap_init 8)"

text \<open>\<open>(size_t) (2.0 * K / id)\<close> with \<open>K = 1024\<close>.\<close>

definition getMapSize :: "nat \<Rightarrow> nat" where
  "getMapSize ident = (if ident = 0 then 2 ^ 8 else 2 * 1024 div ident)"

section \<open>The contracts they satisfy\<close>

interpretation seq_keys: key_equality equalsSequence valid_seq
  by unfold_locales (simp add: equalsSequence_def equals_correct)

interpretation char_keys: key_equality equalsChar "\<lambda>_. True"
  by unfold_locales (simp add: equalsChar_def)

interpretation char_map: inflatable equalsChar "\<lambda>_. True" "HashMap_ops hashChar equalsChar"
  "HashMap_inv hashChar (\<lambda>_. True)" HashMap_abs 4 "HashMap_init 8"
  by unfold_locales (simp_all add: HashMap_init_correct)

interpretation seq_order: comparator compareEntry "\<lambda>e. seq_content (fst e)" ord_class.lexordp
  "\<lambda>e. valid_seq (fst e)"
proof (unfold_locales, goal_cases)
  case (1 k)
  then show ?case by (rule lexordp_irreflexive')
next
  case (2 k1 k2 k3)
  then show ?case by (rule lexordp_trans)
next
  case (3 a b)
  then show ?case by (simp add: compareEntry_def compareSequence_def compare_less)
next
  case (4 a b)
  then show ?case
    using compare_antisym [of "fst b" "fst a"] compare_less [of "fst b" "fst a"]
    by (simp add: compareEntry_def compareSequence_def)
next
  case (5 a b)
  then show ?case
    by (simp add: compareEntry_def compareSequence_def compare_eq seq_content_inj)
qed

interpretation seq_length_order: comparator compareEntryByLength "\<lambda>e. seq_content (fst e)" shortlex
  "\<lambda>e. valid_seq (fst e)"
proof (unfold_locales, goal_cases)
  case (1 k)
  then show ?case by (rule shortlex_irrefl)
next
  case (2 k1 k2 k3)
  then show ?case by (rule shortlex_trans)
next
  case (3 a b)
  then show ?case
    by (simp add: compareEntryByLength_def compareSequenceByLength_def compareByLength_less)
next
  case (4 a b)
  then show ?case
    using compareByLength_antisym [of "fst b" "fst a"] compareByLength_less [of "fst b" "fst a"]
    by (simp add: compareEntryByLength_def compareSequenceByLength_def)
next
  case (5 a b)
  then show ?case
    by (simp add: compareEntryByLength_def compareSequenceByLength_def compareByLength_eq seq_content_inj)
qed

end
