(* ===== verification/ListMap.thy ===== *)
theory ListMap
  imports LZWKeys
begin

text \<open>
  \<open>prims/ListMap.hpp\<close>: a navigable map kept in a \<open>SortedList\<close> of entries.  An entry built from a
  key alone, as \<open>get_floor\<close> and \<open>get\<close> build it, has no value.
\<close>

section \<open>The operations\<close>

record ('k, 'v) ListMap =
  lm_list :: "('k \<times> 'v option) SortedList"

definition ListMap_init :: "('k, 'v) ListMap" where
  "ListMap_init = \<lparr>lm_list = SortedList_init 0\<rparr>"

definition ListMap_get_size :: "('k, 'v) ListMap \<Rightarrow> nat" where
  "ListMap_get_size m = SortedList_get_size (lm_list m)"

definition ListMap_get_floor ::
  "('k \<times> 'v option \<Rightarrow> 'k \<times> 'v option \<Rightarrow> int) \<Rightarrow> ('k \<times> 'v option \<Rightarrow> 'k \<times> 'v option \<Rightarrow> bool)
    \<Rightarrow> ('k, 'v) ListMap \<Rightarrow> 'k \<Rightarrow> ('k, 'v) MapEntry option" where
  "ListMap_get_floor compare is_floor_of m key =
    (let floor_index = SortedList_floor compare is_floor_of (lm_list m) (key, None)
     in if 0 \<le> floor_index \<and> floor_index < int (SortedList_get_size (lm_list m))
        then (let e = SortedList_get (lm_list m) (nat floor_index) in Some (fst e, the (snd e)))
        else None)"

definition ListMap_get ::
  "('k \<times> 'v option \<Rightarrow> 'k \<times> 'v option \<Rightarrow> int) \<Rightarrow> ('k \<times> 'v option \<Rightarrow> 'k \<times> 'v option \<Rightarrow> bool)
    \<Rightarrow> ('k, 'v) ListMap \<Rightarrow> 'k \<Rightarrow> 'v option" where
  "ListMap_get compare is_floor_of m key =
    (case ListMap_get_floor compare is_floor_of m key of
       Some (k, v) \<Rightarrow> if compare (k, None) (key, None) = 0 then Some v else None
     | None \<Rightarrow> None)"

definition ListMap_put ::
  "('k \<times> 'v option \<Rightarrow> 'k \<times> 'v option \<Rightarrow> int) \<Rightarrow> ('k, 'v) ListMap \<Rightarrow> 'k \<Rightarrow> 'v
    \<Rightarrow> bool \<times> ('k, 'v) ListMap" where
  "ListMap_put compare m key val =
    (True, m\<lparr>lm_list := SortedList_add compare (lm_list m) (key, Some val)\<rparr>)"

definition ListMap_remove :: "('k, 'v) ListMap \<Rightarrow> 'k \<Rightarrow> bool \<times> ('k, 'v) ListMap" where
  "ListMap_remove m key = (False, m)"

definition ListMap_clear :: "('k, 'v) ListMap \<Rightarrow> ('k, 'v) ListMap" where
  "ListMap_clear m = m\<lparr>lm_list := SortedList_clear (lm_list m)\<rparr>"

definition ListMap_ops ::
  "('k \<times> 'v option \<Rightarrow> 'k \<times> 'v option \<Rightarrow> int) \<Rightarrow> ('k \<times> 'v option \<Rightarrow> 'k \<times> 'v option \<Rightarrow> bool)
    \<Rightarrow> ('k, 'v, ('k, 'v) ListMap) NavigableMap_ops" where
  "ListMap_ops compare is_floor_of =
    \<lparr>Map_get_size = ListMap_get_size, Map_get = ListMap_get compare is_floor_of,
     Map_put = ListMap_put compare, Map_remove = ListMap_remove, Map_clear = ListMap_clear,
     Map_get_floor = (\<lambda>m k. Some (ListMap_get_floor compare is_floor_of m k))\<rparr>"

section \<open>The contract\<close>

definition ListMap_inv ::
  "('c \<Rightarrow> 'c \<Rightarrow> bool) \<Rightarrow> ('k \<Rightarrow> 'c) \<Rightarrow> ('k \<Rightarrow> bool) \<Rightarrow> ('k, 'v) ListMap \<Rightarrow> bool" where
  "ListMap_inv lt content valid m \<longleftrightarrow>
    SortedList_sorted lt (\<lambda>e. content (fst e)) (\<lambda>e. valid (fst e)) (lm_list m)
    \<and> (\<forall>e \<in> set (sl_list (lm_list m)). snd e \<noteq> None)"

definition ListMap_abs :: "('k \<Rightarrow> 'c) \<Rightarrow> ('k, 'v) ListMap \<Rightarrow> 'c \<rightharpoonup> 'v" where
  "ListMap_abs content m = map_of (map (\<lambda>e. (content (fst e), the (snd e))) (sl_list (lm_list m)))"

lemma map_of_insert_middle:
  "k \<notin> fst ` set (xs @ ys) \<Longrightarrow> map_of (xs @ (k, v) # ys) = (map_of (xs @ ys))(k \<mapsto> v)"
  by (auto simp: fun_eq_iff map_add_def map_of_eq_None_iff split: option.splits
      dest: map_of_SomeD intro: rev_image_eqI)

text \<open>Orders in which a proper prefix comes first serve to search for the longest prefix.\<close>

locale prefix_order_map = comparator compare "\<lambda>e. content (fst e)" lt "\<lambda>e. valid (fst e)"
  for compare :: "'k \<times> 'v option \<Rightarrow> 'k \<times> 'v option \<Rightarrow> int" and content :: "'k \<Rightarrow> 'a list"
    and lt and valid +
  fixes is_floor_of :: "'k \<times> 'v option \<Rightarrow> 'k \<times> 'v option \<Rightarrow> bool"
  assumes floor_iff: "valid (fst x) \<Longrightarrow> valid (fst e) \<Longrightarrow>
      is_floor_of x e \<longleftrightarrow> prefix (content (fst x)) (content (fst e))"
    and prefix_lt: "prefix p q \<Longrightarrow> p \<noteq> q \<Longrightarrow> lt p q"
begin

abbreviation minv :: "('k, 'v) ListMap \<Rightarrow> bool" where
  "minv \<equiv> ListMap_inv lt content valid"

abbreviation mabs :: "('k, 'v) ListMap \<Rightarrow> 'a list \<rightharpoonup> 'v" where
  "mabs \<equiv> ListMap_abs content"

lemma sorted_distinct:
  assumes "minv m"
  shows "distinct (map (\<lambda>e. content (fst e)) (sl_list (lm_list m)))"
proof -
  have "sorted_wrt (\<lambda>a b. lt (content (fst a)) (content (fst b))) (sl_list (lm_list m))"
    using assms by (simp add: ListMap_inv_def SortedList_sorted_def)
  then show ?thesis by (rule sorted_wrt_distinct) (metis lt_irrefl)
qed

lemma abs_entry:
  assumes "minv m" and "e \<in> set (sl_list (lm_list m))"
  shows "mabs m (content (fst e)) = Some (the (snd e))"
  unfolding ListMap_abs_def using sorted_distinct [OF assms(1)] assms(2)
  by (intro map_of_is_SomeI) (auto simp: o_def)

lemma abs_dom: "xs \<in> dom (mabs m) \<longleftrightarrow> (\<exists>e \<in> set (sl_list (lm_list m)). content (fst e) = xs)"
  by (simp add: ListMap_abs_def dom_map_of_conv_image_fst image_image image_iff) metis

lemma ListMap_put_new:
  assumes "minv m" and "valid k" and "mabs m (content k) = None"
  shows "minv (snd (ListMap_put compare m k v))
    \<and> mabs (snd (ListMap_put compare m k v)) = (mabs m)(content k \<mapsto> v)"
proof -
  let ?l = "lm_list m" and ?e = "(k, Some v)"
  have new: "\<forall>x \<in> set (sl_list ?l). content (fst x) \<noteq> content (fst ?e)"
    using assms(3) abs_dom [of "content k" m] by (auto simp: domIff)
  from add_new [of ?l ?e] new assms(1,2) obtain xs ys where
    so: "sl_sorted (SortedList_add compare ?l ?e)" and
    l: "sl_list ?l = xs @ ys" "sl_list (SortedList_add compare ?l ?e) = xs @ ?e # ys"
    by (auto simp: ListMap_inv_def)
  let ?f = "\<lambda>e. (content (fst e), the (snd e))"
  have "content k \<notin> fst ` set (map ?f xs @ map ?f ys)" using new l by force
  from map_of_insert_middle [OF this, of v]
  have "mabs (snd (ListMap_put compare m k v)) = (mabs m)(content k \<mapsto> v)"
    by (simp add: ListMap_put_def ListMap_abs_def l)
  moreover have "minv (snd (ListMap_put compare m k v))"
    using so assms(1) l by (auto simp: ListMap_put_def ListMap_inv_def)
  ultimately show ?thesis by blast
qed

lemma ListMap_clear_correct:
  "minv (ListMap_clear m) \<and> mabs (ListMap_clear m) = Map.empty"
  by (simp add: ListMap_inv_def ListMap_clear_def ListMap_abs_def SortedList_sorted_def
      SortedList_wf_def SortedList_clear_def sl_list_def)

lemma floor_entry:
  assumes "minv m" and "valid k" and "p \<in> dom (mabs m)" and "prefix p (content k)"
  shows "\<exists>e \<in> set (sl_list (lm_list m)).
    ListMap_get_floor compare is_floor_of m k = Some (fst e, the (snd e))
    \<and> longest_prefix (mabs m) (content k) (content (fst e))"
proof -
  let ?l = "lm_list m" and ?e = "(k, None) :: 'k \<times> 'v option"
  have so: "sl_sorted ?l" using assms(1) by (simp add: ListMap_inv_def)
  have val: "valid (fst x)" if "x \<in> set (sl_list ?l)" for x
    using that so by (auto simp: SortedList_sorted_def)
  obtain pos where pos: "SortedList_floor compare is_floor_of ?l ?e = pos" by simp
  have found: ?thesis if j: "j < sl_size ?l" "pos = int j"
    and lp: "longest_prefix (mabs m) (content k) (content (fst (SortedList_get ?l j)))" for j
  proof -
    have "SortedList_get ?l j \<in> set (sl_list ?l)"
      using j(1) by (metis length_sl_list nth_mem nth_sl_list)
    with j lp pos show ?thesis
      by (intro bexI [of _ "SortedList_get ?l j"])
        (simp_all add: ListMap_get_floor_def Let_def SortedList_get_size_def)
  qed
  obtain x where x: "x \<in> set (sl_list ?l)" "content (fst x) = p" using assms(3) abs_dom by blast
  from floor_correct [OF so _ pos] assms(2) consider
    (exact) j where "j < sl_size ?l" "pos = int j" "content (fst (SortedList_get ?l j)) = content k"
  | (none) "\<forall>x \<in> set (sl_list ?l). content (fst x) \<noteq> content k"
      "\<forall>x \<in> set (sl_list ?l). lt (content (fst x)) (content k) \<longrightarrow> \<not> is_floor_of x ?e"
  | (below) j where "\<forall>x \<in> set (sl_list ?l). content (fst x) \<noteq> content k"
      "j < sl_size ?l" "pos = int j" "is_floor_of (SortedList_get ?l j) ?e"
      "\<forall>x \<in> set (sl_list ?l). is_floor_of x ?e \<and> lt (content (fst x)) (content k) \<longrightarrow>
         x = SortedList_get ?l j \<or> lt (content (fst x)) (content (fst (SortedList_get ?l j)))"
    by auto
  then show ?thesis
  proof cases
    case exact
    have "content k \<in> dom (mabs m)"
      unfolding abs_dom using exact by (metis length_sl_list nth_mem nth_sl_list)
    then show ?thesis
      using exact by (intro found) (auto simp: longest_prefix_def prefix_length_le)
  next
    case none
    then show ?thesis
      using x assms(2,4) val prefix_lt [OF assms(4)] floor_iff [of x ?e] by auto
  next
    case below
    let ?x = "SortedList_get ?l j"
    have xin: "?x \<in> set (sl_list ?l)" using below(2) by (metis length_sl_list nth_mem nth_sl_list)
    have px: "prefix (content (fst ?x)) (content k)"
      using below(4) floor_iff [of ?x ?e] val [OF xin] assms(2) by simp
    have "length q \<le> length (content (fst ?x))" if q: "prefix q (content k)" "q \<in> dom (mabs m)" for q
    proof -
      obtain y where y: "y \<in> set (sl_list ?l)" "content (fst y) = q" using q(2) abs_dom by blast
      have "lt q (content k)" using y below(1) q(1) by (intro prefix_lt) auto
      moreover have "is_floor_of y ?e" using floor_iff [of y ?e] val [OF y(1)] assms(2) y(2) q(1) by simp
      ultimately have "q = content (fst ?x) \<or> lt q (content (fst ?x))" using below(5) y by auto
      moreover have "prefix q (content (fst ?x)) \<or> prefix (content (fst ?x)) q"
        using q(1) px prefix_same_cases by blast
      moreover have "\<not> lt q (content (fst ?x))" if "prefix (content (fst ?x)) q" "q \<noteq> content (fst ?x)"
        using that prefix_lt [of "content (fst ?x)" q] lt_trans [of q "content (fst ?x)" q] lt_irrefl by auto
      ultimately have "prefix q (content (fst ?x))" by auto
      then show ?thesis by (rule prefix_length_le)
    qed
    then have "longest_prefix (mabs m) (content k) (content (fst ?x))"
      using px xin abs_dom [of _ m] unfolding longest_prefix_def by blast
    then show ?thesis using below(2,3) by (intro found)
  qed
qed

end

sublocale prefix_order_map \<subseteq> floors: floor_map
  "ListMap_ops compare is_floor_of" "ListMap_inv lt content valid" "ListMap_abs content" content valid
proof (unfold_locales, goal_cases)
  case (1 m k v)
  then show ?case using ListMap_put_new [of m k v] by (simp add: ListMap_ops_def)
next
  case (2 m)
  then show ?case using ListMap_clear_correct [of m] by (simp add: ListMap_ops_def)
next
  case (3 m k)
  have "prefix [hd (content k)] (content k)" using 3(3) by (cases "content k") auto
  from floor_entry [OF 3(1,2,5) this] obtain e where e: "e \<in> set (sl_list (lm_list m))"
    "ListMap_get_floor compare is_floor_of m k = Some (fst e, the (snd e))"
    "longest_prefix (mabs m) (content k) (content (fst e))"
    by blast
  moreover have "valid (fst e)" using e(1) 3(1) by (auto simp: ListMap_inv_def SortedList_sorted_def)
  ultimately show ?case using abs_entry [OF 3(1) e(1)] by (auto simp: ListMap_ops_def)
qed

text \<open>The two orders of the compression, collection strategies 9 and 10.\<close>

lemma lexordp_prefix: "prefix p q \<Longrightarrow> p \<noteq> q \<Longrightarrow> ord_class.lexordp p (q :: byte list)"
  by (auto simp: prefix_def intro!: lexordp_append_rightI)

lemma shortlex_prefix: "prefix p q \<Longrightarrow> p \<noteq> q \<Longrightarrow> shortlex p q"
  by (auto simp: prefix_def shortlex_def)

interpretation list9: prefix_order_map compareEntry seq_content ord_class.lexordp valid_seq isEntryFloorOf
  by unfold_locales
    (simp_all add: isEntryFloorOf_def isSequenceFloorOf_def starts_with_correct lexordp_prefix)

interpretation list10: prefix_order_map compareEntryByLength seq_content shortlex valid_seq isEntryFloorOf
  by unfold_locales
    (simp_all add: isEntryFloorOf_def isSequenceFloorOf_def starts_with_correct shortlex_prefix)

end
