(* ===== verification/NavigableHashMap.thy ===== *)
theory NavigableHashMap
  imports LZWKeys
begin

text \<open>
  \<open>NavigableHashMap\<close> of \<open>prims/HashMap.hpp\<close>: one hash map per class of keys (the last one for all
  higher classes), and a floor search that reduces the key to one class after the other.  The
  template arguments are the fields of a record; the context and the arena are not modelled.
\<close>

section \<open>The operations\<close>

record 'k NavigableHashMap_template =
  nt_hash :: "'k \<Rightarrow> uint"
  nt_equals :: "'k \<Rightarrow> 'k \<Rightarrow> bool"
  nt_get_class :: "'k \<Rightarrow> nat"
  nt_reduce :: "'k \<Rightarrow> nat \<Rightarrow> 'k"
  nt_assume_continous_elements :: bool
  nt_lucky_clazz :: nat

record ('k, 'v) NavigableHashMap =
  nh_dictionaries :: "('k, 'v) HashMap list"

text \<open>The two constructors: one dictionary, or one per class below \<open>dictionary_count\<close>.\<close>

definition NavigableHashMap_init_single :: "nat \<Rightarrow> ('k, 'v) NavigableHashMap" where
  "NavigableHashMap_init_single init_capacity = \<lparr>nh_dictionaries = [HashMap_init init_capacity]\<rparr>"

definition NavigableHashMap_init :: "nat \<Rightarrow> (nat \<Rightarrow> nat) \<Rightarrow> ('k, 'v) NavigableHashMap" where
  "NavigableHashMap_init dictionary_count get_init_capacity =
    \<lparr>nh_dictionaries = map (\<lambda>index. HashMap_init (get_init_capacity index)) [0..<dictionary_count]\<rparr>"

definition NavigableHashMap_get_size :: "('k, 'v) NavigableHashMap \<Rightarrow> nat" where
  "NavigableHashMap_get_size m =
    foldl (\<lambda>size d. size + HashMap_get_size d) 0 (nh_dictionaries m)"

definition NavigableHashMap_dictionary_index :: "('k, 'v) NavigableHashMap \<Rightarrow> nat \<Rightarrow> nat" where
  "NavigableHashMap_dictionary_index m clazz =
    max 0 (min (length (nh_dictionaries m) - 1) clazz)"

definition NavigableHashMap_get_dictionary ::
  "('k, 'v) NavigableHashMap \<Rightarrow> nat \<Rightarrow> ('k, 'v) HashMap" where
  "NavigableHashMap_get_dictionary m clazz =
    nh_dictionaries m ! NavigableHashMap_dictionary_index m clazz"

definition NavigableHashMap_get ::
  "'k NavigableHashMap_template \<Rightarrow> ('k, 'v) NavigableHashMap \<Rightarrow> 'k \<Rightarrow> 'v option" where
  "NavigableHashMap_get t m key =
    HashMap_get (nt_hash t) (nt_equals t)
      (NavigableHashMap_get_dictionary m (nt_get_class t key)) key"

definition NavigableHashMap_put ::
  "'k NavigableHashMap_template \<Rightarrow> ('k, 'v) NavigableHashMap \<Rightarrow> 'k \<Rightarrow> 'v
    \<Rightarrow> bool \<times> ('k, 'v) NavigableHashMap" where
  "NavigableHashMap_put t m key val =
    (let index = NavigableHashMap_dictionary_index m (nt_get_class t key);
         (stored, d) = HashMap_put (nt_hash t) (nt_equals t) (nh_dictionaries m ! index) key val
     in (stored, m\<lparr>nh_dictionaries := (nh_dictionaries m)[index := d]\<rparr>))"

definition NavigableHashMap_remove ::
  "'k NavigableHashMap_template \<Rightarrow> ('k, 'v) NavigableHashMap \<Rightarrow> 'k
    \<Rightarrow> bool \<times> ('k, 'v) NavigableHashMap" where
  "NavigableHashMap_remove t m key =
    (fst (HashMap_remove (NavigableHashMap_get_dictionary m (nt_get_class t key)) key), m)"

definition NavigableHashMap_clear :: "('k, 'v) NavigableHashMap \<Rightarrow> ('k, 'v) NavigableHashMap" where
  "NavigableHashMap_clear m = m\<lparr>nh_dictionaries := map HashMap_clear (nh_dictionaries m)\<rparr>"

definition NavigableHashMap_try_get_floor ::
  "'k NavigableHashMap_template \<Rightarrow> ('k, 'v) NavigableHashMap \<Rightarrow> 'k \<Rightarrow> nat
    \<Rightarrow> ('k, 'v) MapEntry option" where
  "NavigableHashMap_try_get_floor t m key clazz =
    (let reduced_key = nt_reduce t key clazz
     in case HashMap_get (nt_hash t) (nt_equals t)
               (NavigableHashMap_get_dictionary m clazz) reduced_key of
          Some v \<Rightarrow> Some (reduced_key, v)
        | None \<Rightarrow> None)"

text \<open>
  \<open>clazz\<close> is a \<open>size_t\<close>: at zero its decrement wraps around, so that with \<open>min_clazz = 0\<close> the loop
  ends only when it finds a floor.  \<open>None\<close> is a search that does not end.
\<close>

definition size_t_dec :: "nat \<Rightarrow> nat" where
  "size_t_dec n = (if n = 0 then 2 ^ 64 - 1 else n - 1)"

partial_function (option) NavigableHashMap_get_floor_top_down ::
  "'k NavigableHashMap_template \<Rightarrow> ('k, 'v) NavigableHashMap \<Rightarrow> 'k \<Rightarrow> nat \<Rightarrow> nat
    \<Rightarrow> ('k, 'v) MapEntry option option" where
  "NavigableHashMap_get_floor_top_down t m key min_clazz clazz =
    (if min_clazz \<le> clazz then
       (case NavigableHashMap_try_get_floor t m key clazz of
          Some e \<Rightarrow> Some (Some e)
        | None \<Rightarrow> NavigableHashMap_get_floor_top_down t m key min_clazz (size_t_dec clazz))
     else Some None)"

function NavigableHashMap_get_floor_bottom_up ::
  "'k NavigableHashMap_template \<Rightarrow> ('k, 'v) NavigableHashMap \<Rightarrow> 'k \<Rightarrow> nat \<Rightarrow> nat
    \<Rightarrow> ('k, 'v) MapEntry option \<Rightarrow> ('k, 'v) MapEntry option" where
  "NavigableHashMap_get_floor_bottom_up t m key clazz max_clazz result =
    (if clazz \<le> max_clazz then
       (case NavigableHashMap_try_get_floor t m key clazz of
          None \<Rightarrow> result
        | Some e \<Rightarrow> NavigableHashMap_get_floor_bottom_up t m key (Suc clazz) max_clazz (Some e))
     else result)"
  by pat_completeness auto
termination
  by (relation "measure (\<lambda>(t, m, key, clazz, max_clazz, result). Suc max_clazz - clazz)") auto

declare NavigableHashMap_get_floor_bottom_up.simps [simp del]

partial_function (option) NavigableHashMap_get_floor_binary_search ::
  "'k NavigableHashMap_template \<Rightarrow> ('k, 'v) NavigableHashMap \<Rightarrow> 'k \<Rightarrow> nat \<Rightarrow> nat
    \<Rightarrow> ('k, 'v) MapEntry option \<Rightarrow> ('k, 'v) MapEntry option option" where
  "NavigableHashMap_get_floor_binary_search t m key lo hi result =
    (if lo \<le> hi then
       (let mi = lo + (hi - lo) div 2
        in case NavigableHashMap_try_get_floor t m key mi of
             Some e \<Rightarrow> NavigableHashMap_get_floor_binary_search t m key (mi + 1) hi (Some e)
           | None \<Rightarrow> NavigableHashMap_get_floor_binary_search t m key lo (size_t_dec mi) result)
     else Some result)"

definition NavigableHashMap_get_floor_lucky_guess ::
  "'k NavigableHashMap_template \<Rightarrow> ('k, 'v) NavigableHashMap \<Rightarrow> 'k
    \<Rightarrow> ('k, 'v) MapEntry option option" where
  "NavigableHashMap_get_floor_lucky_guess t m key =
    (let clazz = nt_get_class t key; lucky_clazz = nt_lucky_clazz t
     in if \<not> nt_assume_continous_elements t then
          NavigableHashMap_get_floor_top_down t m key 0 clazz
        else if 0 < lucky_clazz \<and> lucky_clazz * 2 \<le> clazz
                \<and> NavigableHashMap_try_get_floor t m key lucky_clazz \<noteq> None then
          NavigableHashMap_get_floor_binary_search t m key lucky_clazz clazz None
        else Some (NavigableHashMap_get_floor_bottom_up t m key 0 clazz None))"

definition NavigableHashMap_get_floor ::
  "'k NavigableHashMap_template \<Rightarrow> ('k, 'v) NavigableHashMap \<Rightarrow> 'k
    \<Rightarrow> ('k, 'v) MapEntry option option" where
  "NavigableHashMap_get_floor t m key = NavigableHashMap_get_floor_lucky_guess t m key"

definition NavigableHashMap_ops ::
  "'k NavigableHashMap_template \<Rightarrow> ('k, 'v, ('k, 'v) NavigableHashMap) NavigableMap_ops" where
  "NavigableHashMap_ops t =
    \<lparr>Map_get_size = NavigableHashMap_get_size, Map_get = NavigableHashMap_get t,
     Map_put = NavigableHashMap_put t, Map_remove = NavigableHashMap_remove t,
     Map_clear = NavigableHashMap_clear, Map_get_floor = NavigableHashMap_get_floor t\<rparr>"

section \<open>The contract\<close>

definition NavigableHashMap_inv ::
  "'k NavigableHashMap_template \<Rightarrow> ('k \<Rightarrow> bool) \<Rightarrow> ('k, 'v) NavigableHashMap \<Rightarrow> bool" where
  "NavigableHashMap_inv t valid m \<longleftrightarrow> nh_dictionaries m \<noteq> []
    \<and> (\<forall>i < length (nh_dictionaries m). HashMap_inv (nt_hash t) valid (nh_dictionaries m ! i)
         \<and> (\<forall>k \<in> dom (HashMap_abs (nh_dictionaries m ! i)).
              NavigableHashMap_dictionary_index m (nt_get_class t k) = i))"

definition NavigableHashMap_abs ::
  "'k NavigableHashMap_template \<Rightarrow> ('k, 'v) NavigableHashMap \<Rightarrow> 'k \<rightharpoonup> 'v" where
  "NavigableHashMap_abs t m key =
    HashMap_abs (NavigableHashMap_get_dictionary m (nt_get_class t key)) key"

lemma dictionary_index_less:
  "nh_dictionaries m \<noteq> [] \<Longrightarrow> NavigableHashMap_dictionary_index m c < length (nh_dictionaries m)"
  by (cases "nh_dictionaries m") (auto simp: NavigableHashMap_dictionary_index_def)

lemma NavigableHashMap_all_empty:
  assumes "nh_dictionaries m \<noteq> []"
    and "\<forall>d \<in> set (nh_dictionaries m). HashMap_inv (nt_hash t) valid d \<and> HashMap_abs d = Map.empty"
  shows "NavigableHashMap_inv t valid m \<and> NavigableHashMap_abs t m = Map.empty"
proof -
  have "NavigableHashMap_get_dictionary m c \<in> set (nh_dictionaries m)" for c
    by (simp add: NavigableHashMap_get_dictionary_def dictionary_index_less [OF assms(1)])
  with assms show ?thesis
    by (auto simp: NavigableHashMap_inv_def NavigableHashMap_abs_def fun_eq_iff)
qed

lemma NavigableHashMap_init_correct:
  "0 < n \<Longrightarrow> m = NavigableHashMap_init n f \<Longrightarrow>
    NavigableHashMap_inv t valid m \<and> NavigableHashMap_abs t m = Map.empty"
  by (rule NavigableHashMap_all_empty) (auto simp: NavigableHashMap_init_def HashMap_init_correct)

lemma NavigableHashMap_init_single_correct:
  "m = NavigableHashMap_init_single n \<Longrightarrow>
    NavigableHashMap_inv t valid m \<and> NavigableHashMap_abs t m = Map.empty"
  by (rule NavigableHashMap_all_empty)
    (auto simp: NavigableHashMap_init_single_def HashMap_init_correct)

text \<open>
  Keys with a content, whose class is the length of the content and whose reductions are prefixes.
\<close>

locale classified_keys = key_equality "nt_equals t" valid + key_content content valid
  for t :: "'k NavigableHashMap_template" and valid :: "'k \<Rightarrow> bool" and content :: "'k \<Rightarrow> 'a list" +
  assumes class_content: "valid k \<Longrightarrow> nt_get_class t k = length (content k) - 1"
    and reduce_content: "valid k \<Longrightarrow>
      valid (nt_reduce t k c) \<and> content (nt_reduce t k c) = take (Suc c) (content k)"
begin

lemma NavigableHashMap_get_abs:
  "NavigableHashMap_inv t valid m \<Longrightarrow> valid k \<Longrightarrow> NavigableHashMap_get t m k = NavigableHashMap_abs t m k"
  by (simp add: NavigableHashMap_get_def NavigableHashMap_abs_def NavigableHashMap_inv_def
      NavigableHashMap_get_dictionary_def HashMap_get_abs dictionary_index_less)

lemma NavigableHashMap_put_correct:
  assumes "NavigableHashMap_inv t valid m" and "valid k"
  shows "NavigableHashMap_inv t valid (snd (NavigableHashMap_put t m k v))
    \<and> fst (NavigableHashMap_put t m k v) = (NavigableHashMap_abs t m k = None)
    \<and> NavigableHashMap_abs t (snd (NavigableHashMap_put t m k v))
        = (if NavigableHashMap_abs t m k = None then (NavigableHashMap_abs t m)(k \<mapsto> v)
           else NavigableHashMap_abs t m)"
proof -
  let ?i = "NavigableHashMap_dictionary_index m (nt_get_class t k)"
  let ?d = "nh_dictionaries m ! ?i"
  let ?p = "HashMap_put (nt_hash t) (nt_equals t) ?d k v"
  note inv = assms(1) [unfolded NavigableHashMap_inv_def]
  have i: "?i < length (nh_dictionaries m)" using inv by (simp add: dictionary_index_less)
  have d: "HashMap_inv (nt_hash t) valid ?d" using inv i by blast
  have put: "NavigableHashMap_put t m k v = (fst ?p, m\<lparr>nh_dictionaries := (nh_dictionaries m)[?i := snd ?p]\<rparr>)"
    by (simp add: NavigableHashMap_put_def Let_def case_prod_unfold)
  have idx: "NavigableHashMap_dictionary_index (m\<lparr>nh_dictionaries := (nh_dictionaries m)[?i := x]\<rparr>) c
      = NavigableHashMap_dictionary_index m c" for x c
    by (simp add: NavigableHashMap_dictionary_index_def)
  note hp = HashMap_put_correct [OF d assms(2), of v]
  have "NavigableHashMap_inv t valid (snd (NavigableHashMap_put t m k v))"
    using inv hp i unfolding put NavigableHashMap_inv_def
    by (auto simp: idx nth_list_update split: if_splits)
  moreover have "NavigableHashMap_abs t (snd (NavigableHashMap_put t m k v))
        = (if NavigableHashMap_abs t m k = None then (NavigableHashMap_abs t m)(k \<mapsto> v)
           else NavigableHashMap_abs t m)"
    using hp i unfolding put NavigableHashMap_abs_def
    by (auto simp: fun_eq_iff NavigableHashMap_get_dictionary_def idx nth_list_update)
  ultimately show ?thesis
    using hp by (simp add: put NavigableHashMap_abs_def NavigableHashMap_get_dictionary_def)
qed

lemma NavigableHashMap_clear_correct:
  assumes "NavigableHashMap_inv t valid m"
  shows "NavigableHashMap_inv t valid (NavigableHashMap_clear m)
    \<and> NavigableHashMap_abs t (NavigableHashMap_clear m) = Map.empty"
proof (rule NavigableHashMap_all_empty)
  show "nh_dictionaries (NavigableHashMap_clear m) \<noteq> []"
    using assms by (simp add: NavigableHashMap_inv_def NavigableHashMap_clear_def)
  show "\<forall>d \<in> set (nh_dictionaries (NavigableHashMap_clear m)).
      HashMap_inv (nt_hash t) valid d \<and> HashMap_abs d = Map.empty"
    using assms HashMap_clear_correct
    by (fastforce simp: NavigableHashMap_inv_def NavigableHashMap_clear_def in_set_conv_nth)
qed

end

sublocale classified_keys \<subseteq> navigable: unbounded_map
  "NavigableHashMap_ops t" "NavigableHashMap_inv t valid" "NavigableHashMap_abs t" valid
  by unfold_locales
    (auto simp: NavigableHashMap_ops_def NavigableHashMap_get_abs NavigableHashMap_put_correct
      NavigableHashMap_clear_correct)

section \<open>Searching the floor\<close>

context classified_keys
begin

abbreviation cabs :: "('k, 'v) NavigableHashMap \<Rightarrow> 'a list \<rightharpoonup> 'v" where
  "cabs m \<equiv> content_abs content valid (NavigableHashMap_abs t m)"

definition floor_at :: "('k, 'v) NavigableHashMap \<Rightarrow> 'k \<Rightarrow> nat \<Rightarrow> ('k, 'v) MapEntry" where
  "floor_at m k c = (nt_reduce t k c, the (cabs m (take (Suc c) (content k))))"

text \<open>The highest class, up to that of the key, in which the key has a floor.\<close>

definition highest :: "('k, 'v) NavigableHashMap \<Rightarrow> 'k \<Rightarrow> nat \<Rightarrow> bool" where
  "highest m k c \<longleftrightarrow> c \<le> nt_get_class t k \<and> take (Suc c) (content k) \<in> dom (cabs m)
    \<and> (\<forall>c'. c < c' \<and> c' \<le> nt_get_class t k \<longrightarrow> take (Suc c') (content k) \<notin> dom (cabs m))"

lemma try_get_floor:
  assumes "NavigableHashMap_inv t valid m" and "valid k" and "content k \<noteq> []"
    and "c \<le> nt_get_class t k"
  shows "NavigableHashMap_try_get_floor t m k c =
    (if take (Suc c) (content k) \<in> dom (cabs m) then Some (floor_at m k c) else None)"
proof -
  let ?r = "nt_reduce t k c"
  have r: "valid ?r" "content ?r = take (Suc c) (content k)" using reduce_content assms(2) by auto
  have "Suc c \<le> length (content k)"
    using assms(2-4) class_content by (cases "content k") auto
  then have "nt_get_class t ?r = c" using r class_content by simp
  then have "HashMap_get (nt_hash t) (nt_equals t) (NavigableHashMap_get_dictionary m c) ?r
      = cabs m (take (Suc c) (content k))"
    using NavigableHashMap_get_abs [OF assms(1) r(1)] r content_abs_key [OF r(1), of "NavigableHashMap_abs t m"]
    by (simp add: NavigableHashMap_get_def)
  then show ?thesis
    by (auto simp: NavigableHashMap_try_get_floor_def Let_def floor_at_def split: option.splits)
qed

lemma highest_longest:
  assumes "valid k" and "content k \<noteq> []" and "highest m k c"
  shows "longest_prefix (cabs m) (content k) (content (nt_reduce t k c))"
proof -
  have r: "content (nt_reduce t k c) = take (Suc c) (content k)" using reduce_content assms(1) by auto
  have len: "Suc c \<le> length (content k)"
    using assms class_content by (cases "content k") (auto simp: highest_def)
  have "length q \<le> Suc c" if q: "prefix q (content k)" "q \<in> dom (cabs m)" for q
  proof (rule ccontr)
    assume l: "\<not> length q \<le> Suc c"
    then have "take (Suc (length q - 1)) (content k) = q" using q(1) by (auto simp: prefix_def)
    moreover have "length q - 1 \<le> nt_get_class t k"
      using prefix_length_le [OF q(1)] class_content [OF assms(1)] by simp
    moreover have "c < length q - 1" using l by simp
    ultimately show False using assms(3) q(2) by (metis highest_def)
  qed
  with r len assms(3) show ?thesis
    by (auto simp: longest_prefix_def take_is_prefix highest_def)
qed

lemma top_down_highest:
  assumes "NavigableHashMap_inv t valid m" and "valid k" and "content k \<noteq> []"
    and "[hd (content k)] \<in> dom (cabs m)" and "c \<le> nt_get_class t k"
    and "\<forall>c'. c < c' \<and> c' \<le> nt_get_class t k \<longrightarrow> take (Suc c') (content k) \<notin> dom (cabs m)"
  shows "\<exists>c'. highest m k c' \<and> NavigableHashMap_get_floor_top_down t m k 0 c = Some (Some (floor_at m k c'))"
  using assms(5,6)
proof (induction c)
  case 0
  have "take (Suc 0) (content k) = [hd (content k)]" using assms(3) by (cases "content k") auto
  then have "highest m k 0" using assms(4) 0 by (simp add: highest_def)
  moreover have "NavigableHashMap_get_floor_top_down t m k 0 0 = Some (Some (floor_at m k 0))"
    using try_get_floor [OF assms(1-3) 0(1)] calculation
    by (subst NavigableHashMap_get_floor_top_down.simps) (simp add: highest_def)
  ultimately show ?case by blast
next
  case (Suc c)
  note step = try_get_floor [OF assms(1-3) Suc.prems(1)]
  show ?case
  proof (cases "take (Suc (Suc c)) (content k) \<in> dom (cabs m)")
    case True
    then have "highest m k (Suc c)" using Suc.prems by (simp add: highest_def)
    moreover have "NavigableHashMap_get_floor_top_down t m k 0 (Suc c) = Some (Some (floor_at m k (Suc c)))"
      using step True by (subst NavigableHashMap_get_floor_top_down.simps) simp
    ultimately show ?thesis by blast
  next
    case False
    have "NavigableHashMap_get_floor_top_down t m k 0 (Suc c) = NavigableHashMap_get_floor_top_down t m k 0 c"
      using step False by (subst NavigableHashMap_get_floor_top_down.simps) (simp add: size_t_dec_def)
    moreover have "\<forall>c'. c < c' \<and> c' \<le> nt_get_class t k \<longrightarrow> take (Suc c') (content k) \<notin> dom (cabs m)"
      using Suc.prems(2) False by (metis Suc_lessI)
    ultimately show ?thesis using Suc.IH Suc.prems(1) by simp
  qed
qed

text \<open>In a prefix-closed map the classes with a floor are an initial segment.\<close>

lemma floors_closed:
  assumes "prefix_closed (dom (cabs m))" and "take (Suc c) (content k) \<in> dom (cabs m)" and "c' \<le> c"
    and "content k \<noteq> []"
  shows "take (Suc c') (content k) \<in> dom (cabs m)"
proof -
  have "take (Suc c) (content k) = take (Suc c') (content k) @ drop (Suc c') (take (Suc c) (content k))"
    using assms(3) by (metis append_take_drop_id min.absorb1 Suc_le_mono take_take)
  moreover have "take (Suc c') (content k) \<noteq> []" using assms(4) by simp
  ultimately show ?thesis using prefix_closedD [OF assms(1)] assms(2) by metis
qed

lemma bottom_up_highest:
  assumes "NavigableHashMap_inv t valid m" and "valid k" and "content k \<noteq> []"
    and "prefix_closed (dom (cabs m))"
    and "c \<le> Suc (nt_get_class t k)" and "c = 0 \<Longrightarrow> take (Suc 0) (content k) \<in> dom (cabs m)"
    and "0 < c \<Longrightarrow> result = Some (floor_at m k (c - 1)) \<and> take c (content k) \<in> dom (cabs m)"
  shows "\<exists>c'. highest m k c' \<and>
    NavigableHashMap_get_floor_bottom_up t m k c (nt_get_class t k) result = Some (floor_at m k c')"
  using assms(5-)
proof (induction "Suc (nt_get_class t k) - c" arbitrary: c result)
  case 0
  then have c: "c = Suc (nt_get_class t k)" by simp
  then have "highest m k (nt_get_class t k)"
    unfolding highest_def using 0(4) by (metis leD order_refl zero_less_Suc)
  moreover have "NavigableHashMap_get_floor_bottom_up t m k c (nt_get_class t k) result
      = Some (floor_at m k (nt_get_class t k))"
    using 0(4) c by (subst NavigableHashMap_get_floor_bottom_up.simps) simp
  ultimately show ?case by blast
next
  case (Suc n)
  then have c: "c \<le> nt_get_class t k" by simp
  note step = try_get_floor [OF assms(1-3) c]
  show ?case
  proof (cases "take (Suc c) (content k) \<in> dom (cabs m)")
    case True
    have "NavigableHashMap_get_floor_bottom_up t m k c (nt_get_class t k) result =
        NavigableHashMap_get_floor_bottom_up t m k (Suc c) (nt_get_class t k) (Some (floor_at m k c))"
      using step True c by (subst NavigableHashMap_get_floor_bottom_up.simps) simp
    moreover have "\<exists>c'. highest m k c' \<and> NavigableHashMap_get_floor_bottom_up t m k (Suc c)
        (nt_get_class t k) (Some (floor_at m k c)) = Some (floor_at m k c')"
      using Suc.hyps(2) c True by (intro Suc.hyps(1)) auto
    ultimately show ?thesis by simp
  next
    case False
    then have c0: "0 < c" using Suc.prems(2) by (cases c) auto
    have "take (Suc c') (content k) \<notin> dom (cabs m)" if "c - 1 < c'" for c'
    proof -
      have "c \<le> c'" using that c0 by simp
      then show ?thesis using False floors_closed [OF assms(4) _ _ assms(3)] by blast
    qed
    then have "highest m k (c - 1)" using Suc.prems(3) c c0 by (auto simp: highest_def)
    moreover have "NavigableHashMap_get_floor_bottom_up t m k c (nt_get_class t k) result
        = Some (floor_at m k (c - 1))"
      using step False c c0 Suc.prems(3) by (subst NavigableHashMap_get_floor_bottom_up.simps) simp
    ultimately show ?thesis by blast
  qed
qed

lemma binary_search_highest:
  assumes "NavigableHashMap_inv t valid m" and "valid k" and "content k \<noteq> []"
    and "prefix_closed (dom (cabs m))"
    and "0 < lo" and "lo \<le> Suc hi" and "hi \<le> nt_get_class t k"
    and "\<forall>c. hi < c \<and> c \<le> nt_get_class t k \<longrightarrow> take (Suc c) (content k) \<notin> dom (cabs m)"
    and "result = Some (floor_at m k (lo - 1)) \<and> take lo (content k) \<in> dom (cabs m)
      \<or> lo \<le> hi \<and> take (Suc lo) (content k) \<in> dom (cabs m)"
  shows "\<exists>c. highest m k c \<and>
    NavigableHashMap_get_floor_binary_search t m k lo hi result = Some (Some (floor_at m k c))"
  using assms(5-)
proof (induction "Suc hi - lo" arbitrary: lo hi result rule: less_induct)
  case less
  show ?case
  proof (cases "lo \<le> hi")
    case False
    then have hi: "hi = lo - 1" using less.prems(2) by simp
    have r: "result = Some (floor_at m k (lo - 1))" "take lo (content k) \<in> dom (cabs m)"
      using less.prems(5) False by auto
    then have "highest m k (lo - 1)"
      using less.prems(1,3,4) hi unfolding highest_def by simp
    moreover have "NavigableHashMap_get_floor_binary_search t m k lo hi result
        = Some (Some (floor_at m k (lo - 1)))"
      using False r by (subst NavigableHashMap_get_floor_binary_search.simps) simp
    ultimately show ?thesis by blast
  next
    case True
    define mi where "mi = lo + (hi - lo) div 2"
    have mi: "lo \<le> mi" "mi \<le> hi" using True by (auto simp: mi_def)
    then have "mi \<le> nt_get_class t k" using less.prems(3) by simp
    note step = try_get_floor [OF assms(1-3) this]
    show ?thesis
    proof (cases "take (Suc mi) (content k) \<in> dom (cabs m)")
      case found: True
      have "NavigableHashMap_get_floor_binary_search t m k lo hi result =
          NavigableHashMap_get_floor_binary_search t m k (mi + 1) hi (Some (floor_at m k mi))"
        using True found step
        by (subst NavigableHashMap_get_floor_binary_search.simps) (simp add: Let_def mi_def [symmetric])
      moreover have "\<exists>c. highest m k c \<and> NavigableHashMap_get_floor_binary_search t m k (mi + 1) hi
          (Some (floor_at m k mi)) = Some (Some (floor_at m k c))"
        using mi True found less.prems(3,4) by (intro less.hyps) auto
      ultimately show ?thesis by simp
    next
      case missing: False
      have above: "take (Suc c) (content k) \<notin> dom (cabs m)" if "mi - 1 < c" for c
      proof -
        have "mi \<le> c" using that by simp
        then show ?thesis using missing floors_closed [OF assms(4) _ _ assms(3)] by blast
      qed
      have dec: "size_t_dec mi = mi - 1" using mi less.prems(1) by (simp add: size_t_dec_def)
      have "NavigableHashMap_get_floor_binary_search t m k lo hi result =
          NavigableHashMap_get_floor_binary_search t m k lo (mi - 1) result"
        using True missing step dec
        by (subst NavigableHashMap_get_floor_binary_search.simps) (simp add: Let_def mi_def [symmetric])
      moreover have "lo \<le> mi - 1" if "take (Suc lo) (content k) \<in> dom (cabs m)"
        using that missing mi by (cases "lo = mi") auto
      then have "\<exists>c. highest m k c \<and>
          NavigableHashMap_get_floor_binary_search t m k lo (mi - 1) result = Some (Some (floor_at m k c))"
        using mi True above less.prems by (intro less.hyps) auto
      ultimately show ?thesis by simp
    qed
  qed
qed

lemma get_floor_highest:
  assumes "NavigableHashMap_inv t valid m" and "valid k" and "content k \<noteq> []"
    and "prefix_closed (dom (cabs m))" and "[hd (content k)] \<in> dom (cabs m)"
  shows "\<exists>c. highest m k c \<and> NavigableHashMap_get_floor t m k = Some (Some (floor_at m k c))"
proof -
  let ?c = "nt_get_class t k" and ?l = "nt_lucky_clazz t"
  have one: "take (Suc 0) (content k) \<in> dom (cabs m)"
    using assms(3,5) by (cases "content k") auto
  consider "\<not> nt_assume_continous_elements t"
    | "nt_assume_continous_elements t" "0 < ?l \<and> ?l * 2 \<le> ?c \<and> NavigableHashMap_try_get_floor t m k ?l \<noteq> None"
    | "nt_assume_continous_elements t" "\<not> (0 < ?l \<and> ?l * 2 \<le> ?c \<and> NavigableHashMap_try_get_floor t m k ?l \<noteq> None)"
    by blast
  then show ?thesis
  proof cases
    case 1
    have "\<exists>c. highest m k c \<and> NavigableHashMap_get_floor_top_down t m k 0 ?c = Some (Some (floor_at m k c))"
      using top_down_highest [OF assms(1-3,5) order_refl] by (meson leD)
    with 1 show ?thesis
      by (simp add: NavigableHashMap_get_floor_def NavigableHashMap_get_floor_lucky_guess_def Let_def)
  next
    case 2
    then have "take (Suc ?l) (content k) \<in> dom (cabs m)"
      using try_get_floor [OF assms(1-3), of ?l] by (auto split: if_splits)
    then have "\<exists>c. highest m k c \<and> NavigableHashMap_get_floor_binary_search t m k ?l ?c None
        = Some (Some (floor_at m k c))"
      using 2 by (intro binary_search_highest [OF assms(1-4)]) auto
    then show ?thesis
      using 2 by (simp add: NavigableHashMap_get_floor_def NavigableHashMap_get_floor_lucky_guess_def Let_def)
  next
    case 3
    then show ?thesis
      using bottom_up_highest [OF assms(1-4), of 0 None] one
      by (auto simp: NavigableHashMap_get_floor_def NavigableHashMap_get_floor_lucky_guess_def Let_def)
  qed
qed

end

sublocale classified_keys \<subseteq> floors: floor_map
  "NavigableHashMap_ops t" "NavigableHashMap_inv t valid"
  "\<lambda>m. content_abs content valid (NavigableHashMap_abs t m)" content valid
proof (unfold_locales, goal_cases)
  case (1 m k v)
  then have "NavigableHashMap_abs t m k = None"
    using content_abs_key [OF 1(2), of "NavigableHashMap_abs t m"] by simp
  then show ?case
    using NavigableHashMap_put_correct [OF 1(1,2), of v] content_abs_update [OF 1(2)]
    by (simp add: NavigableHashMap_ops_def)
next
  case (2 m)
  then show ?case
    using NavigableHashMap_clear_correct [OF 2] content_abs_empty by (simp add: NavigableHashMap_ops_def)
next
  case (3 m k)
  from get_floor_highest [OF 3] obtain c where c: "highest m k c"
    "NavigableHashMap_get_floor t m k = Some (Some (floor_at m k c))" by blast
  have "content (nt_reduce t k c) = take (Suc c) (content k)" "valid (nt_reduce t k c)"
    using reduce_content 3(2) by auto
  moreover have "take (Suc c) (content k) \<in> dom (cabs m)" using c(1) by (simp add: highest_def)
  ultimately show ?case
    using c(2) highest_longest [OF 3(2,3) c(1)] by (auto simp: NavigableHashMap_ops_def floor_at_def)
qed

text \<open>The template of the compression: collection strategies 1 to 8.\<close>

definition sequence_template :: "bool \<Rightarrow> nat \<Rightarrow> Sequence NavigableHashMap_template" where
  "sequence_template assume_continous_elements lucky_clazz =
    \<lparr>nt_hash = hashSequence, nt_equals = equalsSequence, nt_get_class = getSequenceClass,
     nt_reduce = reduceSequence, nt_assume_continous_elements = assume_continous_elements,
     nt_lucky_clazz = lucky_clazz\<rparr>"

interpretation nav: classified_keys "sequence_template assume_continous lucky" valid_seq seq_content
  for assume_continous lucky
  by unfold_locales
    (simp_all add: sequence_template_def seq_content_inj getSequenceClass_def reduceSequence_def trim_content
      seq_keys.equals_iff)

end
