(* ===== verification/PrefixTreeMap.thy ===== *)
theory PrefixTreeMap
  imports LZWKeys
begin

unbundle bit_operations_syntax

text \<open>
  \<open>prims/PrefixTreeMap.hpp\<close>: a trie.  Nodes live in one growable array and are named by their
  position plus one (\<open>NO_NODE\<close> is 0, the root is 1); the children of a node are an
  \<open>InflatableMap\<close> from elements to node names.  The model keeps the \<open>node_count\<close> nodes in use as a
  list.  The template arguments are the fields of a record, with the virtual functions of the map
  that \<open>create_map\<close> makes.
\<close>

section \<open>The operations\<close>

record ('k, 'e, 'f) PrefixTreeMap_template =
  tt_get_length :: "'k \<Rightarrow> nat"
  tt_get_element :: "'k \<Rightarrow> nat \<Rightarrow> 'e"
  tt_equals_element :: "'e \<Rightarrow> 'e \<Rightarrow> bool"
  tt_create_map :: "'f option"
  tt_fat :: "('e, nat, 'f) Map_ops"

record ('k, 'e, 'f, 'v) PrefixTreeMap_Node =
  pn_entry :: "('k, 'v) MapEntry option"
  pn_children :: "('e, nat, 'f) InflatableMap"

record ('k, 'e, 'f, 'v) PrefixTreeMap =
  pt_nodes :: "('k, 'e, 'f, 'v) PrefixTreeMap_Node list"
  pt_nodes_capacity :: nat

abbreviation (input) NO_NODE :: nat where "NO_NODE \<equiv> 0"
abbreviation (input) ROOT :: nat where "ROOT \<equiv> 1"

definition PrefixTreeMap_get_node ::
  "('k, 'e, 'f, 'v) PrefixTreeMap \<Rightarrow> nat \<Rightarrow> ('k, 'e, 'f, 'v) PrefixTreeMap_Node" where
  "PrefixTreeMap_get_node m ident = pt_nodes m ! (ident - 1)"

definition PrefixTreeMap_grow_nodes :: "('k, 'e, 'f, 'v) PrefixTreeMap \<Rightarrow> ('k, 'e, 'f, 'v) PrefixTreeMap" where
  "PrefixTreeMap_grow_nodes m =
    (if length (pt_nodes m) = pt_nodes_capacity m
     then m\<lparr>pt_nodes_capacity := max 1 (pt_nodes_capacity m * 2)\<rparr> else m)"

text \<open>\<open>allocate_node\<close> followed by the initialisation of the node.\<close>

definition PrefixTreeMap_new_node ::
  "('k, 'e, 'f, 'v) PrefixTreeMap \<Rightarrow> nat \<times> ('k, 'e, 'f, 'v) PrefixTreeMap" where
  "PrefixTreeMap_new_node m0 =
    (let m = PrefixTreeMap_grow_nodes m0;
         node = \<lparr>pn_entry = None, pn_children = InflatableMap_init\<rparr>
     in (Suc (length (pt_nodes m)), m\<lparr>pt_nodes := pt_nodes m @ [node]\<rparr>))"

definition PrefixTreeMap_clear :: "('k, 'e, 'f, 'v) PrefixTreeMap \<Rightarrow> ('k, 'e, 'f, 'v) PrefixTreeMap" where
  "PrefixTreeMap_clear m = snd (PrefixTreeMap_new_node (m\<lparr>pt_nodes := []\<rparr>))"

definition PrefixTreeMap_init :: "nat \<Rightarrow> ('k, 'e, 'f, 'v) PrefixTreeMap" where
  "PrefixTreeMap_init init_capacity =
    PrefixTreeMap_clear \<lparr>pt_nodes = [], pt_nodes_capacity = init_capacity\<rparr>"

definition PrefixTreeMap_get_size :: "('k, 'e, 'f, 'v) PrefixTreeMap \<Rightarrow> nat" where
  "PrefixTreeMap_get_size m = length (pt_nodes m) - 1"

text \<open>Updating the children of a node in place.\<close>

definition PrefixTreeMap_put_child ::
  "('k, 'e, 'f) PrefixTreeMap_template \<Rightarrow> ('k, 'e, 'f, 'v) PrefixTreeMap \<Rightarrow> nat \<Rightarrow> 'e \<Rightarrow> nat
    \<Rightarrow> ('k, 'e, 'f, 'v) PrefixTreeMap" where
  "PrefixTreeMap_put_child t m parent element node =
    (let p = PrefixTreeMap_get_node m parent;
         c = snd (InflatableMap_put (tt_fat t) (tt_equals_element t) 4 (tt_create_map t)
                    (pn_children p) element node)
     in m\<lparr>pt_nodes := (pt_nodes m)[parent - 1 := p\<lparr>pn_children := c\<rparr>]\<rparr>)"

text \<open>\<open>get_or_put\<close> returns the node, the flag behind \<open>create_ptr\<close> and the map.\<close>

definition PrefixTreeMap_get_or_put ::
  "('k, 'e, 'f) PrefixTreeMap_template \<Rightarrow> ('k, 'e, 'f, 'v) PrefixTreeMap \<Rightarrow> nat \<Rightarrow> 'k \<Rightarrow> nat \<Rightarrow> bool
    \<Rightarrow> nat \<times> bool \<times> ('k, 'e, 'f, 'v) PrefixTreeMap" where
  "PrefixTreeMap_get_or_put t m parent key index create =
    (let element = tt_get_element t key index;
         node = (case InflatableMap_get (tt_fat t) (tt_equals_element t)
                        (pn_children (PrefixTreeMap_get_node m parent)) element of
                   Some n \<Rightarrow> n | None \<Rightarrow> NO_NODE)
     in if node \<noteq> NO_NODE then (node, False, m)
        else if create then
          (let (node, m') = PrefixTreeMap_new_node m
           in (node, True, PrefixTreeMap_put_child t m' parent element node))
        else (NO_NODE, False, m))"

text \<open>The loop of \<open>get_floor\<close>: \<open>n\<close> more elements from \<open>index\<close> on; the last node with an entry.\<close>

primrec PrefixTreeMap_floor_walk ::
  "('k, 'e, 'f) PrefixTreeMap_template \<Rightarrow> ('k, 'e, 'f, 'v) PrefixTreeMap \<Rightarrow> 'k \<Rightarrow> nat \<Rightarrow> nat \<Rightarrow> nat \<Rightarrow> nat \<Rightarrow> nat"
where
  "PrefixTreeMap_floor_walk t m key index node last_node 0 = last_node"
| "PrefixTreeMap_floor_walk t m key index node last_node (Suc n) =
    (if node = NO_NODE then last_node
     else (let node = fst (PrefixTreeMap_get_or_put t m node key index False);
               last_node = (if node \<noteq> NO_NODE \<and> pn_entry (PrefixTreeMap_get_node m node) \<noteq> None
                            then node else last_node)
           in PrefixTreeMap_floor_walk t m key (Suc index) node last_node n))"

definition PrefixTreeMap_get_floor ::
  "('k, 'e, 'f) PrefixTreeMap_template \<Rightarrow> ('k, 'e, 'f, 'v) PrefixTreeMap \<Rightarrow> 'k \<Rightarrow> ('k, 'v) MapEntry option"
where
  "PrefixTreeMap_get_floor t m key =
    (let last_node = PrefixTreeMap_floor_walk t m key 0 ROOT ROOT (tt_get_length t key)
     in pn_entry (PrefixTreeMap_get_node m last_node))"

definition PrefixTreeMap_get ::
  "('k, 'e, 'f) PrefixTreeMap_template \<Rightarrow> ('k, 'e, 'f, 'v) PrefixTreeMap \<Rightarrow> 'k \<Rightarrow> 'v option" where
  "PrefixTreeMap_get t m key =
    (case PrefixTreeMap_get_floor t m key of
       Some (k, v) \<Rightarrow> if tt_get_length t k = tt_get_length t key then Some v else None
     | None \<Rightarrow> None)"

text \<open>The loop of \<open>put\<close>, with the flag of its last step.\<close>

primrec PrefixTreeMap_put_walk ::
  "('k, 'e, 'f) PrefixTreeMap_template \<Rightarrow> 'k \<Rightarrow> nat \<Rightarrow> nat \<Rightarrow> nat \<times> bool \<times> ('k, 'e, 'f, 'v) PrefixTreeMap
    \<Rightarrow> nat \<times> bool \<times> ('k, 'e, 'f, 'v) PrefixTreeMap" where
  "PrefixTreeMap_put_walk t key index 0 s = s"
| "PrefixTreeMap_put_walk t key index (Suc n) s =
    (case s of (node, create, m) \<Rightarrow>
       PrefixTreeMap_put_walk t key (Suc index) n (PrefixTreeMap_get_or_put t m node key index True))"

definition PrefixTreeMap_set_entry ::
  "('k, 'e, 'f, 'v) PrefixTreeMap \<Rightarrow> nat \<Rightarrow> ('k, 'v) MapEntry \<Rightarrow> ('k, 'e, 'f, 'v) PrefixTreeMap" where
  "PrefixTreeMap_set_entry m node e =
    m\<lparr>pt_nodes := (pt_nodes m)[node - 1 := (PrefixTreeMap_get_node m node)\<lparr>pn_entry := Some e\<rparr>]\<rparr>"

definition PrefixTreeMap_put ::
  "('k, 'e, 'f) PrefixTreeMap_template \<Rightarrow> ('k, 'e, 'f, 'v) PrefixTreeMap \<Rightarrow> 'k \<Rightarrow> 'v
    \<Rightarrow> bool \<times> ('k, 'e, 'f, 'v) PrefixTreeMap" where
  "PrefixTreeMap_put t m key val =
    (let (node, create, m') =
           PrefixTreeMap_put_walk t key 0 (tt_get_length t key) (ROOT, False, m)
     in (create, if create then PrefixTreeMap_set_entry m' node (key, val) else m'))"

definition PrefixTreeMap_remove ::
  "('k, 'e, 'f, 'v) PrefixTreeMap \<Rightarrow> 'k \<Rightarrow> bool \<times> ('k, 'e, 'f, 'v) PrefixTreeMap" where
  "PrefixTreeMap_remove m key = (False, m)"

definition PrefixTreeMap_ops ::
  "('k, 'e, 'f) PrefixTreeMap_template \<Rightarrow> ('k, 'v, ('k, 'e, 'f, 'v) PrefixTreeMap) NavigableMap_ops" where
  "PrefixTreeMap_ops t =
    \<lparr>Map_get_size = PrefixTreeMap_get_size, Map_get = PrefixTreeMap_get t,
     Map_put = PrefixTreeMap_put t, Map_remove = PrefixTreeMap_remove,
     Map_clear = PrefixTreeMap_clear,
     Map_get_floor = (\<lambda>m k. Some (PrefixTreeMap_get_floor t m k))\<rparr>"

section \<open>The shape of the trie\<close>

text \<open>
  A key is stored under the path of its elements.  \<open>path_of\<close> is the path of a content: the bytes
  themselves, or their halves or quarters.
\<close>

locale trie = inflatable "tt_equals_element t" "\<lambda>_. True" "tt_fat t" fat_inv fat_abs 4 fat0
  for t :: "('k, 'e, 'f) PrefixTreeMap_template"
    and fat_inv :: "'f \<Rightarrow> bool" and fat_abs :: "'f \<Rightarrow> 'e \<rightharpoonup> nat" and fat0 :: 'f +
  fixes valid :: "'k \<Rightarrow> bool" and content :: "'k \<Rightarrow> 'a list" and path_of :: "'a list \<Rightarrow> 'e list"
  assumes create: "tt_create_map t = Some fat0"
    and elements: "valid k \<Longrightarrow> map (tt_get_element t k) [0..<tt_get_length t k] = path_of (content k)"
    and path_prefix: "prefix (path_of p) (path_of q) \<longleftrightarrow> prefix p q"
    and path_Nil: "path_of [] = []"
begin

definition ids :: "('k, 'e, 'f, 'v) PrefixTreeMap \<Rightarrow> nat set" where
  "ids m = {1..length (pt_nodes m)}"

lemma ids_iff: "i \<in> ids m \<longleftrightarrow> 1 \<le> i \<and> i \<le> length (pt_nodes m)"
  by (simp add: ids_def)

definition child :: "('k, 'e, 'f, 'v) PrefixTreeMap \<Rightarrow> nat \<Rightarrow> 'e \<rightharpoonup> nat" where
  "child m i = InflatableMap_abs fat_abs (pn_children (PrefixTreeMap_get_node m i))"

definition entry :: "('k, 'e, 'f, 'v) PrefixTreeMap \<Rightarrow> nat \<Rightarrow> ('k, 'v) MapEntry option" where
  "entry m i = pn_entry (PrefixTreeMap_get_node m i)"

text \<open>\<open>path\<close> assigns to every node the elements on the way from the root to it.\<close>

definition core :: "(nat \<Rightarrow> 'e list) \<Rightarrow> ('k, 'e, 'f, 'v) PrefixTreeMap \<Rightarrow> bool" where
  "core path m \<longleftrightarrow> pt_nodes m \<noteq> [] \<and> path ROOT = [] \<and> inj_on path (ids m)
    \<and> (\<forall>i \<in> ids m. InflatableMap_inv 4 (\<lambda>_. True) fat_inv (pn_children (PrefixTreeMap_get_node m i)))
    \<and> (\<forall>i \<in> ids m. \<forall>e j. child m i e = Some j \<longrightarrow> j \<in> ids m \<and> path j = path i @ [e])
    \<and> (\<forall>j \<in> ids m. j \<noteq> ROOT \<longrightarrow> (\<exists>i \<in> ids m. \<exists>e. child m i e = Some j))
    \<and> (\<forall>i \<in> ids m. \<forall>k v. entry m i = Some (k, v) \<longrightarrow> valid k \<and> path_of (content k) = path i)"

lemma coreD:
  assumes "core path m"
  shows "ROOT \<in> ids m" and "path ROOT = []" and "inj_on path (ids m)"
    and "i \<in> ids m \<Longrightarrow> InflatableMap_inv 4 (\<lambda>_. True) fat_inv (pn_children (PrefixTreeMap_get_node m i))"
    and "i \<in> ids m \<Longrightarrow> child m i e = Some j \<Longrightarrow> j \<in> ids m \<and> path j = path i @ [e]"
    and "j \<in> ids m \<Longrightarrow> j \<noteq> ROOT \<Longrightarrow> \<exists>i \<in> ids m. \<exists>e. child m i e = Some j"
    and "i \<in> ids m \<Longrightarrow> entry m i = Some (k, v) \<Longrightarrow> valid k \<and> path_of (content k) = path i"
proof -
  show "ROOT \<in> ids m" using assms by (cases "pt_nodes m") (auto simp: core_def ids_iff)
  show "path ROOT = []" "inj_on path (ids m)" using assms unfolding core_def by blast+
  show "InflatableMap_inv 4 (\<lambda>_. True) fat_inv (pn_children (PrefixTreeMap_get_node m i))"
    if "i \<in> ids m" using that assms unfolding core_def by blast
  show "j \<in> ids m \<and> path j = path i @ [e]" if "i \<in> ids m" "child m i e = Some j"
    using that assms unfolding core_def by blast
  show "\<exists>i \<in> ids m. \<exists>e. child m i e = Some j" if "j \<in> ids m" "j \<noteq> ROOT"
    using that assms unfolding core_def by blast
  show "valid k \<and> path_of (content k) = path i" if "i \<in> ids m" "entry m i = Some (k, v)"
    using that assms unfolding core_def by blast
qed

text \<open>Every prefix of a node's path belongs to a node, and children are found by their paths.\<close>

lemma path_prefix_node:
  assumes "core path m"
  shows "j \<in> ids m \<Longrightarrow> path j = q @ r \<Longrightarrow> \<exists>i \<in> ids m. path i = q"
proof (induction r arbitrary: j rule: rev_induct)
  case Nil
  then show ?case by auto
next
  case (snoc e r)
  then have "j \<noteq> ROOT" using coreD(2) [OF assms] by auto
  with coreD(6) [OF assms snoc.prems(1)] obtain i e' where i: "i \<in> ids m" "child m i e' = Some j" by blast
  then have "path j = path i @ [e']" using coreD(5) [OF assms i] by simp
  then have "path i = q @ r" using snoc.prems(2) by (metis append.assoc butlast_snoc)
  with snoc.IH [OF i(1)] show ?case by blast
qed

lemma child_path:
  assumes "core path m" and "i \<in> ids m" and "j \<in> ids m"
  shows "child m i e = Some j \<longleftrightarrow> path j = path i @ [e]"
proof
  assume "child m i e = Some j"
  then show "path j = path i @ [e]" using coreD(5) [OF assms(1,2)] by blast
next
  assume p: "path j = path i @ [e]"
  then have "j \<noteq> ROOT" using coreD(2) [OF assms(1)] by auto
  with coreD(6) [OF assms(1,3)] obtain i' e' where i': "i' \<in> ids m" "child m i' e' = Some j" by blast
  then have "path j = path i' @ [e']" using coreD(5) [OF assms(1) i'] by simp
  with p have "path i' = path i" "e' = e" by auto
  then show "child m i e = Some j" using i' assms(2) coreD(3) [OF assms(1)] by (auto dest: inj_onD)
qed

lemma child_None_path:
  assumes "core path m" and "i \<in> ids m"
  shows "child m i e = None \<longleftrightarrow> path i @ [e] \<notin> path ` ids m"
proof (cases "child m i e")
  case None
  have "path i @ [e] \<noteq> path j" if "j \<in> ids m" for j
    using child_path [OF assms that, of e] None by auto
  with None show ?thesis by blast
next
  case (Some j)
  with coreD(5) [OF assms Some] show ?thesis by (metis image_eqI option.distinct(1))
qed

section \<open>Steps\<close>

lemma get_or_put_found:
  assumes "core path m" and "i \<in> ids m" and "child m i (tt_get_element t k index) = Some j"
  shows "PrefixTreeMap_get_or_put t m i k index create = (j, False, m)"
proof -
  have "j \<noteq> NO_NODE" using coreD(5) [OF assms] by (auto simp: ids_iff)
  moreover have "InflatableMap_get (tt_fat t) (tt_equals_element t)
      (pn_children (PrefixTreeMap_get_node m i)) (tt_get_element t k index) = Some j"
    using inflated.get_law [OF coreD(4) [OF assms(1,2)]] assms(3)
    by (simp add: InflatableMap_ops_def child_def)
  ultimately show ?thesis by (simp add: PrefixTreeMap_get_or_put_def Let_def)
qed

lemma get_or_put_missing:
  assumes "core path m" and "i \<in> ids m" and "child m i (tt_get_element t k index) = None"
  shows "PrefixTreeMap_get_or_put t m i k index False = (NO_NODE, False, m)"
    and "PrefixTreeMap_get_or_put t m i k index True = (Suc (length (pt_nodes m)), True,
      PrefixTreeMap_put_child t (snd (PrefixTreeMap_new_node m)) i (tt_get_element t k index)
        (Suc (length (pt_nodes m))))"
proof -
  have "InflatableMap_get (tt_fat t) (tt_equals_element t)
      (pn_children (PrefixTreeMap_get_node m i)) (tt_get_element t k index) = None"
    using inflated.get_law [OF coreD(4) [OF assms(1,2)]] assms(3)
    by (simp add: InflatableMap_ops_def child_def)
  then show "PrefixTreeMap_get_or_put t m i k index False = (NO_NODE, False, m)"
    "PrefixTreeMap_get_or_put t m i k index True = (Suc (length (pt_nodes m)), True,
      PrefixTreeMap_put_child t (snd (PrefixTreeMap_new_node m)) i (tt_get_element t k index)
        (Suc (length (pt_nodes m))))"
    by (simp_all add: PrefixTreeMap_get_or_put_def Let_def PrefixTreeMap_new_node_def
        PrefixTreeMap_grow_nodes_def)
qed

text \<open>The trie after a new child \<open>e\<close> of node \<open>i\<close>.\<close>

lemma new_child:
  assumes "core path m" and i: "i \<in> ids m" and "child m i e = None"
    and m': "m' = PrefixTreeMap_put_child t (snd (PrefixTreeMap_new_node m)) i e (Suc (length (pt_nodes m)))"
  shows "length (pt_nodes m') = Suc (length (pt_nodes m))"
    and "j \<in> ids m \<Longrightarrow> entry m' j = entry m j" and "entry m' (Suc (length (pt_nodes m))) = None"
    and "j \<in> ids m \<Longrightarrow> child m' j =
      (if j = i then (child m i)(e \<mapsto> Suc (length (pt_nodes m))) else child m j)"
    and "child m' (Suc (length (pt_nodes m))) = Map.empty"
    and "j \<in> ids m' \<Longrightarrow> InflatableMap_inv 4 (\<lambda>_. True) fat_inv (pn_children (PrefixTreeMap_get_node m' j))"
proof -
  let ?n = "length (pt_nodes m)" and ?m = "snd (PrefixTreeMap_new_node m)"
  let ?fresh = "\<lparr>pn_entry = None, pn_children = InflatableMap_init\<rparr> :: ('k, 'e, 'f, 'v) PrefixTreeMap_Node"
  have m: "pt_nodes ?m = pt_nodes m @ [?fresh]"
    by (simp add: PrefixTreeMap_new_node_def PrefixTreeMap_grow_nodes_def Let_def)
  have node: "PrefixTreeMap_get_node ?m j = (if j = Suc ?n then ?fresh else PrefixTreeMap_get_node m j)"
    if "1 \<le> j" "j \<le> Suc ?n" for j
    using that m by (auto simp: PrefixTreeMap_get_node_def nth_append)
  let ?c = "pn_children (PrefixTreeMap_get_node m i)"
  let ?c' = "snd (InflatableMap_put (tt_fat t) (tt_equals_element t) 4 (Some fat0) ?c e (Suc ?n))"
  have c: "InflatableMap_inv 4 (\<lambda>_. True) fat_inv ?c'"
    "InflatableMap_abs fat_abs ?c' = (child m i)(e \<mapsto> Suc ?n)"
    using InflatableMap_put_correct [OF coreD(4) [OF assms(1) i], of e "Suc ?n"] assms(3)
    by (simp_all add: child_def)
  have nodes': "pt_nodes m' = (pt_nodes ?m)[i - 1 := (PrefixTreeMap_get_node m i)\<lparr>pn_children := ?c'\<rparr>]"
    using i node [of i] create unfolding ids_iff by (simp add: m' PrefixTreeMap_put_child_def Let_def)
  show len: "length (pt_nodes m') = Suc ?n" using m by (simp add: nodes')
  have node': "PrefixTreeMap_get_node m' j =
      (if j = i then (PrefixTreeMap_get_node m i)\<lparr>pn_children := ?c'\<rparr>
       else if j = Suc ?n then ?fresh else PrefixTreeMap_get_node m j)"
    if "1 \<le> j" "j \<le> Suc ?n" for j
    using that i m node [of j] unfolding ids_iff by (auto simp: PrefixTreeMap_get_node_def nodes' nth_list_update)
  show "entry m' j = entry m j" if "j \<in> ids m"
    using that node' unfolding ids_iff by (auto simp: entry_def)
  show "entry m' (Suc ?n) = None" using node' [of "Suc ?n"] i unfolding ids_iff by (auto simp: entry_def)
  show "child m' j = (if j = i then (child m i)(e \<mapsto> Suc ?n) else child m j)" if "j \<in> ids m"
    using that node' c unfolding ids_iff by (auto simp: child_def)
  show "child m' (Suc ?n) = Map.empty"
    using node' [of "Suc ?n"] i unfolding ids_iff by (auto simp: child_def InflatableMap_init_def SmallMap_abs_def SmallMap_init_def)
  show "InflatableMap_inv 4 (\<lambda>_. True) fat_inv (pn_children (PrefixTreeMap_get_node m' j))" if "j \<in> ids m'"
    using that node' [of j] c len coreD(4) [OF assms(1), of j] unfolding ids_iff
    by (auto simp: InflatableMap_init_def SmallMap_inv_def SmallMap_init_def)
qed

text \<open>A trie extends another: old nodes keep their paths and entries, new ones have no entry.\<close>

definition ext ::
  "(nat \<Rightarrow> 'e list) \<Rightarrow> ('k, 'e, 'f, 'v) PrefixTreeMap \<Rightarrow> (nat \<Rightarrow> 'e list) \<Rightarrow> ('k, 'e, 'f, 'v) PrefixTreeMap \<Rightarrow> bool"
where
  "ext path m path' m' \<longleftrightarrow> ids m \<subseteq> ids m' \<and> (\<forall>i \<in> ids m. path' i = path i \<and> entry m' i = entry m i)
    \<and> (\<forall>i \<in> ids m' - ids m. entry m' i = None)"

lemma ext_refl: "ext path m path m"
  by (simp add: ext_def)

lemma ext_trans: "ext p1 m1 p2 m2 \<Longrightarrow> ext p2 m2 p3 m3 \<Longrightarrow> ext p1 m1 p3 m3"
proof -
  assume a: "ext p1 m1 p2 m2" and b: "ext p2 m2 p3 m3"
  have sub: "ids m1 \<subseteq> ids m2" "ids m2 \<subseteq> ids m3" using a b unfolding ext_def by blast+
  show "ext p1 m1 p3 m3"
    unfolding ext_def
  proof (intro conjI ballI)
    show "ids m1 \<subseteq> ids m3" using sub by (rule subset_trans)
    fix i assume i: "i \<in> ids m1"
    have i2: "i \<in> ids m2" by (rule subsetD [OF sub(1) i])
    show "p3 i = p1 i" "entry m3 i = entry m1 i"
      using a b i i2 unfolding ext_def by (metis (no_types))+
  next
    fix i assume i: "i \<in> ids m3 - ids m1"
    show "entry m3 i = None"
    proof (cases "i \<in> ids m2")
      case True
      then have "entry m3 i = entry m2 i" using b unfolding ext_def by blast
      moreover have "entry m2 i = None" using a i True unfolding ext_def by blast
      ultimately show ?thesis by simp
    next
      case False
      then show ?thesis using b i unfolding ext_def by blast
    qed
  qed
qed

lemma new_child_core:
  assumes "core path m" and i: "i \<in> ids m" and c: "child m i e = None"
    and m': "m' = PrefixTreeMap_put_child t (snd (PrefixTreeMap_new_node m)) i e (Suc (length (pt_nodes m)))"
    and p': "path' = path(Suc (length (pt_nodes m)) := path i @ [e])"
  shows "core path' m'"
proof -
  let ?n = "length (pt_nodes m)"
  note nc = new_child [OF assms(1) i c m']
  note core = coreD [OF assms(1)]
  have ids': "ids m' = insert (Suc ?n) (ids m)" using nc(1) by (auto simp: ids_iff)
  have new: "Suc ?n \<notin> ids m" by (simp add: ids_iff)
  have same: "path' j = path j" if "j \<in> ids m" for j using that new by (auto simp: p')
  have fresh: "path i @ [e] \<notin> path ` ids m" using child_None_path [OF assms(1) i] c by simp
  have img: "path' ` ids m = path ` ids m" using same by (rule image_cong [OF refl])
  have "inj_on path' (ids m)" using core(3) by (subst inj_on_cong [OF same])
  moreover have "path' (Suc ?n) \<notin> path' ` (ids m - {Suc ?n})"
    unfolding Diff_insert0 [OF new] Diff_empty img using fresh by (simp add: p')
  ultimately have "inj_on path' (ids m')" unfolding ids' inj_on_insert by blast
  moreover have "j \<in> ids m' \<and> path' j = path' x @ [d]" if "x \<in> ids m'" "child m' x d = Some j" for x d j
  proof (cases "x = Suc ?n")
    case True
    then show ?thesis using that nc(5) by simp
  next
    case False
    then have x: "x \<in> ids m" using that(1) ids' by simp
    show ?thesis
    proof (cases "x = i \<and> d = e")
      case True
      then have "j = Suc ?n" using that(2) nc(4) [OF x] by simp
      then show ?thesis using True x same ids' by (simp add: p')
    next
      case False
      then have "child m x d = Some j" using that(2) nc(4) [OF x] by (auto split: if_splits)
      then show ?thesis using core(5) [OF x] same x ids' by auto
    qed
  qed
  moreover have "\<exists>x \<in> ids m'. \<exists>d. child m' x d = Some j" if "j \<in> ids m'" "j \<noteq> ROOT" for j
  proof (cases "j = Suc ?n")
    case True
    then show ?thesis using i ids' nc(4) [OF i] by (intro bexI [of _ i] exI [of _ e]) auto
  next
    case False
    then have j: "j \<in> ids m" using that(1) ids' by simp
    from core(6) [OF j that(2)] obtain x d where x: "x \<in> ids m" "child m x d = Some j" by blast
    have "child m' x d = Some j" using nc(4) [OF x(1)] x(2) c by auto
    then show ?thesis using x(1) ids' by blast
  qed
  moreover have "valid k \<and> path_of (content k) = path' x" if "x \<in> ids m'" "entry m' x = Some (k, v)" for x k v
    using that nc(2,3) core(7) same ids' by (cases "x = Suc ?n") auto
  moreover have "pt_nodes m' \<noteq> []" using nc(1) by auto
  moreover have "path' ROOT = []" using core(1,2) same by simp
  ultimately show ?thesis unfolding core_def using nc(6) by blast
qed

lemma get_or_put_step:
  assumes "core path m" and i: "i \<in> ids m"
    and "PrefixTreeMap_get_or_put t m i k index True = (j, c, m')"
  shows "\<exists>path'. core path' m' \<and> ext path m path' m' \<and> j \<in> ids m'
    \<and> path' j = path i @ [tt_get_element t k index]
    \<and> path' ` ids m' = insert (path i @ [tt_get_element t k index]) (path ` ids m)
    \<and> c = (path i @ [tt_get_element t k index] \<notin> path ` ids m) \<and> (c \<longrightarrow> j \<notin> ids m)"
proof (cases "child m i (tt_get_element t k index)")
  case None
  let ?n = "length (pt_nodes m)" and ?e = "tt_get_element t k index"
  define path' where "path' = path(Suc ?n := path i @ [?e])"
  have eqs: "j = Suc ?n" "c"
    "m' = PrefixTreeMap_put_child t (snd (PrefixTreeMap_new_node m)) i ?e (Suc ?n)"
    using get_or_put_missing(2) [OF assms(1) i None] assms(3) by auto
  note nc = new_child [OF assms(1) i None eqs(3)]
  have ids': "ids m' = insert (Suc ?n) (ids m)" using nc(1) by (auto simp: ids_iff)
  have new: "Suc ?n \<notin> ids m" by (simp add: ids_iff)
  have same: "path' x = path x" if "x \<in> ids m" for x using that new by (auto simp: path'_def)
  have "core path' m'" by (rule new_child_core [OF assms(1) i None eqs(3) path'_def])
  moreover have "ext path m path' m'"
    using nc(2,3) same by (auto simp: ext_def ids')
  moreover have "path' ` ids m = path ` ids m" using same by (rule image_cong [OF refl])
  then have "path' ` ids m' = insert (path i @ [?e]) (path ` ids m)"
    unfolding ids' image_insert by (simp only: path'_def fun_upd_same)
  moreover have "path i @ [?e] \<notin> path ` ids m" using child_None_path [OF assms(1) i] None by simp
  ultimately show ?thesis using eqs ids' new by (intro exI [of _ path']) (auto simp: path'_def)
next
  case (Some x)
  then have eqs: "j = x" "\<not> c" "m' = m" using get_or_put_found [OF assms(1) i Some] assms(3) by auto
  have "x \<in> ids m \<and> path x = path i @ [tt_get_element t k index]" using coreD(5) [OF assms(1) i Some] .
  moreover from this have "path i @ [tt_get_element t k index] \<in> path ` ids m" by (metis image_eqI)
  ultimately show ?thesis
    using eqs assms(1) ext_refl by (intro exI [of _ path]) (auto simp: insert_absorb)
qed

lemma put_walk_correct:
  assumes "core path m" and "i \<in> ids m"
    and "PrefixTreeMap_put_walk t k index n (i, c, m) = (j, c', m')"
    and "q = map (tt_get_element t k) [index..<index + n]"
  shows "\<exists>path'. core path' m' \<and> ext path m path' m' \<and> j \<in> ids m' \<and> path' j = path i @ q
    \<and> path' ` ids m' = path ` ids m \<union> {path i @ p | p. prefix p q \<and> p \<noteq> []}
    \<and> (0 < n \<longrightarrow> c' = (path i @ q \<notin> path ` ids m) \<and> (c' \<longrightarrow> j \<notin> ids m))"
  using assms
proof (induction n arbitrary: path m i index c q)
  case 0
  then show ?case using ext_refl by (intro exI [of _ path]) auto
next
  case (Suc n)
  let ?e = "tt_get_element t k index"
  let ?q = "map (tt_get_element t k) [Suc index..<Suc index + n]"
  have "[index..<index + Suc n] = index # [Suc index..<Suc index + n]"
    by (simp add: upt_conv_Cons del: upt_Suc)
  then have q: "q = ?e # ?q" using Suc.prems(4) by (simp only: list.map)
  obtain j1 c1 m1 where s: "PrefixTreeMap_get_or_put t m i k index True = (j1, c1, m1)"
    by (cases "PrefixTreeMap_get_or_put t m i k index True") auto
  from get_or_put_step [OF Suc.prems(1,2) s] obtain p1 where p1: "core p1 m1" "ext path m p1 m1"
    "j1 \<in> ids m1" "p1 j1 = path i @ [?e]" "p1 ` ids m1 = insert (path i @ [?e]) (path ` ids m)"
    "c1 = (path i @ [?e] \<notin> path ` ids m)" "c1 \<longrightarrow> j1 \<notin> ids m"
    by blast
  have w: "PrefixTreeMap_put_walk t k (Suc index) n (j1, c1, m1) = (j, c', m')"
    using Suc.prems(3) s by simp
  from Suc.IH [OF p1(1,3) w refl] obtain p2 where p2: "core p2 m'" "ext p1 m1 p2 m'" "j \<in> ids m'"
    "p2 j = p1 j1 @ ?q" "p2 ` ids m' = p1 ` ids m1 \<union> {p1 j1 @ p | p. prefix p ?q \<and> p \<noteq> []}"
    "0 < n \<longrightarrow> c' = (p1 j1 @ ?q \<notin> p1 ` ids m1) \<and> (c' \<longrightarrow> j \<notin> ids m1)"
    by blast
  have "{path i @ p | p. prefix p q \<and> p \<noteq> []} =
      insert (path i @ [?e]) {p1 j1 @ p | p. prefix p ?q \<and> p \<noteq> []}"
    unfolding q p1(4) by (auto simp: prefix_Cons)
  then have img: "p2 ` ids m' = path ` ids m \<union> {path i @ p | p. prefix p q \<and> p \<noteq> []}"
    using p2(5) p1(5) by simp
  have "c' = (path i @ q \<notin> path ` ids m) \<and> (c' \<longrightarrow> j \<notin> ids m)"
  proof (cases n)
    case 0
    then show ?thesis using w p1 q by simp
  next
    case (Suc n')
    then have "p1 j1 @ ?q \<noteq> path i @ [?e]" by (simp add: p1(4))
    then show ?thesis using p2(6) p1 q Suc p1(2) by (auto simp: ext_def)
  qed
  then show ?case
    using p2 p1 q img ext_trans [OF p1(2) p2(2)] by (intro exI [of _ p2]) simp
qed

section \<open>The contract\<close>

text \<open>Between operations every node lies on the way to an entry, and the root has none.\<close>

definition full :: "(nat \<Rightarrow> 'e list) \<Rightarrow> ('k, 'e, 'f, 'v) PrefixTreeMap \<Rightarrow> bool" where
  "full path m \<longleftrightarrow> core path m \<and> entry m ROOT = None
    \<and> (\<forall>i \<in> ids m. i \<noteq> ROOT \<longrightarrow> (\<exists>j \<in> ids m. entry m j \<noteq> None \<and> prefix (path i) (path j)))"

definition tinv :: "('k, 'e, 'f, 'v) PrefixTreeMap \<Rightarrow> bool" where
  "tinv m \<longleftrightarrow> (\<exists>path. full path m)"

definition tabs :: "('k, 'e, 'f, 'v) PrefixTreeMap \<Rightarrow> 'a list \<rightharpoonup> 'v" where
  "tabs m p = (if \<exists>i \<in> ids m. \<exists>k v. entry m i = Some (k, v) \<and> content k = p
    then Some (SOME v. \<exists>i \<in> ids m. \<exists>k. entry m i = Some (k, v) \<and> content k = p) else None)"

lemma tabs_iff:
  assumes "core path m"
  shows "tabs m p = Some v \<longleftrightarrow> (\<exists>i \<in> ids m. \<exists>k. entry m i = Some (k, v) \<and> content k = p)"
proof -
  define E where "E = (\<lambda>v. \<exists>i \<in> ids m. \<exists>k. entry m i = Some (k, v) \<and> content k = p)"
  have uniq: "v1 = v2" if E: "E v1" "E v2" for v1 v2
  proof -
    obtain i1 k1 i2 k2 where e: "i1 \<in> ids m" "entry m i1 = Some (k1, v1)" "content k1 = p"
      "i2 \<in> ids m" "entry m i2 = Some (k2, v2)" "content k2 = p" using E unfolding E_def by blast
    then have "path i1 = path i2" using coreD(7) [OF assms e(1,2)] coreD(7) [OF assms e(4,5)] by simp
    then have "i1 = i2" using e coreD(3) [OF assms] by (simp add: inj_on_eq_iff)
    with e show ?thesis by simp
  qed
  have "(\<exists>i \<in> ids m. \<exists>k v. entry m i = Some (k, v) \<and> content k = p) \<longleftrightarrow> (\<exists>v. E v)"
    unfolding E_def by blast
  then have t: "tabs m p = (if \<exists>v. E v then Some (SOME v. E v) else None)"
    unfolding tabs_def E_def by (simp only:)
  have "tabs m p = Some v \<longleftrightarrow> E v"
  proof (cases "\<exists>v. E v")
    case True
    then have "E (SOME v. E v)" by (rule someI_ex)
    with True uniq show ?thesis unfolding t by auto
  next
    case False
    then show ?thesis unfolding t by auto
  qed
  then show ?thesis by (simp only: E_def)
qed

lemma path_of_ne: "p \<noteq> [] \<Longrightarrow> path_of p \<noteq> []"
  using path_prefix [of p "[]"] path_Nil by auto

lemma node_stored:
  assumes "full path m" and "prefix_closed (dom (tabs m))" and "i \<in> ids m" and "path i = path_of p"
    and "p \<noteq> []"
  shows "p \<in> dom (tabs m)"
proof -
  have core: "core path m" using assms(1) by (simp add: full_def)
  have "i \<noteq> ROOT" using coreD(2) [OF core] assms(4) path_of_ne [OF assms(5)] by auto
  with assms(1,3) obtain j where j: "j \<in> ids m" "entry m j \<noteq> None" "prefix (path i) (path j)"
    unfolding full_def by blast
  then obtain k v where e: "entry m j = Some (k, v)" by auto
  have "prefix p (content k)"
    using coreD(7) [OF core j(1) e] j(3) assms(4) path_prefix [of p "content k"] by simp
  then obtain r where "content k = p @ r" by (auto simp: prefix_def)
  moreover have "content k \<in> dom (tabs m)" using tabs_iff [OF core] j(1) e by blast
  ultimately show ?thesis using prefix_closedD [OF assms(2)] assms(5) by simp
qed

lemma set_entry:
  assumes "j \<in> ids m" and "m' = PrefixTreeMap_set_entry m j e"
  shows "ids m' = ids m" and "x \<in> ids m \<Longrightarrow> entry m' x = (if x = j then Some e else entry m x)"
    and "x \<in> ids m \<Longrightarrow> pn_children (PrefixTreeMap_get_node m' x) = pn_children (PrefixTreeMap_get_node m x)"
  using assms unfolding ids_iff
  by (auto simp: PrefixTreeMap_set_entry_def ids_def entry_def PrefixTreeMap_get_node_def nth_list_update)

lemma set_entry_core:
  assumes "core path m" and "j \<in> ids m" and "m' = PrefixTreeMap_set_entry m j (k, v)"
    and "valid k" and "path j = path_of (content k)"
  shows "core path m'"
proof -
  note se = set_entry [OF assms(2,3)]
  have ch: "child m' x = child m x" if "x \<in> ids m" for x using se(3) [OF that] by (simp add: child_def)
  have ne: "pt_nodes m' \<noteq> []" using assms(1,3) by (simp add: core_def PrefixTreeMap_set_entry_def)
  note core = coreD [OF assms(1)]
  have "\<exists>i \<in> ids m. \<exists>e. child m' i e = Some x" if "x \<in> ids m" "x \<noteq> ROOT" for x
    using core(6) [OF that] ch by metis
  moreover have "x \<in> ids m \<and> path x = path i @ [e]" if "i \<in> ids m" "child m' i e = Some x" for i e x
    using core(5) [OF that(1)] ch [OF that(1)] that(2) by simp
  moreover have "valid k' \<and> path_of (content k') = path x" if "x \<in> ids m" "entry m' x = Some (k', v')" for x k' v'
    using that se(2) core(7) [OF that(1)] assms(4,5) by (auto split: if_splits)
  ultimately show ?thesis
    unfolding core_def se(1) using ne core(2,3,4) se(3) by simp
qed

lemma put_new:
  assumes "tinv m" and "valid k" and "content k \<noteq> []" and "prefix_closed (dom (tabs m))"
    and "tabs m (content k) = None"
  shows "tinv (snd (PrefixTreeMap_put t m k v)) \<and> fst (PrefixTreeMap_put t m k v)
    \<and> tabs (snd (PrefixTreeMap_put t m k v)) = (tabs m)(content k \<mapsto> v)"
proof -
  let ?q = "path_of (content k)"
  obtain path where full: "full path m" using assms(1) by (auto simp: tinv_def)
  then have core: "core path m" by (simp add: full_def)
  have el: "?q = map (tt_get_element t k) [0..<0 + tt_get_length t k]" using elements [OF assms(2)] by simp
  have len: "0 < tt_get_length t k" using el path_of_ne [OF assms(3)] by (cases "tt_get_length t k") auto
  obtain j c m1 where w: "PrefixTreeMap_put_walk t k 0 (tt_get_length t k) (ROOT, False, m) = (j, c, m1)"
    by (cases "PrefixTreeMap_put_walk t k 0 (tt_get_length t k) (ROOT, False, m)") auto
  from put_walk_correct [OF core coreD(1) [OF core] w el] obtain p1 where
    p1: "core p1 m1" "ext path m p1 m1" "j \<in> ids m1" "p1 j = ?q"
      "p1 ` ids m1 = path ` ids m \<union> {p | p. prefix p ?q \<and> p \<noteq> []}"
      "c = (?q \<notin> path ` ids m)" "c \<longrightarrow> j \<notin> ids m"
    using len coreD(2) [OF core] by auto
  have c: "c" using node_stored [OF full assms(4) _ _ assms(3)] assms(5) p1(6) by (auto simp: domIff)
  then have j: "j \<notin> ids m" using p1(7) by blast
  define m2 where "m2 = PrefixTreeMap_set_entry m1 j (k, v)"
  have put: "PrefixTreeMap_put t m k v = (True, m2)" using w c by (simp add: PrefixTreeMap_put_def m2_def)
  note se = set_entry [OF p1(3) m2_def]
  have core2: "core p1 m2" by (rule set_entry_core [OF p1(1,3) m2_def assms(2) p1(4)])
  have sub: "ids m \<subseteq> ids m1" and old: "\<And>i. i \<in> ids m \<Longrightarrow> p1 i = path i \<and> entry m1 i = entry m i"
    and fresh: "\<And>i. i \<in> ids m1 \<Longrightarrow> i \<notin> ids m \<Longrightarrow> entry m1 i = None"
    using p1(2) unfolding ext_def by blast+
  have ent2: "entry m2 i = (if i = j then Some (k, v) else if i \<in> ids m then entry m i else None)"
    if "i \<in> ids m1" for i
    using that se(2) old fresh by auto
  have "full p1 m2"
    unfolding full_def se(1)
  proof (intro conjI ballI impI)
    show "core p1 m2" by (rule core2)
    have "ROOT \<in> ids m" by (rule coreD(1) [OF core])
    then show "entry m2 ROOT = None"
      using full ent2 sub j unfolding full_def by (metis subset_iff)
  next
    fix i assume i: "i \<in> ids m1" "i \<noteq> ROOT"
    show "\<exists>j \<in> ids m1. entry m2 j \<noteq> None \<and> prefix (p1 i) (p1 j)"
    proof (cases "i \<in> ids m")
      case True
      with full i(2) obtain x where x: "x \<in> ids m" "entry m x \<noteq> None" "prefix (path i) (path x)"
        unfolding full_def by blast
      have "x \<noteq> j" using x(1) j by blast
      then have "entry m2 x \<noteq> None" using ent2 [of x] sub x by auto
      then show ?thesis using x old True sub by (metis subset_iff)
    next
      case False
      have "p1 i \<notin> path ` ids m"
      proof
        assume "p1 i \<in> path ` ids m"
        then obtain x where x: "x \<in> ids m" "p1 i = p1 x" using old by auto
        then have "i = x" using i(1) sub coreD(3) [OF p1(1)] by (meson inj_onD subset_iff)
        with x False show False by simp
      qed
      then have "prefix (p1 i) ?q" using p1(5) i(1) by blast
      then show ?thesis using p1(3,4) ent2 [OF p1(3)] by (intro bexI [of _ j]) auto
    qed
  qed
  moreover have "tabs m2 = (tabs m)(content k \<mapsto> v)"
  proof
    fix p
    have iff: "tabs m2 p = Some x \<longleftrightarrow> (p = content k \<and> x = v) \<or> tabs m p = Some x" for x
      unfolding tabs_iff [OF core2] tabs_iff [OF core] se(1)
      using ent2 sub j p1(3) by (auto split: if_splits) (metis subset_iff)+
    show "tabs m2 p = ((tabs m)(content k \<mapsto> v)) p"
      using iff assms(5) by (cases "tabs m2 p"; cases "tabs m p") (auto split: if_splits)
  qed
  ultimately show ?thesis using put by (auto simp: tinv_def)
qed

lemma floor_walk_correct:
  assumes "core path m" and "i \<in> ids m" and "path i = take index xs" and "index + n = length xs"
    and "\<And>l. l < length xs \<Longrightarrow> tt_get_element t k l = xs ! l"
  shows "let r = PrefixTreeMap_floor_walk t m k index i lst n in
    (r = lst \<and> (\<forall>j \<in> ids m. \<forall>l. index < l \<and> l \<le> length xs \<and> path j = take l xs \<longrightarrow> entry m j = None))
    \<or> (\<exists>l. index < l \<and> l \<le> length xs \<and> r \<in> ids m \<and> path r = take l xs \<and> entry m r \<noteq> None
       \<and> (\<forall>j \<in> ids m. \<forall>l'. l < l' \<and> l' \<le> length xs \<and> path j = take l' xs \<longrightarrow> entry m j = None))"
  using assms(2-4)
proof (induction n arbitrary: index i lst)
  case 0
  then show ?case by auto
next
  case (Suc n)
  let ?e = "tt_get_element t k index"
  have ix: "index < length xs" using Suc.prems(3) by simp
  have nxt: "take (Suc index) xs = path i @ [?e]"
    using Suc.prems(2) assms(5) [OF ix] ix by (simp add: take_Suc_conv_app_nth)
  have "i \<noteq> NO_NODE" using Suc.prems(1) by (simp add: ids_iff)
  show ?case
  proof (cases "child m i ?e")
    case None
    then have "PrefixTreeMap_floor_walk t m k index i lst (Suc n) =
        PrefixTreeMap_floor_walk t m k (Suc index) NO_NODE lst n"
      using get_or_put_missing(1) [OF assms(1) Suc.prems(1) None] \<open>i \<noteq> NO_NODE\<close> by simp
    also have "\<dots> = lst" by (cases n) simp_all
    finally have r: "PrefixTreeMap_floor_walk t m k index i lst (Suc n) = lst" .
    have "path j \<noteq> take l xs" if "j \<in> ids m" "index < l" for j l
    proof
      assume "path j = take l xs"
      moreover have "take l xs = take (Suc index) xs @ drop (Suc index) (take l xs)"
        using that(2) by (metis append_take_drop_id min.absorb1 Suc_leI take_take)
      ultimately have "\<exists>x \<in> ids m. path x = take (Suc index) xs"
        using path_prefix_node [OF assms(1) that(1)] by metis
      with None child_None_path [OF assms(1) Suc.prems(1), of ?e] nxt show False by (metis image_eqI)
    qed
    then show ?thesis unfolding r Let_def by blast
  next
    case (Some j)
    have j: "j \<in> ids m" "path j = take (Suc index) xs"
      using coreD(5) [OF assms(1) Suc.prems(1) Some] nxt by simp_all
    have jn: "j \<noteq> NO_NODE" using j(1) by (simp add: ids_iff)
    have r: "PrefixTreeMap_floor_walk t m k index i lst (Suc n) =
        PrefixTreeMap_floor_walk t m k (Suc index) j (if entry m j \<noteq> None then j else lst) n"
      using get_or_put_found [OF assms(1) Suc.prems(1) Some] \<open>i \<noteq> NO_NODE\<close> jn
      by (simp add: entry_def)
    have only: "x = j" if "x \<in> ids m" "path x = take (Suc index) xs" for x
      using inj_onD [OF coreD(3) [OF assms(1)] _ that(1) j(1)] that(2) j(2) by simp
    define r' where "r' = PrefixTreeMap_floor_walk t m k (Suc index) j (if entry m j \<noteq> None then j else lst) n"
    have "(r' = (if entry m j \<noteq> None then j else lst) \<and>
        (\<forall>j \<in> ids m. \<forall>l. Suc index < l \<and> l \<le> length xs \<and> path j = take l xs \<longrightarrow> entry m j = None))
      \<or> (\<exists>l. Suc index < l \<and> l \<le> length xs \<and> r' \<in> ids m \<and> path r' = take l xs \<and> entry m r' \<noteq> None
         \<and> (\<forall>j \<in> ids m. \<forall>l'. l < l' \<and> l' \<le> length xs \<and> path j = take l' xs \<longrightarrow> entry m j = None))"
      using Suc.IH [OF j] Suc.prems(3) unfolding Let_def r'_def by simp
    then show ?thesis
    proof (elim disjE conjE exE)
      assume a: "r' = (if entry m j \<noteq> None then j else lst)"
        and none: "\<forall>j \<in> ids m. \<forall>l. Suc index < l \<and> l \<le> length xs \<and> path j = take l xs \<longrightarrow> entry m j = None"
      show ?thesis
      proof (cases "entry m j = None")
        case True
        have "entry m x = None" if "x \<in> ids m" "index < l" "l \<le> length xs" "path x = take l xs" for x l
        proof (cases "l = Suc index")
          case True
          then show ?thesis using only [OF that(1)] that(4) \<open>entry m j = None\<close> by simp
        next
          case False
          then have "Suc index < l" using that(2) by simp
          then show ?thesis using none that by blast
        qed
        with a True show ?thesis unfolding Let_def r r'_def by auto
      next
        case False
        with a none j ix show ?thesis
          unfolding Let_def r r'_def by (intro disjI2 exI [of _ "Suc index"]) auto
      qed
    next
      fix l assume "Suc index < l" "l \<le> length xs" "r' \<in> ids m" "path r' = take l xs" "entry m r' \<noteq> None"
        "\<forall>j \<in> ids m. \<forall>l'. l < l' \<and> l' \<le> length xs \<and> path j = take l' xs \<longrightarrow> entry m j = None"
      then show ?thesis
        unfolding Let_def r r'_def by (intro disjI2 exI [of _ l]) auto
    qed
  qed
qed

lemma get_floor_correct:
  assumes "tinv m" and "valid k" and "content k \<noteq> []" and "[hd (content k)] \<in> dom (tabs m)"
  shows "\<exists>k' v. PrefixTreeMap_get_floor t m k = Some (k', v) \<and> valid k'
    \<and> longest_prefix (tabs m) (content k) (content k') \<and> tabs m (content k') = Some v"
proof -
  obtain path where full: "full path m" using assms(1) by (auto simp: tinv_def)
  then have core: "core path m" by (simp add: full_def)
  let ?xs = "path_of (content k)"
  have el: "?xs = map (tt_get_element t k) [0..<tt_get_length t k]" using elements [OF assms(2)] by simp
  then have len: "length ?xs = tt_get_length t k" by simp
  have nth: "tt_get_element t k l = ?xs ! l" if "l < length ?xs" for l
    using that by (simp add: el)
  define r where "r = PrefixTreeMap_floor_walk t m k 0 ROOT ROOT (tt_get_length t k)"
  have r: "PrefixTreeMap_get_floor t m k = entry m r"
    by (simp add: PrefixTreeMap_get_floor_def r_def entry_def Let_def)
  have stored: "\<exists>j \<in> ids m. \<exists>l \<le> length ?xs. path j = take l ?xs \<and> path_of q = take l ?xs \<and> entry m j \<noteq> None"
    if q: "prefix q (content k)" "q \<in> dom (tabs m)" for q
  proof -
    obtain v where "tabs m q = Some v" using q(2) by auto
    then obtain j k' where j: "j \<in> ids m" "entry m j = Some (k', v)" "content k' = q"
      using tabs_iff [OF core] by blast
    have "prefix (path_of q) ?xs" using q(1) path_prefix [of q "content k"] by simp
    then have "path_of q = take (length (path_of q)) ?xs" "length (path_of q) \<le> length ?xs"
      by (auto simp: prefix_def prefix_length_le)
    moreover have "path j = path_of q" using coreD(7) [OF core j(1,2)] j(3) by simp
    ultimately show ?thesis using j by (metis option.distinct(1))
  qed
  have "path ROOT = take 0 ?xs" using coreD(2) [OF core] by simp
  from floor_walk_correct [OF core coreD(1) [OF core] this _ nth, of "tt_get_length t k" ROOT] len
  have walk: "(r = ROOT \<and> (\<forall>j \<in> ids m. \<forall>l. 0 < l \<and> l \<le> length ?xs \<and> path j = take l ?xs \<longrightarrow> entry m j = None))
    \<or> (\<exists>l. 0 < l \<and> l \<le> length ?xs \<and> r \<in> ids m \<and> path r = take l ?xs \<and> entry m r \<noteq> None
       \<and> (\<forall>j \<in> ids m. \<forall>l'. l < l' \<and> l' \<le> length ?xs \<and> path j = take l' ?xs \<longrightarrow> entry m j = None))"
    unfolding r_def Let_def by simp
  have hdp: "prefix [hd (content k)] (content k)" using assms(3) by (cases "content k") auto
  from stored [OF hdp assms(4)] path_of_ne [of "[hd (content k)]"]
  obtain j0 l0 where j0: "j0 \<in> ids m" "0 < l0" "l0 \<le> length ?xs" "path j0 = take l0 ?xs"
    "entry m j0 \<noteq> None"
    by (metis gr0I list.distinct(1) take_eq_Nil)
  have "\<exists>l. 0 < l \<and> l \<le> length ?xs \<and> r \<in> ids m \<and> path r = take l ?xs \<and> entry m r \<noteq> None
       \<and> (\<forall>j \<in> ids m. \<forall>l'. l < l' \<and> l' \<le> length ?xs \<and> path j = take l' ?xs \<longrightarrow> entry m j = None)"
  proof (rule disjE [OF walk])
    assume a: "r = ROOT \<and> (\<forall>j \<in> ids m. \<forall>l. 0 < l \<and> l \<le> length ?xs \<and> path j = take l ?xs \<longrightarrow> entry m j = None)"
    from spec [OF bspec [OF conjunct2 [OF a] j0(1)], of l0] j0(2-5) show ?thesis by simp
  qed
  then obtain l where l: "0 < l" "l \<le> length ?xs" "r \<in> ids m" "path r = take l ?xs" "entry m r \<noteq> None"
    "\<forall>j \<in> ids m. \<forall>l'. l < l' \<and> l' \<le> length ?xs \<and> path j = take l' ?xs \<longrightarrow> entry m j = None"
    by blast
  then obtain k' v where e: "entry m r = Some (k', v)" by auto
  have k': "valid k'" "path_of (content k') = take l ?xs" using coreD(7) [OF core l(3) e] l(4) by simp_all
  have pk: "prefix (content k') (content k)"
    using path_prefix [of "content k'" "content k"] k'(2) by (simp add: take_is_prefix)
  have tk: "tabs m (content k') = Some v" using tabs_iff [OF core] l(3) e by blast
  have "length q \<le> length (content k')" if q: "prefix q (content k)" "q \<in> dom (tabs m)" for q
  proof -
    from stored [OF q] obtain j l1 where "j \<in> ids m" "l1 \<le> length ?xs" "path j = take l1 ?xs"
      "path_of q = take l1 ?xs" "entry m j \<noteq> None" by blast
    with l(6) have "l1 \<le> l" "path_of q = take l1 ?xs" by (meson not_le, simp)
    then have "prefix (path_of q) (path_of (content k'))"
      using k'(2) by (metis min.absorb1 take_is_prefix take_take)
    then show ?thesis using path_prefix [of q "content k'"] by (simp add: prefix_length_le)
  qed
  then have "longest_prefix (tabs m) (content k) (content k')"
    using pk tk by (auto simp: longest_prefix_def)
  with r e k'(1) tk show ?thesis by auto
qed

lemma clear_correct: "tinv (PrefixTreeMap_clear m) \<and> tabs (PrefixTreeMap_clear m) = Map.empty"
proof -
  let ?m = "PrefixTreeMap_clear m"
  have n: "pt_nodes ?m = [\<lparr>pn_entry = None, pn_children = InflatableMap_init\<rparr>]"
    by (simp add: PrefixTreeMap_clear_def PrefixTreeMap_new_node_def PrefixTreeMap_grow_nodes_def Let_def)
  have ids: "ids ?m = {ROOT}" by (auto simp: ids_def n)
  have "entry ?m ROOT = None" "child ?m ROOT = Map.empty"
    by (simp_all add: entry_def child_def PrefixTreeMap_get_node_def n InflatableMap_init_def SmallMap_abs_def
        SmallMap_init_def)
  then have "full (\<lambda>_. []) ?m"
    unfolding full_def core_def ids using n
    by (simp add: PrefixTreeMap_get_node_def InflatableMap_init_def SmallMap_inv_def SmallMap_init_def)
  moreover have "tabs ?m = Map.empty" using \<open>entry ?m ROOT = None\<close> by (auto simp: tabs_def ids)
  ultimately show ?thesis by (auto simp: tinv_def)
qed

end

sublocale trie \<subseteq> floors: floor_map "PrefixTreeMap_ops t" tinv tabs content valid
proof (unfold_locales, goal_cases)
  case (1 m k v)
  from put_new [OF 1, of v] show ?case by (simp add: PrefixTreeMap_ops_def)
next
  case (2 m)
  then show ?case using clear_correct [of m] by (simp add: PrefixTreeMap_ops_def)
next
  case (3 m k)
  from get_floor_correct [OF 3(1-3,5)] show ?case by (simp add: PrefixTreeMap_ops_def)
qed

section \<open>The tries of the compression\<close>

text \<open>Collection strategies 11 to 13: tries over bytes, over halves and over quarters of bytes.\<close>

definition sequence_trie ::
  "(Sequence \<Rightarrow> nat) \<Rightarrow> (Sequence \<Rightarrow> nat \<Rightarrow> byte)
    \<Rightarrow> (Sequence, byte, (byte, nat) HashMap) PrefixTreeMap_template" where
  "sequence_trie get_length get_element =
    \<lparr>tt_get_length = get_length, tt_get_element = get_element, tt_equals_element = equalsChar,
     tt_create_map = createMap, tt_fat = HashMap_ops hashChar equalsChar\<rparr>"

definition split_byte :: "nat \<Rightarrow> nat \<Rightarrow> byte \<Rightarrow> byte list" where
  "split_byte parts width b =
    map (\<lambda>i. drop_bit ((parts - 1 - i) * width) b AND (push_bit width 1 - 1)) [0..<parts]"

lemma nth_concat_uniform:
  assumes "\<And>x. length (f x) = c" and "0 < c"
  shows "i < length xs * c \<Longrightarrow> concat (map f xs) ! i = f (xs ! (i div c)) ! (i mod c)"
proof (induction xs arbitrary: i)
  case Nil
  then show ?case by simp
next
  case (Cons x xs)
  show ?case
  proof (cases "i < c")
    case True
    then show ?thesis using assms by (simp add: nth_append)
  next
    case False
    then have "concat (map f (x # xs)) ! i = f (xs ! ((i - c) div c)) ! ((i - c) mod c)"
      using Cons assms by (simp add: nth_append)
    also have "\<dots> = f ((x # xs) ! (i div c)) ! (i mod c)"
      using False assms(2) by (simp add: le_div_geq le_mod_geq)
    finally show ?thesis .
  qed
qed

lemma prefix_concat_uniform:
  assumes "\<And>x. length (f x) = c" and "0 < c" and "inj f"
  shows "prefix (concat (map f p)) (concat (map f q)) \<longleftrightarrow> prefix p q"
proof (induction p arbitrary: q)
  case Nil
  then show ?case by simp
next
  case (Cons x p)
  show ?case
  proof (cases q)
    case Nil
    have "f x \<noteq> []" using assms(1,2) by (metis length_greater_0_conv)
    then show ?thesis using Nil by simp
  next
    case (Cons y q')
    have "prefix (f x @ concat (map f p)) (f y @ concat (map f q'))
        \<longleftrightarrow> f x = f y \<and> prefix (concat (map f p)) (concat (map f q'))"
      using assms(1) [of x] assms(1) [of y] by (auto simp: prefix_def)
    then show ?thesis using Cons Cons.IH [of q'] assms(3) by (auto simp: inj_eq)
  qed
qed

lemma bit_split_byte:
  assumes "i < parts" and "j < width"
  shows "bit (split_byte parts width b ! i) j \<longleftrightarrow> bit b ((parts - 1 - i) * width + j)"
proof -
  have "j < 8 \<or> \<not> bit b ((parts - 1 - i) * width + j)"
    using bit_imp_le_length [of b "(parts - 1 - i) * width + j"] by auto
  then show ?thesis
    using assms
    by (auto simp: split_byte_def bit_and_iff bit_drop_bit_eq bit_mask_word simp del: push_bit_of_1)
qed

lemma inj_split_byte:
  assumes "parts * width = 8"
  shows "inj (split_byte parts width)"
proof (rule injI)
  fix a b assume eq: "split_byte parts width a = split_byte parts width b"
  show "a = b"
  proof (rule bit_word_eqI)
    fix n assume "n < LENGTH(8)"
    then have n: "n < parts * width" using assms by simp
    then have w: "0 < width" by (cases width) auto
    have p: "n div width < parts" using n by (simp add: less_mult_imp_div_less)
    let ?i = "parts - 1 - n div width"
    have i: "?i < parts" "parts - 1 - ?i = n div width" using p by auto
    have "bit (split_byte parts width a ! ?i) (n mod width) = bit (split_byte parts width b ! ?i) (n mod width)"
      by (simp only: eq)
    then show "bit a n = bit b n"
      using bit_split_byte [OF i(1), of "n mod width" width a] bit_split_byte [OF i(1), of "n mod width" width b]
        w i(2) by simp
  qed
qed

lemma split_elements:
  assumes "valid_seq s" and "parts * width = 8"
    and "\<And>i. elem i = split_byte parts width (Sequence_get s (i div parts)) ! (i mod parts)"
  shows "map elem [0..<Sequence_get_length s * parts] = concat (map (split_byte parts width) (seq_content s))"
proof (rule nth_equalityI)
  have len: "length (split_byte parts width b) = parts" for b by (simp add: split_byte_def)
  have "length (concat (map (split_byte parts width) xs)) = length xs * parts" for xs
    by (induction xs) (simp_all add: len)
  then show l: "length (map elem [0..<Sequence_get_length s * parts])
      = length (concat (map (split_byte parts width) (seq_content s)))"
    using assms(1) by simp
  have pos: "0 < parts" using assms(2) by (cases parts) auto
  fix i assume "i < length (map elem [0..<Sequence_get_length s * parts])"
  then have i: "i < Sequence_get_length s * parts" by simp
  then have d: "i div parts < Sequence_get_length s" by (simp add: less_mult_imp_div_less)
  show "map elem [0..<Sequence_get_length s * parts] ! i
      = concat (map (split_byte parts width) (seq_content s)) ! i"
    using nth_concat_uniform [of "split_byte parts width" parts i "seq_content s"] len pos i assms(1,3) d
    by (simp add: get_content)
qed

lemma nibble_element:
  "getSequenceNibbleElement s i = split_byte 2 4 (Sequence_get s (i div 2)) ! (i mod 2)"
proof -
  have "i mod 2 < 2" by simp
  then show ?thesis by (simp add: getSequenceNibbleElement_def split_byte_def Let_def)
qed

lemma hibble_element:
  "getSequenceHibbleElement s i = split_byte 4 2 (Sequence_get s (i div 4)) ! (i mod 4)"
proof -
  have "i mod 4 < 4" by simp
  then show ?thesis by (simp add: getSequenceHibbleElement_def split_byte_def Let_def)
qed

lemma sequence_trie_simps [simp]:
  "tt_get_length (sequence_trie l e) = l" "tt_get_element (sequence_trie l e) = e"
  "tt_equals_element (sequence_trie l e) = equalsChar"
  "tt_create_map (sequence_trie l e) = Some (HashMap_init 8)"
  "tt_fat (sequence_trie l e) = HashMap_ops hashChar equalsChar"
  by (simp_all add: sequence_trie_def createMap_def)

interpretation trie11: trie "sequence_trie getSequenceLength getSequenceElement"
  "HashMap_inv hashChar (\<lambda>_. True)" HashMap_abs "HashMap_init 8" valid_seq seq_content "\<lambda>p. p"
proof (rule trie.intro, goal_cases)
  case 1
  then show ?case using char_map.inflatable_axioms by simp
next
  case 2
  show ?case
  proof
    show "map (tt_get_element (sequence_trie getSequenceLength getSequenceElement) k)
        [0..<tt_get_length (sequence_trie getSequenceLength getSequenceElement) k] = seq_content k"
      if "valid_seq k" for k
      using that by (intro nth_equalityI) (simp_all add: getSequenceLength_def getSequenceElement_def get_content)
  qed simp_all
qed

interpretation trie12: trie "sequence_trie getSequenceNibbleLength getSequenceNibbleElement"
  "HashMap_inv hashChar (\<lambda>_. True)" HashMap_abs "HashMap_init 8" valid_seq seq_content
  "\<lambda>p. concat (map (split_byte 2 4) p)"
proof (rule trie.intro, goal_cases)
  case 1
  then show ?case using char_map.inflatable_axioms by simp
next
  case 2
  show ?case
  proof
    show "map (tt_get_element (sequence_trie getSequenceNibbleLength getSequenceNibbleElement) k)
        [0..<tt_get_length (sequence_trie getSequenceNibbleLength getSequenceNibbleElement) k]
        = concat (map (split_byte 2 4) (seq_content k))" if "valid_seq k" for k
      using split_elements [OF that, of 2 4, OF _ nibble_element] by (simp add: getSequenceNibbleLength_def)
    show "prefix (concat (map (split_byte 2 4) p)) (concat (map (split_byte 2 4) q)) \<longleftrightarrow> prefix p q" for p q
      by (rule prefix_concat_uniform [of _ 2]) (simp_all add: split_byte_def [of 2] inj_split_byte)
  qed simp_all
qed

interpretation trie13: trie "sequence_trie getSequenceHibbleLength getSequenceHibbleElement"
  "HashMap_inv hashChar (\<lambda>_. True)" HashMap_abs "HashMap_init 8" valid_seq seq_content
  "\<lambda>p. concat (map (split_byte 4 2) p)"
proof (rule trie.intro, goal_cases)
  case 1
  then show ?case using char_map.inflatable_axioms by simp
next
  case 2
  show ?case
  proof
    show "map (tt_get_element (sequence_trie getSequenceHibbleLength getSequenceHibbleElement) k)
        [0..<tt_get_length (sequence_trie getSequenceHibbleLength getSequenceHibbleElement) k]
        = concat (map (split_byte 4 2) (seq_content k))" if "valid_seq k" for k
      using split_elements [OF that, of 4 2, OF _ hibble_element] by (simp add: getSequenceHibbleLength_def)
    show "prefix (concat (map (split_byte 4 2) p)) (concat (map (split_byte 4 2) q)) \<longleftrightarrow> prefix p q" for p q
      by (rule prefix_concat_uniform [of _ 4]) (simp_all add: split_byte_def [of 4] inj_split_byte)
  qed simp_all
qed

end
