(* ===== verification/LZW.thy ===== *)
theory LZW
  imports VarInt ListMap NavigableHashMap PrefixTreeMap
begin

text \<open>
  \<open>prims/LZWCompression.cpp\<close> with the constants of \<open>CompressionDefinitions.hpp\<close>.  The dictionary
  is any navigable map from sequences to indices, reached through its virtual functions, as in the
  code; the constructor's \<open>switch\<close> over the collection strategies picks the implementation.  The
  bytes written behind \<open>dest_buffer\<close> are returned as a list, whose length is \<open>dest_index\<close>.
\<close>

section \<open>The compressor\<close>

definition INDEX_MAX_WIDTH :: nat where "INDEX_MAX_WIDTH = 2"
definition FIRST_CUSTOM_INDEX :: nat where "FIRST_CUSTOM_INDEX = 2 ^ 8"

text \<open>\<open>((~0u) & INDEX_MASK) >> INDEX_MAX_WIDTH\<close>\<close>

definition MAX_INDEX :: nat where "MAX_INDEX = (2 ^ (INDEX_MAX_WIDTH * 8) - 1) div 2 ^ INDEX_MAX_WIDTH"

record 'm LZWCompression =
  lz_dictionary :: 'm
  lz_next_index :: uint
  lz_max_length :: nat

type_synonym 'm dictionary_ops = "(Sequence, uint, 'm) NavigableMap_ops"

definition LZWCompression_registerIndex ::
  "'m dictionary_ops \<Rightarrow> 'm LZWCompression \<Rightarrow> byte list \<Rightarrow> nat \<Rightarrow> 'm LZWCompression" where
  "LZWCompression_registerIndex ops z array len =
    (if lz_next_index z \<le> of_nat MAX_INDEX then
       (let s = Sequence_create len array; index = lz_next_index z
        in z\<lparr>lz_next_index := index + 1,
             lz_dictionary := snd (Map_put ops (lz_dictionary z) s index),
             lz_max_length := max (lz_max_length z) len\<rparr>)
     else z)"

text \<open>The index and the length of the floor; \<open>None\<close> when there is no floor (the assertion).\<close>

definition LZWCompression_resolveIndex ::
  "'m dictionary_ops \<Rightarrow> 'm LZWCompression \<Rightarrow> byte list \<Rightarrow> nat \<Rightarrow> (uint \<times> nat) option" where
  "LZWCompression_resolveIndex ops z array len =
    (case Map_get_floor ops (lz_dictionary z) (Sequence_create len array) of
       Some (Some (k, v)) \<Rightarrow> Some (v, Sequence_get_length k)
     | _ \<Rightarrow> None)"

definition LZWCompression_reset :: "'m dictionary_ops \<Rightarrow> 'm LZWCompression \<Rightarrow> 'm LZWCompression" where
  "LZWCompression_reset ops z =
    foldl (\<lambda>z index. LZWCompression_registerIndex ops z [of_nat index] 1)
      (z\<lparr>lz_dictionary := Map_clear ops (lz_dictionary z), lz_next_index := 0, lz_max_length := 0\<rparr>)
      [0..<FIRST_CUSTOM_INDEX]"

definition LZWCompression_getDictionarySize :: "'m dictionary_ops \<Rightarrow> 'm LZWCompression \<Rightarrow> nat" where
  "LZWCompression_getDictionarySize ops z = Map_get_size ops (lz_dictionary z)"

partial_function (option) LZWCompression_encode_loop ::
  "'m dictionary_ops \<Rightarrow> byte list \<Rightarrow> nat \<Rightarrow> nat \<Rightarrow> byte list \<Rightarrow> VarIntWriter \<Rightarrow> 'm LZWCompression
    \<Rightarrow> (nat \<times> byte list \<times> VarIntWriter \<times> 'm LZWCompression) option" where
  "LZWCompression_encode_loop ops src dest_length src_index out writer z =
    (if src_index < length src \<and> length out + INDEX_MAX_WIDTH * 2 < dest_length then
       Option.bind
         (LZWCompression_resolveIndex ops z (drop src_index src)
            (min (lz_max_length z) (length src - src_index)))
         (\<lambda>(index, len).
            LZWCompression_encode_loop ops src dest_length (src_index + len)
              (out @ fst (VarIntWriter_write writer index))
              (snd (VarIntWriter_write writer index))
              (if src_index + len + 1 < length src
               then LZWCompression_registerIndex ops z (drop src_index src) (len + 1) else z))
     else Some (src_index, out, writer, z))"

record Compression_Result =
  src_compressed_length :: nat
  dest_length :: nat

definition LZWCompression_encode ::
  "'m dictionary_ops \<Rightarrow> 'm LZWCompression \<Rightarrow> byte list \<Rightarrow> nat
    \<Rightarrow> (Compression_Result \<times> byte list \<times> 'm LZWCompression) option" where
  "LZWCompression_encode ops z src destlen =
    Option.bind (LZWCompression_encode_loop ops src destlen 0 [] VarIntWriter_init z)
      (\<lambda>(src_index, out, writer, z').
         let (src_index, out) =
               (if length out + INDEX_MAX_WIDTH * 2 < destlen
                then (src_index, out @ fst (VarIntWriter_flush writer)) else (0, out))
         in Some (\<lparr>src_compressed_length = src_index, dest_length = length out\<rparr>, out, z'))"

section \<open>The sequence of indices\<close>

text \<open>
  The reference: a dictionary is the list \<open>S\<close> of the sequences registered since the reset, the
  single bytes being known.  \<open>lzw_indices\<close> are the indices that stand for an input.
\<close>

definition lookup :: "byte list list \<Rightarrow> byte list \<Rightarrow> nat option" where
  "lookup S p = (if length p = 1 then Some (unat (hd p))
                 else map_of (zip S [FIRST_CUSTOM_INDEX..<FIRST_CUSTOM_INDEX + length S]) p)"

primrec longest_len :: "byte list list \<Rightarrow> byte list \<Rightarrow> nat \<Rightarrow> nat" where
  "longest_len S xs 0 = 0"
| "longest_len S xs (Suc n) = (if lookup S (take (Suc n) xs) \<noteq> None then Suc n else longest_len S xs n)"

definition phrase_len :: "byte list list \<Rightarrow> byte list \<Rightarrow> nat" where
  "phrase_len S xs = longest_len S xs (length xs)"

definition dict_extend :: "byte list list \<Rightarrow> byte list \<Rightarrow> nat \<Rightarrow> byte list list" where
  "dict_extend S xs n = (if n + 1 < length xs \<and> FIRST_CUSTOM_INDEX + length S \<le> MAX_INDEX
                    then S @ [take (n + 1) xs] else S)"

function lzw_indices :: "byte list list \<Rightarrow> byte list \<Rightarrow> nat list" where
  "lzw_indices S xs =
    (let n = phrase_len S xs
     in if 0 < n \<and> xs \<noteq> []
        then the (lookup S (take n xs)) # lzw_indices (dict_extend S xs n) (drop n xs) else [])"
  by pat_completeness auto
termination
  by (relation "measure (\<lambda>(S, xs). length xs)") auto

text \<open>The sequences registered at the end of the input.\<close>

function lzw_final :: "byte list list \<Rightarrow> byte list \<Rightarrow> byte list list" where
  "lzw_final S xs =
    (let n = phrase_len S xs
     in if 0 < n \<and> xs \<noteq> [] then lzw_final (dict_extend S xs n) (drop n xs) else S)"
  by pat_completeness auto
termination
  by (relation "measure (\<lambda>(S, xs). length xs)") auto

declare lzw_indices.simps [simp del] lzw_final.simps [simp del]

lemma longest_len_le: "longest_len S xs n \<le> n"
  by (induction n) (auto intro: le_SucI)

lemma longest_len_found: "0 < longest_len S xs n \<Longrightarrow> lookup S (take (longest_len S xs n) xs) \<noteq> None"
  by (induction n) (auto split: if_splits)

lemma longest_len_max: "longest_len S xs n < l \<Longrightarrow> l \<le> n \<Longrightarrow> lookup S (take l xs) = None"
  by (induction n) (auto simp: le_Suc_eq split: if_splits)

lemma phrase_len_pos:
  assumes "xs \<noteq> []"
  shows "0 < phrase_len S xs"
proof (rule ccontr)
  assume "\<not> 0 < phrase_len S xs"
  then have "lookup S (take 1 xs) = None"
    using longest_len_max [of S xs "length xs" 1] assms by (cases xs) (auto simp: phrase_len_def)
  with assms show False by (cases xs) (auto simp: lookup_def)
qed

lemma phrase_len_le: "phrase_len S xs \<le> length xs"
  by (simp add: phrase_len_def longest_len_le)

lemma lzw_indices_Cons:
  "xs \<noteq> [] \<Longrightarrow> lzw_indices S xs =
    the (lookup S (take (phrase_len S xs) xs))
      # lzw_indices (dict_extend S xs (phrase_len S xs)) (drop (phrase_len S xs) xs)"
  by (subst lzw_indices.simps) (simp add: Let_def phrase_len_pos)

lemma lzw_final_Cons:
  "xs \<noteq> [] \<Longrightarrow> lzw_final S xs = lzw_final (dict_extend S xs (phrase_len S xs)) (drop (phrase_len S xs) xs)"
  by (subst lzw_final.simps) (simp add: Let_def phrase_len_pos)

lemma lzw_final_Nil: "lzw_final S [] = S"
  by (subst lzw_final.simps) simp

lemma lzw_indices_Nil: "lzw_indices S [] = []"
  by (subst lzw_indices.simps) simp

text \<open>A phrase is the longest prefix with an index.\<close>

lemma phrase_longest:
  assumes "xs \<noteq> []"
  shows "longest_prefix (lookup S) xs (take (phrase_len S xs) xs)"
  unfolding longest_prefix_def
proof (intro conjI allI impI)
  show "take (phrase_len S xs) xs \<in> dom (lookup S)"
    using longest_len_found [of S xs "length xs"] phrase_len_pos [OF assms, of S]
    by (auto simp: phrase_len_def domIff)
  fix q assume q: "prefix q xs \<and> q \<in> dom (lookup S)"
  then have "q = take (length q) xs" "length q \<le> length xs" by (auto simp: prefix_def prefix_length_le)
  with q have "\<not> phrase_len S xs < length q"
    using longest_len_max [of S xs "length xs" "length q"] by (auto simp: phrase_len_def domIff)
  then show "length q \<le> length (take (phrase_len S xs) xs)"
    using phrase_len_le [of S xs] by simp
qed (simp add: take_is_prefix)

section \<open>Well-formed dictionaries\<close>

definition wf_dict :: "byte list list \<Rightarrow> bool" where
  "wf_dict S \<longleftrightarrow> distinct S \<and> (\<forall>s \<in> set S. 2 \<le> length s \<and> length s \<le> Suc (length S))
    \<and> prefix_closed (dom (lookup S)) \<and> FIRST_CUSTOM_INDEX + length S \<le> Suc MAX_INDEX"

lemma MAX_INDEX_eq: "MAX_INDEX = 16383" and FIRST_CUSTOM_INDEX_eq: "FIRST_CUSTOM_INDEX = 256"
  by (simp_all add: MAX_INDEX_def INDEX_MAX_WIDTH_def FIRST_CUSTOM_INDEX_def)

lemma lookup_single [simp]: "lookup S [b] = Some (unat b)"
  by (simp add: lookup_def)

lemma dom_lookup: "\<forall>s \<in> set S. 2 \<le> length s \<Longrightarrow> dom (lookup S) = {p. length p = 1} \<union> set S"
proof -
  assume two: "\<forall>s \<in> set S. 2 \<le> length s"
  let ?z = "map_of (zip S [FIRST_CUSTOM_INDEX..<FIRST_CUSTOM_INDEX + length S])"
  have "dom ?z = set S" by (rule dom_map_of_zip) simp
  then have z: "?z p \<noteq> None \<longleftrightarrow> p \<in> set S" for p by (metis domIff)
  have "p \<in> dom (lookup S) \<longleftrightarrow> length p = 1 \<or> p \<in> set S" for p
  proof (cases "length p = 1")
    case True
    then show ?thesis by (simp add: lookup_def domIff)
  next
    case False
    then have "lookup S p = ?z p" by (simp add: lookup_def)
    with z [of p] False show ?thesis by (simp add: domIff)
  qed
  then show ?thesis by blast
qed

lemma lookup_snoc:
  assumes "s \<notin> set S" and "2 \<le> length s"
  shows "lookup (S @ [s]) = (lookup S)(s \<mapsto> FIRST_CUSTOM_INDEX + length S)"
proof -
  let ?z = "\<lambda>S. map_of (zip S [FIRST_CUSTOM_INDEX..<FIRST_CUSTOM_INDEX + length S])"
  have "?z S s = None" using assms(1) by (simp add: map_of_zip_is_None)
  then have "[s \<mapsto> FIRST_CUSTOM_INDEX + length S] ++ ?z S = (?z S)(s \<mapsto> FIRST_CUSTOM_INDEX + length S)"
    by (rule map_add_new)
  then have "?z (S @ [s]) = (?z S)(s \<mapsto> FIRST_CUSTOM_INDEX + length S)" by simp
  then have "?z (S @ [s]) p = ((?z S)(s \<mapsto> FIRST_CUSTOM_INDEX + length S)) p" for p by (simp only:)
  with assms(2) show ?thesis by (rule_tac ext) (simp add: lookup_def)
qed

lemma lookup_nth:
  assumes "wf_dict S" and "i < length S"
  shows "lookup S (S ! i) = Some (FIRST_CUSTOM_INDEX + i)"
proof -
  have "2 \<le> length (S ! i)" using assms by (simp add: wf_dict_def)
  then have "length (S ! i) \<noteq> 1" by simp
  moreover have "map_of (zip S [FIRST_CUSTOM_INDEX..<FIRST_CUSTOM_INDEX + length S]) (S ! i)
      = Some ([FIRST_CUSTOM_INDEX..<FIRST_CUSTOM_INDEX + length S] ! i)"
    using assms by (intro map_of_zip_nth) (auto simp: wf_dict_def)
  ultimately show ?thesis using assms(2) by (simp add: lookup_def)
qed

lemma lookup_Some:
  assumes "wf_dict S" and "lookup S p = Some c"
  shows "(\<exists>b. p = [b] \<and> c = unat b) \<or> (\<exists>i < length S. p = S ! i \<and> c = FIRST_CUSTOM_INDEX + i)"
proof (cases "length p = 1")
  case True
  then obtain b where "p = [b]" by (auto simp: length_Suc_conv)
  with assms(2) show ?thesis by simp
next
  case False
  then have "p \<in> set S" using assms dom_lookup [of S] by (auto simp: wf_dict_def)
  then obtain i where i: "i < length S" "p = S ! i" by (auto simp: in_set_conv_nth)
  with lookup_nth [OF assms(1) i(1)] assms(2) show ?thesis by auto
qed

lemma lookup_bound: "wf_dict S \<Longrightarrow> lookup S p = Some c \<Longrightarrow> c < FIRST_CUSTOM_INDEX + length S"
proof -
  assume a: "wf_dict S" "lookup S p = Some c"
  from lookup_Some [OF a] show ?thesis
    by (metis FIRST_CUSTOM_INDEX_eq add_less_cancel_left trans_less_add1 unat_less_256)
qed

lemma lookup_length: "wf_dict S \<Longrightarrow> p \<in> dom (lookup S) \<Longrightarrow> 1 \<le> length p \<and> length p \<le> Suc (length S)"
  using dom_lookup [of S] by (auto simp: wf_dict_def)

lemma wf_dict_Nil: "wf_dict []"
proof -
  have "prefix_closed (dom (lookup []))"
    unfolding prefix_closed_def using dom_lookup [of "[]"] by (auto simp: add_is_1)
  then show ?thesis by (simp add: wf_dict_def MAX_INDEX_eq FIRST_CUSTOM_INDEX_eq)
qed

lemma phrase_new:
  assumes "phrase_len S xs < length xs"
  shows "lookup S (take (phrase_len S xs + 1) xs) = None"
  using longest_len_max [of S xs "length xs" "phrase_len S xs + 1"] assms by (simp add: phrase_len_def)

lemma phrase_stored: "xs \<noteq> [] \<Longrightarrow> take (phrase_len S xs) xs \<in> dom (lookup S)"
  using phrase_longest [of xs S] by (simp add: longest_prefix_def)

lemma wf_dict_snoc:
  assumes "wf_dict S" and "p \<in> dom (lookup S)" and "lookup S (p @ [b]) = None" and "FIRST_CUSTOM_INDEX + length S \<le> MAX_INDEX"
  shows "wf_dict (S @ [p @ [b]])" and "lookup (S @ [p @ [b]]) = (lookup S)(p @ [b] \<mapsto> FIRST_CUSTOM_INDEX + length S)"
proof -
  note wf = assms(1) [unfolded wf_dict_def]
  have n: "1 \<le> length p" "length p \<le> Suc (length S)" using lookup_length [OF assms(1,2)] by auto
  have ns: "p @ [b] \<notin> set S" using assms(3) wf dom_lookup [of S] by auto
  show lk: "lookup (S @ [p @ [b]]) = (lookup S)(p @ [b] \<mapsto> FIRST_CUSTOM_INDEX + length S)"
    using ns n(1) by (intro lookup_snoc) auto
  have "prefix_closed (insert (p @ [b]) (dom (lookup S)))"
    using wf assms(2) by (intro prefix_closed_insert) auto
  then have "prefix_closed (dom (lookup (S @ [p @ [b]])))" unfolding lk by simp
  moreover have "distinct (S @ [p @ [b]])" using wf ns by simp
  moreover have "\<forall>s \<in> set (S @ [p @ [b]]). 2 \<le> length s \<and> length s \<le> Suc (length (S @ [p @ [b]]))"
    using wf n by auto
  ultimately show "wf_dict (S @ [p @ [b]])" using assms(4) by (simp add: wf_dict_def)
qed

lemma wf_dict_extend:
  assumes "wf_dict S" and "xs \<noteq> []"
  shows "wf_dict (dict_extend S xs (phrase_len S xs))"
proof (cases "phrase_len S xs + 1 < length xs \<and> FIRST_CUSTOM_INDEX + length S \<le> MAX_INDEX")
  case False
  then show ?thesis using assms(1) by (auto simp: dict_extend_def)
next
  case True
  let ?n = "phrase_len S xs"
  have s: "take (?n + 1) xs = take ?n xs @ [xs ! ?n]" using True by (simp add: take_Suc_conv_app_nth)
  then have "lookup S (take ?n xs @ [xs ! ?n]) = None" using phrase_new [of S xs] True by simp
  with wf_dict_snoc(1) [OF assms(1) phrase_stored [OF assms(2)]] True s show ?thesis by (simp add: dict_extend_def)
qed

section \<open>The compressor refines the reference\<close>

locale lzw_dictionary = floor_map ops inv abs seq_content valid_seq
  for ops :: "'m dictionary_ops" and inv :: "'m \<Rightarrow> bool" and abs :: "'m \<Rightarrow> byte list \<rightharpoonup> uint"
begin

definition lzw_rel :: "'m LZWCompression \<Rightarrow> byte list list \<Rightarrow> bool" where
  "lzw_rel z S \<longleftrightarrow> wf_dict S \<and> inv (lz_dictionary z)
    \<and> abs (lz_dictionary z) = map_option of_nat \<circ> lookup S
    \<and> lz_next_index z = of_nat (FIRST_CUSTOM_INDEX + length S)
    \<and> (\<forall>p \<in> dom (lookup S). length p \<le> lz_max_length z)
    \<and> 1 \<le> lz_max_length z \<and> lz_max_length z \<le> Suc (length S)"

lemma abs_dom: "lzw_rel z S \<Longrightarrow> dom (abs (lz_dictionary z)) = dom (lookup S)"
  by (auto simp: lzw_rel_def dom_def)

lemma max_length_bound: "lzw_rel z S \<Longrightarrow> lz_max_length z < 2 ^ 14"
  by (auto simp: lzw_rel_def wf_dict_def MAX_INDEX_eq FIRST_CUSTOM_INDEX_eq)

lemma resolveIndex_correct:
  assumes "lzw_rel z S" and "xs \<noteq> []"
  shows "LZWCompression_resolveIndex ops z xs (min (lz_max_length z) (length xs))
    = Some (of_nat (the (lookup S (take (phrase_len S xs) xs))), phrase_len S xs)"
proof -
  let ?len = "min (lz_max_length z) (length xs)" let ?k = "Sequence_create ?len xs"
  note rel = assms(1) [unfolded lzw_rel_def]
  have len: "?len < 2 ^ 15" "?len \<le> length xs" using max_length_bound [OF assms(1)] by auto
  have k: "valid_seq ?k" "seq_content ?k = take ?len xs"
    using valid_create [OF len] create_content [OF len] by auto
  have "0 < ?len" using rel assms(2) by simp
  then have ne: "seq_content ?k \<noteq> []" "hd (seq_content ?k) = hd xs"
    using k(2) assms(2) by (auto simp: hd_take)
  have "[hd (seq_content ?k)] \<in> dom (abs (lz_dictionary z))"
    unfolding abs_dom [OF assms(1)] by (simp add: domIff)
  moreover have "prefix_closed (dom (abs (lz_dictionary z)))"
    unfolding abs_dom [OF assms(1)] using rel by (simp add: wf_dict_def)
  ultimately obtain k' v where f: "Map_get_floor ops (lz_dictionary z) ?k = Some (Some (k', v))"
    "valid_seq k'" "longest_prefix (abs (lz_dictionary z)) (take ?len xs) (seq_content k')"
    "abs (lz_dictionary z) (seq_content k') = Some v"
    using get_floor_longest [OF _ k(1) ne(1), of "lz_dictionary z"] rel k(2) by auto
  have "longest_prefix (lookup S) xs (seq_content k')"
  proof -
    have "prefix q (take ?len xs)" if q: "prefix q xs" "q \<in> dom (lookup S)" for q
    proof -
      have "length q \<le> ?len" using q rel prefix_length_le [OF q(1)] by simp
      then show ?thesis using q(1) by (auto simp: prefix_def)
    qed
    moreover have "prefix (seq_content k') xs"
      using f(3) by (meson longest_prefix_def prefix_order.trans take_is_prefix)
    ultimately show ?thesis
      using f(3) unfolding longest_prefix_def abs_dom [OF assms(1)] by blast
  qed
  then have p: "seq_content k' = take (phrase_len S xs) xs"
    using phrase_longest [OF assms(2)] by (rule longest_prefix_unique)
  then have "Sequence_get_length k' = phrase_len S xs"
    using valid_seq_length [OF f(2)] phrase_len_le [of S xs] by simp
  moreover have "v = of_nat (the (lookup S (take (phrase_len S xs) xs)))"
    using f(4) rel p by (auto simp: map_option_case split: option.splits)
  ultimately show ?thesis using f(1) by (simp add: LZWCompression_resolveIndex_def)
qed

lemma registerIndex_correct:
  assumes "lzw_rel z S" and "xs \<noteq> []" and "phrase_len S xs + 1 < length xs"
  shows "lzw_rel (LZWCompression_registerIndex ops z xs (phrase_len S xs + 1)) (dict_extend S xs (phrase_len S xs))"
proof -
  let ?n = "phrase_len S xs" let ?s = "take (?n + 1) xs"
  note rel = assms(1) [unfolded lzw_rel_def]
  have wf: "wf_dict (dict_extend S xs ?n)" using rel assms(2) by (intro wf_dict_extend) auto
  have size: "FIRST_CUSTOM_INDEX + length S < 2 ^ 32"
    using rel by (auto simp: wf_dict_def MAX_INDEX_eq FIRST_CUSTOM_INDEX_eq)
  have "unat (of_nat (FIRST_CUSTOM_INDEX + length S) :: uint) = FIRST_CUSTOM_INDEX + length S"
    using size by (intro unat_of_nat_small) simp
  moreover have "unat (of_nat MAX_INDEX :: uint) = MAX_INDEX" by (simp add: MAX_INDEX_eq)
  ultimately have le: "lz_next_index z \<le> of_nat MAX_INDEX \<longleftrightarrow> FIRST_CUSTOM_INDEX + length S \<le> MAX_INDEX"
    using rel by (simp add: word_le_nat_alt)
  show ?thesis
  proof (cases "FIRST_CUSTOM_INDEX + length S \<le> MAX_INDEX")
    case False
    then show ?thesis using assms(1) le by (simp add: LZWCompression_registerIndex_def dict_extend_def)
  next
    case True
    let ?k = "Sequence_create (?n + 1) xs"
    have "length (take ?n xs) \<le> lz_max_length z" using rel phrase_stored [OF assms(2), of S] by blast
    then have n: "1 \<le> ?n" "?n \<le> lz_max_length z"
      using phrase_len_pos [OF assms(2), of S] assms(3) by auto
    have len: "?n + 1 < 2 ^ 15" "?n + 1 \<le> length xs"
      using n max_length_bound [OF assms(1)] assms(3) by auto
    have k: "valid_seq ?k" "seq_content ?k = ?s" using valid_create [OF len] create_content [OF len] by auto
    have ls: "length ?s = ?n + 1" using assms(3) by simp
    have new: "lookup S ?s = None" using phrase_new [of S xs] assms(3) by simp
    have pc: "prefix_closed (dom (abs (lz_dictionary z)))"
      unfolding abs_dom [OF assms(1)] using rel by (simp add: wf_dict_def)
    have none: "abs (lz_dictionary z) (seq_content ?k) = None" using new rel k(2) by simp
    have ne: "seq_content ?k \<noteq> []" using k(2) ls by auto
    note put = put_floor [OF _ k(1) ne pc none, of "lz_next_index z"]
    have ns: "?s \<notin> set S" using new rel dom_lookup [of S] by (auto simp: wf_dict_def domIff)
    have lk: "lookup (S @ [?s]) = (lookup S)(?s \<mapsto> FIRST_CUSTOM_INDEX + length S)"
      using ns ls n(1) by (intro lookup_snoc) auto
    have ab: "(map_option of_nat \<circ> lookup S)(?s \<mapsto> of_nat (FIRST_CUSTOM_INDEX + length S))
        = map_option of_nat \<circ> lookup (S @ [?s])"
      unfolding lk by (auto simp: fun_eq_iff)
    show ?thesis
      using True assms(3) rel put ab le wf n ls k(2) lk
      by (auto simp: LZWCompression_registerIndex_def dict_extend_def lzw_rel_def Let_def le_max_iff_disj)
  qed
qed

end

end
