(* ===== verification/LZWEncode.thy ===== *)
theory LZWEncode
  imports LZW
begin

text \<open>
  What \<open>LZWCompression::reset\<close> and \<open>LZWCompression::encode\<close> compute, for every dictionary that keeps
  the contract of a navigable map: the run \<open>lzw_run\<close> over the list of the registered sequences.  A
  fresh compressor that reports success has written the stream of \<open>lzw_indices\<close>.
\<close>

section \<open>The reference run\<close>

function lzw_run :: "nat \<Rightarrow> byte list list \<Rightarrow> byte list \<Rightarrow> byte list \<Rightarrow> VarIntWriter
    \<Rightarrow> byte list \<times> byte list \<times> VarIntWriter \<times> byte list list" where
  "lzw_run dl S xs out w =
    (if xs \<noteq> [] \<and> length out + INDEX_MAX_WIDTH * 2 < dl then
       (let n = phrase_len S xs; (bs, w') = VarIntWriter_write w (of_nat (the (lookup S (take n xs))))
        in lzw_run dl (dict_extend S xs n) (drop n xs) (out @ bs) w')
     else (xs, out, w, S))"
  by pat_completeness auto
termination
  by (relation "measure (\<lambda>(dl, S, xs, out, w). length xs)") (auto simp: phrase_len_pos)

declare lzw_run.simps [simp del]

definition lzw_encode :: "nat \<Rightarrow> byte list list \<Rightarrow> byte list \<Rightarrow> Compression_Result \<times> byte list" where
  "lzw_encode dl S src =
    (let (xs, out, w, S') = lzw_run dl S src [] VarIntWriter_init;
         (consumed, out) = (if length out + INDEX_MAX_WIDTH * 2 < dl
           then (length src - length xs, out @ fst (VarIntWriter_flush w)) else (0, out))
     in (\<lparr>src_compressed_length = consumed, dest_length = length out\<rparr>, out))"

definition lzw_dictionary_after :: "nat \<Rightarrow> byte list list \<Rightarrow> byte list \<Rightarrow> byte list list" where
  "lzw_dictionary_after dl S src = (case lzw_run dl S src [] VarIntWriter_init of (xs, out, w, S') \<Rightarrow> S')"

section \<open>The compressor computes the reference run\<close>

context lzw_dictionary
begin

lemma encode_loop_run:
  assumes "lzw_rel z S" and "i \<le> length src" and "lzw_run dl S (drop i src) out w = (xs, out', w', S')"
  shows "\<exists>z'. LZWCompression_encode_loop ops src dl i out w z = Some (length src - length xs, out', w', z')
    \<and> lzw_rel z' S'"
  using assms
proof (induction "length src - i" arbitrary: i z S out w rule: less_induct)
  case less
  let ?xs = "drop i src"
  show ?case
  proof (cases "i < length src \<and> length out + INDEX_MAX_WIDTH * 2 < dl")
    case False
    then have "(xs, out', w', S') = (?xs, out, w, S)" using less.prems(3) by (subst (asm) lzw_run.simps) auto
    with False less.prems show ?thesis by (subst LZWCompression_encode_loop.simps) auto
  next
    case True
    let ?n = "phrase_len S ?xs" let ?v = "of_nat (the (lookup S (take ?n ?xs))) :: uint"
    let ?bs = "fst (VarIntWriter_write w ?v)" let ?w = "snd (VarIntWriter_write w ?v)"
    let ?z = "if i + ?n + 1 < length src then LZWCompression_registerIndex ops z ?xs (?n + 1) else z"
    have ne: "?xs \<noteq> []" using True by simp
    have n: "0 < ?n" "i + ?n \<le> length src"
      using phrase_len_pos [OF ne, of S] phrase_len_le [of S ?xs] True by auto
    have run: "lzw_run dl (dict_extend S ?xs ?n) (drop (i + ?n) src) (out @ ?bs) ?w = (xs, out', w', S')"
      using less.prems(3) True
      by (subst (asm) lzw_run.simps) (simp add: Let_def split_def add.commute)
    have rel: "lzw_rel ?z (dict_extend S ?xs ?n)"
    proof (cases "i + ?n + 1 < length src")
      case True
      then show ?thesis using registerIndex_correct [OF less.prems(1) ne] by simp
    next
      case False
      then have "\<not> ?n + 1 < length ?xs" by simp
      then have "dict_extend S ?xs ?n = S" unfolding dict_extend_def by simp
      with False less.prems(1) show ?thesis by simp
    qed
    have "\<exists>z'. LZWCompression_encode_loop ops src dl (i + ?n) (out @ ?bs) ?w ?z
        = Some (length src - length xs, out', w', z') \<and> lzw_rel z' S'"
      using less.hyps [OF _ rel n(2) run] n True by simp
    moreover have "LZWCompression_resolveIndex ops z ?xs (min (lz_max_length z) (length src - i)) = Some (?v, ?n)"
      using resolveIndex_correct [OF less.prems(1) ne] by simp
    ultimately show ?thesis using True by (subst LZWCompression_encode_loop.simps) simp
  qed
qed

lemma encode_run:
  assumes "lzw_rel z S"
  shows "\<exists>z'. LZWCompression_encode ops z src dl = Some (fst (lzw_encode dl S src), snd (lzw_encode dl S src), z')
    \<and> lzw_rel z' (lzw_dictionary_after dl S src)"
proof -
  obtain xs out w S' where run: "lzw_run dl S src [] VarIntWriter_init = (xs, out, w, S')"
    by (cases "lzw_run dl S src [] VarIntWriter_init")
  with encode_loop_run [OF assms, of 0 src dl "[]" VarIntWriter_init] obtain z' where
    "LZWCompression_encode_loop ops src dl 0 [] VarIntWriter_init z = Some (length src - length xs, out, w, z')"
    "lzw_rel z' S'" by auto
  with run show ?thesis
    by (simp add: LZWCompression_encode_def lzw_encode_def lzw_dictionary_after_def Let_def)
qed

lemma reset_steps:
  assumes "inv d" and "abs d = Map.empty" and "n \<le> FIRST_CUSTOM_INDEX"
  defines "z' \<equiv> foldl (\<lambda>z index. LZWCompression_registerIndex ops z [of_nat index] 1)
    \<lparr>lz_dictionary = d, lz_next_index = 0, lz_max_length = 0\<rparr> [0..<n]"
  shows "inv (lz_dictionary z')
    \<and> abs (lz_dictionary z') = (\<lambda>p. if length p = 1 \<and> unat (hd p) < n then Some (of_nat (unat (hd p))) else None)
    \<and> lz_next_index z' = of_nat n \<and> lz_max_length z' = min 1 n"
  using assms(3) unfolding z'_def
proof (induction n)
  case 0
  then show ?case using assms(1,2) by (simp add: fun_eq_iff)
next
  case (Suc n)
  let ?z = "foldl (\<lambda>z index. LZWCompression_registerIndex ops z [of_nat index] 1)
    \<lparr>lz_dictionary = d, lz_next_index = 0, lz_max_length = 0\<rparr> [0..<n]"
  let ?D = "\<lambda>n (p :: byte list). if length p = 1 \<and> unat (hd p) < n then Some (of_nat (unat (hd p))) else None :: uint option"
  let ?k = "Sequence_create 1 [of_nat n :: byte]"
  have n: "n < 256" using Suc.prems by (simp add: FIRST_CUSTOM_INDEX_eq)
  have ih: "inv (lz_dictionary ?z)" "abs (lz_dictionary ?z) = ?D n" "lz_next_index ?z = of_nat n"
    "lz_max_length ?z = min 1 n"
    using Suc by auto
  have k: "valid_seq ?k" "seq_content ?k = [of_nat n]"
    using valid_create [of 1 "[of_nat n]"] create_content [of 1 "[of_nat n]"] by auto
  have un: "unat (of_nat n :: byte) = n" using n by (intro unat_of_nat_small) simp
  have pc: "prefix_closed (dom (abs (lz_dictionary ?z)))"
    unfolding prefix_closed_def ih(2) by (auto simp: dom_def add_is_1 split: if_splits)
  have new: "abs (lz_dictionary ?z) (seq_content ?k) = None" unfolding ih(2) k(2) by (simp add: un)
  note put = put_floor [OF ih(1) k(1) _ pc new, of "of_nat n"]
  have D: "(?D n)([of_nat n] \<mapsto> of_nat n) = ?D (Suc n)"
  proof
    fix p
    show "((?D n)([of_nat n] \<mapsto> of_nat n)) p = ?D (Suc n) p"
    proof (cases "\<exists>b. p = [b]")
      case True
      then obtain b where b: "p = [b]" by blast
      show ?thesis
      proof (cases "unat b = n")
        case True
        then have "b = of_nat n" by auto
        with b un show ?thesis by (simp only: fun_upd_same list.size list.sel) simp
      next
        case False
        then have "b \<noteq> of_nat n" using un by auto
        with b False show ?thesis by (auto simp: less_Suc_eq)
      qed
    next
      case False
      then have "length p \<noteq> 1" "p \<noteq> [of_nat n]" by (auto simp: length_Suc_conv)
      then show ?thesis by simp
    qed
  qed
  have "lz_next_index ?z \<le> of_nat MAX_INDEX"
    using n ih(3) by (simp add: word_le_nat_alt MAX_INDEX_eq unat_of_nat_small)
  with put ih k D show ?case
    by (simp add: LZWCompression_registerIndex_def Let_def)
qed

lemma reset_correct:
  assumes "inv (lz_dictionary z)"
  shows "lzw_rel (LZWCompression_reset ops z) []"
proof -
  let ?d = "Map_clear ops (lz_dictionary z)" let ?z = "LZWCompression_reset ops z"
  have "z\<lparr>lz_dictionary := ?d, lz_next_index := 0, lz_max_length := 0\<rparr>
      = \<lparr>lz_dictionary = ?d, lz_next_index = 0, lz_max_length = 0\<rparr>"
    by simp
  then have z: "?z = foldl (\<lambda>z index. LZWCompression_registerIndex ops z [of_nat index] 1)
      \<lparr>lz_dictionary = ?d, lz_next_index = 0, lz_max_length = 0\<rparr> [0..<FIRST_CUSTOM_INDEX]"
    unfolding LZWCompression_reset_def by (simp only:)
  have "lookup [] p = (if length p = 1 then Some (unat (hd p)) else None)" for p
    by (simp add: lookup_def)
  then have D: "(\<lambda>p. if length p = 1 \<and> unat (hd p) < FIRST_CUSTOM_INDEX then Some (of_nat (unat (hd p))) else None)
      = map_option of_nat \<circ> lookup []"
    by (auto simp: fun_eq_iff FIRST_CUSTOM_INDEX_eq unat_less_256)
  have r: "inv (lz_dictionary ?z)" "abs (lz_dictionary ?z) = map_option of_nat \<circ> lookup []"
    "lz_next_index ?z = of_nat FIRST_CUSTOM_INDEX" "lz_max_length ?z = 1"
    using reset_steps [of ?d FIRST_CUSTOM_INDEX] clear_floor [OF assms] D
    unfolding z by (auto simp: FIRST_CUSTOM_INDEX_eq)
  have "\<forall>p \<in> dom (lookup []). length p \<le> 1" using dom_lookup [of "[]"] by simp
  with r wf_dict_Nil show ?thesis by (simp add: lzw_rel_def)
qed

end

section \<open>What the run writes\<close>

abbreviation index_codes :: "nat list \<Rightarrow> uint list" where
  "index_codes \<equiv> map of_nat"

lemma phrase_index:
  assumes "wf_dict S" and "xs \<noteq> []"
  shows "the (lookup S (take (phrase_len S xs) xs)) \<le> MAX_INDEX"
proof -
  obtain c where c: "lookup S (take (phrase_len S xs) xs) = Some c" using phrase_stored [OF assms(2)] by blast
  then have "c < FIRST_CUSTOM_INDEX + length S" by (rule lookup_bound [OF assms(1)])
  with c assms(1) show ?thesis by (auto simp: wf_dict_def)
qed

lemma index_codes_bound: "\<forall>v \<in> set vs. v \<le> MAX_INDEX \<Longrightarrow> \<forall>v \<in> set (index_codes vs). unat v + 2 < 2 ^ 15"
proof -
  assume a: "\<forall>v \<in> set vs. v \<le> MAX_INDEX"
  have "unat (of_nat v :: uint) + 2 < 2 ^ 15" if "v \<in> set vs" for v
  proof -
    have "v \<le> 16383" using a that by (simp add: MAX_INDEX_eq)
    then have "unat (of_nat v :: uint) = v" by (intro unat_of_nat_small) simp
    with \<open>v \<le> 16383\<close> show ?thesis by simp
  qed
  then show ?thesis by auto
qed

lemma lzw_run_indices:
  assumes "wf_dict S" and "lzw_run dl S xs out w = (xs', out', w', S')"
  shows "lzw_final S xs = lzw_final S' xs' \<and> (\<exists>vs bs. lzw_indices S xs = vs @ lzw_indices S' xs' \<and> out' = out @ bs
    \<and> VarIntWriter_write_all w (index_codes vs) = (bs, w') \<and> wf_dict S'
    \<and> length vs + length xs' \<le> length xs \<and> (\<forall>v \<in> set vs. v \<le> MAX_INDEX)
    \<and> (xs' = [] \<or> dl \<le> length out' + INDEX_MAX_WIDTH * 2))"
  using assms
proof (induction dl S xs out w rule: lzw_run.induct)
  case (1 dl S xs out w)
  show ?case
  proof (cases "xs \<noteq> [] \<and> length out + INDEX_MAX_WIDTH * 2 < dl")
    case False
    then have "(xs', out', w', S') = (xs, out, w, S)" using "1.prems"(2) by (subst (asm) lzw_run.simps) auto
    with False "1.prems"(1) show ?thesis by (intro conjI exI [of _ "[]"]) auto
  next
    case True
    let ?n = "phrase_len S xs" let ?c = "the (lookup S (take ?n xs))"
    obtain b w1 where w1: "VarIntWriter_write w (of_nat ?c) = (b, w1)" by (cases "VarIntWriter_write w (of_nat ?c)")
    have run: "lzw_run dl (dict_extend S xs ?n) (drop ?n xs) (out @ b) w1 = (xs', out', w', S')"
      using "1.prems"(2) True w1 by (subst (asm) lzw_run.simps) (simp add: Let_def)
    have n: "0 < ?n" "?n \<le> length xs" using phrase_len_pos [of xs S] phrase_len_le True by auto
    have fin: "lzw_final (dict_extend S xs ?n) (drop ?n xs) = lzw_final S' xs'"
      using "1.IH" [OF True refl refl w1 [symmetric] wf_dict_extend run] "1.prems"(1) w1 True by auto
    obtain vs bs where ih: "lzw_indices (dict_extend S xs ?n) (drop ?n xs) = vs @ lzw_indices S' xs'"
      "out' = (out @ b) @ bs" "VarIntWriter_write_all w1 (index_codes vs) = (bs, w')" "wf_dict S'"
      "length vs + length xs' \<le> length (drop ?n xs)" "\<forall>v \<in> set vs. v \<le> MAX_INDEX"
      "xs' = [] \<or> dl \<le> length out' + INDEX_MAX_WIDTH * 2"
      using "1.IH" [OF True refl refl w1 [symmetric] wf_dict_extend run] "1.prems"(1) w1 True by auto
    have "lzw_indices S xs = (?c # vs) @ lzw_indices S' xs'"
      using True ih(1) by (simp add: lzw_indices_Cons)
    moreover have "VarIntWriter_write_all w (index_codes (?c # vs)) = (b @ bs, w')"
      using w1 ih(3) by simp
    moreover have "?c \<le> MAX_INDEX" using "1.prems"(1) True by (intro phrase_index) auto
    ultimately show ?thesis
      using ih n fin True by (intro conjI exI [of _ "?c # vs"] exI [of _ "b @ bs"]) (auto simp: lzw_final_Cons)
  qed
qed

lemma writer_init: "wf_writer VarIntWriter_init" "vw_width VarIntWriter_init = 8" "writer_bits VarIntWriter_init = []"
  by (simp_all add: VarIntWriter_init_def wf_writer_def writer_bits_def)

text \<open>A run from a fresh writer: its indices, its size, and the room its end needs.\<close>

lemma lzw_run_fresh:
  assumes "wf_dict S" and "lzw_run dl S src [] VarIntWriter_init = (xs, out, w, S')"
  obtains vs where "lzw_indices S src = vs @ lzw_indices S' xs"
    and "VarIntWriter_write_all VarIntWriter_init (index_codes vs) = (out, w)"
    and "\<forall>v \<in> set vs. v \<le> MAX_INDEX" and "length vs + length xs \<le> length src"
    and "8 * length out \<le> 77 + 15 * length vs" and "length (fst (VarIntWriter_flush w)) \<le> 5"
    and "xs = [] \<or> dl \<le> length out + INDEX_MAX_WIDTH * 2" and "lzw_final S src = lzw_final S' xs"
proof -
  obtain vs where v: "lzw_indices S src = vs @ lzw_indices S' xs"
    "VarIntWriter_write_all VarIntWriter_init (index_codes vs) = (out, w)"
    "\<forall>v \<in> set vs. v \<le> MAX_INDEX" "length vs + length xs \<le> length src"
    "xs = [] \<or> dl \<le> length out + INDEX_MAX_WIDTH * 2"
    using lzw_run_indices [OF assms] by auto
  have "lzw_final S src = lzw_final S' xs" using lzw_run_indices [OF assms] by blast
  have l: "wf_writer w \<and> 8 \<le> vw_width w \<and> vw_width w \<le> 15
    \<and> 8 * length out \<le> length (writer_bits VarIntWriter_init) + 77 + 15 * length (index_codes vs)"
    by (rule VarIntWriter_write_all_length [OF _ _ _ index_codes_bound [OF v(3)] v(2)]) (simp_all add: writer_init)
  then have "length (fst (VarIntWriter_flush w)) \<le> 5"
    using VarIntWriter_flush_length [of w "fst (VarIntWriter_flush w)" "snd (VarIntWriter_flush w)"] by simp
  with that v l \<open>lzw_final S src = lzw_final S' xs\<close> show ?thesis by (simp add: writer_init)
qed

lemma lzw_encode_success:
  assumes "wf_dict S" and "src \<noteq> [] \<or> INDEX_MAX_WIDTH * 2 < dl"
    and "src_compressed_length (fst (lzw_encode dl S src)) = length src"
  shows "snd (lzw_encode dl S src) = VarIntWriter_stream (index_codes (lzw_indices S src))
    \<and> dest_length (fst (lzw_encode dl S src)) \<le> dl"
proof -
  obtain xs out w S' where run: "lzw_run dl S src [] VarIntWriter_init = (xs, out, w, S')"
    by (cases "lzw_run dl S src [] VarIntWriter_init")
  obtain vs where v: "lzw_indices S src = vs @ lzw_indices S' xs"
    "VarIntWriter_write_all VarIntWriter_init (index_codes vs) = (out, w)" "length vs + length xs \<le> length src"
    "length (fst (VarIntWriter_flush w)) \<le> 5"
    by (rule lzw_run_fresh [OF assms(1) run]) blast
  have "length out + INDEX_MAX_WIDTH * 2 < dl \<and> xs = []"
  proof (cases "src = []")
    case True
    then show ?thesis using run assms(2) by (subst (asm) lzw_run.simps) auto
  next
    case False
    then have "length out + INDEX_MAX_WIDTH * 2 < dl" "length src - length xs = length src"
      using assms(3) run by (auto simp: lzw_encode_def Let_def split: if_splits)
    moreover have "0 < length src" using False by simp
    ultimately show ?thesis by (metis diff_less length_greater_0_conv less_irrefl)
  qed
  moreover with v(1) have "lzw_indices S src = vs" by (simp add: lzw_indices_Nil)
  ultimately show ?thesis
    using run v(2,4) by (simp add: lzw_encode_def VarIntWriter_stream_def INDEX_MAX_WIDTH_def)
qed

lemma lzw_run_room:
  assumes "wf_dict S" and "2 * length src + 14 \<le> dl"
  shows "\<exists>out w. lzw_run dl S src [] VarIntWriter_init = ([], out, w, lzw_final S src)
    \<and> length out + INDEX_MAX_WIDTH * 2 < dl"
proof -
  obtain xs out w S' where run: "lzw_run dl S src [] VarIntWriter_init = (xs, out, w, S')"
    by (cases "lzw_run dl S src [] VarIntWriter_init")
  obtain vs :: "nat list" where v: "length vs + length xs \<le> length src" "8 * length out \<le> 77 + 15 * length vs"
    "xs = [] \<or> dl \<le> length out + INDEX_MAX_WIDTH * 2" "lzw_final S src = lzw_final S' xs"
    by (rule lzw_run_fresh [OF assms(1) run]) blast
  have "length out + INDEX_MAX_WIDTH * 2 < dl" using v(1,2) assms(2) by (simp add: INDEX_MAX_WIDTH_def)
  with run v(3,4) show ?thesis by (auto simp: lzw_final_Nil)
qed

lemma lzw_encode_room:
  "wf_dict S \<Longrightarrow> 2 * length src + 14 \<le> dl \<Longrightarrow> src_compressed_length (fst (lzw_encode dl S src)) = length src"
  using lzw_run_room [of S src dl] by (auto simp: lzw_encode_def)

lemma lzw_dictionary_after_room:
  "wf_dict S \<Longrightarrow> 2 * length src + 14 \<le> dl \<Longrightarrow> lzw_dictionary_after dl S src = lzw_final S src"
  using lzw_run_room [of S src dl] by (auto simp: lzw_dictionary_after_def)

text \<open>A single index may take more than the four bytes the loop checks for.\<close>

lemma lzw_run_overflow:
  assumes "wf_dict S" and "wf_writer w" and "8 \<le> vw_width w" and "vw_width w \<le> 15"
    and "lzw_run dl S xs out w = (xs', out', w', S')" and "length out \<le> dl + 7"
  shows "length out' \<le> dl + 7"
  using assms
proof (induction dl S xs out w rule: lzw_run.induct)
  case (1 dl S xs out w)
  show ?case
  proof (cases "xs \<noteq> [] \<and> length out + INDEX_MAX_WIDTH * 2 < dl")
    case False
    with "1.prems"(5,6) show ?thesis by (subst (asm) lzw_run.simps) auto
  next
    case True
    let ?n = "phrase_len S xs" let ?c = "the (lookup S (take ?n xs))"
    obtain b w1 where w1: "VarIntWriter_write w (of_nat ?c) = (b, w1)" by (cases "VarIntWriter_write w (of_nat ?c)")
    have run: "lzw_run dl (dict_extend S xs ?n) (drop ?n xs) (out @ b) w1 = (xs', out', w', S')"
      using "1.prems"(5) True w1 by (subst (asm) lzw_run.simps) (simp add: Let_def)
    have "?c \<le> MAX_INDEX" using "1.prems"(1) True by (intro phrase_index) auto
    then have "\<forall>v \<in> set (index_codes [?c]). unat v + 2 < 2 ^ 15" by (intro index_codes_bound) simp
    moreover have "VarIntWriter_write_all w (index_codes [?c]) = (b, w1)" using w1 by simp
    ultimately have l: "wf_writer w1 \<and> 8 \<le> vw_width w1 \<and> vw_width w1 \<le> 15
      \<and> 8 * length b \<le> length (writer_bits w) + 77 + 15 * length (index_codes [?c])"
      by (rule VarIntWriter_write_all_length [OF "1.prems"(2,3,4)])
    moreover have "length (writer_bits w) \<le> 8" by (simp add: writer_bits_def)
    ultimately have "length b \<le> 12" by simp
    then have "length (out @ b) \<le> dl + 7" using True by (simp add: INDEX_MAX_WIDTH_def)
    with "1.IH" [OF True refl refl w1 [symmetric] wf_dict_extend _ _ _ run] "1.prems"(1) True l w1
    show ?thesis by auto
  qed
qed

lemma lzw_encode_bound:
  assumes "wf_dict S"
  shows "dest_length (fst (lzw_encode dl S src)) = length (snd (lzw_encode dl S src))
    \<and> dest_length (fst (lzw_encode dl S src)) \<le> dl + 7"
proof -
  obtain xs out w S' where run: "lzw_run dl S src [] VarIntWriter_init = (xs, out, w, S')"
    by (cases "lzw_run dl S src [] VarIntWriter_init")
  then have "length (fst (VarIntWriter_flush w)) \<le> 5"
    by (rule lzw_run_fresh [OF assms])
  moreover have "length out \<le> dl + 7"
    by (rule lzw_run_overflow [OF assms _ _ _ run]) (simp_all add: writer_init)
  ultimately show ?thesis using run by (simp add: lzw_encode_def INDEX_MAX_WIDTH_def)
qed

end
