(* ===== verification/LZWStrategies.thy ===== *)
theory LZWStrategies
  imports LZWEncode
begin

text \<open>
  The constructor of \<open>LZWCompression\<close> and its collection strategies.  A \<open>Dictionary\<close> is the object
  behind the pointer \<open>dictionary\<close>, and \<open>Dictionary_ops\<close> its virtual functions; whichever strategy is
  chosen, the compressor computes the same reference run.
\<close>

section \<open>The dictionary behind the pointer\<close>

type_synonym hash_dictionary = "(Sequence, uint) NavigableHashMap"
type_synonym list_dictionary = "(Sequence, uint) ListMap"
type_synonym trie_dictionary = "(Sequence, byte, (byte, nat) HashMap, uint) PrefixTreeMap"

text \<open>The instances of the class templates; the two arguments of a hash dictionary are
  \<open>assume_continous_elements\<close> and \<open>lucky_clazz\<close>.\<close>

datatype Dictionary =
    HashDictionary bool nat hash_dictionary
  | ListDictionary list_dictionary
  | LengthListDictionary list_dictionary
  | TrieDictionary trie_dictionary
  | NibbleTrieDictionary trie_dictionary
  | HibbleTrieDictionary trie_dictionary

abbreviation byte_trie :: "(Sequence, byte, (byte, nat) HashMap) PrefixTreeMap_template" where
  "byte_trie \<equiv> sequence_trie getSequenceLength getSequenceElement"

abbreviation nibble_trie :: "(Sequence, byte, (byte, nat) HashMap) PrefixTreeMap_template" where
  "nibble_trie \<equiv> sequence_trie getSequenceNibbleLength getSequenceNibbleElement"

abbreviation hibble_trie :: "(Sequence, byte, (byte, nat) HashMap) PrefixTreeMap_template" where
  "hibble_trie \<equiv> sequence_trie getSequenceHibbleLength getSequenceHibbleElement"

primrec Dictionary_get_size :: "Dictionary \<Rightarrow> nat" where
  "Dictionary_get_size (HashDictionary c l m) = NavigableHashMap_get_size m"
| "Dictionary_get_size (ListDictionary m) = ListMap_get_size m"
| "Dictionary_get_size (LengthListDictionary m) = ListMap_get_size m"
| "Dictionary_get_size (TrieDictionary m) = PrefixTreeMap_get_size m"
| "Dictionary_get_size (NibbleTrieDictionary m) = PrefixTreeMap_get_size m"
| "Dictionary_get_size (HibbleTrieDictionary m) = PrefixTreeMap_get_size m"

primrec Dictionary_get :: "Dictionary \<Rightarrow> Sequence \<Rightarrow> uint option" where
  "Dictionary_get (HashDictionary c l m) = NavigableHashMap_get (sequence_template c l) m"
| "Dictionary_get (ListDictionary m) = ListMap_get compareEntry isEntryFloorOf m"
| "Dictionary_get (LengthListDictionary m) = ListMap_get compareEntryByLength isEntryFloorOf m"
| "Dictionary_get (TrieDictionary m) = PrefixTreeMap_get byte_trie m"
| "Dictionary_get (NibbleTrieDictionary m) = PrefixTreeMap_get nibble_trie m"
| "Dictionary_get (HibbleTrieDictionary m) = PrefixTreeMap_get hibble_trie m"

primrec Dictionary_put :: "Dictionary \<Rightarrow> Sequence \<Rightarrow> uint \<Rightarrow> bool \<times> Dictionary" where
  "Dictionary_put (HashDictionary c l m) =
    (\<lambda>k v. map_prod id (HashDictionary c l) (NavigableHashMap_put (sequence_template c l) m k v))"
| "Dictionary_put (ListDictionary m) = (\<lambda>k v. map_prod id ListDictionary (ListMap_put compareEntry m k v))"
| "Dictionary_put (LengthListDictionary m) =
    (\<lambda>k v. map_prod id LengthListDictionary (ListMap_put compareEntryByLength m k v))"
| "Dictionary_put (TrieDictionary m) = (\<lambda>k v. map_prod id TrieDictionary (PrefixTreeMap_put byte_trie m k v))"
| "Dictionary_put (NibbleTrieDictionary m) =
    (\<lambda>k v. map_prod id NibbleTrieDictionary (PrefixTreeMap_put nibble_trie m k v))"
| "Dictionary_put (HibbleTrieDictionary m) =
    (\<lambda>k v. map_prod id HibbleTrieDictionary (PrefixTreeMap_put hibble_trie m k v))"

primrec Dictionary_remove :: "Dictionary \<Rightarrow> Sequence \<Rightarrow> bool \<times> Dictionary" where
  "Dictionary_remove (HashDictionary c l m) =
    (\<lambda>k. map_prod id (HashDictionary c l) (NavigableHashMap_remove (sequence_template c l) m k))"
| "Dictionary_remove (ListDictionary m) = (\<lambda>k. map_prod id ListDictionary (ListMap_remove m k))"
| "Dictionary_remove (LengthListDictionary m) = (\<lambda>k. map_prod id LengthListDictionary (ListMap_remove m k))"
| "Dictionary_remove (TrieDictionary m) = (\<lambda>k. map_prod id TrieDictionary (PrefixTreeMap_remove m k))"
| "Dictionary_remove (NibbleTrieDictionary m) = (\<lambda>k. map_prod id NibbleTrieDictionary (PrefixTreeMap_remove m k))"
| "Dictionary_remove (HibbleTrieDictionary m) = (\<lambda>k. map_prod id HibbleTrieDictionary (PrefixTreeMap_remove m k))"

primrec Dictionary_clear :: "Dictionary \<Rightarrow> Dictionary" where
  "Dictionary_clear (HashDictionary c l m) = HashDictionary c l (NavigableHashMap_clear m)"
| "Dictionary_clear (ListDictionary m) = ListDictionary (ListMap_clear m)"
| "Dictionary_clear (LengthListDictionary m) = LengthListDictionary (ListMap_clear m)"
| "Dictionary_clear (TrieDictionary m) = TrieDictionary (PrefixTreeMap_clear m)"
| "Dictionary_clear (NibbleTrieDictionary m) = NibbleTrieDictionary (PrefixTreeMap_clear m)"
| "Dictionary_clear (HibbleTrieDictionary m) = HibbleTrieDictionary (PrefixTreeMap_clear m)"

primrec Dictionary_get_floor :: "Dictionary \<Rightarrow> Sequence \<Rightarrow> (Sequence, uint) MapEntry option option" where
  "Dictionary_get_floor (HashDictionary c l m) = NavigableHashMap_get_floor (sequence_template c l) m"
| "Dictionary_get_floor (ListDictionary m) = (\<lambda>k. Some (ListMap_get_floor compareEntry isEntryFloorOf m k))"
| "Dictionary_get_floor (LengthListDictionary m) =
    (\<lambda>k. Some (ListMap_get_floor compareEntryByLength isEntryFloorOf m k))"
| "Dictionary_get_floor (TrieDictionary m) = (\<lambda>k. Some (PrefixTreeMap_get_floor byte_trie m k))"
| "Dictionary_get_floor (NibbleTrieDictionary m) = (\<lambda>k. Some (PrefixTreeMap_get_floor nibble_trie m k))"
| "Dictionary_get_floor (HibbleTrieDictionary m) = (\<lambda>k. Some (PrefixTreeMap_get_floor hibble_trie m k))"

definition Dictionary_ops :: "Dictionary dictionary_ops" where
  "Dictionary_ops = \<lparr>Map_get_size = Dictionary_get_size, Map_get = Dictionary_get, Map_put = Dictionary_put,
     Map_remove = Dictionary_remove, Map_clear = Dictionary_clear, Map_get_floor = Dictionary_get_floor\<rparr>"

section \<open>The constructor\<close>

definition Dictionary_create :: "int \<Rightarrow> Dictionary" where
  "Dictionary_create collection_strategy =
    (if collection_strategy = 1 then HashDictionary False 0 (NavigableHashMap_init_single (4 * 1024))
     else if collection_strategy = 2 then HashDictionary True 3 (NavigableHashMap_init_single (4 * 1024))
     else if collection_strategy = 3 then HashDictionary True 4 (NavigableHashMap_init_single (4 * 1024))
     else if collection_strategy = 4 then HashDictionary True 5 (NavigableHashMap_init_single (4 * 1024))
     else if collection_strategy = 5 then HashDictionary True 0 (NavigableHashMap_init 8 getMapSize)
     else if collection_strategy = 6 then HashDictionary True 3 (NavigableHashMap_init 8 getMapSize)
     else if collection_strategy = 8 then HashDictionary True 5 (NavigableHashMap_init 8 getMapSize)
     else if collection_strategy = 9 then ListDictionary ListMap_init
     else if collection_strategy = 10 then LengthListDictionary ListMap_init
     else if collection_strategy = 11 then TrieDictionary (PrefixTreeMap_init (1024 * 4))
     else if collection_strategy = 12 then NibbleTrieDictionary (PrefixTreeMap_init (1024 * 4))
     else if collection_strategy = 13 then HibbleTrieDictionary (PrefixTreeMap_init (1024 * 4))
     else HashDictionary True 4 (NavigableHashMap_init 8 getMapSize))"

definition LZWCompression_create :: "int \<Rightarrow> Dictionary LZWCompression" where
  "LZWCompression_create collection_strategy =
    LZWCompression_reset Dictionary_ops
      \<lparr>lz_dictionary = Dictionary_create collection_strategy, lz_next_index = 0, lz_max_length = 0\<rparr>"

section \<open>Every dictionary keeps the contract\<close>

primrec Dictionary_inv :: "Dictionary \<Rightarrow> bool" where
  "Dictionary_inv (HashDictionary c l m) = NavigableHashMap_inv (sequence_template c l) valid_seq m"
| "Dictionary_inv (ListDictionary m) = ListMap_inv ord_class.lexordp seq_content valid_seq m"
| "Dictionary_inv (LengthListDictionary m) = ListMap_inv shortlex seq_content valid_seq m"
| "Dictionary_inv (TrieDictionary m) = trie11.tinv m"
| "Dictionary_inv (NibbleTrieDictionary m) = trie12.tinv m"
| "Dictionary_inv (HibbleTrieDictionary m) = trie13.tinv m"

primrec Dictionary_abs :: "Dictionary \<Rightarrow> byte list \<rightharpoonup> uint" where
  "Dictionary_abs (HashDictionary c l m) = content_abs seq_content valid_seq (NavigableHashMap_abs (sequence_template c l) m)"
| "Dictionary_abs (ListDictionary m) = ListMap_abs seq_content m"
| "Dictionary_abs (LengthListDictionary m) = ListMap_abs seq_content m"
| "Dictionary_abs (TrieDictionary m) = trie11.tabs m"
| "Dictionary_abs (NibbleTrieDictionary m) = trie12.tabs m"
| "Dictionary_abs (HibbleTrieDictionary m) = trie13.tabs m"

lemmas put_laws =
  nav.floors.put_floor [unfolded NavigableHashMap_ops_def Map_ops.select_convs]
  list9.floors.put_floor [unfolded ListMap_ops_def Map_ops.select_convs]
  list10.floors.put_floor [unfolded ListMap_ops_def Map_ops.select_convs]
  trie11.floors.put_floor [unfolded PrefixTreeMap_ops_def Map_ops.select_convs]
  trie12.floors.put_floor [unfolded PrefixTreeMap_ops_def Map_ops.select_convs]
  trie13.floors.put_floor [unfolded PrefixTreeMap_ops_def Map_ops.select_convs]

lemmas clear_laws =
  nav.floors.clear_floor [unfolded NavigableHashMap_ops_def Map_ops.select_convs]
  list9.floors.clear_floor [unfolded ListMap_ops_def Map_ops.select_convs]
  list10.floors.clear_floor [unfolded ListMap_ops_def Map_ops.select_convs]
  trie11.floors.clear_floor [unfolded PrefixTreeMap_ops_def Map_ops.select_convs]
  trie12.floors.clear_floor [unfolded PrefixTreeMap_ops_def Map_ops.select_convs]
  trie13.floors.clear_floor [unfolded PrefixTreeMap_ops_def Map_ops.select_convs]

lemmas floor_laws =
  nav.floors.get_floor_longest [unfolded NavigableHashMap_ops_def NavigableMap_ops.select_convs]
  list9.floors.get_floor_longest [unfolded ListMap_ops_def NavigableMap_ops.select_convs]
  list10.floors.get_floor_longest [unfolded ListMap_ops_def NavigableMap_ops.select_convs]
  trie11.floors.get_floor_longest [unfolded PrefixTreeMap_ops_def NavigableMap_ops.select_convs]
  trie12.floors.get_floor_longest [unfolded PrefixTreeMap_ops_def NavigableMap_ops.select_convs]
  trie13.floors.get_floor_longest [unfolded PrefixTreeMap_ops_def NavigableMap_ops.select_convs]

interpretation lzw: lzw_dictionary Dictionary_ops Dictionary_inv Dictionary_abs
proof (unfold_locales, goal_cases)
  case (1 m k v)
  then show ?case by (cases m) (simp_all add: Dictionary_ops_def put_laws)
next
  case (2 m)
  then show ?case by (cases m) (simp_all add: Dictionary_ops_def clear_laws)
next
  case (3 m k)
  then show ?case by (cases m) (simp_all add: Dictionary_ops_def floor_laws [simplified])
qed

lemma ListMap_init_clear: "ListMap_clear ListMap_init = (ListMap_init :: ('k, 'v) ListMap)"
  by (simp add: ListMap_clear_def ListMap_init_def SortedList_clear_def SortedList_init_def)

lemma PrefixTreeMap_init_clear: "\<exists>m'. PrefixTreeMap_init n = PrefixTreeMap_clear m'"
  by (auto simp: PrefixTreeMap_init_def)

lemma list_init_inv:
  "ListMap_inv ord_class.lexordp seq_content valid_seq (ListMap_init :: list_dictionary)"
  "ListMap_inv shortlex seq_content valid_seq (ListMap_init :: list_dictionary)"
  using list9.ListMap_clear_correct [of "ListMap_init :: list_dictionary"]
    list10.ListMap_clear_correct [of "ListMap_init :: list_dictionary"]
  by (simp_all add: ListMap_init_clear)

lemma trie_init_inv:
  "trie11.tinv (PrefixTreeMap_init n)" "trie12.tinv (PrefixTreeMap_init n)" "trie13.tinv (PrefixTreeMap_init n)"
  using PrefixTreeMap_init_clear [of n] trie11.clear_correct trie12.clear_correct trie13.clear_correct by metis+

lemma Dictionary_create_inv: "Dictionary_inv (Dictionary_create s)"
  by (simp add: Dictionary_create_def list_init_inv trie_init_inv
      NavigableHashMap_init_correct [OF _ refl] NavigableHashMap_init_single_correct)

lemma LZWCompression_create_rel: "lzw.lzw_rel (LZWCompression_create s) []"
  unfolding LZWCompression_create_def by (rule lzw.reset_correct) (simp add: Dictionary_create_inv)

section \<open>Sequences of calls\<close>

text \<open>The calls a client may make of a compressor, with their results.\<close>

datatype compressor_call = Reset | Encode "byte list" nat

fun LZWCompression_calls :: "Dictionary LZWCompression \<Rightarrow> compressor_call list
    \<Rightarrow> (Compression_Result \<times> byte list) list option" where
  "LZWCompression_calls z [] = Some []"
| "LZWCompression_calls z (Reset # cs) = LZWCompression_calls (LZWCompression_reset Dictionary_ops z) cs"
| "LZWCompression_calls z (Encode src destlen # cs) =
    Option.bind (LZWCompression_encode Dictionary_ops z src destlen) (\<lambda>(result, out, z').
      Option.bind (LZWCompression_calls z' cs) (\<lambda>rs. Some ((result, out) # rs)))"

fun lzw_calls :: "byte list list \<Rightarrow> compressor_call list \<Rightarrow> (Compression_Result \<times> byte list) list" where
  "lzw_calls S [] = []"
| "lzw_calls S (Reset # cs) = lzw_calls [] cs"
| "lzw_calls S (Encode src destlen # cs) =
    lzw_encode destlen S src # lzw_calls (lzw_dictionary_after destlen S src) cs"

lemma calls_reference: "lzw.lzw_rel z S \<Longrightarrow> LZWCompression_calls z cs = Some (lzw_calls S cs)"
proof (induction S cs arbitrary: z rule: lzw_calls.induct)
  case (1 S)
  then show ?case by simp
next
  case (2 S cs)
  then show ?case using lzw.reset_correct [of z] by (simp add: lzw.lzw_rel_def)
next
  case (3 S src destlen cs)
  from lzw.encode_run [OF "3.prems", of src destlen] obtain z' where
    "LZWCompression_encode Dictionary_ops z src destlen
      = Some (fst (lzw_encode destlen S src), snd (lzw_encode destlen S src), z')"
    "lzw.lzw_rel z' (lzw_dictionary_after destlen S src)" by blast
  with "3.IH" show ?case by simp
qed

lemma encode_stream:
  assumes "2 * length src + 14 \<le> dl"
  shows "\<exists>z'. LZWCompression_encode Dictionary_ops (LZWCompression_create s) src dl =
      Some (\<lparr>src_compressed_length = length src,
             dest_length = length (VarIntWriter_stream (index_codes (lzw_indices [] src)))\<rparr>,
        VarIntWriter_stream (index_codes (lzw_indices [] src)), z')
    \<and> length (VarIntWriter_stream (index_codes (lzw_indices [] src))) \<le> dl"
proof -
  have room: "src_compressed_length (fst (lzw_encode dl [] src)) = length src"
    using assms by (intro lzw_encode_room wf_dict_Nil)
  have "snd (lzw_encode dl [] src) = VarIntWriter_stream (index_codes (lzw_indices [] src))
      \<and> dest_length (fst (lzw_encode dl [] src)) \<le> dl"
    using assms by (intro lzw_encode_success wf_dict_Nil room) (simp add: INDEX_MAX_WIDTH_def)
  moreover have "dest_length (fst (lzw_encode dl [] src)) = length (snd (lzw_encode dl [] src))"
    using lzw_encode_bound [OF wf_dict_Nil] by blast
  ultimately have r: "fst (lzw_encode dl [] src) = \<lparr>src_compressed_length = length src,
             dest_length = length (VarIntWriter_stream (index_codes (lzw_indices [] src)))\<rparr>"
    "snd (lzw_encode dl [] src) = VarIntWriter_stream (index_codes (lzw_indices [] src))"
    "length (VarIntWriter_stream (index_codes (lzw_indices [] src))) \<le> dl"
    using room by (auto intro: Compression_Result.equality)
  with lzw.encode_run [OF LZWCompression_create_rel, of s src dl] show ?thesis by auto
qed

section \<open>Properties\<close>

text \<open>
  C14. The thirteen collection strategies are interchangeable: a compressor built with any strategy
  answers every sequence of calls to \<open>encode\<close> and \<open>reset\<close>, whatever the buffers and their capacities,
  with the results and the bytes of the reference run, and never fails to return.
\<close>

theorem strategies_equivalent:
  "LZWCompression_calls (LZWCompression_create s) cs = Some (lzw_calls [] cs)"
  by (rule calls_reference [OF LZWCompression_create_rel])

text \<open>
  C18. A fresh compressor compresses a buffer completely when the destination has two bytes for
  every byte of the source and 14 more; the bytes it writes are the index stream of the input and
  stay inside the destination.
\<close>

theorem encode_complete:
  assumes "2 * length src + 14 \<le> dl"
  shows "\<exists>z'. LZWCompression_encode Dictionary_ops (LZWCompression_create s) src dl =
      Some (\<lparr>src_compressed_length = length src,
             dest_length = length (VarIntWriter_stream (index_codes (lzw_indices [] src)))\<rparr>,
        VarIntWriter_stream (index_codes (lzw_indices [] src)), z')
    \<and> length (VarIntWriter_stream (index_codes (lzw_indices [] src))) \<le> dl"
  by (rule encode_stream [OF assms])

theorem encode_complete_witness:
  "\<exists>z'. LZWCompression_encode Dictionary_ops (LZWCompression_create 7) [1, 2, 1, 2, 1, 2] 26 =
      Some (\<lparr>src_compressed_length = 6,
             dest_length = length (VarIntWriter_stream (index_codes (lzw_indices [] [1, 2, 1, 2, 1, 2])))\<rparr>,
        VarIntWriter_stream (index_codes (lzw_indices [] [1, 2, 1, 2, 1, 2])), z')
    \<and> length (VarIntWriter_stream (index_codes (lzw_indices [] [1, 2, 1, 2, 1, 2]))) \<le> 26"
  using encode_complete [of "[1, 2, 1, 2, 1, 2]" 26 7] by (simp add: eval_nat_numeral)



text \<open>
  Nothing to compress and no room for the end marker: \<open>encode\<close> reports that it consumed the whole
  (empty) input although it wrote no stream.
\<close>

lemma encode_empty_without_room:
  assumes "dl \<le> 4"
  shows "LZWCompression_encode ops z [] dl = Some (\<lparr>src_compressed_length = 0, dest_length = 0\<rparr>, [], z)"
  using assms
  by (simp add: LZWCompression_encode_def LZWCompression_encode_loop.simps INDEX_MAX_WIDTH_def)

end
