(* ===== verification/Decompressor.thy ===== *)
theory Decompressor
  imports LZWStrategies
begin

text \<open>
  \<open>Decompressor.java\<close> of the analyzer, which reads the traces.  An exception (an index of a sequence
  that does not exist before the first index, or the end of the buffer) is \<open>None\<close>.
\<close>

section \<open>The decompressor of the analyzer\<close>

record Decompressor =
  dj_dictionary :: "int \<rightharpoonup> byte list"
  dj_nextIndex :: int
  dj_last :: "byte list"
  dj_dest :: "byte list"

definition Decompressor_init :: Decompressor where
  "Decompressor_init = \<lparr>dj_dictionary = Map.empty, dj_nextIndex = int FIRST_CUSTOM_INDEX, dj_last = [], dj_dest = []\<rparr>"

definition Decompressor_registerIndex :: "Decompressor \<Rightarrow> byte list \<Rightarrow> Decompressor" where
  "Decompressor_registerIndex d current =
    (if dj_last d \<noteq> [] \<and> dj_nextIndex d \<le> int MAX_INDEX
     then d\<lparr>dj_dictionary := (dj_dictionary d)(dj_nextIndex d \<mapsto> dj_last d @ [hd current]),
            dj_nextIndex := dj_nextIndex d + 1\<rparr>
     else d)"

text \<open>The body of the loop, for an index that is not negative.\<close>

definition Decompressor_step :: "Decompressor \<Rightarrow> int \<Rightarrow> Decompressor option" where
  "Decompressor_step d index =
    (if index < int FIRST_CUSTOM_INDEX then
       (let current = [of_int (index mod 256)];
            d = Decompressor_registerIndex (d\<lparr>dj_dest := dj_dest d @ current\<rparr>) current
        in Some (d\<lparr>dj_last := current\<rparr>))
     else
       (case dj_dictionary d index of
          Some current \<Rightarrow>
            (let d = Decompressor_registerIndex (d\<lparr>dj_dest := dj_dest d @ current\<rparr>) current
             in Some (d\<lparr>dj_last := current\<rparr>))
        | None \<Rightarrow>
            (if dj_last d = [] then None
             else
               (let current = [hd (dj_last d)];
                    d' = Decompressor_registerIndex (d\<lparr>dj_dest := dj_dest d @ dj_last d @ current\<rparr>) current
                in Some (d'\<lparr>dj_last := dj_last d @ current\<rparr>)))))"

partial_function (option) Decompressor_loop ::
  "byte list \<Rightarrow> nat \<Rightarrow> BitwiseVarIntReader \<Rightarrow> int \<Rightarrow> Decompressor \<Rightarrow> byte list option" where
  "Decompressor_loop src limit reader index d =
    (if 0 \<le> index \<and> length (dj_dest d) < limit then
       Option.bind (Decompressor_step d index) (\<lambda>d'.
         Option.bind (BitwiseVarIntReader_next src reader) (\<lambda>(reader', index').
           Decompressor_loop src limit reader' index' d'))
     else Some (dj_dest d))"

definition Decompressor_decode :: "nat \<Rightarrow> byte list \<Rightarrow> byte list option" where
  "Decompressor_decode limit src =
    Option.bind (BitwiseVarIntReader_next src BitwiseVarIntReader_init) (\<lambda>(reader, index).
      Decompressor_loop src limit reader index Decompressor_init)"

text \<open>The body of the loop applied to a list of indices.\<close>

primrec Decompressor_steps :: "Decompressor \<Rightarrow> int list \<Rightarrow> Decompressor option" where
  "Decompressor_steps d [] = Some d"
| "Decompressor_steps d (i # is) = Option.bind (Decompressor_step d i) (\<lambda>d'. Decompressor_steps d' is)"

section \<open>Decoding the indices of the reference\<close>

definition dict_of :: "byte list list \<Rightarrow> int \<rightharpoonup> byte list" where
  "dict_of T i = (if int FIRST_CUSTOM_INDEX \<le> i \<and> nat i < FIRST_CUSTOM_INDEX + length T
                  then Some (T ! (nat i - FIRST_CUSTOM_INDEX)) else None)"

lemma dict_of_snoc: "(dict_of T)(int (FIRST_CUSTOM_INDEX + length T) \<mapsto> s) = dict_of (T @ [s])"
  by (auto simp: dict_of_def fun_eq_iff nth_append)

lemma dict_of_index:
  "dict_of T (int (FIRST_CUSTOM_INDEX + i)) = (if i < length T then Some (T ! i) else None)"
  by (simp add: dict_of_def nat_add_distrib)

text \<open>
  The dictionary \<open>T\<close> of the decoder after the indices of the phrases before \<open>xs\<close>, \<open>last\<close> being the
  latest, against the dictionary \<open>S\<close> of the encoder: the same at the start and when full, one
  sequence behind in between.  The encoder does not register a sequence that ends at the end of the
  input, the decoder may.
\<close>

definition dec_rel :: "byte list list \<Rightarrow> byte list \<Rightarrow> byte list list \<Rightarrow> byte list \<Rightarrow> bool" where
  "dec_rel S xs T prev \<longleftrightarrow> xs = []
    \<or> S = T \<and> (prev = [] \<or> MAX_INDEX < FIRST_CUSTOM_INDEX + length S \<or> length xs = 1)
    \<or> prev \<noteq> [] \<and> S = T @ [prev @ [hd xs]]"

definition dec_state :: "byte list list \<Rightarrow> byte list \<Rightarrow> byte list \<Rightarrow> Decompressor" where
  "dec_state T prev dest = \<lparr>dj_dictionary = dict_of T, dj_nextIndex = int (FIRST_CUSTOM_INDEX + length T),
     dj_last = prev, dj_dest = dest\<rparr>"

definition dec_register :: "byte list list \<Rightarrow> byte list \<Rightarrow> byte \<Rightarrow> byte list list" where
  "dec_register T prev b = (if prev \<noteq> [] \<and> FIRST_CUSTOM_INDEX + length T \<le> MAX_INDEX then T @ [prev @ [b]] else T)"

lemma registerIndex_state:
  "Decompressor_registerIndex (dec_state T prev dest) cur = dec_state (dec_register T prev (hd cur)) prev dest"
  by (simp add: Decompressor_registerIndex_def dec_state_def dec_register_def dict_of_snoc [symmetric])

lemma step_known:
  assumes "(\<exists>b. p = [b] \<and> c = unat b) \<or> (\<exists>i < length T. p = T ! i \<and> c = FIRST_CUSTOM_INDEX + i)"
  shows "Decompressor_step (dec_state T prev dest) (int c) = Some (dec_state (dec_register T prev (hd p)) p (dest @ p))"
  using assms
proof
  assume "\<exists>b. p = [b] \<and> c = unat b"
  then obtain b where b: "p = [b]" "c = unat b" by blast
  have "int (unat b) mod 256 = int (unat b)" using unat_less_256 [of b] by (metis mod_less of_nat_mod of_nat_numeral)
  then have "of_int (int (unat b) mod 256) = b" by (simp only: of_int_of_nat_eq) simp
  moreover have "uint b < 256" using unat_less_256 [of b] unfolding uint_nat by linarith
  ultimately show ?thesis
    using b registerIndex_state [of T prev "dest @ p" p] by (simp add: Decompressor_step_def FIRST_CUSTOM_INDEX_eq dec_state_def Let_def)
next
  assume "\<exists>i < length T. p = T ! i \<and> c = FIRST_CUSTOM_INDEX + i"
  then obtain i where i: "i < length T" "p = T ! i" "c = FIRST_CUSTOM_INDEX + i" by blast
  then have "dj_dictionary (dec_state T prev dest) (int c) = Some p"
    using dict_of_index [of T i] by (simp add: dec_state_def)
  with i(3) registerIndex_state [of T prev "dest @ p" p] show ?thesis
    by (simp add: Decompressor_step_def dec_state_def Let_def)
qed

text \<open>The sequence that the encoder has just registered and the decoder does not have yet.\<close>

lemma step_unknown:
  assumes "prev \<noteq> []"
  shows "Decompressor_step (dec_state T prev dest) (int (FIRST_CUSTOM_INDEX + length T))
    = Some (dec_state (dec_register T prev (hd prev)) (prev @ [hd prev]) (dest @ prev @ [hd prev]))"
proof -
  have "dict_of T (int (FIRST_CUSTOM_INDEX + length T)) = None" using dict_of_index [of T "length T"] by simp
  with assms registerIndex_state [of T prev "dest @ prev @ [hd prev]" "[hd prev]"] show ?thesis
    by (simp add: Decompressor_step_def dec_state_def Let_def)
qed

lemma decode_phrase:
  assumes "wf_dict S" and "xs \<noteq> []" and "dec_rel S xs T prev"
  defines "p \<equiv> take (phrase_len S xs) xs"
  shows "Decompressor_step (dec_state T prev dest) (int (the (lookup S p)))
    = Some (dec_state (dec_register T prev (hd xs)) p (dest @ p))"
proof -
  have "prefix p xs" unfolding p_def by (rule take_is_prefix)
  have ne: "p \<noteq> []" and hd: "hd p = hd xs"
    using phrase_len_pos [OF assms(2), of S] assms(2) by (auto simp: p_def hd_take)
  obtain c where c: "lookup S p = Some c" using phrase_stored [OF assms(2)] unfolding p_def by blast
  show ?thesis
  proof (cases "(\<exists>b. p = [b] \<and> c = unat b) \<or> (\<exists>i < length T. p = T ! i \<and> c = FIRST_CUSTOM_INDEX + i)")
    case True
    with step_known [OF True, of prev dest] c hd show ?thesis by simp
  next
    case False
    with lookup_Some [OF assms(1) c] obtain i where
      i: "i < length S" "p = S ! i" "c = FIRST_CUSTOM_INDEX + i" by blast
    with False have "S \<noteq> T" by blast
    with assms(2,3) have S: "prev \<noteq> []" "S = T @ [prev @ [hd xs]]" by (auto simp: dec_rel_def)
    have "\<not> i < length T" using False i S(2) by (auto simp: nth_append)
    then have "i = length T" using i(1) S(2) by simp
    with i S have p: "p = prev @ [hd xs]" by simp
    with S(1) hd have "hd prev = hd xs" by simp
    with step_unknown [OF S(1), of T dest] p c i(3) \<open>i = length T\<close> show ?thesis by simp
  qed
qed

lemma decode_rel:
  assumes "wf_dict S" and "xs \<noteq> []" and "dec_rel S xs T prev"
  shows "dec_rel (dict_extend S xs (phrase_len S xs)) (drop (phrase_len S xs) xs)
    (dec_register T prev (hd xs)) (take (phrase_len S xs) xs)"
proof -
  let ?n = "phrase_len S xs" let ?T = "dec_register T prev (hd xs)"
  have n: "0 < ?n" "?n \<le> length xs" using phrase_len_pos [OF assms(2)] phrase_len_le by auto
  show ?thesis
  proof (cases "?n + 1 < length xs")
    case False
    have "dict_extend S xs ?n = S" using False by (simp add: dict_extend_def)
    show ?thesis
    proof (cases "length xs = ?n")
      case True
      then show ?thesis by (simp add: dec_rel_def)
    next
      case len: False
      with False n have "length xs = Suc ?n" by simp
      then have "?T = S" using assms n by (auto simp: dec_rel_def dec_register_def wf_dict_def)
      with \<open>dict_extend S xs ?n = S\<close> \<open>length xs = Suc ?n\<close> show ?thesis by (simp add: dec_rel_def)
    qed
  next
    case True
    then have T: "?T = S" using assms by (auto simp: dec_rel_def dec_register_def wf_dict_def)
    show ?thesis
    proof (cases "FIRST_CUSTOM_INDEX + length S \<le> MAX_INDEX")
      case False
      then show ?thesis using T by (simp add: dec_rel_def dict_extend_def)
    next
      case le: True
      have "take (?n + 1) xs = take ?n xs @ [hd (drop ?n xs)]"
        using True by (simp add: take_Suc_conv_app_nth hd_drop_conv_nth)
      moreover have "take ?n xs \<noteq> []" using n assms(2) by simp
      ultimately show ?thesis using T True le by (simp add: dec_rel_def dict_extend_def)
    qed
  qed
qed

lemma decode_indices:
  assumes "wf_dict S" and "dec_rel S xs T prev"
  shows "\<exists>T' prev'. Decompressor_steps (dec_state T prev dest) (map int (lzw_indices S xs))
    = Some (dec_state T' prev' (dest @ xs))"
  using assms
proof (induction S xs arbitrary: T prev dest rule: lzw_indices.induct)
  case (1 S xs)
  show ?case
  proof (cases "xs = []")
    case True
    then show ?thesis by (auto simp: lzw_indices_Nil)
  next
    case False
    let ?n = "phrase_len S xs" let ?p = "take ?n xs"
    have "\<exists>T' prev'. Decompressor_steps (dec_state (dec_register T prev (hd xs)) ?p (dest @ ?p))
        (map int (lzw_indices (dict_extend S xs ?n) (drop ?n xs)))
      = Some (dec_state T' prev' ((dest @ ?p) @ drop ?n xs))"
      using False "1.prems" phrase_len_pos [OF False]
      by (intro "1.IH" [OF refl] wf_dict_extend decode_rel) auto
    with decode_phrase [OF "1.prems"(1) False "1.prems"(2), of dest] False show ?thesis
      by (simp add: lzw_indices_Cons)
  qed
qed

section \<open>Decoding a stream\<close>

definition dict_ok :: "Decompressor \<Rightarrow> bool" where
  "dict_ok d \<longleftrightarrow> [] \<notin> ran (dj_dictionary d)"

lemma registerIndex_ok: "dict_ok d \<Longrightarrow> dict_ok (Decompressor_registerIndex d cur)"
  by (auto simp: dict_ok_def Decompressor_registerIndex_def ran_def)

lemma registerIndex_dest [simp]: "dj_dest (Decompressor_registerIndex d cur) = dj_dest d"
  by (simp add: Decompressor_registerIndex_def)

lemma step_grows:
  assumes "dict_ok d" and "Decompressor_step d i = Some d'"
  shows "dict_ok d' \<and> length (dj_dest d) < length (dj_dest d')"
proof -
  have upd: "dict_ok (Decompressor_registerIndex (d\<lparr>dj_dest := out\<rparr>) cur\<lparr>dj_last := l\<rparr>)" for out cur l
    using registerIndex_ok [of "d\<lparr>dj_dest := out\<rparr>" cur] assms(1) by (simp add: dict_ok_def)
  have "cur \<noteq> []" if "dj_dictionary d i = Some cur" for cur
    using that assms(1) by (auto simp: dict_ok_def ran_def)
  with assms(2) upd show ?thesis
    by (auto simp: Decompressor_step_def Let_def split: if_splits option.splits)
qed

lemma steps_grow:
  "dict_ok d \<Longrightarrow> Decompressor_steps d is = Some d' \<Longrightarrow> length (dj_dest d) \<le> length (dj_dest d')"
proof (induction "is" arbitrary: d)
  case (Cons i "is")
  then obtain d1 where "Decompressor_step d i = Some d1" "Decompressor_steps d1 is = Some d'"
    by (auto simp: bind_eq_Some_conv)
  with Cons.IH [of d1] step_grows [OF Cons.prems(1), of i d1] show ?case by simp
qed simp

lemma loop_steps:
  assumes "dict_ok d" and "Decompressor_steps d vs = Some d'" and "\<forall>v \<in> set vs. 0 \<le> v"
    and "read_n (BitwiseVarIntReader_next src) (Suc (length vs)) r = Some (r', vs @ [-1])"
    and "length (dj_dest d') \<le> limit"
  shows "Option.bind (BitwiseVarIntReader_next src r) (\<lambda>(r1, i). Decompressor_loop src limit r1 i d)
    = Some (dj_dest d')"
  using assms
proof (induction vs arbitrary: d r)
  case Nil
  then show ?case by (auto simp: bind_eq_Some_conv Decompressor_loop.simps)
next
  case (Cons v vs)
  obtain d1 where d1: "Decompressor_step d v = Some d1" "Decompressor_steps d1 vs = Some d'"
    using Cons.prems(2) by (auto simp: bind_eq_Some_conv)
  obtain r1 where r1: "BitwiseVarIntReader_next src r = Some (r1, v)"
    "read_n (BitwiseVarIntReader_next src) (Suc (length vs)) r1 = Some (r', vs @ [-1])"
    using Cons.prems(4) read_n.simps(2) [of "BitwiseVarIntReader_next src" "Suc (length vs)" r]
    by (auto simp: bind_eq_Some_conv simp del: read_n.simps)
  note g = step_grows [OF Cons.prems(1) d1(1)]
  have "Option.bind (BitwiseVarIntReader_next src r1) (\<lambda>(r1, i). Decompressor_loop src limit r1 i d1) = Some (dj_dest d')"
    using Cons.prems g d1(2) r1(2) by (intro Cons.IH) auto
  moreover have "length (dj_dest d) < limit" using g steps_grow [OF _ d1(2)] Cons.prems(5) by simp
  ultimately show ?case using r1(1) d1(1) Cons.prems(3) by (subst Decompressor_loop.simps) simp
qed

lemma indices_bound: "wf_dict S \<Longrightarrow> \<forall>v \<in> set (lzw_indices S xs). v \<le> MAX_INDEX"
proof (induction S xs rule: lzw_indices.induct)
  case (1 S xs)
  show ?case
  proof (cases "xs = []")
    case False
    have "\<forall>v \<in> set (lzw_indices (dict_extend S xs (phrase_len S xs)) (drop (phrase_len S xs) xs)). v \<le> MAX_INDEX"
      using False 1 phrase_len_pos [OF False] by (intro "1.IH" [OF refl] wf_dict_extend) auto
    with False phrase_index [OF "1.prems" False] show ?thesis by (simp add: lzw_indices_Cons)
  qed (simp add: lzw_indices_Nil)
qed

lemma decode_stream:
  assumes "length src \<le> limit"
  shows "Decompressor_decode limit (VarIntWriter_stream (index_codes (lzw_indices [] src))) = Some src"
proof -
  let ?vs = "lzw_indices [] src" let ?out = "VarIntWriter_stream (index_codes ?vs)"
  have b: "\<forall>v \<in> set ?vs. v \<le> MAX_INDEX" by (rule indices_bound [OF wf_dict_Nil])
  from index_codes_bound [OF b] have lim: "\<forall>v \<in> set (index_codes ?vs). unat v + 2 < 2 ^ 30" by fastforce
  from BitwiseVarIntReader_reads_stream [OF lim] obtain r' where
    r': "read_n (BitwiseVarIntReader_next ?out) (Suc (length (index_codes ?vs))) BitwiseVarIntReader_init
      = Some (r', map uint (index_codes ?vs) @ [-1])"
    by blast
  have "uint (of_nat v :: uint) = int v" if "v \<in> set ?vs" for v
  proof -
    have "v < 2 ^ LENGTH(32)" using b that by (fastforce simp: MAX_INDEX_eq)
    from unat_of_nat_small [OF this] show ?thesis unfolding uint_nat by (rule arg_cong)
  qed
  then have "map uint (index_codes ?vs) = map int ?vs" by simp
  with r' have r: "read_n (BitwiseVarIntReader_next ?out) (Suc (length (map int ?vs))) BitwiseVarIntReader_init
      = Some (r', map int ?vs @ [-1])"
    by (simp del: read_n.simps)
  have init: "Decompressor_init = dec_state [] [] []"
    by (auto simp: Decompressor_init_def dec_state_def dict_of_def fun_eq_iff)
  have "dec_rel [] src [] []" by (simp add: dec_rel_def)
  from decode_indices [OF wf_dict_Nil this, of "[]"] obtain T prev where
    steps: "Decompressor_steps Decompressor_init (map int ?vs) = Some (dec_state T prev src)"
    unfolding init by auto
  have "Option.bind (BitwiseVarIntReader_next ?out BitwiseVarIntReader_init)
      (\<lambda>(r1, i). Decompressor_loop ?out limit r1 i Decompressor_init) = Some (dj_dest (dec_state T prev src))"
    using assms by (intro loop_steps [OF _ steps _ r]) (auto simp: dict_ok_def Decompressor_init_def dec_state_def)
  then show ?thesis by (simp add: Decompressor_decode_def dec_state_def)
qed

section \<open>A dictionary from an earlier buffer\<close>

lemma lzw_final_short: "length xs \<le> 2 \<Longrightarrow> lzw_final S xs = S"
proof (induction S xs rule: lzw_final.induct)
  case (1 S xs)
  show ?case
  proof (cases "xs = []")
    case False
    then have "dict_extend S xs (phrase_len S xs) = S"
      using "1.prems" phrase_len_pos [OF False, of S] by (simp add: dict_extend_def)
    with False 1 phrase_len_pos [OF False, of S] show ?thesis by (simp add: lzw_final_Cons)
  qed (simp add: lzw_final_Nil)
qed

lemma wf_dict_final: "wf_dict S \<Longrightarrow> wf_dict (lzw_final S xs)"
proof (induction S xs rule: lzw_final.induct)
  case (1 S xs)
  show ?case
  proof (cases "xs = []")
    case False
    have "wf_dict (lzw_final (dict_extend S xs (phrase_len S xs)) (drop (phrase_len S xs) xs))"
      using False 1 phrase_len_pos [OF False] by (intro "1.IH" [OF refl] wf_dict_extend) auto
    with False show ?thesis by (simp add: lzw_final_Cons)
  qed (simp add: lzw_final_Nil 1)
qed

lemma decode_foreign_index:
  assumes "int FIRST_CUSTOM_INDEX \<le> int c" and "\<forall>v \<in> set (c # vs). v \<le> MAX_INDEX" and "0 < limit"
  shows "Decompressor_decode limit (VarIntWriter_stream (index_codes (c # vs))) = None"
proof -
  let ?out = "VarIntWriter_stream (index_codes (c # vs))"
  from index_codes_bound [OF assms(2)] have lim: "\<forall>v \<in> set (index_codes (c # vs)). unat v + 2 < 2 ^ 30" by fastforce
  from BitwiseVarIntReader_reads_stream [OF lim] obtain r1 where
    "BitwiseVarIntReader_next ?out BitwiseVarIntReader_init = Some (r1, uint (of_nat c :: uint))"
    by (auto simp: bind_eq_Some_conv)
  moreover have "uint (of_nat c :: uint) = int c"
    using assms(2) unat_of_nat_small [of c, where 'a = 32] unfolding uint_nat by (simp add: MAX_INDEX_eq)
  ultimately show ?thesis
    using assms(1,3)
    by (simp add: Decompressor_decode_def Decompressor_loop.simps Decompressor_step_def Decompressor_init_def)
qed

lemma first_index_registered:
  assumes "wf_dict S" and "s \<in> set S" and "prefix s xs"
  shows "\<exists>c vs. lzw_indices S xs = c # vs \<and> FIRST_CUSTOM_INDEX \<le> c"
proof -
  have two: "2 \<le> length s" using assms(1,2) by (simp add: wf_dict_def)
  with assms(3) have ne: "xs \<noteq> []" by auto
  let ?p = "take (phrase_len S xs) xs"
  have "s \<in> dom (lookup S)" using assms(1,2) dom_lookup [of S] by (auto simp: wf_dict_def)
  then have "length s \<le> length ?p"
    using phrase_longest [OF ne, of S] assms(3) unfolding longest_prefix_def by blast
  then have "length ?p \<noteq> 1" using two by linarith
  moreover obtain c where "lookup S ?p = Some c" using phrase_stored [OF ne, of S] by blast
  ultimately have "FIRST_CUSTOM_INDEX \<le> the (lookup S ?p)"
    using lookup_Some [OF assms(1), of ?p c] by (metis One_nat_def le_add1 length_Cons list.size(3) option.sel)
  with lzw_indices_Cons [OF ne, of S] show ?thesis by blast
qed

lemma encode_foreign:
  assumes "wf_dict S" and "s \<in> set S" and "prefix s src" and "2 * length src + 14 \<le> dl" and "0 < limit"
  shows "src_compressed_length (fst (lzw_encode dl S src)) = length src
    \<and> Decompressor_decode limit (snd (lzw_encode dl S src)) = None"
proof -
  obtain c vs where c: "lzw_indices S src = c # vs" "FIRST_CUSTOM_INDEX \<le> c"
    using first_index_registered [OF assms(1-3)] by blast
  have room: "src_compressed_length (fst (lzw_encode dl S src)) = length src"
    using assms(1,4) by (rule lzw_encode_room)
  then have "snd (lzw_encode dl S src) = VarIntWriter_stream (index_codes (c # vs))"
    using lzw_encode_success [OF assms(1) _ room] assms(4) c(1) by (simp add: INDEX_MAX_WIDTH_def)
  moreover have "\<forall>v \<in> set (c # vs). v \<le> MAX_INDEX" using indices_bound [OF assms(1), of src] c(1) by simp
  ultimately show ?thesis using room decode_foreign_index [of c vs limit] c(2) assms(5) by simp
qed

section \<open>Properties\<close>





end
