(* ===== verification/TraceReader.thy ===== *)
theory TraceReader
  imports TraceWriter Decompressor
begin

text \<open>
  How the analyzer reads a trace file: the identification header (\<open>BaseFile.java\<close>, \<open>TraceFile.java\<close>) and
  the loop that cuts the file into buffers (\<open>dispatch\<close> of \<open>TraceParser.java\<close>).  The scanner is the list of
  the bytes that are left; its paging of the file is not modelled, its limit on one buffer is.
\<close>

section \<open>The reader\<close>

definition MEMORY_LOAD :: nat where
  "MEMORY_LOAD = 1024 * 2014"

definition COMPRESSED_MASK :: uint where
  "COMPRESSED_MASK = push_bit 31 1"

definition SYNC_MASK :: uint where
  "SYNC_MASK = push_bit 29 3"

definition LENGTH_MASK :: uint where
  "LENGTH_MASK = NOT (COMPRESSED_MASK OR SYNC_MASK)"

definition SyncLevel_parse :: "uint \<Rightarrow> EventBufferSyncLevel option" where
  "SyncLevel_parse level = (if level = 0 then Some Sync_None else if level = 1 then Some Sync_Ensure_Order
     else if level = 2 then Some Sync_Full else None)"

record QueueEntry =
  qe_thread :: u64
  qe_buffer :: "byte list"
  qe_compressed :: bool
  qe_sync :: "EventBufferSyncLevel option"

definition readFileInfo :: "byte list \<Rightarrow> ((uint list \<times> uint) \<times> byte list) option" where
  "readFileInfo bs =
    Option.bind (read_jint bs) (\<lambda>(magic, bs).
      if magic \<noteq> 0xC0FFEE then None
      else Option.bind (read_jint bs) (\<lambda>(n, bs).
        Option.bind (read_jints (unat n) bs) (\<lambda>(header, bs).
          map_option (\<lambda>(file_type, bs). ((header, file_type), bs)) (read_jint bs))))"

definition readTraceFileInfo :: "byte list \<Rightarrow> ((uint list \<times> uint) \<times> byte list) option" where
  "readTraceFileInfo bs =
    Option.bind (readFileInfo bs) (\<lambda>((header, file_type), bs).
      Option.bind (read_jint bs) (\<lambda>(epoch, bs).
        if file_type \<noteq> 1 then None else Some ((header, epoch), bs)))"

definition TraceParser_entry :: "byte list \<Rightarrow> (QueueEntry \<times> byte list) option" where
  "TraceParser_entry bs =
    Option.bind (read_jlong bs) (\<lambda>(thread, bs).
      Option.bind (read_jint bs) (\<lambda>(metadata, bs).
        let len = unat (metadata AND LENGTH_MASK);
            is_compressed = (metadata AND COMPRESSED_MASK \<noteq> 0);
            sync = SyncLevel_parse (drop_bit 29 (metadata AND SYNC_MASK))
        in if len > MEMORY_LOAD then None
           else map_option (\<lambda>(buffer, bs).
             (\<lparr>qe_thread = thread, qe_buffer = buffer, qe_compressed = is_compressed, qe_sync = sync\<rparr>, bs)) (read_bytes len bs)))"

lemma TraceParser_entry_length: "TraceParser_entry bs = Some (e, rest) \<Longrightarrow> length rest < length bs"
  by (auto simp: TraceParser_entry_def Let_def split: Option.bind_splits if_splits
      dest!: read_jlong_length read_jint_length read_bytes_length)

function TraceParser_dispatch :: "byte list \<Rightarrow> QueueEntry list" where
  "TraceParser_dispatch bs = (case TraceParser_entry bs of None \<Rightarrow> [] | Some (e, rest) \<Rightarrow> e # TraceParser_dispatch rest)"
  by pat_completeness auto

termination
  by (relation "measure length") (auto simp: TraceParser_entry_length)

declare TraceParser_dispatch.simps [simp del]

definition TraceParser_parse :: "uint list \<Rightarrow> byte list \<Rightarrow> QueueEntry list option" where
  "TraceParser_parse symbols_header bs =
    Option.bind (readTraceFileInfo bs) (\<lambda>((header, epoch), bs).
      if header \<noteq> symbols_header then None else Some (TraceParser_dispatch bs))"

definition TraceSlaveParser_buffer :: "nat \<Rightarrow> QueueEntry \<Rightarrow> byte list option" where
  "TraceSlaveParser_buffer limit entry =
    (if qe_compressed entry then Decompressor_decode limit (qe_buffer entry) else Some (qe_buffer entry))"

section \<open>The metadata word\<close>

lemma of_nat_high_bits:
  assumes "n < 2 ^ 29" and "29 \<le> i"
  shows "\<not> bit (of_nat n :: uint) i"
proof -
  have "n < 2 ^ i" using assms by (meson less_le_trans one_le_numeral power_increasing)
  then have "\<not> bit n i" by (simp add: bit_iff_odd)
  then show ?thesis by (simp add: bit_of_nat_iff)
qed

lemma low_bits_or:
  fixes v w :: uint
  assumes "\<And>i. 29 \<le> i \<Longrightarrow> \<not> bit v i"
  shows "(v OR push_bit 29 w) AND LENGTH_MASK = v"
proof (rule bit_word_eqI)
  fix i assume i: "i < LENGTH(32)"
  have "bit LENGTH_MASK i \<longleftrightarrow> i < 29"
  proof -
    have "LENGTH_MASK = mask 29" by (simp add: LENGTH_MASK_def COMPRESSED_MASK_def SYNC_MASK_def mask_eq_exp_minus_1)
    then have "bit LENGTH_MASK i \<longleftrightarrow> bit (mask 29 :: uint) i" by (rule arg_cong)
    also have "\<dots> \<longleftrightarrow> i < 29" using i by (auto simp: bit_mask_iff)
    finally show ?thesis .
  qed
  then show "bit ((v OR push_bit 29 w) AND LENGTH_MASK) i = bit v i"
    using assms [of i] by (auto simp: bit_and_iff bit_or_iff bit_push_bit_iff)
qed

lemma high_bits_or:
  fixes v w :: uint
  assumes "\<And>i. 29 \<le> i \<Longrightarrow> \<not> bit v i"
  shows "drop_bit 29 (v OR push_bit 29 w) = take_bit 3 w"
proof (rule bit_word_eqI)
  fix i assume "i < LENGTH(32)"
  then show "bit (drop_bit 29 (v OR push_bit 29 w)) i = bit (take_bit 3 w) i"
    using assms [of "29 + i"] bit_imp_le_length [of w i]
    by (auto simp: bit_drop_bit_eq bit_or_iff bit_push_bit_iff bit_take_bit_iff dest: bit_imp_le_length)
qed

lemma metadata_alt:
  "EventsWriter_metadata n c y = of_nat n OR push_bit 29 (push_bit 2 (if c then 1 else 0) OR sync_code y)"
  by (simp add: EventsWriter_metadata_def push_bit_or or.assoc)

lemma metadata_length: "n < 2 ^ 29 \<Longrightarrow> unat (EventsWriter_metadata n c y AND LENGTH_MASK) = n"
  unfolding metadata_alt by (subst low_bits_or) (simp_all add: of_nat_high_bits unat_of_nat_small)

lemma metadata_high: "n < 2 ^ 29 \<Longrightarrow> drop_bit 29 (EventsWriter_metadata n c y) = push_bit 2 (if c then 1 else 0) OR sync_code y"
  unfolding metadata_alt by (subst high_bits_or) (auto simp: of_nat_high_bits, (cases y; simp)+)

lemma metadata_compressed: "n < 2 ^ 29 \<Longrightarrow> EventsWriter_metadata n c y AND COMPRESSED_MASK \<noteq> 0 \<longleftrightarrow> c"
proof -
  assume n: "n < 2 ^ 29"
  have "EventsWriter_metadata n c y AND COMPRESSED_MASK \<noteq> 0 \<longleftrightarrow> bit (EventsWriter_metadata n c y) 31"
    unfolding COMPRESSED_MASK_def by (rule bit_iff_and_push_bit_not_eq_0 [symmetric])
  also have "\<dots> \<longleftrightarrow> bit (drop_bit 29 (EventsWriter_metadata n c y)) 2" by (simp add: bit_drop_bit_eq)
  also have "\<dots> \<longleftrightarrow> c" unfolding metadata_high [OF n] by (cases y; cases c) simp_all
  finally show ?thesis .
qed

lemma metadata_sync: "n < 2 ^ 29 \<Longrightarrow> SyncLevel_parse (drop_bit 29 (EventsWriter_metadata n c y AND SYNC_MASK)) = Some y"
proof -
  assume n: "n < 2 ^ 29"
  have "drop_bit 29 (EventsWriter_metadata n c y AND SYNC_MASK) = (push_bit 2 (if c then 1 else 0) OR sync_code y) AND 3"
    by (simp add: drop_bit_and metadata_high [OF n] SYNC_MASK_def)
  also have "\<dots> = sync_code y" by (cases y; cases c) simp_all
  finally show ?thesis by (cases y) (simp_all add: SyncLevel_parse_def)
qed

section \<open>Reading back what was written\<close>

lemma entry_record:
  assumes "length data \<le> MEMORY_LOAD"
  shows "TraceParser_entry (trace_record owner c y data @ rest) =
    Some (\<lparr>qe_thread = of_nat owner, qe_buffer = data, qe_compressed = c, qe_sync = Some y\<rparr>, rest)"
proof -
  have "length data < 2 ^ 29" using assms by (simp add: MEMORY_LOAD_def)
  then show ?thesis using assms
    by (simp add: TraceParser_entry_def trace_record_def stream_simps Let_def metadata_length metadata_compressed
        metadata_sync del: drop_bit_and)
qed

lemma dispatch_Nil: "TraceParser_dispatch [] = []"
  by (simp add: TraceParser_dispatch.simps [of "[]"] TraceParser_entry_def read_jlong_def read_bytes_def)

lemma dispatch_records:
  assumes "\<forall>(owner, c, y, data) \<in> set rs. length data \<le> MEMORY_LOAD"
  shows "TraceParser_dispatch (concat (map (\<lambda>(owner, c, y, data). trace_record owner c y data) rs)) =
    map (\<lambda>(owner, c, y, data). \<lparr>qe_thread = of_nat owner, qe_buffer = data, qe_compressed = c, qe_sync = Some y\<rparr>) rs"
  using assms by (induction rs) (auto simp: dispatch_Nil TraceParser_dispatch.simps [of "trace_record _ _ _ _ @ _"] entry_record)

lemma header_read:
  assumes "length h < 2 ^ 31"
  shows "readTraceFileInfo (trace_header h i @ rest) = Some ((h, of_nat i), rest)"
proof -
  have "unat (of_nat (length h) :: uint) = length h" using assms by (intro unat_of_nat_small) simp
  then show ?thesis
    by (simp add: readTraceFileInfo_def readFileInfo_def trace_header_def stream_simps MAGIC_def FILE_TYPE_TRACE_def)
qed

section \<open>Writing\<close>

lemma write_write:
  "Option.bind (AllocationTracingIO_write io a) (\<lambda>io. AllocationTracingIO_write io b) = AllocationTracingIO_write io (a @ b)"
  by (auto simp: AllocationTracingIO_write_def add.assoc split: Option.bind_splits)

lemma write_write_bind:
  "Option.bind (AllocationTracingIO_write io a) (\<lambda>io. Option.bind (AllocationTracingIO_write io b) f)
    = Option.bind (AllocationTracingIO_write io (a @ b)) f"
  by (auto simp: AllocationTracingIO_write_def add.assoc split: Option.bind_splits)

lemma header_write:
  assumes "open_content io = Some []"
  shows "\<exists>io'. AllocationTracingIO_write_global_header h EventsWriter_get_file_type EventsWriter_write_header io = Some io'
    \<and> open_content io' = Some (trace_header h (io_cur_file_index io)) \<and> io_file io' = io_file io
    \<and> io_cur_file_index io' = io_cur_file_index io \<and> io_max_files io' = io_max_files io
    \<and> io_path_to_file io' = io_path_to_file io \<and> (\<forall>n. io_file io \<noteq> Some n \<longrightarrow> io_disk io' n = io_disk io n)"
proof -
  let ?front = "jint_bytes MAGIC @ jint_bytes (of_nat (length h)) @ concat (map jint_bytes h) @ jint_bytes FILE_TYPE_TRACE"
  from write_content [OF assms, of ?front] obtain io1 where 1: "AllocationTracingIO_write io ?front = Some io1"
    "open_content io1 = Some ?front" "io_cur_file_index io1 = io_cur_file_index io" "io_file io1 = io_file io"
    "io_max_files io1 = io_max_files io" "io_path_to_file io1 = io_path_to_file io"
    "\<forall>n. io_file io \<noteq> Some n \<longrightarrow> io_disk io1 n = io_disk io n" by auto
  have "AllocationTracingIO_write_global_header h EventsWriter_get_file_type EventsWriter_write_header io
      = EventsWriter_write_header io1"
    using 1(1) unfolding AllocationTracingIO_write_global_header_def write_write_bind EventsWriter_get_file_type_def
    by (simp only: append.assoc bind.bind_lunit)
  with write_content [OF 1(2), of "jint_bytes (of_nat (io_cur_file_index io1))"] 1 show ?thesis
    by (fastforce simp: EventsWriter_write_header_def trace_header_def)
qed

lemma create_file_content:
  "\<exists>io'. AllocationTracingIO_create_file h EventsWriter_get_file_type EventsWriter_write_header t io = Some io'
    \<and> open_content io' = Some (trace_header h (io_cur_file_index io)) \<and> io_cur_file_index io' = io_cur_file_index io
    \<and> io_max_files io' = io_max_files io \<and> io_path_to_file io' = io_path_to_file io
    \<and> io_file io' = Some (AllocationTracingIO_get_file_name io (io_cur_file_index io mod io_max_files io) @ ''_'' @ decimal t)
    \<and> (\<forall>n. io_file io' \<noteq> Some n \<longrightarrow> io_disk io' n = io_disk io n)"
proof -
  let ?n = "AllocationTracingIO_get_file_name io (io_cur_file_index io mod io_max_files io) @ ''_'' @ decimal t"
  let ?io = "io\<lparr>io_file := Some ?n, io_disk := (io_disk io)(?n \<mapsto> []), io_total_bytes_written := 0\<rparr>"
  have "open_content ?io = Some []" by (simp add: open_content_def)
  from header_write [OF this, of h] show ?thesis
    unfolding AllocationTracingIO_create_file_def Let_def by fastforce
qed

definition buffer_record :: "memory \<Rightarrow> EventBuffer \<Rightarrow> nat \<times> bool \<times> EventBufferSyncLevel \<times> byte list" where
  "buffer_record m b = (eb_owner b, eb_is_compressed b, eb_sync b, the (EventBuffer_content m b))"

lemma write_buffer_content:
  assumes "open_content io = Some bs" and "buffer_ok m b"
  shows "\<exists>io'. EventsWriter_write_buffer eager m b io = Some (EventBuffer_reset b, io')
    \<and> open_content io' = Some (bs @ (case buffer_record m b of (owner, c, y, data) \<Rightarrow> trace_record owner c y data))"
proof -
  from content_ok [OF assms(2)] obtain data where data: "EventBuffer_content m b = Some data" "length data = eb_top b" by blast
  let ?r = "trace_record (eb_owner b) (eb_is_compressed b) (eb_sync b) data"
  from write_content [OF assms(1), of ?r] obtain io1 where 1: "AllocationTracingIO_write io ?r = Some io1"
    "open_content io1 = Some (bs @ ?r)" by blast
  have fl: "(if eager then AllocationTracingIO_flush io1 else Some io1) = Some io1"
    using 1(2) by (auto simp: AllocationTracingIO_flush_def open_content_def)
  have "EventsWriter_write_buffer eager m b io =
      Option.bind (AllocationTracingIO_write io ?r) (\<lambda>io. Option.bind (if eager then AllocationTracingIO_flush io else Some io)
        (\<lambda>io. Some (EventBuffer_reset b, io)))"
    using data by (simp add: EventsWriter_write_buffer_def Let_def write_write_bind trace_record_def EventBuffer_content_def
        EventBuffer_get_data_def EventBuffer_get_raw_length_def EventBuffer_is_compressed_def EventBuffer_get_owner_def)
  then show ?thesis using 1 fl data(1) by (simp add: buffer_record_def)
qed

section \<open>Whole files\<close>

text \<open>The worker writes one buffer after the other.\<close>

primrec EventsWriter_write_buffers :: "bool \<Rightarrow> memory \<Rightarrow> EventBuffer list \<Rightarrow> AllocationTracingIO \<Rightarrow> AllocationTracingIO option" where
  "EventsWriter_write_buffers eager m [] io = Some io"
| "EventsWriter_write_buffers eager m (b # bs) io =
    Option.bind (EventsWriter_write_buffer eager m b io) (\<lambda>(_, io). EventsWriter_write_buffers eager m bs io)"

lemma write_buffers_content:
  assumes "open_content io = Some xs" and "\<forall>b \<in> set bs. buffer_ok m b"
  shows "\<exists>io'. EventsWriter_write_buffers eager m bs io = Some io'
    \<and> open_content io' = Some (xs @ concat (map (\<lambda>(owner, c, y, data). trace_record owner c y data) (map (buffer_record m) bs)))"
  using assms
proof (induction bs arbitrary: io xs)
  case Nil
  then show ?case by simp
next
  case (Cons b bs)
  from Cons.prems(2) have ok: "buffer_ok m b" "\<forall>b \<in> set bs. buffer_ok m b" by auto
  from write_buffer_content [OF Cons.prems(1) ok(1), of eager] obtain io1 where
    "EventsWriter_write_buffer eager m b io = Some (EventBuffer_reset b, io1)"
    "open_content io1 = Some (xs @ (case buffer_record m b of (owner, c, y, data) \<Rightarrow> trace_record owner c y data))" by blast
  with Cons.IH [OF this(2) ok(2)] show ?case by simp
qed

definition buffer_entry :: "memory \<Rightarrow> EventBuffer \<Rightarrow> QueueEntry" where
  "buffer_entry m b = \<lparr>qe_thread = of_nat (eb_owner b), qe_buffer = the (EventBuffer_content m b),
     qe_compressed = eb_is_compressed b, qe_sync = Some (eb_sync b)\<rparr>"

lemma parse_written:
  assumes "length h < 2 ^ 31" and "\<forall>b \<in> set bs. buffer_ok m b \<and> eb_top b \<le> MEMORY_LOAD"
  shows "\<exists>io io' content. EventsWriter_create h path n disk t = Some io
    \<and> EventsWriter_write_buffers eager m bs io = Some io' \<and> open_content io' = Some content
    \<and> TraceParser_parse h content = Some (map (buffer_entry m) bs)"
proof -
  from create_file_content [of h t "AllocationTracingIO_create path n disk"] obtain io where
    io: "EventsWriter_create h path n disk t = Some io" "open_content io = Some (trace_header h 0)"
    by (auto simp: EventsWriter_create_def AllocationTracingIO_create_def)
  from write_buffers_content [OF io(2), of bs m eager] assms(2) obtain io' where
    io': "EventsWriter_write_buffers eager m bs io = Some io'" "open_content io' =
      Some (trace_header h 0 @ concat (map (\<lambda>(owner, c, y, data). trace_record owner c y data) (map (buffer_record m) bs)))"
    by blast
  have "\<forall>(owner, c, y, data) \<in> set (map (buffer_record m) bs). length data \<le> MEMORY_LOAD"
  proof -
    have "length (the (EventBuffer_content m b)) \<le> MEMORY_LOAD" if "b \<in> set bs" for b
      using that assms(2) content_ok [of m b] by auto
    then show ?thesis by (auto simp: buffer_record_def)
  qed
  from dispatch_records [OF this]
  have "TraceParser_dispatch (concat (map (\<lambda>(owner, c, y, data). trace_record owner c y data) (map (buffer_record m) bs)))
      = map (buffer_entry m) bs" by (simp add: buffer_record_def buffer_entry_def)
  then have "TraceParser_parse h (trace_header h 0 @ concat (map (\<lambda>(owner, c, y, data). trace_record owner c y data)
      (map (buffer_record m) bs))) = Some (map (buffer_entry m) bs)"
    by (simp only: TraceParser_parse_def header_read [OF assms(1)]) simp
  with io(1) io' show ?thesis by blast
qed

section \<open>Rotation\<close>

lemma decimal_digits: "c \<in> set (decimal n) \<Longrightarrow> c \<noteq> CHR ''_''"
proof (induction n rule: decimal.induct)
  case (1 n)
  have digit: "char_of (48 + k) \<noteq> CHR ''_''" if "k < 10" for k :: nat
  proof
    assume "char_of (48 + k) = CHR ''_''"
    then have "of_char (char_of (48 + k)) = (of_char (CHR ''_'') :: nat)" by (rule arg_cong)
    with that show False by simp
  qed
  show ?case
  proof (cases "n < 10")
    case True
    with 1(2) digit [of n] show ?thesis by (auto simp: decimal.simps [of n])
  next
    case False
    with 1(2) have "c \<in> set (decimal (n div 10)) \<or> c = char_of (48 + n mod 10)" by (auto simp: decimal.simps [of n])
    with 1(1) [OF False] digit [of "n mod 10"] show ?thesis by auto
  qed
qed

lemma decimal_inj: "decimal m = decimal n \<Longrightarrow> m = n"
proof (induction m arbitrary: n rule: decimal.induct)
  case (1 m)
  have inj: "j = k" if "char_of (48 + j) = char_of (48 + k)" "j < 10" "k < 10" for j k :: nat
  proof -
    from that(1) have "of_char (char_of (48 + j)) = (of_char (char_of (48 + k)) :: nat)" by (rule arg_cong)
    with that(2,3) show ?thesis by simp
  qed
  have ne: "decimal k \<noteq> []" "[] \<noteq> decimal k" for k by (subst decimal.simps, simp)+
  show ?case
  proof (cases "m < 10"; cases "n < 10")
    assume "\<not> m < 10" "\<not> n < 10"
    moreover from this "1.prems" have "decimal (m div 10) @ [char_of (48 + m mod 10)] = decimal (n div 10) @ [char_of (48 + n mod 10)]"
      by (simp add: decimal.simps [of m] decimal.simps [of n])
    ultimately have "m div 10 = n div 10" "m mod 10 = n mod 10" using "1.IH" [of "n div 10"] inj [of "m mod 10" "n mod 10"] by auto
    then show "m = n" by (metis div_mult_mod_eq)
  qed (use "1.prems" ne inj in \<open>auto simp: decimal.simps [of m] decimal.simps [of n]\<close>)
qed

lemma suffix_unique:
  assumes "xs @ CHR ''_'' # decimal s = ys @ CHR ''_'' # decimal t"
  shows "s = t"
proof -
  have "takeWhile (\<lambda>c. c \<noteq> CHR ''_'') (rev (zs @ CHR ''_'' # decimal u)) = rev (decimal u)" for zs u
    by (simp add: takeWhile_append decimal_digits)
  from this [of xs s] this [of ys t] assms show ?thesis by (auto dest: decimal_inj)
qed

primrec EventsWriter_rotate :: "uint list \<Rightarrow> nat list \<Rightarrow> AllocationTracingIO \<Rightarrow> AllocationTracingIO option" where
  "EventsWriter_rotate h [] io = Some io"
| "EventsWriter_rotate h (t # ts) io = Option.bind (EventsWriter_reset h t io) (EventsWriter_rotate h ts)"

lemma rotate_keeps:
  assumes "io_file io = Some name0" "io_disk io name = Some content" "\<exists>p s. name = p @ ''_'' @ decimal s \<and> s \<notin> set ts"
  shows "\<exists>io'. EventsWriter_rotate h ts io = Some io' \<and> io_disk io' name = Some content"
  using assms
proof (induction ts arbitrary: io name0)
  case Nil
  then show ?case by simp
next
  case (Cons t ts)
  from Cons.prems(3) obtain p s where s: "name = p @ ''_'' @ decimal s" "s \<notin> set (t # ts)" by blast
  let ?io = "io\<lparr>io_file := None, io_cur_file_index := io_cur_file_index io + 1\<rparr>"
  from create_file_content [of h t ?io] obtain io1 where 1:
    "AllocationTracingIO_create_file h EventsWriter_get_file_type EventsWriter_write_header t ?io = Some io1"
    "io_file io1 = Some (AllocationTracingIO_get_file_name ?io (io_cur_file_index ?io mod io_max_files ?io) @ ''_'' @ decimal t)"
    "\<forall>n. io_file io1 \<noteq> Some n \<longrightarrow> io_disk io1 n = io_disk ?io n" by blast
  have "io_file io1 \<noteq> Some name" using s 1(2) by (auto dest: suffix_unique)
  with 1(3) Cons.prems(2) have "io_disk io1 name = Some content" by simp
  moreover have "EventsWriter_reset h t io = Some io1"
    using 1(1) Cons.prems(1) by (simp add: EventsWriter_reset_def AllocationTracingIO_reset_def AllocationTracingIO_close_def)
  ultimately show ?case using Cons.IH [OF 1(2)] s by auto
qed

section \<open>Correctness of the trace files\<close>

text \<open>
  C23. A trace file is read back as it was written: from a new file to which any number of buffers
  was written, the analyzer reads the header and one entry for every buffer, in order, with its
  thread, its synchronization level, its compression flag and its bytes.
\<close>

theorem trace_file_roundtrip:
  assumes "length h < 2 ^ 31" and "\<forall>b \<in> set bs. buffer_ok m b \<and> eb_top b \<le> MEMORY_LOAD"
  shows "\<exists>io io' content. EventsWriter_create h path n disk t = Some io
    \<and> EventsWriter_write_buffers eager m bs io = Some io' \<and> open_content io' = Some content
    \<and> TraceParser_parse h content = Some (map (buffer_entry m) bs)"
  by (rule parse_written [OF assms])

theorem trace_file_roundtrip_witness:
  "\<exists>io io' content. EventsWriter_create [1, 2] ''trace'' 1 (\<lambda>_. None) 7 = Some io
    \<and> EventsWriter_write_buffers False (memory_init\<lparr>mem_block := [1 \<mapsto> replicate 800 5]\<rparr>)
        [\<lparr>eb_bottom = 1, eb_top = 8, eb_end = 800, eb_id = 1, eb_owner = 99, eb_sync = Sync_Full, eb_is_compressed = False\<rparr>] io
      = Some io' \<and> open_content io' = Some content
    \<and> TraceParser_parse [1, 2] content = Some [\<lparr>qe_thread = 99, qe_buffer = replicate 8 5, qe_compressed = False,
        qe_sync = Some Sync_Full\<rparr>]"
  using trace_file_roundtrip [where h = "[1, 2]" and m = "memory_init\<lparr>mem_block := [1 \<mapsto> replicate 800 5]\<rparr>"
    and path = "''trace''" and n = 1 and disk = "\<lambda>_. None" and t = 7 and eager = False
    and bs = "[\<lparr>eb_bottom = 1, eb_top = 8, eb_end = 800, eb_id = 1, eb_owner = 99, eb_sync = Sync_Full, eb_is_compressed = False\<rparr>]"]
  by (simp add: buffer_ok_def EventBuffer_assert_is_valid_def EventBuffer_get_raw_length_def MAX_EVENT_SIZE_def MEMORY_LOAD_def
      buffer_entry_def EventBuffer_content_def load_bytes_def del: EventsWriter_write_buffers.simps)



end
