(* ===== verification/QuyteTree.thy ===== *)
theory QuyteTree
  imports LZWStrategies
begin

unbundle bit_operations_syntax

text \<open>
  \<open>prims/QuyteTreeCompression.cpp\<close>, the compression used by default: the dictionary is a tree in a
  preallocated array of nodes, which branches on two bits (a quyte) at a time.  The array is a list of
  exactly the allocated nodes, and an access outside of it is \<open>None\<close>; \<open>UInt16\<close> node numbers wrap.
\<close>

section \<open>The compressor\<close>

record QuyteNode =
  qn_nodeID :: u16
  qn_children :: "u16 list"

definition QuyteNode_zero :: QuyteNode where
  "QuyteNode_zero = \<lparr>qn_nodeID = 0, qn_children = [0, 0, 0, 0]\<rparr>"

text \<open>The number of nodes that \<open>requiredStorageForBufferSize\<close> multiplies by the size of a node.\<close>

definition requiredStorageForBufferSize :: "nat \<Rightarrow> nat" where
  "requiredStorageForBufferSize bufferSize =
    (let maximumNodes = 256;
         (maximumNodes, bufferSize) =
           (if bufferSize \<le> 1024 then (maximumNodes + bufferSize * 4, 0)
            else (maximumNodes + 1024 * 4, bufferSize - 1024));
         (maximumNodes, bufferSize) =
           (if bufferSize > 0 then
              (if bufferSize \<le> 1024 * 3 then (maximumNodes + bufferSize * 3, 0)
               else (maximumNodes + 1024 * 3 * 4, bufferSize - 1024 * 3))
            else (maximumNodes, bufferSize))
     in maximumNodes + bufferSize * 2)"

record QuyteTreeCompression =
  qc_tempStorage :: "QuyteNode list"
  qc_tempStorageLength :: nat

definition QuyteTreeCompression_init :: QuyteTreeCompression where
  "QuyteTreeCompression_init = \<lparr>qc_tempStorage = [], qc_tempStorageLength = 0\<rparr>"

definition QuyteTreeCompression_reset :: "QuyteTreeCompression \<Rightarrow> QuyteTreeCompression" where
  "QuyteTreeCompression_reset q = q"

text \<open>The local variables of \<open>encode\<close>; \<open>currentNode\<close> is an index into \<open>nodeArray\<close>.\<close>

record QuyteTree_state =
  qs_nodeArray :: "QuyteNode list"
  qs_nodeCount :: nat
  qs_nextID :: nat
  qs_currentNode :: nat
  qs_lastMatchID :: u16

text \<open>One of the four steps for the next byte: find or create the child for two bits.\<close>

definition QuyteTree_descend :: "QuyteTree_state \<Rightarrow> nat \<Rightarrow> (QuyteTree_state \<times> bool) option" where
  "QuyteTree_descend s quyte =
    (if qs_currentNode s < length (qs_nodeArray s) then
       (let node = qs_nodeArray s ! qs_currentNode s; nextNodeID = qn_children node ! quyte
        in if nextNodeID = 0 then
             (let nextNodeID = of_nat (qs_nodeCount s) :: u16
              in Some (s\<lparr>qs_nodeCount := qs_nodeCount s + 1,
                   qs_nodeArray := (qs_nodeArray s)[qs_currentNode s :=
                     node\<lparr>qn_children := (qn_children node)[quyte := nextNodeID]\<rparr>],
                   qs_currentNode := unat nextNodeID\<rparr>, True))
           else Some (s\<lparr>qs_currentNode := unat nextNodeID\<rparr>, False))
     else None)"

text \<open>The four quytes of a byte, from the most to the least significant.\<close>

definition quytes :: "byte \<Rightarrow> nat list" where
  "quytes b = [unat (drop_bit 6 b), unat (drop_bit 4 b AND 3), unat (drop_bit 2 b AND 3), unat (b AND 3)]"

primrec QuyteTree_descend_all :: "QuyteTree_state \<Rightarrow> bool \<Rightarrow> nat list \<Rightarrow> (QuyteTree_state \<times> bool) option" where
  "QuyteTree_descend_all s created [] = Some (s, created)"
| "QuyteTree_descend_all s created (q # qs) =
    Option.bind (QuyteTree_descend s q) (\<lambda>(s', created'). QuyteTree_descend_all s' created' qs)"

text \<open>The body of the loop for one byte: the index to emit, if a leaf was created.\<close>

definition QuyteTree_step :: "QuyteTree_state \<Rightarrow> byte \<Rightarrow> (QuyteTree_state \<times> u16 option) option" where
  "QuyteTree_step s b =
    Option.bind (QuyteTree_descend_all s False (quytes b)) (\<lambda>(s, created).
      if qs_currentNode s < length (qs_nodeArray s) then
        (let node = qs_nodeArray s ! qs_currentNode s
         in if created then
              Some (s\<lparr>qs_nodeArray := (qs_nodeArray s)[qs_currentNode s := node\<lparr>qn_nodeID := of_nat (qs_nextID s)\<rparr>],
                      qs_nextID := qs_nextID s + 1, qs_lastMatchID := ucast b, qs_currentNode := unat b\<rparr>,
                    Some (qs_lastMatchID s))
            else Some (s\<lparr>qs_lastMatchID := qn_nodeID node\<rparr>, None))
      else None)"

fun QuyteTree_loop :: "nat \<Rightarrow> byte list \<Rightarrow> byte list \<Rightarrow> VarIntWriter \<Rightarrow> QuyteTree_state
    \<Rightarrow> (byte list \<times> byte list \<times> VarIntWriter \<times> QuyteTree_state) option" where
  "QuyteTree_loop outputLength [] out writer s = Some ([], out, writer, s)"
| "QuyteTree_loop outputLength (b # bs) out writer s =
    (if length out + INDEX_MAX_WIDTH * 2 < outputLength then
       Option.bind (QuyteTree_step s b) (\<lambda>(s', emit).
         case emit of
           None \<Rightarrow> QuyteTree_loop outputLength bs out writer s'
         | Some index \<Rightarrow>
             (let (bytes, writer') = VarIntWriter_write writer (ucast index)
              in QuyteTree_loop outputLength bs (out @ bytes) writer' s'))
     else Some (b # bs, out, writer, s))"

definition QuyteTree_start :: "QuyteNode list \<Rightarrow> byte \<Rightarrow> QuyteTree_state" where
  "QuyteTree_start nodeArray b =
    \<lparr>qs_nodeArray = nodeArray, qs_nodeCount = 256, qs_nextID = 256, qs_currentNode = unat b, qs_lastMatchID = ucast b\<rparr>"

text \<open>What follows the loop: the last match, the end marker, and the result.\<close>

definition QuyteTree_finish ::
  "nat \<Rightarrow> nat \<Rightarrow> byte list \<Rightarrow> VarIntWriter \<Rightarrow> u16 \<Rightarrow> Compression_Result \<times> byte list" where
  "QuyteTree_finish outputLength consumed out writer lastMatchID =
    (let (consumed, out, writer) =
           (if lastMatchID \<noteq> 0xFFFF then
              (if length out + INDEX_MAX_WIDTH * 2 < outputLength
               then (let (bytes, writer') = VarIntWriter_write writer (ucast lastMatchID) in (consumed, out @ bytes, writer'))
               else (0, out, writer))
            else (consumed, out, writer));
         (consumed, out) =
           (if length out + INDEX_MAX_WIDTH * 2 < outputLength
            then (consumed, out @ fst (VarIntWriter_flush writer)) else (0, out))
     in (\<lparr>src_compressed_length = consumed, dest_length = length out\<rparr>, out))"

text \<open>The storage is allocated or grown and cleared when the input is longer than any before.\<close>

definition QuyteTree_storage :: "QuyteTreeCompression \<Rightarrow> nat \<Rightarrow> QuyteTreeCompression" where
  "QuyteTree_storage q inputLength =
    (if qc_tempStorageLength q < inputLength
     then q\<lparr>qc_tempStorage := replicate (requiredStorageForBufferSize inputLength) QuyteNode_zero,
            qc_tempStorageLength := inputLength\<rparr>
     else q)"

definition QuyteTree_clear :: "QuyteNode list \<Rightarrow> nat \<Rightarrow> QuyteNode list option" where
  "QuyteTree_clear nodes nodeCount =
    (if nodeCount \<le> length nodes then Some (replicate nodeCount QuyteNode_zero @ drop nodeCount nodes) else None)"

fun QuyteTreeCompression_encode :: "QuyteTreeCompression \<Rightarrow> byte list \<Rightarrow> nat
    \<Rightarrow> (Compression_Result \<times> byte list \<times> QuyteTreeCompression) option" where
  "QuyteTreeCompression_encode q [] outputLength = None"
| "QuyteTreeCompression_encode q (b # bs) outputLength =
    (let q = QuyteTree_storage q (length (b # bs))
     in Option.bind (QuyteTree_loop outputLength bs [] VarIntWriter_init (QuyteTree_start (qc_tempStorage q) b))
          (\<lambda>(rest, out, writer, s).
             let (result, out) = QuyteTree_finish outputLength (length (b # bs) - length rest) out writer (qs_lastMatchID s)
             in Option.bind (QuyteTree_clear (qs_nodeArray s) (qs_nodeCount s)) (\<lambda>nodes.
                  Some (result, out, q\<lparr>qc_tempStorage := nodes\<rparr>))))"

section \<open>The tree\<close>

definition child_of :: "QuyteNode list \<Rightarrow> nat \<Rightarrow> nat \<Rightarrow> nat" where
  "child_of N i q = unat (qn_children (N ! i) ! q)"

text \<open>
  A tree of \<open>n\<close> nodes: children are nodes behind the 256 roots, no node is the child of two, and the
  nodes behind \<open>n\<close> are unused.
\<close>

definition tree_ok :: "QuyteNode list \<Rightarrow> nat \<Rightarrow> bool" where
  "tree_ok N n \<longleftrightarrow> 256 \<le> n \<and> n \<le> length N \<and> n \<le> 2 ^ 16
    \<and> (\<forall>i < length N. length (qn_children (N ! i)) = 4)
    \<and> (\<forall>i < n. \<forall>q < 4. child_of N i q \<noteq> 0 \<longrightarrow> 256 \<le> child_of N i q \<and> child_of N i q < n)
    \<and> (\<forall>i < n. \<forall>q < 4. \<forall>j < n. \<forall>r < 4. child_of N i q \<noteq> 0 \<longrightarrow> child_of N i q = child_of N j r \<longrightarrow> i = j \<and> q = r)
    \<and> (\<forall>i < length N. n \<le> i \<longrightarrow> N ! i = QuyteNode_zero)"

lemma child_zero: "q < 4 \<Longrightarrow> i < length N \<Longrightarrow> N ! i = QuyteNode_zero \<Longrightarrow> child_of N i q = 0"
  by (auto simp: child_of_def QuyteNode_zero_def less_Suc_eq eval_nat_numeral)

lemma unused_child: "tree_ok N n \<Longrightarrow> n \<le> i \<Longrightarrow> i < length N \<Longrightarrow> q < 4 \<Longrightarrow> child_of N i q = 0"
  by (rule child_zero) (auto simp: tree_ok_def)

definition add_child :: "QuyteNode list \<Rightarrow> nat \<Rightarrow> nat \<Rightarrow> nat \<Rightarrow> QuyteNode list" where
  "add_child N i q n = N[i := (N ! i)\<lparr>qn_children := (qn_children (N ! i))[q := of_nat n]\<rparr>]"

lemma length_add_child [simp]: "length (add_child N i q n) = length N"
  by (simp add: add_child_def)

lemma child_of_add:
  assumes "i < length N" and "length (qn_children (N ! i)) = 4" and "q < 4" and "n < 2 ^ 16"
  shows "child_of (add_child N i q n) j r = (if j = i \<and> r = q then n else child_of N j r)"
proof -
  have "unat (of_nat n :: u16) = n" using assms(4) by (intro unat_of_nat_small) simp
  with assms show ?thesis by (auto simp: child_of_def add_child_def nth_list_update)
qed

lemma tree_ok_add:
  assumes "tree_ok N n" and "i < n" and "q < 4" and "child_of N i q = 0" and "n < length N" and "n < 2 ^ 16"
  shows "tree_ok (add_child N i q n) (Suc n)"
    and "child_of (add_child N i q n) j r = (if j = i \<and> r = q then n else child_of N j r)"
    and "qn_nodeID (add_child N i q n ! j) = qn_nodeID (N ! j)"
proof -
  note ok = assms(1) [unfolded tree_ok_def]
  have i: "i < length N" "length (qn_children (N ! i)) = 4" using ok assms(2) by auto
  show c: "child_of (add_child N i q n) j r = (if j = i \<and> r = q then n else child_of N j r)" for j r
    by (rule child_of_add [OF i assms(3,6)])
  show "qn_nodeID (add_child N i q n ! j) = qn_nodeID (N ! j)"
    using i by (cases "i = j") (simp_all add: add_child_def)
  have len: "length (qn_children (add_child N i q n ! j)) = 4" if "j < length N" for j
    using ok that i by (cases "i = j") (simp_all add: add_child_def)
  have zero: "add_child N i q n ! j = QuyteNode_zero" if "j < length N" "Suc n \<le> j" for j
    using ok that assms(2) by (simp add: add_child_def)
  have un: "child_of N n r = 0" if "r < 4" for r using unused_child [OF assms(1) _ assms(5) that] by simp
  have less: "child_of N j r \<noteq> n" if "j < n" "r < 4" for j r
  proof
    assume e: "child_of N j r = n"
    then have "child_of N j r \<noteq> 0" using assms(2) by simp
    with ok that have "child_of N j r < n" by blast
    with e show False by simp
  qed
  show "tree_ok (add_child N i q n) (Suc n)"
    unfolding tree_ok_def
  proof (intro conjI allI impI)
    fix j r assume j: "j < Suc n" "r < 4" "child_of (add_child N i q n) j r \<noteq> 0"
    show "256 \<le> child_of (add_child N i q n) j r" "child_of (add_child N i q n) j r < Suc n"
      using j ok un by (auto simp: c less_Suc_eq split: if_splits)
    fix k t assume k: "k < Suc n" "t < 4" "child_of (add_child N i q n) j r = child_of (add_child N i q n) k t"
    have old: "child_of N j r \<noteq> n" if "j < Suc n" "r < 4" for j r
      using that less un assms(2) by (cases "j = n") auto
    have "j = k \<and> r = t"
    proof (cases "j = i \<and> r = q")
      case True
      with k(3) have "child_of (add_child N i q n) k t = n" by (simp add: c)
      with old [OF k(1,2)] True show ?thesis by (auto simp: c split: if_splits)
    next
      case False
      then have cj: "child_of N j r \<noteq> 0" "child_of N j r = child_of (add_child N i q n) k t"
        using j(3) k(3) c [of j r] by (simp_all only: False if_False)
      then have "\<not> (k = i \<and> t = q)" using old [OF j(1,2)] by (auto simp: c)
      with cj c [of k t] have ck: "child_of N j r = child_of N k t" by (simp only: if_False)
      have "j < n" "k < n" using j(1,2) k(1,2) cj(1) ck un by (auto simp: less_Suc_eq)
      with ok j(2) k(2) cj(1) ck show ?thesis by blast
    qed
    then show "j = k" "r = t" by auto
  qed (use ok assms len zero in auto)
qed

text \<open>Following quytes down the tree, and how far one gets.\<close>

primrec walk :: "QuyteNode list \<Rightarrow> nat \<Rightarrow> nat list \<Rightarrow> nat option" where
  "walk N i [] = Some i"
| "walk N i (q # qs) = (if child_of N i q = 0 then None else walk N (child_of N i q) qs)"

primrec depth :: "QuyteNode list \<Rightarrow> nat \<Rightarrow> nat list \<Rightarrow> nat" where
  "depth N i [] = 0"
| "depth N i (q # qs) = (if child_of N i q = 0 then 0 else Suc (depth N (child_of N i q) qs))"

abbreviation quyte_list :: "nat list \<Rightarrow> bool" where
  "quyte_list qs \<equiv> \<forall>q \<in> set qs. q < 4"

lemma walk_append: "walk N i (p @ r) = Option.bind (walk N i p) (\<lambda>j. walk N j r)"
  by (induction p arbitrary: i) auto

lemma tree_ok_child:
  "tree_ok N n \<Longrightarrow> i < n \<Longrightarrow> q < 4 \<Longrightarrow> child_of N i q \<noteq> 0 \<Longrightarrow> 256 \<le> child_of N i q \<and> child_of N i q < n"
  by (simp add: tree_ok_def)

lemma tree_ok_inj:
  "tree_ok N n \<Longrightarrow> i < n \<Longrightarrow> q < 4 \<Longrightarrow> j < n \<Longrightarrow> r < 4 \<Longrightarrow> child_of N i q \<noteq> 0 \<Longrightarrow> child_of N i q = child_of N j r
    \<Longrightarrow> i = j \<and> q = r"
  unfolding tree_ok_def by blast

lemma tree_ok_bounds: "tree_ok N n \<Longrightarrow> 256 \<le> n \<and> n \<le> length N \<and> n \<le> 2 ^ 16"
  by (simp add: tree_ok_def)

lemma root_less: "tree_ok N n \<Longrightarrow> a < 256 \<Longrightarrow> a < n"
  using tree_ok_bounds by fastforce

lemma walk_less: "tree_ok N n \<Longrightarrow> i < n \<Longrightarrow> quyte_list p \<Longrightarrow> walk N i p = Some j \<Longrightarrow> j < n"
proof (induction p arbitrary: i)
  case (Cons q p)
  then have "child_of N i q \<noteq> 0" "walk N (child_of N i q) p = Some j" by (auto split: if_splits)
  with Cons.IH [of "child_of N i q"] Cons.prems tree_ok_child [OF Cons.prems(1,2), of q] show ?case by simp
qed simp

lemma walk_inner: "tree_ok N n \<Longrightarrow> i < n \<Longrightarrow> quyte_list p \<Longrightarrow> walk N i p = Some j \<Longrightarrow> p \<noteq> [] \<Longrightarrow> 256 \<le> j"
proof (induction p rule: rev_induct)
  case (snoc q p)
  then obtain k where k: "walk N i p = Some k" "child_of N k q \<noteq> 0" "j = child_of N k q"
    by (auto simp: walk_append bind_eq_Some_conv split: if_splits)
  with snoc.prems walk_less [OF snoc.prems(1,2) _ k(1)] tree_ok_child [OF snoc.prems(1), of k q] show ?case by simp
qed simp

lemma walk_inj:
  assumes "tree_ok N n" and "a < 256" and "b < 256" and "quyte_list p" and "quyte_list r"
    and "walk N a p = Some j" and "walk N b r = Some j"
  shows "a = b \<and> p = r"
  using assms(4-7)
proof (induction p arbitrary: r j rule: rev_induct)
  case Nil
  then show ?case
    using walk_inner [OF assms(1) root_less [OF assms(1,3)], of r j] assms(2) by (cases "r = []") simp_all
next
  case (snoc q p)
  have r: "r \<noteq> []"
    using snoc.prems walk_inner [OF assms(1) root_less [OF assms(1,2)], of "p @ [q]" j] assms(3) by auto
  then obtain r' t where rt: "r = r' @ [t]" by (metis append_butlast_last_id)
  obtain k where k: "walk N a p = Some k" "child_of N k q \<noteq> 0" "j = child_of N k q"
    using snoc.prems(3) by (auto simp: walk_append bind_eq_Some_conv split: if_splits)
  obtain l where l: "walk N b r' = Some l" "child_of N l t \<noteq> 0" "j = child_of N l t"
    using snoc.prems(4) rt by (auto simp: walk_append bind_eq_Some_conv split: if_splits)
  have "k < n" "l < n"
    using walk_less [OF assms(1) _ _ k(1)] walk_less [OF assms(1) _ _ l(1)] snoc.prems(1,2) rt
      root_less [OF assms(1,2)] root_less [OF assms(1,3)] by auto
  then have "k = l \<and> q = t"
    using k(2,3) l(3) snoc.prems(1,2) rt by (intro tree_ok_inj [OF assms(1)]) auto
  with snoc.IH [of r' k] k(1) l(1) snoc.prems rt show ?case by simp
qed

text \<open>A new child adds exactly the path to it.\<close>

lemma walk_add:
  assumes "tree_ok N n" and "i < n" and "q < 4" and "child_of N i q = 0" and "n < length N" and "n < 2 ^ 16"
    and "a < 256" and "quyte_list p"
  shows "walk (add_child N i q n) a p
    = (if \<exists>p'. walk N a p' = Some i \<and> p = p' @ [q] then Some n else walk N a p)"
  using assms(8)
proof (induction p rule: rev_induct)
  case Nil
  then show ?case by simp
next
  case (snoc t p)
  note c = tree_ok_add(2) [OF assms(1-6)]
  have w: "walk (add_child N i q n) a p = (if \<exists>p'. walk N a p' = Some i \<and> p = p' @ [q] then Some n else walk N a p)"
    using snoc by simp
  show ?case
  proof (cases "\<exists>p'. walk N a p' = Some i \<and> p = p' @ [q]")
    case True
    then have "walk N a p = None" using assms(4) by (auto simp: walk_append)
    moreover have "child_of (add_child N i q n) n t = 0"
      using c [of n t] unused_child [OF assms(1) _ assms(5), of t] snoc.prems assms(2) by auto
    ultimately show ?thesis using True w by (auto simp: walk_append)
  next
    case False
    have w': "walk (add_child N i q n) a p = walk N a p" using w by (simp only: False if_False)
    show ?thesis
    proof (cases "walk N a p")
      case None
      then show ?thesis using w' by (auto simp: walk_append)
    next
      case (Some j)
      then show ?thesis using w' assms(2) by (auto simp: walk_append c)
    qed
  qed
qed

end
