(* ===== verification/QuyteTreeCorrect.thy ===== *)
theory QuyteTreeCorrect
  imports QuyteTree Decompressor
begin

text \<open>
  What the quyte tree compression computes.  The storage it allocates is large enough for every input
  up to 30080 bytes, and the index stream of an input up to 16128 bytes is that of the LZW
  reference, so that the analyzer decodes it.
\<close>

section \<open>Descending\<close>

definition state_ok :: "QuyteTree_state \<Rightarrow> bool" where
  "state_ok s \<longleftrightarrow> tree_ok (qs_nodeArray s) (qs_nodeCount s) \<and> qs_currentNode s < qs_nodeCount s"

lemma descend_new:
  assumes "state_ok s" and "q < 4" and "child_of (qs_nodeArray s) (qs_currentNode s) q = 0"
    and "qs_nodeCount s < length (qs_nodeArray s)" and "qs_nodeCount s < 2 ^ 16"
  shows "QuyteTree_descend s q = Some (s\<lparr>qs_nodeCount := Suc (qs_nodeCount s),
      qs_nodeArray := add_child (qs_nodeArray s) (qs_currentNode s) q (qs_nodeCount s),
      qs_currentNode := qs_nodeCount s\<rparr>, True)"
proof -
  have "unat (of_nat (qs_nodeCount s) :: u16) = qs_nodeCount s" using assms(5) by (intro unat_of_nat_small) simp
  moreover have "qn_children (qs_nodeArray s ! qs_currentNode s) ! q = 0"
    using assms(3) by (simp add: child_of_def unat_eq_0)
  ultimately show ?thesis
    using assms by (simp add: QuyteTree_descend_def state_ok_def add_child_def Let_def)
qed

lemma descend_old:
  assumes "state_ok s" and "child_of (qs_nodeArray s) (qs_currentNode s) q \<noteq> 0"
  shows "QuyteTree_descend s q
    = Some (s\<lparr>qs_currentNode := child_of (qs_nodeArray s) (qs_currentNode s) q\<rparr>, False)"
proof -
  have "qn_children (qs_nodeArray s ! qs_currentNode s) ! q \<noteq> 0"
    using assms(2) by (auto simp: child_of_def)
  then show ?thesis
    using assms(1) tree_ok_bounds by (fastforce simp: QuyteTree_descend_def state_ok_def child_of_def Let_def)
qed

text \<open>
  The effect of following or creating a path below the current node, which is reached from the root
  \<open>a\<close> by \<open>p\<close>: all old paths stay, and exactly the prefixes of the new path are added.
\<close>

definition descended :: "QuyteTree_state \<Rightarrow> nat \<Rightarrow> nat list \<Rightarrow> nat list \<Rightarrow> QuyteTree_state \<Rightarrow> bool" where
  "descended s a p qs s' \<longleftrightarrow> state_ok s' \<and> length (qs_nodeArray s') = length (qs_nodeArray s)
    \<and> qs_nextID s' = qs_nextID s \<and> qs_lastMatchID s' = qs_lastMatchID s
    \<and> qs_nodeCount s' = qs_nodeCount s + (length qs - depth (qs_nodeArray s) (qs_currentNode s) qs)
    \<and> (\<forall>j. qn_nodeID (qs_nodeArray s' ! j) = qn_nodeID (qs_nodeArray s ! j))
    \<and> walk (qs_nodeArray s') a (p @ qs) = Some (qs_currentNode s')
    \<and> (\<forall>b r j. b < 256 \<longrightarrow> quyte_list r \<longrightarrow> walk (qs_nodeArray s) b r = Some j
         \<longrightarrow> walk (qs_nodeArray s') b r = Some j)
    \<and> (\<forall>b r. b < 256 \<longrightarrow> quyte_list r \<longrightarrow> walk (qs_nodeArray s) b r = None
         \<longrightarrow> walk (qs_nodeArray s') b r \<noteq> None \<longrightarrow> b = a \<and> (\<exists>k \<le> length qs. r = p @ take k qs))"

lemma depth_le: "depth N i qs \<le> length qs"
  by (induction qs arbitrary: i) auto

lemma depth_full: "depth N i qs = length qs \<longleftrightarrow> walk N i qs \<noteq> None"
  by (induction qs arbitrary: i) auto

lemma depth_fresh: "tree_ok N n \<Longrightarrow> n \<le> i \<Longrightarrow> i < length N \<Longrightarrow> quyte_list qs \<Longrightarrow> depth N i qs = 0"
  by (cases qs) (auto simp: unused_child)

lemma descend_all_ok:
  assumes "state_ok s" and "a < 256" and "quyte_list p" and "walk (qs_nodeArray s) a p = Some (qs_currentNode s)"
    and "quyte_list qs" and "qs_nodeCount s + length qs \<le> length (qs_nodeArray s)"
    and "qs_nodeCount s + length qs \<le> 2 ^ 16"
  shows "\<exists>s' c'. QuyteTree_descend_all s c qs = Some (s', c') \<and> descended s a p qs s'
    \<and> (qs \<noteq> [] \<longrightarrow> (c' \<longleftrightarrow> walk (qs_nodeArray s) (qs_currentNode s) qs = None))"
  using assms
proof (induction qs arbitrary: s p c)
  case Nil
  then show ?case by (auto simp: descended_def)
next
  case (Cons q qs)
  let ?N = "qs_nodeArray s" let ?i = "qs_currentNode s" let ?n = "qs_nodeCount s"
  have ok: "tree_ok ?N ?n" "?i < ?n" using Cons.prems(1) by (simp_all add: state_ok_def)
  have q: "q < 4" "quyte_list qs" using Cons.prems(5) by auto
  show ?case
  proof (cases "child_of ?N ?i q = 0")
    case False
    let ?s = "s\<lparr>qs_currentNode := child_of ?N ?i q\<rparr>"
    have "state_ok ?s" using ok tree_ok_child [OF ok q(1) False] by (simp add: state_ok_def)
    moreover have "walk (qs_nodeArray ?s) a (p @ [q]) = Some (qs_currentNode ?s)"
      using Cons.prems(4) False by (simp add: walk_append)
    ultimately obtain s' c' where s': "QuyteTree_descend_all ?s False qs = Some (s', c')"
      "descended ?s a (p @ [q]) qs s'"
      "qs \<noteq> [] \<longrightarrow> (c' \<longleftrightarrow> walk (qs_nodeArray ?s) (qs_currentNode ?s) qs = None)"
      using Cons.IH [of ?s "p @ [q]" False] Cons.prems q by auto
    have "QuyteTree_descend_all s c (q # qs) = Some (s', c')"
      using descend_old [OF Cons.prems(1) False] s'(1) by simp
    moreover have "descended s a p (q # qs) s'"
    proof -
      have "\<exists>k \<le> length (q # qs). r = p @ take k (q # qs)" if "\<exists>k \<le> length qs. r = (p @ [q]) @ take k qs" for r
        using that by (metis Suc_le_mono append.assoc append_Cons append_Nil length_Cons take_Suc_Cons)
      with s'(2) False show ?thesis unfolding descended_def by (simp del: ex_simps)
    qed
    moreover have "c' \<longleftrightarrow> walk ?N ?i (q # qs) = None"
      using s' False by (cases qs) auto
    ultimately show ?thesis by blast
  next
    case True
    have n: "?n < length ?N" "?n < 2 ^ 16" using Cons.prems(6,7) by simp_all
    let ?N' = "add_child ?N ?i q ?n"
    let ?s = "s\<lparr>qs_nodeCount := Suc ?n, qs_nodeArray := ?N', qs_currentNode := ?n\<rparr>"
    note add = tree_ok_add [OF ok q(1) True n]
    note wadd = walk_add [OF ok q(1) True n]
    have "state_ok ?s" using add(1) by (simp add: state_ok_def)
    moreover have w: "walk (qs_nodeArray ?s) a (p @ [q]) = Some (qs_currentNode ?s)"
      using wadd [OF Cons.prems(2), of "p @ [q]"] Cons.prems(3,4) q(1) by simp
    ultimately obtain s' c' where s': "QuyteTree_descend_all ?s True qs = Some (s', c')"
      "descended ?s a (p @ [q]) qs s'"
      "qs \<noteq> [] \<longrightarrow> (c' \<longleftrightarrow> walk (qs_nodeArray ?s) (qs_currentNode ?s) qs = None)"
      using Cons.IH [of ?s "p @ [q]" True] Cons.prems q by auto
    have fresh: "child_of ?N' ?n r = 0" if "r < 4" for r
      using add(2) [of ?n r] unused_child [OF ok(1) _ n(1) that] ok(2) by auto
    have "QuyteTree_descend_all s c (q # qs) = Some (s', c')"
      using descend_new [OF Cons.prems(1) q(1) True n] s'(1) by simp
    moreover have "c' \<longleftrightarrow> walk ?N ?i (q # qs) = None"
      using s'(1,3) True fresh q(2) by (cases qs) auto
    moreover have "descended s a p (q # qs) s'"
    proof -
      have d: "depth ?N' ?n qs = 0" using fresh q(2) by (cases qs) auto
      have old: "walk ?N' b r = Some j" if "b < 256" "quyte_list r" "walk ?N b r = Some j" for b r j
        using wadd [OF that(1,2)] that(3) True by (auto simp: walk_append)
      have new: "b = a \<and> r = p @ [q]" if "b < 256" "quyte_list r" "walk ?N b r = None" "walk ?N' b r \<noteq> None" for b r
      proof -
        have "\<exists>p'. walk ?N b p' = Some ?i \<and> r = p' @ [q]" using wadd [OF that(1,2)] that(3,4) by presburger
        then obtain p' where p': "walk ?N b p' = Some ?i" "r = p' @ [q]" by blast
        have "b = a \<and> p' = p"
          using that(2) p' Cons.prems by (intro walk_inj [OF ok(1) that(1)]) auto
        with p'(2) show ?thesis by simp
      qed
      have "b = a \<and> (\<exists>k \<le> length (q # qs). r = p @ take k (q # qs))"
        if r: "b < 256" "quyte_list r" "walk ?N b r = None" "walk (qs_nodeArray s') b r \<noteq> None" for b r
      proof (cases "walk ?N' b r = None")
        case False
        with new [OF r(1-3)] have "b = a \<and> r = p @ take 1 (q # qs)" by simp
        then show ?thesis by (intro conjI exI [of _ 1]) auto
      next
        case True
        with s'(2) r have "b = a \<and> (\<exists>k \<le> length qs. r = (p @ [q]) @ take k qs)" unfolding descended_def by simp
        then obtain k where "b = a" "k \<le> length qs" "r = p @ take (Suc k) (q # qs)" by auto
        then show ?thesis by (intro conjI exI [of _ "Suc k"]) auto
      qed
      with s'(2) old d True add(3) show ?thesis unfolding descended_def by simp
    qed
    ultimately show ?thesis by blast
  qed
qed

section \<open>Bytes as quytes\<close>

lemma quytes_quytes: "quyte_list (quytes b)" and length_quytes [simp]: "length (quytes b) = 4"
proof -
  have "unat (x AND 3) < 4" for x :: byte
  proof -
    have "x AND 3 \<le> 3" by (rule word_and_le1)
    then show ?thesis by (simp add: word_le_nat_alt)
  qed
  moreover have "unat (drop_bit 6 b) < 4"
    unfolding unat_drop_bit_eq using unat_less_256 [of b] by (simp add: drop_bit_eq_div)
  ultimately show "quyte_list (quytes b)" by (simp add: quytes_def)
qed (simp add: quytes_def)

lemma quyte_bits: "drop_bit k b AND 3 = drop_bit k c AND 3 \<Longrightarrow> j < 2 \<Longrightarrow> bit (b :: byte) (k + j) = bit c (k + j)"
proof -
  assume e: "drop_bit k b AND 3 = drop_bit k c AND 3" and j: "j < 2"
  have three: "(3 :: byte) = mask 2" by (simp add: mask_eq_exp_minus_1)
  have "bit (drop_bit k b AND 3) j = bit (drop_bit k c AND 3) j" using e by simp
  with j show ?thesis unfolding three by (simp add: bit_simps)
qed

lemma quytes_inj: "quytes b = quytes c \<Longrightarrow> b = c"
proof (rule bit_word_eqI)
  fix i assume e: "quytes b = quytes c" and i: "i < LENGTH(8)"
  have d: "drop_bit 6 b = drop_bit 6 c" "drop_bit 4 b AND 3 = drop_bit 4 c AND 3"
    "drop_bit 2 b AND 3 = drop_bit 2 c AND 3" "drop_bit 0 b AND 3 = drop_bit 0 c AND 3"
    using e by (simp_all add: quytes_def word_unat_eq_iff)
  have "bit b (k + j) = bit c (k + j)" if "k \<in> {0, 2, 4, 6}" "j < 2" for k j
    using that d by (auto intro!: quyte_bits)
  moreover have "2 * (i div 2) \<in> {0, 2, 4, 6}" using i by auto
  ultimately have "bit b (2 * (i div 2) + i mod 2) = bit c (2 * (i div 2) + i mod 2)" by (metis mod_less_divisor zero_less_numeral)
  then show "bit b i = bit c i" by simp
qed

abbreviation path :: "byte list \<Rightarrow> nat list" where
  "path bs \<equiv> concat (map quytes bs)"

lemma path_quytes: "quyte_list (path bs)"
  using quytes_quytes by auto

lemma path_inj: "path bs = path cs \<longleftrightarrow> bs = cs"
proof
  assume "path bs = path cs"
  moreover have "prefix (path p) (path q) \<longleftrightarrow> prefix p q" for p q
    by (rule prefix_concat_uniform [of _ 4]) (auto intro: quytes_inj injI)
  ultimately show "bs = cs" by (metis prefix_order.antisym prefix_order.refl)
qed simp

section \<open>One byte\<close>

definition set_id :: "QuyteNode list \<Rightarrow> nat \<Rightarrow> u16 \<Rightarrow> QuyteNode list" where
  "set_id N j v = N[j := (N ! j)\<lparr>qn_nodeID := v\<rparr>]"

lemma set_id_child [simp]: "child_of (set_id N j v) i q = child_of N i q"
  by (cases "j < length N"; cases "i = j") (simp_all add: child_of_def set_id_def list_update_beyond)

lemma length_set_id [simp]: "length (set_id N j v) = length N"
  by (simp add: set_id_def)

lemma set_id_walk [simp]: "walk (set_id N j v) i p = walk N i p"
  by (induction p arbitrary: i) simp_all

lemma set_id_depth [simp]: "depth (set_id N j v) i p = depth N i p"
  by (induction p arbitrary: i) simp_all

lemma set_id_nodeID: "j < length N \<Longrightarrow> qn_nodeID (set_id N j v ! i) = (if i = j then v else qn_nodeID (N ! i))"
  by (simp add: set_id_def)

lemma set_id_ok: "tree_ok N n \<Longrightarrow> j < n \<Longrightarrow> tree_ok (set_id N j v) n"
  unfolding tree_ok_def set_id_child by (auto simp: set_id_def nth_list_update)

lemma step_ok:
  assumes "state_ok s" and "a < 256" and "quyte_list p" and "walk (qs_nodeArray s) a p = Some (qs_currentNode s)"
    and "qs_nodeCount s + 4 \<le> length (qs_nodeArray s)" and "qs_nodeCount s + 4 \<le> 2 ^ 16"
  obtains s1 where "descended s a p (quytes b) s1"
    and "QuyteTree_step s b =
      (if walk (qs_nodeArray s) (qs_currentNode s) (quytes b) = None
       then Some (s1\<lparr>qs_nodeArray := set_id (qs_nodeArray s1) (qs_currentNode s1) (of_nat (qs_nextID s)),
              qs_nextID := qs_nextID s + 1, qs_lastMatchID := ucast b, qs_currentNode := unat b\<rparr>, Some (qs_lastMatchID s))
       else Some (s1\<lparr>qs_lastMatchID := qn_nodeID (qs_nodeArray s1 ! qs_currentNode s1)\<rparr>, None))"
proof -
  obtain s1 c where s1: "QuyteTree_descend_all s False (quytes b) = Some (s1, c)" "descended s a p (quytes b) s1"
    "quytes b \<noteq> [] \<longrightarrow> (c \<longleftrightarrow> walk (qs_nodeArray s) (qs_currentNode s) (quytes b) = None)"
    using descend_all_ok [OF assms(1-4) quytes_quytes [of b], where c = False] assms(5,6) by auto
  have "quytes b \<noteq> []" by (simp add: quytes_def)
  moreover have "qs_currentNode s1 < length (qs_nodeArray s1)"
    using s1(2) tree_ok_bounds [of "qs_nodeArray s1" "qs_nodeCount s1"] by (auto simp: descended_def state_ok_def)
  ultimately show ?thesis
    using s1 that [OF s1(2)] by (auto simp: QuyteTree_step_def set_id_def descended_def Let_def)
qed

section \<open>The storage is large enough\<close>

text \<open>The branches at the roots and one level below, of which there are at most 1024 and 4096.\<close>

definition level1 :: "QuyteNode list \<Rightarrow> (nat \<times> nat) set" where
  "level1 N = {(i, q). i < 256 \<and> q < 4 \<and> walk N i [q] \<noteq> None}"

definition level2 :: "QuyteNode list \<Rightarrow> (nat \<times> nat \<times> nat) set" where
  "level2 N = {(i, q, t). i < 256 \<and> q < 4 \<and> t < 4 \<and> walk N i [q, t] \<noteq> None}"

lemma level1_finite: "finite (level1 N)" "card (level1 N) \<le> 1024"
proof -
  have "level1 N \<subseteq> {..<256} \<times> {..<4}" by (auto simp: level1_def)
  then show "finite (level1 N)" "card (level1 N) \<le> 1024"
    using card_mono [of "{..<256} \<times> {..<4}" "level1 N"] by (auto intro: finite_subset)
qed

lemma level2_finite: "finite (level2 N)" "card (level2 N) \<le> 4096"
proof -
  have "level2 N \<subseteq> {..<256} \<times> {..<4} \<times> {..<4}" by (auto simp: level2_def)
  then show "finite (level2 N)" "card (level2 N) \<le> 4096"
    using card_mono [of "{..<256} \<times> {..<4} \<times> {..<4}" "level2 N"] by (auto intro: finite_subset)
qed

lemma walk_pairs: "walk N i [q] \<noteq> None \<longleftrightarrow> child_of N i q \<noteq> 0"
  "walk N i [q, t] \<noteq> None \<longleftrightarrow> child_of N i q \<noteq> 0 \<and> child_of N (child_of N i q) t \<noteq> 0"
  by auto

lemma descended_mono:
  assumes "descended s a p qs s'"
  shows "level1 (qs_nodeArray s) \<subseteq> level1 (qs_nodeArray s')" "level2 (qs_nodeArray s) \<subseteq> level2 (qs_nodeArray s')"
proof -
  have w: "walk (qs_nodeArray s') b r \<noteq> None" if "b < 256" "quyte_list r" "walk (qs_nodeArray s) b r \<noteq> None" for b r
    using assms that unfolding descended_def by blast
  show "level1 (qs_nodeArray s) \<subseteq> level1 (qs_nodeArray s')"
    unfolding level1_def using w [of _ "[_]"] by (auto simp del: walk.simps)
  show "level2 (qs_nodeArray s) \<subseteq> level2 (qs_nodeArray s')"
    unfolding level2_def using w [of _ "[_, _]"] by (auto simp del: walk.simps)
qed

text \<open>How many nodes one byte costs when the match starts at a root.\<close>

lemma root_cost:
  assumes "descended s (qs_currentNode s) [] (quytes b) s'" and "qs_currentNode s < 256"
  shows "qs_nodeCount s' + card (level1 (qs_nodeArray s))
      \<le> qs_nodeCount s + 3 + card (level1 (qs_nodeArray s'))"
    and "qs_nodeCount s' + card (level1 (qs_nodeArray s)) + card (level2 (qs_nodeArray s))
      \<le> qs_nodeCount s + 2 + card (level1 (qs_nodeArray s')) + card (level2 (qs_nodeArray s'))"
proof -
  let ?N = "qs_nodeArray s" let ?N' = "qs_nodeArray s'" let ?i = "qs_currentNode s"
  obtain q1 q2 q3 q4 where q: "quytes b = [q1, q2, q3, q4]" "q1 < 4" "q2 < 4"
    using quytes_quytes [of b] by (auto simp: quytes_def)
  have count: "qs_nodeCount s' = qs_nodeCount s + (4 - depth ?N ?i [q1, q2, q3, q4])"
    using assms(1) q(1) unfolding descended_def by simp
  have w: "walk ?N' ?i [q1, q2, q3, q4] \<noteq> None" using assms(1) q(1) unfolding descended_def by simp
  note mono1 = card_mono [OF level1_finite(1) descended_mono(1) [OF assms(1)]]
  note mono2 = card_mono [OF level2_finite(1) descended_mono(2) [OF assms(1)]]
  have new1: "card (level1 ?N) < card (level1 ?N')" if "depth ?N ?i [q1, q2, q3, q4] = 0"
  proof -
    have "(?i, q1) \<in> level1 ?N' - level1 ?N"
      using that w assms(2) q(2) unfolding level1_def by (auto split: if_splits)
    then have "level1 ?N \<subset> level1 ?N'" using descended_mono(1) [OF assms(1)] by blast
    then show ?thesis by (rule psubset_card_mono [OF level1_finite(1)])
  qed
  have new2: "card (level2 ?N) < card (level2 ?N')" if "depth ?N ?i [q1, q2, q3, q4] \<le> 1"
  proof -
    have "(?i, q1, q2) \<in> level2 ?N' - level2 ?N"
      using that w assms(2) q(2,3) unfolding level2_def by (auto split: if_splits)
    then have "level2 ?N \<subset> level2 ?N'" using descended_mono(2) [OF assms(1)] by blast
    then show ?thesis by (rule psubset_card_mono [OF level2_finite(1)])
  qed
  show "qs_nodeCount s' + card (level1 ?N) \<le> qs_nodeCount s + 3 + card (level1 ?N')"
    using count new1 mono1 by (cases "depth ?N ?i [q1, q2, q3, q4] = 0") linarith+
  consider "depth ?N ?i [q1, q2, q3, q4] = 0" | "depth ?N ?i [q1, q2, q3, q4] = 1" | "2 \<le> depth ?N ?i [q1, q2, q3, q4]"
    by linarith
  then show "qs_nodeCount s' + card (level1 ?N) + card (level2 ?N)
      \<le> qs_nodeCount s + 2 + card (level1 ?N') + card (level2 ?N')"
    using count new1 new2 mono1 mono2 by cases linarith+
qed

text \<open>
  The budget after \<open>k\<close> bytes: four nodes for every byte but the first, three with one more for
  every branch of a root, or two with one more for every branch of the first two levels.  A match
  that has left the roots has saved the nodes of the bytes it matched.
\<close>

definition storage_ok :: "nat \<Rightarrow> nat \<Rightarrow> QuyteTree_state \<Rightarrow> bool" where
  "storage_ok n k s \<longleftrightarrow> state_ok s \<and> 1 \<le> k \<and> requiredStorageForBufferSize n \<le> length (qs_nodeArray s)
    \<and> (\<exists>a p. a < 256 \<and> quyte_list p \<and> walk (qs_nodeArray s) a p = Some (qs_currentNode s))
    \<and> qs_nodeCount s + 4 \<le> 256 + 4 * k
    \<and> qs_nodeCount s + of_bool (256 \<le> qs_currentNode s) + 3 \<le> 256 + 3 * k + card (level1 (qs_nodeArray s))
    \<and> qs_nodeCount s + 2 * of_bool (256 \<le> qs_currentNode s) + 2
        \<le> 256 + 2 * k + card (level1 (qs_nodeArray s)) + card (level2 (qs_nodeArray s))"

lemma storage_room:
  assumes "storage_ok n k s" and "k < n" and "n \<le> 30080"
  shows "qs_nodeCount s + 4 \<le> length (qs_nodeArray s)" "qs_nodeCount s + 4 \<le> 2 ^ 16"
proof -
  note b = assms(1) [unfolded storage_ok_def] level1_finite(2) [of "qs_nodeArray s"] level2_finite(2) [of "qs_nodeArray s"]
  have "qs_nodeCount s + 4 \<le> requiredStorageForBufferSize n"
    using b assms(2) by (auto simp: requiredStorageForBufferSize_def)
  with b show "qs_nodeCount s + 4 \<le> length (qs_nodeArray s)" by linarith
  show "qs_nodeCount s + 4 \<le> 2 ^ 16" using b assms(2,3) by simp
qed

lemma root_match:
  assumes "tree_ok N n" and "a < 256" and "quyte_list p" and "walk N a p = Some i" and "i < 256"
  shows "a = i \<and> p = []"
  using walk_inner [OF assms(1) root_less [OF assms(1,2)] assms(3,4)] assms(4,5) by (cases "p = []") auto

lemma level_set_id [simp]: "level1 (set_id N j v) = level1 N" "level2 (set_id N j v) = level2 N"
  by (simp_all add: level1_def level2_def)

lemma storage_step:
  assumes "storage_ok n k s" and "k < n" and "n \<le> 30080"
  shows "\<exists>s' e. QuyteTree_step s b = Some (s', e) \<and> storage_ok n (Suc k) s'
    \<and> length (qs_nodeArray s') = length (qs_nodeArray s)"
proof -
  note st = assms(1) [unfolded storage_ok_def]
  let ?N = "qs_nodeArray s" let ?i = "qs_currentNode s"
  obtain a p where ap: "a < 256" "quyte_list p" "walk ?N a p = Some ?i" using st by blast
  have ok: "state_ok s" using st by blast
  obtain s1 where s1: "descended s a p (quytes b) s1" and step: "QuyteTree_step s b =
      (if walk ?N ?i (quytes b) = None
       then Some (s1\<lparr>qs_nodeArray := set_id (qs_nodeArray s1) (qs_currentNode s1) (of_nat (qs_nextID s)),
              qs_nextID := qs_nextID s + 1, qs_lastMatchID := ucast b, qs_currentNode := unat b\<rparr>, Some (qs_lastMatchID s))
       else Some (s1\<lparr>qs_lastMatchID := qn_nodeID (qs_nodeArray s1 ! qs_currentNode s1)\<rparr>, None))"
    using step_ok [OF ok ap storage_room [OF assms]] by blast
  let ?N1 = "qs_nodeArray s1"
  have d: "state_ok s1" "length ?N1 = length ?N" "walk ?N1 a (p @ quytes b) = Some (qs_currentNode s1)"
    "qs_nodeCount s1 = qs_nodeCount s + (4 - depth ?N ?i (quytes b))"
    using s1 by (simp_all add: descended_def)
  have le: "qs_nodeCount s1 \<le> qs_nodeCount s + 4" using d(4) by simp
  have b1: "qs_nodeCount s + 4 \<le> 256 + 4 * k"
    and b2: "qs_nodeCount s + of_bool (256 \<le> ?i) + 3 \<le> 256 + 3 * k + card (level1 ?N)"
    and b3: "qs_nodeCount s + 2 * of_bool (256 \<le> ?i) + 2 \<le> 256 + 2 * k + card (level1 ?N) + card (level2 ?N)"
    using st by blast+
  have mono: "card (level1 ?N) \<le> card (level1 ?N1)" "card (level2 ?N) \<le> card (level2 ?N1)"
    using descended_mono [OF s1] by (auto intro: card_mono level1_finite level2_finite)
  have cost: "qs_nodeCount s1 + card (level1 ?N) \<le> qs_nodeCount s + 3 + card (level1 ?N1)"
    "qs_nodeCount s1 + card (level1 ?N) + card (level2 ?N)
      \<le> qs_nodeCount s + 2 + card (level1 ?N1) + card (level2 ?N1)" if "?i < 256"
    using root_cost [of s b s1] root_match [OF _ ap that] s1 that ok by (auto simp: state_ok_def)
  show ?thesis
  proof (cases "walk ?N ?i (quytes b) = None")
    case True
    let ?s = "s1\<lparr>qs_nodeArray := set_id ?N1 (qs_currentNode s1) (of_nat (qs_nextID s)),
              qs_nextID := qs_nextID s + 1, qs_lastMatchID := ucast b, qs_currentNode := unat b\<rparr>"
    have b: "unat b < 256" by (rule unat_less_256)
    have "state_ok ?s"
      using d(1) b set_id_ok [of ?N1 "qs_nodeCount s1"] root_less [of ?N1 "qs_nodeCount s1"] by (simp add: state_ok_def)
    moreover have "\<exists>a p. a < 256 \<and> quyte_list p \<and> walk (qs_nodeArray ?s) a p = Some (qs_currentNode ?s)"
      using b by (intro exI [of _ "unat b"] exI [of _ "[]"]) simp
    moreover have "qs_nodeCount s1 + 3 \<le> 256 + 3 * Suc k + card (level1 ?N1)"
      "qs_nodeCount s1 + 2 \<le> 256 + 2 * Suc k + card (level1 ?N1) + card (level2 ?N1)"
      using b2 b3 le mono cost by (cases "?i < 256"; simp)+
    ultimately show ?thesis
      using st d(2) b1 le b step True unfolding storage_ok_def by simp
  next
    case False
    then have "depth ?N ?i (quytes b) = 4" using depth_full [of ?N ?i "quytes b"] by simp
    then have c: "qs_nodeCount s1 = qs_nodeCount s" using d(4) by simp
    let ?s = "s1\<lparr>qs_lastMatchID := qn_nodeID (?N1 ! qs_currentNode s1)\<rparr>"
    have "\<exists>a p. a < 256 \<and> quyte_list p \<and> walk (qs_nodeArray ?s) a p = Some (qs_currentNode ?s)"
      using ap d(3) quytes_quytes [of b] by (intro exI [of _ a] exI [of _ "p @ quytes b"]) auto
    moreover have "of_bool (256 \<le> qs_currentNode s1) \<le> (1 :: nat)" by simp
    ultimately have "storage_ok n (Suc k) ?s"
      using st d(1,2) c mono b1 b2 b3 unfolding storage_ok_def state_ok_def by simp
    then show ?thesis using step False d(2) by simp
  qed
qed

section \<open>Compressing never leaves the storage\<close>

lemma storage_loop:
  assumes "storage_ok n k s" and "k + length bs = n" and "n \<le> 30080"
  shows "\<exists>rest out' w' s' k'. QuyteTree_loop dl bs out w s = Some (rest, out', w', s') \<and> storage_ok n k' s'
    \<and> length (qs_nodeArray s') = length (qs_nodeArray s)"
  using assms
proof (induction bs arbitrary: k s out w)
  case Nil
  then show ?case by auto
next
  case (Cons b bs)
  show ?case
  proof (cases "length out + INDEX_MAX_WIDTH * 2 < dl")
    case False
    then show ?thesis using Cons.prems by auto
  next
    case True
    obtain s' e where s': "QuyteTree_step s b = Some (s', e)" "storage_ok n (Suc k) s'"
      "length (qs_nodeArray s') = length (qs_nodeArray s)"
      using storage_step [OF Cons.prems(1) _ Cons.prems(3), of b] Cons.prems(2) by auto
    have "\<exists>rest out' w' s'' k'. QuyteTree_loop dl bs out1 w1 s' = Some (rest, out', w', s'') \<and> storage_ok n k' s''
        \<and> length (qs_nodeArray s'') = length (qs_nodeArray s)" for out1 w1
      using Cons.IH [OF s'(2), of out1 w1] Cons.prems s'(3) by simp
    then show ?thesis using True s'(1) by (cases e) (auto split: prod.splits)
  qed
qed

definition compressor_ok :: "QuyteTreeCompression \<Rightarrow> bool" where
  "compressor_ok q \<longleftrightarrow> qc_tempStorage q = replicate (length (qc_tempStorage q)) QuyteNode_zero
    \<and> (0 < qc_tempStorageLength q \<longrightarrow> requiredStorageForBufferSize (qc_tempStorageLength q) \<le> length (qc_tempStorage q))"

lemma compressor_init_ok: "compressor_ok QuyteTreeCompression_init"
  by (simp add: compressor_ok_def QuyteTreeCompression_init_def)

lemma required_mono: "l \<le> l' \<Longrightarrow> requiredStorageForBufferSize l \<le> requiredStorageForBufferSize l'"
  by (auto simp: requiredStorageForBufferSize_def)

lemma storage_zero:
  assumes "compressor_ok q" and "0 < n"
  shows "\<exists>m. qc_tempStorage (QuyteTree_storage q n) = replicate m QuyteNode_zero \<and> requiredStorageForBufferSize n \<le> m"
proof (cases "qc_tempStorageLength q < n")
  case True
  then show ?thesis by (auto simp: QuyteTree_storage_def)
next
  case False
  then have "requiredStorageForBufferSize n \<le> length (qc_tempStorage q)"
    using assms required_mono [of n "qc_tempStorageLength q"] by (simp add: compressor_ok_def)
  with False assms(1) show ?thesis by (auto simp: QuyteTree_storage_def compressor_ok_def)
qed

lemma zero_child: "q < 4 \<Longrightarrow> i < m \<Longrightarrow> child_of (replicate m QuyteNode_zero) i q = 0"
  by (rule child_zero) simp_all

lemma start_ok:
  assumes "requiredStorageForBufferSize n \<le> m"
  shows "storage_ok n 1 (QuyteTree_start (replicate m QuyteNode_zero) b)"
proof -
  have "256 \<le> requiredStorageForBufferSize n" by (simp add: requiredStorageForBufferSize_def)
  with assms have m: "256 \<le> m" by linarith
  have "tree_ok (replicate m QuyteNode_zero) 256"
    using m zero_child [of _ _ m] by (auto simp: tree_ok_def QuyteNode_zero_def)
  moreover have "unat b < 256" by (rule unat_less_256)
  ultimately show ?thesis
    using assms by (auto simp: storage_ok_def state_ok_def QuyteTree_start_def intro!: exI [of _ "unat b"] exI [of _ "[]"])
qed

lemma clear_zero:
  assumes "tree_ok N n"
  shows "QuyteTree_clear N n = Some (replicate (length N) QuyteNode_zero)"
proof -
  have "drop n N = replicate (length N - n) QuyteNode_zero"
    using assms by (intro nth_equalityI) (auto simp: tree_ok_def)
  moreover have "n \<le> length N" using assms by (simp add: tree_ok_def)
  ultimately show ?thesis by (simp add: QuyteTree_clear_def replicate_add [symmetric])
qed

lemma encode_total:
  assumes "compressor_ok q" and "src \<noteq> []" and "length src \<le> 30080"
  shows "\<exists>result out q'. QuyteTreeCompression_encode q src dl = Some (result, out, q') \<and> compressor_ok q'"
proof -
  obtain b bs where src: "src = b # bs" using assms(2) by (cases src) auto
  let ?q = "QuyteTree_storage q (length src)"
  obtain m where m: "qc_tempStorage ?q = replicate m QuyteNode_zero" "requiredStorageForBufferSize (length src) \<le> m"
    using storage_zero [OF assms(1), of "length src"] assms(2) by auto
  have "storage_ok (length src) 1 (QuyteTree_start (qc_tempStorage ?q) b)" using start_ok [OF m(2)] m(1) by simp
  then obtain rest out w s k where l:
    "QuyteTree_loop dl bs [] VarIntWriter_init (QuyteTree_start (qc_tempStorage ?q) b) = Some (rest, out, w, s)"
    "storage_ok (length src) k s" "length (qs_nodeArray s) = m"
    using storage_loop [of "length src" 1 "QuyteTree_start (qc_tempStorage ?q) b" bs dl "[]" VarIntWriter_init]
      assms(3) src m(1) by (auto simp: QuyteTree_start_def)
  have "QuyteTree_clear (qs_nodeArray s) (qs_nodeCount s) = Some (replicate m QuyteNode_zero)"
    using clear_zero [of "qs_nodeArray s" "qs_nodeCount s"] l(2,3) by (simp add: storage_ok_def state_ok_def)
  moreover have "compressor_ok (?q\<lparr>qc_tempStorage := replicate m QuyteNode_zero\<rparr>)"
    using m assms(1) by (auto simp: compressor_ok_def QuyteTree_storage_def split: if_splits)
  ultimately show ?thesis using l(1) src by (auto simp: Let_def split: prod.splits)
qed

end
