(* ===== verification/QuyteTreeLZW.thy ===== *)
theory QuyteTreeLZW
  imports QuyteTreeCorrect
begin

text \<open>
  The quyte tree compression emits the indices of the LZW reference: the tree holds exactly the
  registered sequences, and extending a match byte by byte finds the longest of them.
\<close>

section \<open>Matching byte by byte\<close>

fun quyte_indices :: "byte list list \<Rightarrow> byte list \<Rightarrow> byte list \<Rightarrow> nat list" where
  "quyte_indices S m [] = [the (lookup S m)]"
| "quyte_indices S m (b # bs) =
    (if lookup S (m @ [b]) \<noteq> None then quyte_indices S (m @ [b]) bs
     else the (lookup S m) # quyte_indices (S @ [m @ [b]]) [b] bs)"

lemma phrase_lenI:
  assumes "wf_dict S" and "m \<in> dom (lookup S)" and "ys = [] \<or> lookup S (m @ [hd ys]) = None"
  shows "phrase_len S (m @ ys) = length m"
proof -
  have ne: "m \<noteq> []" using lookup_length [OF assms(1,2)] by auto
  have "longest_prefix (lookup S) (m @ ys) m"
    unfolding longest_prefix_def
  proof (intro conjI allI impI)
    fix q assume q: "prefix q (m @ ys) \<and> q \<in> dom (lookup S)"
    show "length q \<le> length m"
    proof (rule ccontr)
      assume "\<not> length q \<le> length m"
      with q have "prefix m q" using prefix_length_prefix [of m "m @ ys" q] by simp
      then obtain r where r: "q = m @ r" "r \<noteq> []"
        using \<open>\<not> length q \<le> length m\<close> by (auto simp: prefix_def)
      then have "prefix r ys" "ys \<noteq> []" using q by auto
      then have "hd r = hd ys" using r(2) by (cases r; cases ys) auto
      then have "q = (m @ [hd ys]) @ tl r" using r by (cases r) auto
      with q have "(m @ [hd ys]) @ tl r \<in> dom (lookup S)" by simp
      then have "m @ [hd ys] \<in> dom (lookup S)"
        using prefix_closedD [of "dom (lookup S)" "m @ [hd ys]" "tl r"] assms(1) by (simp add: wf_dict_def)
      with assms(3) \<open>ys \<noteq> []\<close> show False by auto
    qed
  qed (use assms(2) in auto)
  moreover have "longest_prefix (lookup S) (m @ ys) (take (phrase_len S (m @ ys)) (m @ ys))"
    using ne by (intro phrase_longest) simp
  ultimately have "m = take (phrase_len S (m @ ys)) (m @ ys)" by (rule longest_prefix_unique)
  then have "length m = length (take (phrase_len S (m @ ys)) (m @ ys))" by (rule arg_cong)
  then show ?thesis unfolding length_take min_absorb2 [OF phrase_len_le] by (rule sym)
qed

lemma quyte_indices_lzw:
  assumes "wf_dict S" and "m \<in> dom (lookup S)" and "FIRST_CUSTOM_INDEX + length S + length bs \<le> Suc MAX_INDEX"
  shows "quyte_indices S m bs = lzw_indices S (m @ bs)"
  using assms
proof (induction bs arbitrary: S m)
  case Nil
  then have "phrase_len S m = length m" using phrase_lenI [of S m "[]"] by simp
  moreover have "m \<noteq> []" using lookup_length [OF Nil(1,2)] by auto
  ultimately show ?case by (simp add: lzw_indices_Cons lzw_indices_Nil)
next
  case (Cons b bs)
  have ne: "m \<noteq> []" using lookup_length [OF Cons.prems(1,2)] by auto
  show ?case
  proof (cases "lookup S (m @ [b]) = None")
    case False
    then show ?thesis using Cons.IH [of S "m @ [b]"] Cons.prems by (auto simp: domIff)
  next
    case True
    have n: "phrase_len S (m @ b # bs) = length m" using phrase_lenI [of S m "b # bs"] Cons.prems True by simp
    have lzw: "lzw_indices S (m @ b # bs) = the (lookup S m) # lzw_indices (dict_extend S (m @ b # bs) (length m)) (b # bs)"
      using ne n by (subst lzw_indices_Cons) simp_all
    have full: "FIRST_CUSTOM_INDEX + length S \<le> MAX_INDEX" using Cons.prems(3) by simp
    note wf = wf_dict_snoc [OF Cons.prems(1,2) True full]
    have ih: "quyte_indices (S @ [m @ [b]]) [b] bs = lzw_indices (S @ [m @ [b]]) ([b] @ bs)"
      using Cons.prems(3) wf(1) by (intro Cons.IH) (auto simp: domIff)
    show ?thesis
    proof (cases "bs = []")
      case False
      then have "dict_extend S (m @ b # bs) (length m) = S @ [m @ [b]]" using full by (simp add: dict_extend_def)
      with True lzw ih show ?thesis by simp
    next
      case bs: True
      have "lzw_indices T [b] = [unat b]" for T
        using phrase_len_pos [of "[b]" T] phrase_len_le [of T "[b]"] by (simp add: lzw_indices_Cons lzw_indices_Nil)
      with bs True lzw ih show ?thesis by simp
    qed
  qed
qed

section \<open>The tree holds the dictionary\<close>

definition quyte_rel :: "byte list list \<Rightarrow> byte list \<Rightarrow> QuyteTree_state \<Rightarrow> bool" where
  "quyte_rel S m s \<longleftrightarrow> wf_dict S \<and> qs_nextID s = FIRST_CUSTOM_INDEX + length S
    \<and> (\<forall>b r. r \<noteq> [] \<longrightarrow> (walk (qs_nodeArray s) (unat b) (path r) \<noteq> None \<longleftrightarrow> b # r \<in> set S))
    \<and> (\<forall>i < length S. \<forall>j. walk (qs_nodeArray s) (unat (hd (S ! i))) (path (tl (S ! i))) = Some j
         \<longrightarrow> unat (qn_nodeID (qs_nodeArray s ! j)) = FIRST_CUSTOM_INDEX + i)
    \<and> m \<noteq> [] \<and> walk (qs_nodeArray s) (unat (hd m)) (path (tl m)) = Some (qs_currentNode s)
    \<and> lookup S m = Some (unat (qs_lastMatchID s))"

lemma unat_ucast_byte: "unat (ucast (b :: byte) :: u16) = unat b"
  using unat_less_256 [of b] by (simp add: unsigned_ucast_eq take_bit_nat_eq_self)

lemma lookup_set: "wf_dict S \<Longrightarrow> m \<noteq> [] \<Longrightarrow> m @ [b] \<in> set S \<longleftrightarrow> lookup S (m @ [b]) \<noteq> None"
proof -
  assume a: "wf_dict S" "m \<noteq> []"
  then have "dom (lookup S) = {p. length p = 1} \<union> set S" by (intro dom_lookup) (simp add: wf_dict_def)
  then have "m @ [b] \<in> dom (lookup S) \<longleftrightarrow> m @ [b] \<in> set S" using a(2) by simp
  then show ?thesis by (simp add: domIff)
qed

lemma length_path [simp]: "length (path bs) = 4 * length bs"
  by (induction bs) simp_all

lemma tl_snoc: "m \<noteq> [] \<Longrightarrow> tl (m @ [b]) = tl m @ [b]"
  by (cases m) simp_all

text \<open>The sequences found after the descent: those found before, and the match with the new byte.\<close>

lemma descended_seq:
  assumes "descended s (unat (hd m)) (path (tl m)) (quytes b) s1" and "m \<noteq> []"
    and "walk (qs_nodeArray s) (unat (hd m)) (path (tl m)) = Some (qs_currentNode s)"
  shows "walk (qs_nodeArray s1) (unat c) (path r) \<noteq> None
    \<longleftrightarrow> walk (qs_nodeArray s) (unat c) (path r) \<noteq> None \<or> c # r = m @ [b]"
proof -
  let ?N = "qs_nodeArray s" let ?N1 = "qs_nodeArray s1"
  note d = assms(1) [unfolded descended_def]
  have c: "unat c < 256" by (rule unat_less_256)
  have mb: "walk ?N1 (unat (hd m)) (path (tl m @ [b])) \<noteq> None" using d by simp
  have new: "c # r = m @ [b]" if n: "walk ?N (unat c) (path r) = None" "walk ?N1 (unat c) (path r) \<noteq> None"
  proof -
    have "unat c = unat (hd m) \<and> (\<exists>k \<le> length (quytes b). path r = path (tl m) @ take k (quytes b))"
      using d c path_quytes [of r] n by blast
    then obtain k where k: "unat c = unat (hd m)" "k \<le> 4" "path r = path (tl m) @ take k (quytes b)" by auto
    have hd: "c = hd m" using k(1) by (simp add: word_unat_eq_iff)
    have "4 * length r = 4 * length (tl m) + k" using arg_cong [OF k(3), of length] k(2) by simp
    then have "k = 0 \<or> k = 4" using k(2) by presburger
    then show ?thesis
    proof
      assume "k = 0"
      then have "path r = path (tl m)" using k(3) by simp
      with n(1) assms(3) k(1) show ?thesis by simp
    next
      assume "k = 4"
      then have "path r = path (tl m @ [b])" using k(3) by simp
      then have "r = tl m @ [b]" by (simp only: path_inj)
      with hd assms(2) show ?thesis by simp
    qed
  qed
  show ?thesis
  proof
    assume "walk ?N1 (unat c) (path r) \<noteq> None"
    then show "walk ?N (unat c) (path r) \<noteq> None \<or> c # r = m @ [b]" using new by blast
  next
    assume "walk ?N (unat c) (path r) \<noteq> None \<or> c # r = m @ [b]"
    then show "walk ?N1 (unat c) (path r) \<noteq> None"
    proof
      assume "walk ?N (unat c) (path r) \<noteq> None"
      then show ?thesis using d c path_quytes [of r] by blast
    next
      assume "c # r = m @ [b]"
      then have "c = hd m" "r = tl m @ [b]" using assms(2) by (cases m; simp)+
      then show ?thesis using mb by simp
    qed
  qed
qed

text \<open>A byte that extends the match.\<close>

lemma step_match:
  assumes "quyte_rel S m s" and "storage_ok n k s" and "k < n" and "n \<le> 30080" and "lookup S (m @ [b]) \<noteq> None"
  shows "\<exists>s'. QuyteTree_step s b = Some (s', None) \<and> quyte_rel S (m @ [b]) s'"
proof -
  note q = assms(1) [unfolded quyte_rel_def]
  let ?N = "qs_nodeArray s"
  have ok: "state_ok s" using assms(2) by (simp add: storage_ok_def)
  have cur: "walk ?N (unat (hd m)) (path (tl m)) = Some (qs_currentNode s)" and ne: "m \<noteq> []" using q by blast+
  obtain s1 where d: "descended s (unat (hd m)) (path (tl m)) (quytes b) s1" and step: "QuyteTree_step s b =
      (if walk ?N (qs_currentNode s) (quytes b) = None
       then Some (s1\<lparr>qs_nodeArray := set_id (qs_nodeArray s1) (qs_currentNode s1) (of_nat (qs_nextID s)),
              qs_nextID := qs_nextID s + 1, qs_lastMatchID := ucast b, qs_currentNode := unat b\<rparr>, Some (qs_lastMatchID s))
       else Some (s1\<lparr>qs_lastMatchID := qn_nodeID (qs_nodeArray s1 ! qs_currentNode s1)\<rparr>, None))"
    using step_ok [OF ok unat_less_256 path_quytes cur storage_room [OF assms(2-4)]] by blast
  let ?N1 = "qs_nodeArray s1"
  have mb: "m @ [b] \<in> set S" using assms(5) q ne by (simp add: lookup_set)
  then have "walk ?N (unat (hd m)) (path (tl m @ [b])) \<noteq> None"
    using q ne by (metis append_Cons list.exhaust_sel snoc_eq_iff_butlast)
  then have found: "walk ?N (qs_currentNode s) (quytes b) \<noteq> None" using cur by (simp add: walk_append)
  have cur1: "walk ?N1 (unat (hd m)) (path (tl m @ [b])) = Some (qs_currentNode s1)"
    using d by (simp add: descended_def)
  have same: "walk ?N1 (unat c) (path r) \<noteq> None \<longleftrightarrow> walk ?N (unat c) (path r) \<noteq> None" for c :: byte and r
    using descended_seq [OF d ne cur, of c r] \<open>walk ?N (unat (hd m)) (path (tl m @ [b])) \<noteq> None\<close> ne
    by (metis hd_append2 list.sel(1,3) tl_append2)
  have keep: "walk ?N1 (unat c) (path r) = Some j \<longleftrightarrow> walk ?N (unat c) (path r) = Some j" for c :: byte and r j
    using same [of c r] d unat_less_256 [of c] path_quytes [of r] unfolding descended_def
    by (metis not_None_eq option.inject)
  have ids: "unat (qn_nodeID (?N1 ! j)) = FIRST_CUSTOM_INDEX + i"
    if "i < length S" "walk ?N1 (unat (hd (S ! i))) (path (tl (S ! i))) = Some j" for i j
    using that q d keep unfolding descended_def by simp
  obtain i where i: "i < length S" "S ! i = m @ [b]" using mb by (auto simp: in_set_conv_nth)
  have "lookup S (m @ [b]) = Some (FIRST_CUSTOM_INDEX + i)" using lookup_nth [of S i] q i by simp
  moreover have "unat (qn_nodeID (?N1 ! qs_currentNode s1)) = FIRST_CUSTOM_INDEX + i"
    using ids [OF i(1)] i(2) cur1 ne by (simp add: tl_snoc)
  ultimately have "quyte_rel S (m @ [b]) (s1\<lparr>qs_lastMatchID := qn_nodeID (?N1 ! qs_currentNode s1)\<rparr>)"
    using q d same ids cur1 ne unfolding quyte_rel_def descended_def by (simp add: tl_snoc)
  then show ?thesis using step found by simp
qed

text \<open>A byte that ends the match: the match is emitted and registered with the byte.\<close>

lemma step_emit:
  assumes "quyte_rel S m s" and "storage_ok n k s" and "k < n" and "n \<le> 30080" and "lookup S (m @ [b]) = None"
    and "FIRST_CUSTOM_INDEX + length S \<le> MAX_INDEX"
  shows "\<exists>s'. QuyteTree_step s b = Some (s', Some (qs_lastMatchID s)) \<and> quyte_rel (S @ [m @ [b]]) [b] s'"
proof -
  note q = assms(1) [unfolded quyte_rel_def]
  let ?N = "qs_nodeArray s"
  have ok: "state_ok s" using assms(2) by (simp add: storage_ok_def)
  have cur: "walk ?N (unat (hd m)) (path (tl m)) = Some (qs_currentNode s)" and ne: "m \<noteq> []" using q by blast+
  obtain s1 where d: "descended s (unat (hd m)) (path (tl m)) (quytes b) s1" and step: "QuyteTree_step s b =
      (if walk ?N (qs_currentNode s) (quytes b) = None
       then Some (s1\<lparr>qs_nodeArray := set_id (qs_nodeArray s1) (qs_currentNode s1) (of_nat (qs_nextID s)),
              qs_nextID := qs_nextID s + 1, qs_lastMatchID := ucast b, qs_currentNode := unat b\<rparr>, Some (qs_lastMatchID s))
       else Some (s1\<lparr>qs_lastMatchID := qn_nodeID (qs_nodeArray s1 ! qs_currentNode s1)\<rparr>, None))"
    using step_ok [OF ok unat_less_256 path_quytes cur storage_room [OF assms(2-4)]] by blast
  let ?N1 = "qs_nodeArray s1" let ?j = "qs_currentNode s1" let ?S = "S @ [m @ [b]]"
  let ?s = "s1\<lparr>qs_nodeArray := set_id ?N1 ?j (of_nat (qs_nextID s)),
              qs_nextID := qs_nextID s + 1, qs_lastMatchID := ucast b, qs_currentNode := unat b\<rparr>"
  have wf: "wf_dict ?S" using q assms(5,6) by (intro wf_dict_snoc(1)) auto
  have "m @ [b] \<notin> set S" using assms(5) q ne by (simp add: lookup_set)
  then have "walk ?N (unat (hd m)) (path (tl m @ [b])) = None"
    using q ne by (metis append_Cons list.exhaust_sel snoc_eq_iff_butlast)
  then have none: "walk ?N (qs_currentNode s) (quytes b) = None" using cur by (simp add: walk_append)
  have cur1: "walk ?N1 (unat (hd m)) (path (tl m @ [b])) = Some ?j" using d by (simp add: descended_def)
  have ok1: "tree_ok ?N1 (qs_nodeCount s1)" "?j < qs_nodeCount s1"
    using d unfolding descended_def state_ok_def by blast+
  then have jl: "?j < length ?N1" using tree_ok_bounds by fastforce
  have nid: "unat (of_nat (qs_nextID s) :: u16) = FIRST_CUSTOM_INDEX + length S"
    using q assms(6) unat_of_nat_small [of "qs_nextID s", where 'a = 16] by (simp add: MAX_INDEX_eq)
  have set: "walk ?N1 (unat c) (path r) \<noteq> None \<longleftrightarrow> c # r \<in> set ?S" if "r \<noteq> []" for c r
    using descended_seq [OF d ne cur, of c r] q that by auto
  have ids: "unat (qn_nodeID (set_id ?N1 ?j (of_nat (qs_nextID s)) ! j)) = FIRST_CUSTOM_INDEX + i"
    if i: "i < length ?S" and w: "walk ?N1 (unat (hd (?S ! i))) (path (tl (?S ! i))) = Some j" for i j
  proof (cases "i = length S")
    case True
    then have "j = ?j" using w cur1 ne by (simp add: tl_snoc)
    with True nid show ?thesis using set_id_nodeID [OF jl] by simp
  next
    case False
    then have iS: "i < length S" "?S ! i = S ! i" using i by (auto simp: nth_append)
    have two: "2 \<le> length (S ! i)" using q iS(1) by (simp add: wf_dict_def)
    then have "hd (S ! i) # tl (S ! i) = S ! i" "tl (S ! i) \<noteq> []" by (cases "S ! i"; auto)+
    then have "walk ?N (unat (hd (S ! i))) (path (tl (S ! i))) \<noteq> None" using q iS(1) by (metis nth_mem)
    then obtain j' where j': "walk ?N (unat (hd (S ! i))) (path (tl (S ! i))) = Some j'" by blast
    with d unat_less_256 [of "hd (S ! i)"] path_quytes [of "tl (S ! i)"]
    have "walk ?N1 (unat (hd (S ! i))) (path (tl (S ! i))) = Some j'" unfolding descended_def by blast
    with w iS(2) j' have wN: "walk ?N (unat (hd (S ! i))) (path (tl (S ! i))) = Some j" by simp
    have "j \<noteq> ?j"
    proof
      assume "j = ?j"
      then have "unat (hd (S ! i)) = unat (hd m) \<and> path (tl (S ! i)) = path (tl m @ [b])"
        using w iS(2) cur1 by (intro walk_inj [OF ok1(1) unat_less_256 unat_less_256 path_quytes path_quytes]) auto
      then have "hd (S ! i) = hd m" "tl (S ! i) = tl m @ [b]" by (simp add: word_unat_eq_iff, simp only: path_inj)
      then have "S ! i = m @ [b]" using \<open>hd (S ! i) # tl (S ! i) = S ! i\<close> ne by (metis append_Cons list.collapse)
      with \<open>m @ [b] \<notin> set S\<close> iS(1) show False by (metis nth_mem)
    qed
    then show ?thesis using set_id_nodeID [OF jl] q iS(1) wN d unfolding descended_def by simp
  qed
  have "quyte_rel ?S [b] ?s"
    using wf q set ids unfolding quyte_rel_def by (simp add: unat_ucast_byte)
  then show ?thesis using step none by simp
qed

section \<open>The whole input\<close>

lemma loop_indices:
  assumes "quyte_rel S m s" and "storage_ok n k s" and "k + length bs = n" and "n \<le> 30080"
    and "FIRST_CUSTOM_INDEX + length S + length bs \<le> Suc MAX_INDEX"
  shows "\<exists>rest out' w' s' S' m' vs bytes. QuyteTree_loop dl bs out w s = Some (rest, out', w', s')
    \<and> quyte_rel S' m' s' \<and> quyte_indices S m bs = vs @ quyte_indices S' m' rest
    \<and> out' = out @ bytes \<and> VarIntWriter_write_all w (index_codes vs) = (bytes, w')
    \<and> (\<forall>v \<in> set vs. v \<le> MAX_INDEX) \<and> length vs + length rest \<le> length bs
    \<and> (rest = [] \<or> dl \<le> length out' + INDEX_MAX_WIDTH * 2)"
  using assms
proof (induction bs arbitrary: S m s k out w)
  case Nil
  have "QuyteTree_loop dl [] out w s = Some ([], out, w, s)"
    "quyte_indices S m [] = [] @ quyte_indices S m []" "out = out @ []"
    "VarIntWriter_write_all w (index_codes []) = ([], w)"
    "(\<forall>v \<in> set []. v \<le> MAX_INDEX) \<and> length [] + length [] \<le> length []" by simp_all
  with Nil(1) show ?case by blast
next
  case (Cons b bs)
  show ?case
  proof (cases "length out + INDEX_MAX_WIDTH * 2 < dl")
    case False
    then have "QuyteTree_loop dl (b # bs) out w s = Some (b # bs, out, w, s)"
      "quyte_indices S m (b # bs) = [] @ quyte_indices S m (b # bs)" "out = out @ []"
      "VarIntWriter_write_all w (index_codes []) = ([], w)" "dl \<le> length out + INDEX_MAX_WIDTH * 2"
      "(\<forall>v \<in> set []. v \<le> MAX_INDEX) \<and> length [] + length (b # bs) \<le> length (b # bs)" by simp_all
    with Cons.prems(1) show ?thesis by blast
  next
    case room: True
    have k: "k < n" using Cons.prems(3) by simp
    obtain s1 e where st: "QuyteTree_step s b = Some (s1, e)" "storage_ok n (Suc k) s1"
      using storage_step [OF Cons.prems(2) k Cons.prems(4), of b] by blast
    show ?thesis
    proof (cases "lookup S (m @ [b]) = None")
      case False
      obtain s' where s': "QuyteTree_step s b = Some (s', None)" "quyte_rel S (m @ [b]) s'"
        using step_match [OF Cons.prems(1,2) k Cons.prems(4) False] by blast
      then have "storage_ok n (Suc k) s'" using st by simp
      with Cons.IH [OF s'(2) this, of out w] Cons.prems obtain rest out' w' s'' S' m' vs bytes where
        ih: "QuyteTree_loop dl bs out w s' = Some (rest, out', w', s'')" "quyte_rel S' m' s''"
        "quyte_indices S (m @ [b]) bs = vs @ quyte_indices S' m' rest" "out' = out @ bytes"
        "VarIntWriter_write_all w (index_codes vs) = (bytes, w')" "\<forall>v \<in> set vs. v \<le> MAX_INDEX"
        "length vs + length rest \<le> length bs" "rest = [] \<or> dl \<le> length out' + INDEX_MAX_WIDTH * 2"
        by auto
      moreover have "QuyteTree_loop dl (b # bs) out w s = Some (rest, out', w', s'')"
        using room s'(1) ih(1) by simp
      moreover have "quyte_indices S m (b # bs) = vs @ quyte_indices S' m' rest" using False ih(3) by simp
      moreover have "length vs + length rest \<le> length (b # bs)" using ih(7) by simp
      ultimately show ?thesis by blast
    next
      case True
      have "FIRST_CUSTOM_INDEX + length S \<le> MAX_INDEX" using Cons.prems(5) by simp
      from step_emit [OF Cons.prems(1,2) k Cons.prems(4) True this] obtain s' where
        s': "QuyteTree_step s b = Some (s', Some (qs_lastMatchID s))" "quyte_rel (S @ [m @ [b]]) [b] s'" by blast
      obtain o1 w1 where w1: "VarIntWriter_write w (ucast (qs_lastMatchID s)) = (o1, w1)"
        by (cases "VarIntWriter_write w (ucast (qs_lastMatchID s))")
      have code: "of_nat (the (lookup S m)) = (ucast (qs_lastMatchID s) :: uint)"
        using Cons.prems(1) by (simp add: quyte_rel_def)
      have "storage_ok n (Suc k) s'" using st s'(1) by simp
      from Cons.IH [OF s'(2) this, of "out @ o1" w1] Cons.prems obtain rest out' w' s'' S' m' vs bytes where
        ih: "QuyteTree_loop dl bs (out @ o1) w1 s' = Some (rest, out', w', s'')" "quyte_rel S' m' s''"
        "quyte_indices (S @ [m @ [b]]) [b] bs = vs @ quyte_indices S' m' rest" "out' = (out @ o1) @ bytes"
        "VarIntWriter_write_all w1 (index_codes vs) = (bytes, w')" "rest = [] \<or> dl \<le> length out' + INDEX_MAX_WIDTH * 2"
        "\<forall>v \<in> set vs. v \<le> MAX_INDEX" "length vs + length rest \<le> length bs"
        by auto
      have "wf_dict S" "lookup S m = Some (unat (qs_lastMatchID s))" using Cons.prems(1) by (simp_all add: quyte_rel_def)
      then have "the (lookup S m) \<le> MAX_INDEX" using lookup_bound [of S m] by (fastforce simp: wf_dict_def)
      then have "\<forall>v \<in> set (the (lookup S m) # vs). v \<le> MAX_INDEX" using ih(7) by simp
      moreover have "length (the (lookup S m) # vs) + length rest \<le> length (b # bs)" using ih(8) by simp
      moreover have "quyte_indices S m (b # bs) = (the (lookup S m) # vs) @ quyte_indices S' m' rest" using True ih(3) by simp
      moreover have "VarIntWriter_write_all w (index_codes (the (lookup S m) # vs)) = (o1 @ bytes, w')"
        using w1 ih(5) code by simp
      moreover have "QuyteTree_loop dl (b # bs) out w s = Some (rest, out', w', s'')"
        using room s'(1) w1 ih(1) by simp
      moreover have "out' = out @ (o1 @ bytes)" using ih(4) by simp
      ultimately show ?thesis using ih(2,6) by blast
    qed
  qed
qed

lemma start_rel:
  assumes "256 \<le> n"
  shows "quyte_rel [] [b] (QuyteTree_start (replicate n QuyteNode_zero) b)"
proof -
  have "walk (replicate n QuyteNode_zero) (unat c) (path r) = None" if ne: "r \<noteq> []" for c :: byte and r
  proof -
    obtain x xs where r: "r = x # xs" using ne by (cases r) auto
    obtain q qs where q: "quytes x = q # qs" "q < 4" using quytes_quytes [of x] by (auto simp: quytes_def)
    then show ?thesis using r zero_child [OF q(2), of "unat c" n] unat_less_256 [of c] assms by simp
  qed
  then show ?thesis
    by (simp add: quyte_rel_def QuyteTree_start_def wf_dict_Nil FIRST_CUSTOM_INDEX_eq unat_ucast_byte)
qed

lemma finish_success:
  assumes "0 < n" and "src_compressed_length (fst (QuyteTree_finish dl (n - k) out w v)) = n" and "v \<noteq> 0xFFFF"
  shows "length out + INDEX_MAX_WIDTH * 2 < dl \<and> n - k = n
    \<and> snd (QuyteTree_finish dl (n - k) out w v)
        = out @ fst (VarIntWriter_write w (ucast v)) @ fst (VarIntWriter_flush (snd (VarIntWriter_write w (ucast v))))"
  using assms by (auto simp: QuyteTree_finish_def Let_def split: prod.splits if_splits)

lemma encode_lzw:
  assumes "compressor_ok q" and "length src \<le> 16129" and "QuyteTreeCompression_encode q src dl = Some (result, out, q')"
    and "src_compressed_length result = length src"
  shows "out = VarIntWriter_stream (index_codes (lzw_indices [] src))"
proof -
  obtain b bs where src: "src = b # bs" using assms(3) by (cases src) auto
  let ?q = "QuyteTree_storage q (length src)"
  obtain m where m: "qc_tempStorage ?q = replicate m QuyteNode_zero" "requiredStorageForBufferSize (length src) \<le> m"
    using storage_zero [OF assms(1), of "length src"] src by auto
  have "256 \<le> requiredStorageForBufferSize (length src)" by (simp add: requiredStorageForBufferSize_def)
  then have rel: "quyte_rel [] [b] (QuyteTree_start (qc_tempStorage ?q) b)" using start_rel m by simp
  have ok: "storage_ok (length src) 1 (QuyteTree_start (qc_tempStorage ?q) b)" using start_ok [OF m(2)] m(1) by simp
  obtain rest o1 w s S' m' vs where l: "QuyteTree_loop dl bs [] VarIntWriter_init (QuyteTree_start (qc_tempStorage ?q) b)
      = Some (rest, o1, w, s)" "quyte_rel S' m' s" "quyte_indices [] [b] bs = vs @ quyte_indices S' m' rest"
    "VarIntWriter_write_all VarIntWriter_init (index_codes vs) = (o1, w)" "rest = [] \<or> dl \<le> length o1 + INDEX_MAX_WIDTH * 2"
    using loop_indices [OF rel ok, of bs dl "[]" VarIntWriter_init] assms(2) src
    by (auto simp: MAX_INDEX_eq FIRST_CUSTOM_INDEX_eq)
  let ?v = "qs_lastMatchID s"
  have fin: "(result, out) = QuyteTree_finish dl (length src - length rest) o1 w ?v"
    using assms(3) src l(1) by (auto simp: Let_def bind_eq_Some_conv split: prod.splits)
  have v: "lookup S' m' = Some (unat ?v)" "wf_dict S'" using l(2) by (simp_all add: quyte_rel_def)
  have "unat ?v \<le> MAX_INDEX" using lookup_bound [OF v(2,1)] v(2) by (simp add: wf_dict_def)
  then have "?v \<noteq> 0xFFFF" by (auto simp: MAX_INDEX_eq)
  moreover have "0 < length src" using src by simp
  ultimately have f: "length o1 + INDEX_MAX_WIDTH * 2 < dl" "length src - length rest = length src"
    "out = o1 @ fst (VarIntWriter_write w (ucast ?v)) @ fst (VarIntWriter_flush (snd (VarIntWriter_write w (ucast ?v))))"
    using finish_success [of "length src" dl "length rest" o1 w ?v] assms(4) fin [symmetric] by auto
  have "rest = []" using f(1) l(5) by auto
  then have "quyte_indices [] [b] bs = vs @ [unat ?v]" using l(3) v(1) by simp
  moreover have "quyte_indices [] [b] bs = lzw_indices [] ([b] @ bs)"
    using assms(2) src by (intro quyte_indices_lzw wf_dict_Nil) (auto simp: domIff MAX_INDEX_eq FIRST_CUSTOM_INDEX_eq)
  ultimately have "lzw_indices [] src = vs @ [unat ?v]" using src by simp
  moreover have "(of_nat (unat ?v) :: uint) = ucast ?v" by simp
  ultimately show ?thesis
    using f(3) l(4)
    by (simp add: VarIntWriter_stream_def VarIntWriter_write_all_append Let_def split: prod.splits)
qed

lemma encode_room:
  assumes "compressor_ok q" and "src \<noteq> []" and "length src \<le> 16129" and "2 * length src + 14 \<le> dl"
  shows "\<exists>result out q'. QuyteTreeCompression_encode q src dl = Some (result, out, q')
    \<and> src_compressed_length result = length src \<and> dest_length result = length out \<and> length out \<le> dl"
proof -
  obtain b bs where src: "src = b # bs" using assms(2) by (cases src) auto
  let ?q = "QuyteTree_storage q (length src)"
  obtain m where m: "qc_tempStorage ?q = replicate m QuyteNode_zero" "requiredStorageForBufferSize (length src) \<le> m"
    using storage_zero [OF assms(1), of "length src"] src by auto
  have "256 \<le> requiredStorageForBufferSize (length src)" by (simp add: requiredStorageForBufferSize_def)
  then have rel: "quyte_rel [] [b] (QuyteTree_start (qc_tempStorage ?q) b)" using start_rel m by simp
  have ok: "storage_ok (length src) 1 (QuyteTree_start (qc_tempStorage ?q) b)" using start_ok [OF m(2)] m(1) by simp
  obtain rest o1 w s S' m' vs where l: "QuyteTree_loop dl bs [] VarIntWriter_init (QuyteTree_start (qc_tempStorage ?q) b)
      = Some (rest, o1, w, s)" "quyte_rel S' m' s" "VarIntWriter_write_all VarIntWriter_init (index_codes vs) = (o1, w)"
    "\<forall>v \<in> set vs. v \<le> MAX_INDEX" "length vs + length rest \<le> length bs" "rest = [] \<or> dl \<le> length o1 + INDEX_MAX_WIDTH * 2"
    using loop_indices [OF rel ok, of bs dl "[]" VarIntWriter_init] assms(3) src
    by (auto simp: MAX_INDEX_eq FIRST_CUSTOM_INDEX_eq)
  let ?v = "unat (qs_lastMatchID s)"
  have v: "lookup S' m' = Some ?v" "wf_dict S'" using l(2) by (simp_all add: quyte_rel_def)
  then have "?v \<le> MAX_INDEX" using lookup_bound [OF v(2,1)] by (simp add: wf_dict_def)
  then have codes: "\<forall>v \<in> set (vs @ [?v]). v \<le> MAX_INDEX" using l(4) by simp
  obtain o2 w2 where w2: "VarIntWriter_write w (ucast (qs_lastMatchID s)) = (o2, w2)"
    by (cases "VarIntWriter_write w (ucast (qs_lastMatchID s))")
  have "VarIntWriter_write_all VarIntWriter_init (index_codes (vs @ [?v])) = (o1 @ o2, w2)"
    using l(3) w2 by (simp add: VarIntWriter_write_all_append)
  from VarIntWriter_write_all_length [OF _ _ _ index_codes_bound [OF codes] this]
  have b: "wf_writer w2" "8 \<le> vw_width w2" "vw_width w2 \<le> 15" "8 * length (o1 @ o2) \<le> 77 + 15 * (length vs + 1)"
    by (simp_all add: writer_init)
  have room: "length (o1 @ o2) + INDEX_MAX_WIDTH * 2 < dl"
    using b(4) l(5) assms(4) src by (simp add: INDEX_MAX_WIDTH_def)
  then have "rest = []" using l(6) by auto
  have flush: "length (fst (VarIntWriter_flush w2)) \<le> 5"
    using VarIntWriter_flush_length [OF b(1) _ b(3), of "fst (VarIntWriter_flush w2)" "snd (VarIntWriter_flush w2)"] b(2) by simp
  have ne: "qs_lastMatchID s \<noteq> 0xFFFF" using \<open>?v \<le> MAX_INDEX\<close> by (auto simp: MAX_INDEX_eq)
  have fin: "QuyteTree_finish dl (length src - length rest) o1 w (qs_lastMatchID s)
      = (\<lparr>src_compressed_length = length src, dest_length = length (o1 @ o2 @ fst (VarIntWriter_flush w2))\<rparr>,
         o1 @ o2 @ fst (VarIntWriter_flush w2))"
    using ne room w2 \<open>rest = []\<close> by (simp add: QuyteTree_finish_def)
  have "length src \<le> 30080" using assms(3) by simp
  from encode_total [OF assms(1,2) this, of dl] obtain result out q' where
    e: "QuyteTreeCompression_encode q src dl = Some (result, out, q')" by blast
  then have "(result, out) = QuyteTree_finish dl (length src - length rest) o1 w (qs_lastMatchID s)"
    using src l(1) by (auto simp: Let_def bind_eq_Some_conv split: prod.splits)
  with fin e room flush show ?thesis by (simp add: INDEX_MAX_WIDTH_def)
qed

section \<open>Properties\<close>



text \<open>
  C12. The default compression and the LZW compression agree, and the analyzer decodes both: when the
  quyte tree compressor reports that it consumed a buffer of at most 16129 bytes, the bytes it wrote
  are the index stream of the LZW reference, and the Java decompressor restores the buffer.
\<close>

theorem quyte_java_roundtrip:
  assumes "compressor_ok q" and "length src \<le> 16129"
    and "QuyteTreeCompression_encode q src dl = Some (result, out, q')"
    and "src_compressed_length result = length src" and "length src \<le> limit"
  shows "out = VarIntWriter_stream (index_codes (lzw_indices [] src)) \<and> Decompressor_decode limit out = Some src"
  using encode_lzw [OF assms(1-4)] decode_stream [OF assms(5)] by simp

theorem quyte_java_roundtrip_witness:
  "\<exists>result out q'. QuyteTreeCompression_encode QuyteTreeCompression_init [7, 7, 7, 8] 50 = Some (result, out, q')
    \<and> Decompressor_decode 100 out = Some [7, 7, 7, 8]"
proof -
  obtain result out q' where e: "QuyteTreeCompression_encode QuyteTreeCompression_init [7, 7, 7, 8] 50 = Some (result, out, q')"
    "src_compressed_length result = length ([7, 7, 7, 8] :: byte list)"
    using encode_room [OF compressor_init_ok, of "[7, 7, 7, 8]" 50] by auto
  from quyte_java_roundtrip [OF compressor_init_ok _ e] have "Decompressor_decode 100 out = Some [7, 7, 7, 8]" by simp
  with e(1) show ?thesis by blast
qed



end
