(* ===== verification/BufferCompression.thy ===== *)
theory BufferCompression
  imports TraceReader QuyteTreeLZW
begin

text \<open>
  Compressing event buffers: \<open>Compression::encode\<close> on two event buffers (\<open>Compression.cpp\<close>), for any
  implementation of the virtual \<open>encode\<close> on bytes.  The contract of a compressor is a locale: what it
  reports as completely consumed, the analyzer decodes.  The default compressor keeps it for every
  call, the LZW compressor only for the first call after a reset.
\<close>

section \<open>Compression of a buffer\<close>

type_synonym 'c encoder = "'c \<Rightarrow> byte list \<Rightarrow> nat \<Rightarrow> (Compression_Result \<times> byte list \<times> 'c) option"

text \<open>The bytes the encoder writes go to the data area of the destination; \<open>None\<close> stands for an access
  outside of a data area or the failed \<open>guarantee\<close>.\<close>

definition Compression_encode :: "'c encoder \<Rightarrow> 'c \<Rightarrow> memory \<Rightarrow> EventBuffer \<Rightarrow> EventBuffer
    \<Rightarrow> (bool \<times> EventBuffer \<times> memory \<times> 'c) option" where
  "Compression_encode enc c m src_buffer dest_buffer =
    (let src_length = EventBuffer_get_length src_buffer * jint_size;
         dest_len = EventBuffer_get_capacity dest_buffer * jint_size
     in Option.bind (load_bytes m (EventBuffer_get_data src_buffer) 0 src_length) (\<lambda>src.
        Option.bind (enc c src dest_len) (\<lambda>(result, out, c).
        Option.bind (store_bytes m (EventBuffer_get_data dest_buffer) 0 out) (\<lambda>m.
          if dest_length result \<le> dest_len
          then if src_compressed_length result = src_length
               then Some (True, EventBuffer_set_compression dest_buffer (dest_length result), m, c)
               else Some (False, dest_buffer, m, c)
          else None))))"

section \<open>The contract of a compressor\<close>

locale compressor =
  fixes enc :: "'c encoder"
    and fresh :: "'c \<Rightarrow> bool"
    and max_src :: nat
  assumes enc_result: "fresh c \<Longrightarrow> src \<noteq> [] \<Longrightarrow> enc c src dl = Some (result, out, c') \<Longrightarrow> dest_length result = length out"
    and enc_decodes: "fresh c \<Longrightarrow> src \<noteq> [] \<Longrightarrow> length src \<le> max_src \<Longrightarrow> enc c src dl = Some (result, out, c')
      \<Longrightarrow> src_compressed_length result = length src \<Longrightarrow> length src \<le> limit \<Longrightarrow> Decompressor_decode limit out = Some src"
begin

lemma compressed_content:
  assumes "buffer_ok m src" and "buffer_ok m dest" and "eb_bottom src \<noteq> eb_bottom dest"
    and "\<not> eb_is_compressed src" and "0 < eb_top src" and "eb_top src \<le> max_src" and "eb_top src \<le> limit" and "fresh c"
    and "Compression_encode enc c m src dest = Some (True, dest', m', c')"
  shows "buffer_ok m' dest' \<and> eb_is_compressed dest' \<and> eb_owner dest' = eb_owner dest \<and> eb_sync dest' = eb_sync dest
    \<and> EventBuffer_content m' src = EventBuffer_content m src
    \<and> Option.bind (EventBuffer_content m' dest') (Decompressor_decode limit) = EventBuffer_content m src"
proof -
  from content_ok [OF assms(1)] obtain bs where bs: "EventBuffer_content m src = Some bs" "length bs = eb_top src" by blast
  have len: "EventBuffer_get_length src * jint_size = eb_top src"
    using assms(1,4) by (auto simp: buffer_ok_def EventBuffer_assert_is_valid_def EventBuffer_get_length_def
        EventBuffer_get_raw_length_def)
  from assms(9) bs len obtain result out where e: "enc c bs (EventBuffer_get_capacity dest * jint_size) = Some (result, out, c')"
    "store_bytes m (eb_bottom dest) 0 out = Some m'" "dest_length result \<le> EventBuffer_get_capacity dest * jint_size"
    "src_compressed_length result = length bs" "dest' = EventBuffer_set_compression dest (dest_length result)"
    by (auto simp: Compression_encode_def EventBuffer_content_def EventBuffer_get_data_def Let_def
        split: Option.bind_splits if_splits)
  have ne: "bs \<noteq> []" using assms(5) bs(2) by auto
  have out: "dest_length result = length out" by (rule enc_result [OF assms(8) ne e(1)])
  have "EventBuffer_get_capacity dest * jint_size = eb_end dest"
    using assms(2) by (auto simp: buffer_ok_def EventBuffer_get_capacity_def)
  then have ok: "buffer_ok m' dest'"
    using assms(2) e(3,5) store_buffer_ok [OF e(2), of dest] set_compression_ok by simp
  have "EventBuffer_content m' dest' = Some out"
    using load_store_same [OF e(2)] by (simp add: EventBuffer_content_def e(5) EventBuffer_set_compression_def out)
  moreover have "Decompressor_decode limit out = Some bs"
    using enc_decodes [OF assms(8) ne _ e(1,4)] bs(2) assms(6,7) by simp
  moreover have "EventBuffer_content m' src = EventBuffer_content m src"
    unfolding EventBuffer_content_def by (rule load_store_other [OF e(2) assms(3)])
  ultimately show ?thesis using ok bs(1) by (simp add: e(5) EventBuffer_set_compression_def)
qed

end

text \<open>A compressor that can be used again without a reset.\<close>

locale reusable_compressor = compressor +
  assumes enc_fresh: "fresh c \<Longrightarrow> src \<noteq> [] \<Longrightarrow> length src \<le> max_src \<Longrightarrow> enc c src dl = Some (result, out, c') \<Longrightarrow> fresh c'"
begin

lemma compressor_reusable:
  assumes "buffer_ok m src" and "\<not> eb_is_compressed src" and "0 < eb_top src" and "eb_top src \<le> max_src" and "fresh c"
    and "Compression_encode enc c m src dest = Some (b, dest', m', c')"
  shows "fresh c'"
proof -
  from content_ok [OF assms(1)] obtain bs where bs: "EventBuffer_content m src = Some bs" "length bs = eb_top src" by blast
  have len: "EventBuffer_get_length src * jint_size = eb_top src"
    using assms(1,2) by (auto simp: buffer_ok_def EventBuffer_assert_is_valid_def EventBuffer_get_length_def
        EventBuffer_get_raw_length_def)
  from assms(6) bs len obtain result out where "enc c bs (EventBuffer_get_capacity dest * jint_size) = Some (result, out, c')"
    by (auto simp: Compression_encode_def EventBuffer_content_def EventBuffer_get_data_def Let_def
        split: Option.bind_splits if_splits)
  from enc_fresh [OF assms(5) _ _ this] bs(2) assms(3,4) show ?thesis by fastforce
qed

end

section \<open>The two compressors\<close>

lemma quyte_dest_length:
  "QuyteTreeCompression_encode q src dl = Some (result, out, q') \<Longrightarrow> dest_length result = length out"
  by (cases src) (auto simp: QuyteTree_finish_def Let_def split: Option.bind_splits prod.splits if_splits)

interpretation quyte_compressor: reusable_compressor QuyteTreeCompression_encode compressor_ok 16129
proof
  fix c src dl result out c' limit
  assume c: "compressor_ok c" "src \<noteq> []" "QuyteTreeCompression_encode c src dl = Some (result, out, c')"
  show "dest_length result = length out" by (rule quyte_dest_length [OF c(3)])
  assume len: "length src \<le> 16129"
  from encode_total [OF c(1,2), of dl] c(3) len show "compressor_ok c'" by simp
  assume "src_compressed_length result = length src" "length src \<le> limit"
  with encode_lzw [OF c(1) len c(3)] decode_stream [of src limit] show "Decompressor_decode limit out = Some src" by simp
qed

interpretation lzw_compressor: compressor "LZWCompression_encode Dictionary_ops" "\<lambda>z. lzw.lzw_rel z []" n for n
proof
  fix c src dl result out c' limit
  assume c: "lzw.lzw_rel c []" "src \<noteq> []" "LZWCompression_encode Dictionary_ops c src dl = Some (result, out, c')"
  from lzw.encode_run [OF c(1), of src dl] c(3)
  have r: "result = fst (lzw_encode dl [] src)" "out = snd (lzw_encode dl [] src)" by auto
  show "dest_length result = length out"
    unfolding r by (auto simp: lzw_encode_def Let_def split: prod.splits)
  assume "src_compressed_length result = length src" "length src \<le> limit"
  with lzw_encode_success [OF wf_dict_Nil, of src dl] c(2) decode_stream [of src limit] r
  show "Decompressor_decode limit out = Some src" by simp
qed

end
