(* ===== verification/LZWDecompression.thy ===== *)
theory LZWDecompression
  imports LZWEncode
begin

text \<open>
  \<open>prims/LZWDecompression.cpp\<close>, the decompressor inside the virtual machine: its dictionary is a
  \<open>HashMap\<close> from indices to sequences.  A read behind the source is \<open>None\<close>.
\<close>

definition equalsIndex :: "uint \<Rightarrow> uint \<Rightarrow> bool" where
  "equalsIndex index1 index2 \<longleftrightarrow> index1 = index2"

definition hashIndex :: "uint \<Rightarrow> uint" where
  "hashIndex index = index"

record LZWDecompression =
  ld_dictionary :: "(uint, Sequence) HashMap"
  ld_next_index :: uint

definition LZWDecompression_reset :: "LZWDecompression \<Rightarrow> LZWDecompression" where
  "LZWDecompression_reset d =
    d\<lparr>ld_dictionary := HashMap_clear (ld_dictionary d), ld_next_index := of_nat FIRST_CUSTOM_INDEX\<rparr>"

definition LZWDecompression_init :: LZWDecompression where
  "LZWDecompression_init = LZWDecompression_reset \<lparr>ld_dictionary = HashMap_init (1024 * 4), ld_next_index = 0\<rparr>"

definition LZWDecompression_getDictionarySize :: "LZWDecompression \<Rightarrow> nat" where
  "LZWDecompression_getDictionarySize d = HashMap_get_size (ld_dictionary d) + FIRST_CUSTOM_INDEX"

definition LZWDecompression_resolveIndex :: "LZWDecompression \<Rightarrow> uint \<Rightarrow> Sequence option" where
  "LZWDecompression_resolveIndex d index = HashMap_get hashIndex equalsIndex (ld_dictionary d) index"

definition LZWDecompression_registerIndex :: "LZWDecompression \<Rightarrow> Sequence \<Rightarrow> Sequence \<Rightarrow> LZWDecompression" where
  "LZWDecompression_registerIndex d prev current =
    (if Sequence_get_length prev \<noteq> 0 \<and> ld_next_index d \<le> of_nat MAX_INDEX then
       (let index = ld_next_index d; sequence = Sequence_concat prev (Sequence_trim current 1)
        in d\<lparr>ld_next_index := index + 1,
             ld_dictionary := snd (HashMap_put hashIndex equalsIndex (ld_dictionary d) index sequence)\<rparr>)
     else d)"

text \<open>The body of the loop: the bytes it writes, the sequence to remember and the decompressor.\<close>

definition LZWDecompression_step ::
  "LZWDecompression \<Rightarrow> Sequence \<Rightarrow> uint \<Rightarrow> byte list \<times> Sequence \<times> LZWDecompression" where
  "LZWDecompression_step d prev index =
    (if index < of_nat FIRST_CUSTOM_INDEX then
       (let current = Sequence_create 1 [ucast index]
        in (fst (Sequence_copy_to current), current, LZWDecompression_registerIndex d prev current))
     else
       (case LZWDecompression_resolveIndex d index of
          Some current \<Rightarrow>
            (fst (Sequence_copy_to current), current, LZWDecompression_registerIndex d prev current)
        | None \<Rightarrow>
            (let current = Sequence_create 1 [Sequence_get prev 0]
             in (fst (Sequence_copy_to prev) @ fst (Sequence_copy_to current), Sequence_concat prev current,
                 LZWDecompression_registerIndex d prev current))))"

partial_function (option) LZWDecompression_decode_loop ::
  "byte list \<Rightarrow> nat \<Rightarrow> VarIntReader \<Rightarrow> Sequence \<Rightarrow> byte list \<Rightarrow> LZWDecompression
    \<Rightarrow> (nat \<times> byte list \<times> LZWDecompression) option" where
  "LZWDecompression_decode_loop src src_index reader prev out d =
    (if src_index < length src then
       Option.bind (VarIntReader_read src src_index reader) (\<lambda>(src_index', reader', index).
         let (bytes, prev', d') = LZWDecompression_step d prev index
         in LZWDecompression_decode_loop src src_index' reader' prev' (out @ bytes) d')
     else Some (src_index, out, d))"

definition LZWDecompression_decode ::
  "LZWDecompression \<Rightarrow> byte list \<Rightarrow> (byte list \<times> LZWDecompression) option" where
  "LZWDecompression_decode d src =
    Option.bind (LZWDecompression_decode_loop src 0 VarIntReader_init Sequence_create_empty [] d)
      (\<lambda>(src_index, out, d'). Some (out, d'))"

section \<open>The reader never reaches the end of its source\<close>

lemma read0_inside: "VarIntReader_read0 src pos r v bits = Some (c, r', v') \<Longrightarrow> c < length src"
proof (induction src pos r v bits arbitrary: c r' v' rule: VarIntReader_read0.induct)
  case (1 src pos r v bits)
  obtain c1 r1 v1 bits1 where body: "VarIntReader_read0_body src pos r v bits = Some (c1, r1, v1, bits1)"
    using "1.prems" by (subst (asm) VarIntReader_read0.simps) (auto split: option.splits)
  then have "c1 < length src" by (auto simp: VarIntReader_read0_body_def Let_def split: prod.splits if_splits)
  with 1 body show ?case by (subst (asm) (2) VarIntReader_read0.simps) (auto split: if_splits)
qed

lemma read_inside: "VarIntReader_read src pos r = Some y \<Longrightarrow> fst y < length src"
proof (erule VarIntReader_read.raw_induct [where P = "\<lambda>src pos r y. fst y < length src", rotated])
  fix read :: "byte list \<Rightarrow> nat \<Rightarrow> VarIntReader \<Rightarrow> (nat \<times> VarIntReader \<times> uint) option" and src pos r y
  assume ih: "\<And>src pos r y. read src pos r = Some y \<Longrightarrow> fst y < length src"
    and step: "Option.bind (VarIntReader_read0 src pos r 0 (vr_width r))
      (\<lambda>(cursor, r', value). if value = push_bit (vr_width r) 1 - 1
        then read src cursor (r'\<lparr>vr_width := Suc (vr_width r)\<rparr>) else Some (cursor, r', value)) = Some y"
  then show "fst y < length src"
    by (auto simp: bind_eq_Some_conv split: if_splits dest: read0_inside ih)
qed

text \<open>
  The position after a read is the byte that holds the last bit read, so that the loop goes on after
  the last value: it ends only by reading behind the source.
\<close>

lemma decode_loop_inside:
  "LZWDecompression_decode_loop src src_index reader prev out d = Some y \<Longrightarrow> length src \<le> src_index"
proof (erule LZWDecompression_decode_loop.raw_induct
    [where P = "\<lambda>src src_index reader prev out d y. length src \<le> src_index", rotated])
  fix loop :: "byte list \<Rightarrow> nat \<Rightarrow> VarIntReader \<Rightarrow> Sequence \<Rightarrow> byte list \<Rightarrow> LZWDecompression
    \<Rightarrow> (nat \<times> byte list \<times> LZWDecompression) option" and src src_index reader prev out d y
  assume ih: "\<And>src src_index reader prev out d y.
      loop src src_index reader prev out d = Some y \<Longrightarrow> length src \<le> src_index"
    and step: "(if src_index < length src then
       Option.bind (VarIntReader_read src src_index reader) (\<lambda>(src_index', reader', index).
         let (bytes, prev', d') = LZWDecompression_step d prev index
         in loop src src_index' reader' prev' (out @ bytes) d')
     else Some (src_index, out, d)) = Some y"
  show "length src \<le> src_index"
  proof (rule ccontr)
    assume "\<not> length src \<le> src_index"
    with step obtain src_index' reader' index where r: "VarIntReader_read src src_index reader = Some (src_index', reader', index)"
      and l: "(let (bytes, prev', d') = LZWDecompression_step d prev index
         in loop src src_index' reader' prev' (out @ bytes) d') = Some y"
      by (auto simp: bind_eq_Some_conv)
    obtain bytes prev' d' where "LZWDecompression_step d prev index = (bytes, prev', d')"
      by (cases "LZWDecompression_step d prev index")
    with l ih have "length src \<le> src_index'" by auto
    with read_inside [OF r] show False by simp
  qed
qed

section \<open>Properties\<close>



end
