(* ===== verification/EventBufferList.thy ===== *)
theory EventBufferList
  imports Complex_Main EventBuffer
begin

text \<open>
  The lists of event buffers (\<open>EventBufferList.hpp\<close>, \<open>EventBufferList.cpp\<close>): a ring buffer under a
  monitor that grows up to a limit, with handlers for underflow and overflow.  Every operation holds
  the monitor from its start until it returns or waits, so it is a function on the state of the list.
  Waiting releases the monitor and starts the condition loop again when notified: an operation that
  waits is an attempt that returns \<open>Waits\<close> and is repeated later.  The handlers act on a world \<open>'w\<close>.
\<close>

section \<open>The list\<close>

datatype EventBufferListResizeMode = resize_disabled | resize_enabled_preserve_order | resize_enabled_no_order

type_synonym 'w HandleUnderflow = "'w \<Rightarrow> (bool \<times> EventBuffer) \<times> 'w"
type_synonym 'w HandleOverflow = "EventBuffer \<Rightarrow> 'w \<Rightarrow> bool \<times> 'w"

text \<open>A cell without a buffer is \<open>None\<close>: it is zero after \<open>calloc\<close> and unspecified after \<open>realloc\<close>.\<close>

record 'w EventBufferList =
  bl_list :: "EventBuffer option list"
  bl_capacity :: int
  bl_max_capacity :: int
  bl_head :: int
  bl_tail :: int
  bl_resize_mode :: EventBufferListResizeMode
  bl_underflow :: "'w HandleUnderflow option"
  bl_overflow :: "'w HandleOverflow option"
  bl_finalized :: bool

definition EventBufferList_create ::
    "int \<Rightarrow> EventBufferListResizeMode \<Rightarrow> int \<Rightarrow> 'w HandleUnderflow option \<Rightarrow> 'w HandleOverflow option \<Rightarrow> 'w EventBufferList" where
  "EventBufferList_create capacity resize_mode max_capacity underflow overflow =
    (let capacity = (if capacity < 1 then 1 else capacity)
     in \<lparr>bl_list = replicate (nat capacity) None, bl_capacity = capacity, bl_max_capacity = max_capacity,
         bl_head = - 1, bl_tail = 0, bl_resize_mode = resize_mode, bl_underflow = underflow, bl_overflow = overflow,
         bl_finalized = False\<rparr>)"

definition EventBufferList_get_length :: "'w EventBufferList \<Rightarrow> int" where
  "EventBufferList_get_length l =
    (if bl_head l < 0 then 0
     else if bl_tail l > bl_head l then bl_tail l - bl_head l else bl_capacity l - (bl_head l - bl_tail l))"

definition EventBufferList_is_empty :: "'w EventBufferList \<Rightarrow> bool" where
  "EventBufferList_is_empty l \<longleftrightarrow> bl_head l < 0 \<and> bl_tail l = 0"

definition EventBufferList_is_full :: "'w EventBufferList \<Rightarrow> bool" where
  "EventBufferList_is_full l \<longleftrightarrow> bl_head l = bl_tail l"

definition EventBufferList_fill_level :: "'w EventBufferList \<Rightarrow> rat" where
  "EventBufferList_fill_level l = of_int (EventBufferList_get_length l) / of_int (bl_max_capacity l)"

definition EventBufferList_resize_to :: "'w EventBufferList \<Rightarrow> int \<Rightarrow> bool \<Rightarrow> 'w EventBufferList" where
  "EventBufferList_resize_to l new_capacity preserve_order =
    (let len = EventBufferList_get_length l;
         list = bl_list l @ replicate (nat (new_capacity - bl_capacity l)) None
     in if preserve_order
        then l\<lparr>bl_list := take (nat (bl_capacity l)) list @ take (nat (bl_head l)) list
                 @ drop (nat (bl_capacity l) + nat (bl_head l)) list,
               bl_tail := bl_head l + bl_capacity l, bl_capacity := new_capacity\<rparr>
        else l\<lparr>bl_list := list, bl_head := 0, bl_tail := len, bl_capacity := new_capacity\<rparr>)"

datatype enqueue_result = Enqueued | Not_enqueued | Enqueue_waits
datatype dequeue_result = Dequeued EventBuffer | Not_dequeued | Dequeue_waits

definition EventBufferList_insert :: "'w EventBufferList \<Rightarrow> EventBuffer \<Rightarrow> 'w EventBufferList option" where
  "EventBufferList_insert l buffer =
    (if 0 \<le> bl_tail l \<and> bl_tail l < int (length (bl_list l)) \<and> bl_capacity l \<noteq> 0
     then Some (l\<lparr>bl_head := (if bl_head l < 0 then bl_tail l else bl_head l),
                  bl_list := (bl_list l)[nat (bl_tail l) := Some buffer],
                  bl_tail := (bl_tail l + 1) mod bl_capacity l\<rparr>)
     else None)"

partial_function (option) EventBufferList_enqueue ::
    "'w EventBufferList \<Rightarrow> EventBuffer \<Rightarrow> 'w \<Rightarrow> (enqueue_result \<times> 'w EventBufferList \<times> 'w) option" where
  "EventBufferList_enqueue l buffer w =
    (if \<not> bl_finalized l \<and> EventBufferList_is_full l then
       if bl_resize_mode l \<noteq> resize_disabled \<and> bl_capacity l < bl_max_capacity l then
         EventBufferList_enqueue
           (EventBufferList_resize_to l (bl_capacity l * 2) (bl_resize_mode l = resize_enabled_preserve_order)) buffer w
       else (case bl_overflow l of
           None \<Rightarrow> Some (Enqueue_waits, l, w)
         | Some overflow \<Rightarrow> (case overflow buffer w of (handled, w) \<Rightarrow>
             Some (if handled then Not_enqueued else Enqueue_waits, l, w)))
     else if bl_finalized l then
       Some (Not_enqueued, l, case bl_overflow l of None \<Rightarrow> w | Some overflow \<Rightarrow> snd (overflow buffer w))
     else map_option (\<lambda>l. (Enqueued, l, w)) (EventBufferList_insert l buffer))"

definition EventBufferList_front :: "'w EventBufferList \<Rightarrow> EventBuffer option" where
  "EventBufferList_front l =
    (if 0 \<le> bl_head l \<and> bl_head l < int (length (bl_list l)) then bl_list l ! nat (bl_head l) else None)"

definition EventBufferList_remove_front :: "'w EventBufferList \<Rightarrow> 'w EventBufferList" where
  "EventBufferList_remove_front l =
    (let head = (bl_head l + 1) mod bl_capacity l
     in if head = bl_tail l then l\<lparr>bl_head := - 1, bl_tail := 0\<rparr> else l\<lparr>bl_head := head\<rparr>)"

definition EventBufferList_dequeue ::
    "'w EventBufferList \<Rightarrow> 'w \<Rightarrow> (dequeue_result \<times> 'w EventBufferList \<times> 'w) option" where
  "EventBufferList_dequeue l w =
    (if \<not> bl_finalized l \<and> EventBufferList_is_empty l then
       (case bl_underflow l of
           None \<Rightarrow> Some (Dequeue_waits, l, w)
         | Some underflow \<Rightarrow> (case underflow w of ((handled, buffer), w) \<Rightarrow>
             Some (if handled then Dequeued buffer else Dequeue_waits, l, w)))
     else if bl_finalized l then Some (Not_dequeued, l, w)
     else map_option (\<lambda>buffer. (Dequeued buffer, EventBufferList_remove_front l, w)) (EventBufferList_front l))"

definition EventBufferList_peek ::
    "'w EventBufferList \<Rightarrow> 'w \<Rightarrow> (dequeue_result \<times> 'w EventBufferList \<times> 'w) option" where
  "EventBufferList_peek l w =
    (if \<not> bl_finalized l \<and> EventBufferList_is_empty l then
       (case bl_underflow l of
           None \<Rightarrow> Some (Dequeue_waits, l, w)
         | Some underflow \<Rightarrow> (case underflow w of ((handled, buffer), w) \<Rightarrow>
             Some (if handled then Dequeued buffer else Dequeue_waits, l, w)))
     else if bl_finalized l then Some (Not_dequeued, l, w)
     else map_option (\<lambda>buffer. (Dequeued buffer, l, w)) (EventBufferList_front l))"

partial_function (option) EventBufferList_dequeue_all ::
    "(EventBuffer \<Rightarrow> 'w \<Rightarrow> 'w option) \<Rightarrow> 'w EventBufferList \<Rightarrow> 'w \<Rightarrow> ('w EventBufferList \<times> 'w) option" where
  "EventBufferList_dequeue_all handle l w =
    (if EventBufferList_is_empty l then Some (l, w)
     else Option.bind (EventBufferList_dequeue l w) (\<lambda>(r, l, w).
       case r of
         Dequeued buffer \<Rightarrow> Option.bind (handle buffer w) (EventBufferList_dequeue_all handle l)
       | Not_dequeued \<Rightarrow> Some (l, w)
       | Dequeue_waits \<Rightarrow> None))"

text \<open>The destructor hands what is left to the overflow handler; \<open>None\<close> also stands for the call of a
  handler that is \<open>NULL\<close>.\<close>

definition EventBufferList_destroy :: "'w EventBufferList \<Rightarrow> 'w \<Rightarrow> ('w EventBufferList \<times> 'w) option" where
  "EventBufferList_destroy l w =
    map_option (\<lambda>(l, w). (l\<lparr>bl_list := [], bl_capacity := 0, bl_head := - 1, bl_tail := 0\<rparr>, w))
      (EventBufferList_dequeue_all (\<lambda>buffer w. map_option (\<lambda>overflow. snd (overflow buffer w)) (bl_overflow l)) l w)"

definition EventBufferList_finalize :: "'w EventBufferList \<Rightarrow> 'w EventBufferList" where
  "EventBufferList_finalize l = l\<lparr>bl_finalized := True\<rparr>"

partial_function (option) EventBufferList_for_each_loop ::
    "(EventBuffer \<Rightarrow> EventBuffer) \<Rightarrow> int \<Rightarrow> int \<Rightarrow> 'w EventBufferList \<Rightarrow> 'w EventBufferList option" where
  "EventBufferList_for_each_loop iterate i end_index l =
    (if i = end_index then Some l
     else if 0 \<le> i \<and> i < int (length (bl_list l)) then
       EventBufferList_for_each_loop iterate ((i + 1) mod bl_capacity l) end_index
         (l\<lparr>bl_list := (bl_list l)[nat i := map_option iterate (bl_list l ! nat i)]\<rparr>)
     else None)"

definition EventBufferList_for_each :: "(EventBuffer \<Rightarrow> EventBuffer) \<Rightarrow> bool \<Rightarrow> 'w EventBufferList \<Rightarrow> 'w EventBufferList option" where
  "EventBufferList_for_each iterate elements l =
    (if elements \<and> EventBufferList_is_empty l then Some l
     else if \<not> elements \<and> EventBufferList_is_full l then Some l
     else EventBufferList_for_each_loop iterate (if elements then bl_head l else bl_tail l)
       (if elements then bl_tail l else bl_head l) l)"

section \<open>The ring holds a sequence of buffers\<close>

definition ring_window :: "EventBuffer option list \<Rightarrow> nat \<Rightarrow> nat \<Rightarrow> EventBuffer list \<Rightarrow> bool" where
  "ring_window cells c h xs \<longleftrightarrow> (\<forall>i < length xs. cells ! ((h + i) mod c) = Some (xs ! i))"

definition ring_rel :: "'w EventBufferList \<Rightarrow> EventBuffer list \<Rightarrow> bool" where
  "ring_rel l xs \<longleftrightarrow> 0 < bl_capacity l \<and> length (bl_list l) = nat (bl_capacity l)
     \<and> (if xs = [] then bl_head l = - 1 \<and> bl_tail l = 0
        else 0 \<le> bl_head l \<and> bl_head l < bl_capacity l \<and> length xs \<le> nat (bl_capacity l)
          \<and> bl_tail l = (bl_head l + int (length xs)) mod bl_capacity l
          \<and> ring_window (bl_list l) (nat (bl_capacity l)) (nat (bl_head l)) xs)"

lemma ring_relI:
  assumes "bl_capacity l = int c" "0 < c" "length (bl_list l) = c" "xs \<noteq> []" "bl_head l = int h" "h < c"
    "length xs \<le> c" "bl_tail l = int ((h + length xs) mod c)" "ring_window (bl_list l) c h xs"
  shows "ring_rel l xs"
  using assms by (simp add: ring_rel_def zmod_int)

lemma ring_relE:
  assumes "ring_rel l xs" and "xs \<noteq> []"
  obtains c h where "bl_capacity l = int c" "0 < c" "length (bl_list l) = c" "bl_head l = int h" "h < c"
    "length xs \<le> c" "bl_tail l = int ((h + length xs) mod c)" "ring_window (bl_list l) c h xs"
  using assms that [of "nat (bl_capacity l)" "nat (bl_head l)"] by (simp add: ring_rel_def zmod_int)

lemma ring_capacity: "ring_rel l xs \<Longrightarrow> 0 < bl_capacity l \<and> int (length xs) \<le> bl_capacity l"
  by (cases "xs = []") (auto simp: ring_rel_def)

lemma ring_empty: "ring_rel l xs \<Longrightarrow> EventBufferList_is_empty l \<longleftrightarrow> xs = []"
  by (auto simp: ring_rel_def EventBufferList_is_empty_def split: if_splits)

lemma mod_small_add: "h < c \<Longrightarrow> n \<le> c \<Longrightarrow> (h + n) mod c = (if h + n < c then h + n else h + n - c)" for h :: nat
  by (simp add: mod_if)

lemma mod_add_inj: "h < c \<Longrightarrow> i < c \<Longrightarrow> j < c \<Longrightarrow> (h + i) mod c = (h + j) mod c \<longleftrightarrow> i = j" for h :: nat
  by (auto simp: mod_small_add split: if_splits)

lemma ring_length: "ring_rel l xs \<Longrightarrow> EventBufferList_get_length l = int (length xs)"
proof (cases "xs = []")
  case True
  then show "ring_rel l xs \<Longrightarrow> ?thesis" by (simp add: ring_rel_def EventBufferList_get_length_def)
next
  case False
  assume "ring_rel l xs"
  then show ?thesis using False
    by (elim ring_relE) (auto simp: EventBufferList_get_length_def mod_small_add)
qed

lemma ring_full: "ring_rel l xs \<Longrightarrow> EventBufferList_is_full l \<longleftrightarrow> int (length xs) = bl_capacity l"
proof (cases "xs = []")
  case True
  then show "ring_rel l xs \<Longrightarrow> ?thesis" by (simp add: ring_rel_def EventBufferList_is_full_def)
next
  case False
  assume "ring_rel l xs"
  then show ?thesis using False
    by (elim ring_relE) (auto simp: EventBufferList_is_full_def mod_small_add)
qed

lemma ring_finalize: "ring_rel (EventBufferList_finalize l) xs = ring_rel l xs"
  by (simp add: ring_rel_def EventBufferList_finalize_def)

lemma ring_create: "ring_rel (EventBufferList_create c mode mx u ov) []"
  by (simp add: ring_rel_def EventBufferList_create_def Let_def)

section \<open>Inserting and removing\<close>

lemma ring_insert:
  assumes "ring_rel l xs" and "int (length xs) < bl_capacity l"
  shows "\<exists>l'. EventBufferList_insert l b = Some l' \<and> ring_rel l' (xs @ [b]) \<and> bl_finalized l' = bl_finalized l
    \<and> bl_capacity l' = bl_capacity l \<and> bl_max_capacity l' = bl_max_capacity l \<and> bl_resize_mode l' = bl_resize_mode l
    \<and> bl_underflow l' = bl_underflow l \<and> bl_overflow l' = bl_overflow l"
proof (cases "xs = []")
  case True
  with assms(1) have *: "0 < bl_capacity l" "length (bl_list l) = nat (bl_capacity l)" "bl_head l = - 1" "bl_tail l = 0"
    by (auto simp: ring_rel_def)
  then show ?thesis using True
    by (auto simp: EventBufferList_insert_def ring_rel_def ring_window_def zmod_int)
next
  case False
  from assms(1) this obtain c h where *: "bl_capacity l = int c" "0 < c" "length (bl_list l) = c" "bl_head l = int h" "h < c"
    "length xs \<le> c" "bl_tail l = int ((h + length xs) mod c)" "ring_window (bl_list l) c h xs" by (rule ring_relE)
  from assms(2) *(1) have n: "length xs < c" by simp
  let ?t = "(h + length xs) mod c"
  let ?l = "l\<lparr>bl_head := int h, bl_list := (bl_list l)[?t := Some b], bl_tail := int (Suc ?t mod c)\<rparr>"
  have t: "?t < c" using *(2) by simp
  have "ring_window ((bl_list l)[?t := Some b]) c h (xs @ [b])"
    unfolding ring_window_def
  proof (intro allI impI)
    fix i assume i: "i < length (xs @ [b])"
    show "(bl_list l)[?t := Some b] ! ((h + i) mod c) = Some ((xs @ [b]) ! i)"
    proof (cases "i = length xs")
      case True
      with t *(3) show ?thesis by simp
    next
      case neq: False
      with i have "i < length xs" by simp
      moreover from this n *(5) have "(h + i) mod c \<noteq> ?t" by (auto simp: mod_small_add)
      ultimately show ?thesis using *(8) by (simp add: ring_window_def nth_append)
    qed
  qed
  then have "ring_rel ?l (xs @ [b])"
    using * n by (intro ring_relI [of _ c _ h]) (simp_all add: mod_Suc_eq)
  moreover have "EventBufferList_insert l b = Some ?l"
    using * t by (simp add: EventBufferList_insert_def zmod_int [symmetric] nat_int) (simp add: zmod_int add.commute)
  ultimately show ?thesis by simp
qed

lemma ring_front: "ring_rel l (x # xs) \<Longrightarrow> EventBufferList_front l = Some x"
  by (elim ring_relE) (auto simp: EventBufferList_front_def ring_window_def)

lemma ring_remove_front:
  assumes "ring_rel l (x # xs)"
  shows "ring_rel (EventBufferList_remove_front l) xs"
proof -
  from assms obtain c h where *: "bl_capacity l = int c" "0 < c" "length (bl_list l) = c" "bl_head l = int h" "h < c"
    "length (x # xs) \<le> c" "bl_tail l = int ((h + length (x # xs)) mod c)" "ring_window (bl_list l) c h (x # xs)"
    by (elim ring_relE) auto
  have head: "(bl_head l + 1) mod bl_capacity l = int (Suc h mod c)"
    using *(1,4) by (simp add: zmod_int add.commute)
  show ?thesis
  proof (cases "xs = []")
    case True
    with head * show ?thesis
      by (simp add: EventBufferList_remove_front_def ring_rel_def Let_def)
  next
    case False
    then have "0 < length xs" by simp
    with *(5,6) have "Suc h mod c \<noteq> (h + length (x # xs)) mod c"
      by (auto simp: mod_small_add mod_Suc)
    then have eq: "EventBufferList_remove_front l = l\<lparr>bl_head := int (Suc h mod c)\<rparr>"
      using head *(7) by (simp add: EventBufferList_remove_front_def Let_def)
    have "ring_window (bl_list l) c (Suc h mod c) xs"
      unfolding ring_window_def
    proof (intro allI impI)
      fix i assume "i < length xs"
      then have "bl_list l ! ((h + Suc i) mod c) = Some ((x # xs) ! Suc i)"
        using *(8) [unfolded ring_window_def, THEN spec, of "Suc i"] by simp
      then show "bl_list l ! ((Suc h mod c + i) mod c) = Some (xs ! i)" by (simp add: mod_add_left_eq)
    qed
    then show ?thesis
      using * False by (intro ring_relI [of _ c _ "Suc h mod c"]) (simp_all add: eq mod_add_left_eq)
  qed
qed

lemmas ring_simps = ring_empty ring_full ring_length ring_finalize

section \<open>Growing\<close>

lemma ring_resize_preserve:
  assumes rel: "ring_rel l xs" and full: "EventBufferList_is_full l"
  shows "ring_rel (EventBufferList_resize_to l (bl_capacity l * 2) True) xs"
proof -
  have "xs \<noteq> []" using rel full by (auto simp: ring_rel_def EventBufferList_is_full_def split: if_splits)
  with rel obtain c h where *: "bl_capacity l = int c" "0 < c" "length (bl_list l) = c" "bl_head l = int h" "h < c"
    "length xs \<le> c" "bl_tail l = int ((h + length xs) mod c)" "ring_window (bl_list l) c h xs" by (rule ring_relE)
  have n: "length xs = c" using full ring_full [OF rel] *(1) by simp
  let ?cells = "bl_list l @ take h (bl_list l) @ replicate (c - h) None"
  have eq: "EventBufferList_resize_to l (bl_capacity l * 2) True =
      l\<lparr>bl_list := ?cells, bl_tail := int (h + c), bl_capacity := int (2 * c)\<rparr>"
    using *(1-5) by (simp add: EventBufferList_resize_to_def Let_def)
  have "ring_window ?cells (2 * c) h xs"
    unfolding ring_window_def
  proof (intro allI impI)
    fix i assume i: "i < length xs"
    with *(8) have cell: "bl_list l ! ((h + i) mod c) = Some (xs ! i)" by (simp add: ring_window_def)
    show "?cells ! ((h + i) mod (2 * c)) = Some (xs ! i)"
    proof (cases "h + i < c")
      case True
      with cell *(3) show ?thesis by (simp add: nth_append)
    next
      case False
      with i n *(5) have "(h + i) mod c = h + i - c" "h + i - c < h" by (auto simp: mod_small_add)
      with False cell *(3,5) i n show ?thesis by (simp add: nth_append)
    qed
  qed
  with * n \<open>xs \<noteq> []\<close> show ?thesis
    unfolding eq by (intro ring_relI [of _ "2 * c" _ h]) simp_all
qed

lemma ring_window_full:
  assumes "ring_window cells c h xs" and "length xs = c" and "length cells = c" and "h < c"
  shows "map Some (rotate (c - h) xs) = cells"
proof (rule nth_equalityI)
  show "length (map Some (rotate (c - h) xs)) = length cells" using assms by simp
  fix j assume "j < length (map Some (rotate (c - h) xs))"
  then have j: "j < c" using assms(2) by simp
  have "(h + (c - h + j) mod c) mod c = (h + (c - h + j)) mod c" by (rule mod_add_right_eq)
  also have "\<dots> = j" using assms(4) j by simp
  finally have "cells ! j = Some (xs ! ((c - h + j) mod c))"
    using assms(1,2) j unfolding ring_window_def by (metis mod_less_divisor not_less_zero gr0I)
  then show "map Some (rotate (c - h) xs) ! j = cells ! j"
    using j assms(2) by (simp add: nth_rotate)
qed

lemma ring_resize_no_order:
  assumes rel: "ring_rel l xs" and full: "EventBufferList_is_full l"
  shows "\<exists>ys. mset ys = mset xs \<and> ring_rel (EventBufferList_resize_to l (bl_capacity l * 2) False) ys"
proof -
  have "xs \<noteq> []" using rel full by (auto simp: ring_rel_def EventBufferList_is_full_def split: if_splits)
  with rel obtain c h where *: "bl_capacity l = int c" "0 < c" "length (bl_list l) = c" "bl_head l = int h" "h < c"
    "length xs \<le> c" "bl_tail l = int ((h + length xs) mod c)" "ring_window (bl_list l) c h xs" by (rule ring_relE)
  have n: "length xs = c" using full ring_full [OF rel] *(1) by simp
  let ?ys = "rotate (c - h) xs"
  have cells: "map Some ?ys = bl_list l" by (rule ring_window_full [OF *(8) n *(3,5)])
  have eq: "EventBufferList_resize_to l (bl_capacity l * 2) False =
      l\<lparr>bl_list := map Some ?ys @ replicate c None, bl_head := int 0, bl_tail := int c, bl_capacity := int (2 * c)\<rparr>"
    using *(1) n by (simp add: EventBufferList_resize_to_def Let_def cells ring_length [OF rel])
  have "ring_rel (EventBufferList_resize_to l (bl_capacity l * 2) False) ?ys"
    unfolding eq using * n \<open>xs \<noteq> []\<close>
    by (intro ring_relI [of _ "2 * c" _ 0]) (simp_all add: ring_window_def nth_append)
  moreover have "mset ?ys = mset xs"
    by (metis append_take_drop_id mset_append rotate_drop_take union_commute)
  ultimately show ?thesis by blast
qed

definition ordered :: "'w EventBufferList \<Rightarrow> bool" where
  "ordered l \<longleftrightarrow> bl_resize_mode l \<noteq> resize_enabled_no_order"

text \<open>The part of the list that no operation but \<open>finalize\<close> changes.\<close>

definition same_config :: "'w EventBufferList \<Rightarrow> 'w EventBufferList \<Rightarrow> bool" where
  "same_config l l' \<longleftrightarrow> bl_max_capacity l' = bl_max_capacity l \<and> bl_resize_mode l' = bl_resize_mode l
     \<and> bl_underflow l' = bl_underflow l \<and> bl_overflow l' = bl_overflow l \<and> bl_finalized l' = bl_finalized l"

lemma same_config_refl [simp]: "same_config l l"
  by (simp add: same_config_def)

lemma same_config_trans: "same_config l l' \<Longrightarrow> same_config l' l'' \<Longrightarrow> same_config l l''"
  by (simp add: same_config_def)

lemma same_config_resize [simp]: "same_config l (EventBufferList_resize_to l c p)"
  by (simp add: same_config_def EventBufferList_resize_to_def Let_def)

lemma same_config_remove_front [simp]: "same_config l (EventBufferList_remove_front l)"
  by (simp add: same_config_def EventBufferList_remove_front_def Let_def)

lemma capacity_resize [simp]: "bl_capacity (EventBufferList_resize_to l c p) = c"
  by (simp add: EventBufferList_resize_to_def Let_def)

lemma capacity_remove_front [simp]: "bl_capacity (EventBufferList_remove_front l) = bl_capacity l"
  by (simp add: EventBufferList_remove_front_def Let_def)

definition can_grow :: "'w EventBufferList \<Rightarrow> bool" where
  "can_grow l \<longleftrightarrow> bl_resize_mode l \<noteq> resize_disabled \<and> bl_capacity l < bl_max_capacity l"

section \<open>The operations on the sequence\<close>

lemma enqueue_room:
  assumes "ring_rel l xs" and "\<not> bl_finalized l" and "int (length xs) < bl_capacity l"
  shows "\<exists>l'. EventBufferList_enqueue l b w = Some (Enqueued, l', w) \<and> ring_rel l' (xs @ [b])
    \<and> same_config l l' \<and> bl_capacity l' = bl_capacity l"
proof -
  from ring_insert [OF assms(1,3), of b] obtain l' where
    "EventBufferList_insert l b = Some l'" "ring_rel l' (xs @ [b])" "same_config l l'" "bl_capacity l' = bl_capacity l"
    by (auto simp: same_config_def)
  then show ?thesis using assms
    by (subst EventBufferList_enqueue.simps) (simp add: ring_full)
qed

lemma enqueue_grow:
  assumes "ring_rel l xs" and "\<not> bl_finalized l" and "int (length xs) = bl_capacity l" and "can_grow l"
  shows "\<exists>l' ys. EventBufferList_enqueue l b w = Some (Enqueued, l', w) \<and> ring_rel l' (ys @ [b]) \<and> mset ys = mset xs
    \<and> (ordered l \<longrightarrow> ys = xs) \<and> same_config l l' \<and> bl_capacity l' = bl_capacity l * 2"
proof -
  let ?p = "bl_resize_mode l = resize_enabled_preserve_order"
  let ?l = "EventBufferList_resize_to l (bl_capacity l * 2) ?p"
  have full: "EventBufferList_is_full l" using assms(1,3) by (simp add: ring_full)
  have "\<exists>ys. mset ys = mset xs \<and> (ordered l \<longrightarrow> ys = xs) \<and> ring_rel ?l ys"
    using ring_resize_preserve [OF assms(1) full] ring_resize_no_order [OF assms(1) full] assms(4)
    by (cases "bl_resize_mode l") (auto simp: ordered_def can_grow_def)
  then obtain ys where ys: "mset ys = mset xs" "ordered l \<longrightarrow> ys = xs" "ring_rel ?l ys" by blast
  have "same_config l ?l" by simp
  then have "\<not> bl_finalized ?l" using assms(2) by (simp add: same_config_def)
  moreover have "int (length ys) < bl_capacity ?l"
    using assms(3) ring_capacity [OF assms(1)] mset_eq_length [OF ys(1)] by simp
  ultimately obtain l' where "EventBufferList_enqueue ?l b w = Some (Enqueued, l', w)" "ring_rel l' (ys @ [b])"
    "same_config ?l l'" "bl_capacity l' = bl_capacity ?l" using enqueue_room [OF ys(3)] by blast
  moreover have "EventBufferList_enqueue l b w = EventBufferList_enqueue ?l b w"
    using assms(2,4) full by (subst EventBufferList_enqueue.simps) (simp add: can_grow_def)
  ultimately show ?thesis using ys same_config_trans [OF \<open>same_config l ?l\<close>] by auto
qed

lemma enqueue_blocked:
  assumes "ring_rel l xs" and "bl_finalized l \<or> int (length xs) = bl_capacity l \<and> \<not> can_grow l"
  shows "\<exists>r w'. EventBufferList_enqueue l b w = Some (r, l, w') \<and> r \<noteq> Enqueued"
  using assms by (subst EventBufferList_enqueue.simps)
    (auto simp: ring_full can_grow_def split: option.splits prod.splits)

lemma enqueue_ring:
  assumes "ring_rel l xs"
  obtains r l' w' ys where "EventBufferList_enqueue l b w = Some (r, l', w')" "mset ys = mset xs" "ordered l \<longrightarrow> ys = xs"
    "ring_rel l' (if r = Enqueued then ys @ [b] else ys)" "same_config l l'"
    "bl_capacity l' = bl_capacity l \<or> bl_capacity l < bl_max_capacity l \<and> bl_capacity l' = bl_capacity l * 2"
proof -
  consider (room) "\<not> bl_finalized l" "int (length xs) < bl_capacity l"
    | (grow) "\<not> bl_finalized l" "int (length xs) = bl_capacity l" "can_grow l"
    | (blocked) "bl_finalized l \<or> int (length xs) = bl_capacity l \<and> \<not> can_grow l"
    using ring_capacity [OF assms] by linarith
  then show thesis
  proof cases
    case room
    from enqueue_room [OF assms this, of b w] show thesis by (auto intro: that)
  next
    case grow
    from enqueue_grow [OF assms this, of b w] grow(3) show thesis by (auto simp: can_grow_def intro: that)
  next
    case blocked
    from enqueue_blocked [OF assms this, of b w] assms show thesis by (auto intro: that)
  qed
qed

lemma dequeue_ring:
  assumes "ring_rel l xs"
  obtains r l' w' where "EventBufferList_dequeue l w = Some (r, l', w')" "same_config l l'" "bl_capacity l' = bl_capacity l"
    "(if xs \<noteq> [] \<and> \<not> bl_finalized l then r = Dequeued (hd xs) \<and> w' = w \<and> ring_rel l' (tl xs)
      else l' = l \<and> (bl_underflow l = None \<or> bl_finalized l \<longrightarrow> w' = w \<and> (\<forall>b. r \<noteq> Dequeued b)))"
proof (cases "xs \<noteq> [] \<and> \<not> bl_finalized l")
  case True
  then obtain x ys where "xs = x # ys" by (cases xs) auto
  with True assms show thesis
    by (intro that [of "Dequeued x" "EventBufferList_remove_front l" w])
      (simp_all add: EventBufferList_dequeue_def ring_empty ring_front ring_remove_front)
next
  case False
  have "\<exists>r w'. EventBufferList_dequeue l w = Some (r, l, w') \<and>
      (bl_underflow l = None \<or> bl_finalized l \<longrightarrow> w' = w \<and> (\<forall>b. r \<noteq> Dequeued b))"
    using False assms by (cases "bl_finalized l"; cases "bl_underflow l")
      (auto simp: EventBufferList_dequeue_def ring_empty split: prod.splits)
  with False show thesis by (auto intro: that)
qed

lemma peek_ring:
  assumes "ring_rel l xs" and "xs \<noteq> []" and "\<not> bl_finalized l"
  shows "EventBufferList_peek l w = Some (Dequeued (hd xs), l, w)"
  using assms ring_front [of l "hd xs" "tl xs"] by (simp add: EventBufferList_peek_def ring_empty)

end
