(* ===== verification/EventBufferQueue.thy ===== *)
theory EventBufferQueue
  imports EventBufferList
begin

text \<open>
  What the clients of the event buffer lists rely on.  Two contracts are stated as locales: a bag,
  which neither loses nor duplicates a buffer, and a queue, which also keeps the order.  The ring
  buffer is an instance of both.  The runs below interleave the attempts of any number of threads:
  the monitor makes every attempt atomic, so a list of calls is an execution.
\<close>

section \<open>Contracts\<close>

datatype list_call = Enqueue EventBuffer | Dequeue | Finalize

text \<open>The buffers that were accepted, the buffers that were taken out, and those the underflow handler made.\<close>

record list_log =
  log_in :: "EventBuffer list"
  log_out :: "EventBuffer list"
  log_made :: "EventBuffer list"

fun list_run :: "('q \<Rightarrow> EventBuffer \<Rightarrow> 'w \<Rightarrow> (enqueue_result \<times> 'q \<times> 'w) option)
    \<Rightarrow> ('q \<Rightarrow> 'w \<Rightarrow> (dequeue_result \<times> 'q \<times> 'w) option) \<Rightarrow> ('q \<Rightarrow> 'q) \<Rightarrow> ('q \<Rightarrow> bool)
    \<Rightarrow> list_call list \<Rightarrow> 'q \<Rightarrow> 'w \<Rightarrow> list_log \<Rightarrow> (list_log \<times> 'q \<times> 'w) option" where
  "list_run enq deq fin is_emp [] q w g = Some (g, q, w)"
| "list_run enq deq fin is_emp (Enqueue b # cs) q w g =
    Option.bind (enq q b w) (\<lambda>(r, q', w').
      list_run enq deq fin is_emp cs q' w' (if r = Enqueued then g\<lparr>log_in := log_in g @ [b]\<rparr> else g))"
| "list_run enq deq fin is_emp (Dequeue # cs) q w g =
    Option.bind (deq q w) (\<lambda>(r, q', w').
      list_run enq deq fin is_emp cs q' w'
        (case r of Dequeued b \<Rightarrow> if is_emp q then g\<lparr>log_made := log_made g @ [b], log_out := log_out g @ [b]\<rparr>
                                 else g\<lparr>log_out := log_out g @ [b]\<rparr>
                 | _ \<Rightarrow> g))"
| "list_run enq deq fin is_emp (Finalize # cs) q w g = list_run enq deq fin is_emp cs (fin q) w g"

definition log_init :: list_log where
  "log_init = \<lparr>log_in = [], log_out = [], log_made = []\<rparr>"

locale buffer_bag =
  fixes holds :: "'q \<Rightarrow> EventBuffer list \<Rightarrow> bool"
    and enq :: "'q \<Rightarrow> EventBuffer \<Rightarrow> 'w \<Rightarrow> (enqueue_result \<times> 'q \<times> 'w) option"
    and deq :: "'q \<Rightarrow> 'w \<Rightarrow> (dequeue_result \<times> 'q \<times> 'w) option"
    and fin :: "'q \<Rightarrow> 'q"
    and is_emp :: "'q \<Rightarrow> bool"
  assumes enq_bag: "holds q xs \<Longrightarrow> \<exists>r q' w' ys. enq q b w = Some (r, q', w') \<and> mset ys = mset xs
      \<and> holds q' (if r = Enqueued then ys @ [b] else ys)"
    and deq_bag: "holds q xs \<Longrightarrow> \<exists>r q' w'. deq q w = Some (r, q', w')
      \<and> (case r of Dequeued b \<Rightarrow> if xs = [] then holds q' [] else b = hd xs \<and> holds q' (tl xs) | _ \<Rightarrow> holds q' xs)"
    and fin_bag: "holds q xs \<Longrightarrow> holds (fin q) xs"
    and empty_bag: "holds q xs \<Longrightarrow> is_emp q \<longleftrightarrow> xs = []"
begin

lemma bag_run:
  assumes "holds q xs" and "mset (log_in g) + mset (log_made g) = mset (log_out g) + mset xs"
  shows "\<exists>g' q' w' ys. list_run enq deq fin is_emp cs q w g = Some (g', q', w') \<and> holds q' ys
    \<and> mset (log_in g') + mset (log_made g') = mset (log_out g') + mset ys"
  using assms
proof (induction cs arbitrary: q w g xs)
  case Nil
  then show ?case by auto
next
  case (Cons c cs)
  show ?case
  proof (cases c)
    case (Enqueue b)
    from enq_bag [OF Cons.prems(1), of b w] obtain r q' w' ys where e: "enq q b w = Some (r, q', w')" "mset ys = mset xs"
      "holds q' (if r = Enqueued then ys @ [b] else ys)" by blast
    have "mset (log_in (if r = Enqueued then g\<lparr>log_in := log_in g @ [b]\<rparr> else g))
        + mset (log_made (if r = Enqueued then g\<lparr>log_in := log_in g @ [b]\<rparr> else g))
      = mset (log_out (if r = Enqueued then g\<lparr>log_in := log_in g @ [b]\<rparr> else g))
        + mset (if r = Enqueued then ys @ [b] else ys)"
      using Cons.prems(2) e(2) by simp
    from Cons.IH [OF e(3) this, of w'] e(1) Enqueue show ?thesis by simp
  next
    case Dequeue
    from deq_bag [OF Cons.prems(1), of w] obtain r q' w' where d: "deq q w = Some (r, q', w')"
      "case r of Dequeued b \<Rightarrow> if xs = [] then holds q' [] else b = hd xs \<and> holds q' (tl xs) | _ \<Rightarrow> holds q' xs" by blast
    let ?g = "case r of Dequeued b \<Rightarrow> if is_emp q then g\<lparr>log_made := log_made g @ [b], log_out := log_out g @ [b]\<rparr>
                                 else g\<lparr>log_out := log_out g @ [b]\<rparr>
                 | _ \<Rightarrow> g"
    have "\<exists>ys. holds q' ys \<and> mset (log_in ?g) + mset (log_made ?g) = mset (log_out ?g) + mset ys"
    proof (cases r)
      case (Dequeued b)
      with d(2) Cons.prems(2) show ?thesis
        by (cases xs) (auto simp: empty_bag [OF Cons.prems(1)])
    qed (use d(2) Cons.prems(2) in auto)
    then obtain ys where "holds q' ys" "mset (log_in ?g) + mset (log_made ?g) = mset (log_out ?g) + mset ys" by blast
    from Cons.IH [OF this, of w'] d(1) Dequeue show ?thesis by simp
  next
    case Finalize
    with Cons.IH [OF fin_bag [OF Cons.prems(1)] Cons.prems(2), of w] show ?thesis by simp
  qed
qed

end

locale buffer_queue =
  fixes holds :: "'q \<Rightarrow> EventBuffer list \<Rightarrow> bool"
    and enq :: "'q \<Rightarrow> EventBuffer \<Rightarrow> 'w \<Rightarrow> (enqueue_result \<times> 'q \<times> 'w) option"
    and deq :: "'q \<Rightarrow> 'w \<Rightarrow> (dequeue_result \<times> 'q \<times> 'w) option"
    and fin :: "'q \<Rightarrow> 'q"
    and is_emp :: "'q \<Rightarrow> bool"
  assumes enq_queue: "holds q xs \<Longrightarrow> \<exists>r q' w'. enq q b w = Some (r, q', w') \<and> holds q' (if r = Enqueued then xs @ [b] else xs)"
    and deq_queue: "holds q xs \<Longrightarrow> \<exists>r q' w'. deq q w = Some (r, q', w')
      \<and> (case r of Dequeued b \<Rightarrow> \<exists>ys. xs = b # ys \<and> holds q' ys | _ \<Rightarrow> holds q' xs)"
    and fin_queue: "holds q xs \<Longrightarrow> holds (fin q) xs"
    and empty_queue: "holds q xs \<Longrightarrow> is_emp q \<longleftrightarrow> xs = []"
begin

lemma queue_run:
  assumes "holds q xs" and "log_in g = log_out g @ xs" and "log_made g = []"
  shows "\<exists>g' q' w' ys. list_run enq deq fin is_emp cs q w g = Some (g', q', w') \<and> holds q' ys
    \<and> log_in g' = log_out g' @ ys \<and> log_made g' = []"
  using assms
proof (induction cs arbitrary: q w g xs)
  case Nil
  then show ?case by auto
next
  case (Cons c cs)
  show ?case
  proof (cases c)
    case (Enqueue b)
    from enq_queue [OF Cons.prems(1), of b w] obtain r q' w' where e: "enq q b w = Some (r, q', w')"
      "holds q' (if r = Enqueued then xs @ [b] else xs)" by blast
    from Cons.IH [OF e(2), of "if r = Enqueued then g\<lparr>log_in := log_in g @ [b]\<rparr> else g" w'] Cons.prems(2,3) e(1) Enqueue
    show ?thesis by simp
  next
    case Dequeue
    from deq_queue [OF Cons.prems(1), of w] obtain r q' w' where d: "deq q w = Some (r, q', w')"
      "case r of Dequeued b \<Rightarrow> \<exists>ys. xs = b # ys \<and> holds q' ys | _ \<Rightarrow> holds q' xs" by blast
    show ?thesis
    proof (cases r)
      case (Dequeued b)
      with d(2) obtain ys where "xs = b # ys" "holds q' ys" by auto
      with Cons.IH [OF this(2), of "g\<lparr>log_out := log_out g @ [b]\<rparr>" w'] Cons.prems d(1) Dequeue Dequeued empty_queue
      show ?thesis by simp
    qed (use Cons.IH [of q' xs g w'] Cons.prems(2,3) d Dequeue in simp_all)
  next
    case Finalize
    with Cons.IH [OF fin_queue [OF Cons.prems(1)] Cons.prems(2,3), of w] show ?thesis by simp
  qed
qed

end

sublocale buffer_queue \<subseteq> buffer_bag
proof
  fix q :: 'q and xs b and w :: 'w
  assume q: "holds q xs"
  from enq_queue [OF q, of b w] show "\<exists>r q' w' ys. enq q b w = Some (r, q', w') \<and> mset ys = mset xs
      \<and> holds q' (if r = Enqueued then ys @ [b] else ys)" by blast
  from deq_queue [OF q, of w] show "\<exists>r q' w'. deq q w = Some (r, q', w')
      \<and> (case r of Dequeued b \<Rightarrow> if xs = [] then holds q' [] else b = hd xs \<and> holds q' (tl xs) | _ \<Rightarrow> holds q' xs)"
    by (fastforce split: dequeue_result.splits)
  show "holds (fin q) xs" by (rule fin_queue [OF q])
  show "is_emp q \<longleftrightarrow> xs = []" by (rule empty_queue [OF q])
qed

section \<open>The ring buffer keeps both contracts\<close>

interpretation ring_bag: buffer_bag ring_rel EventBufferList_enqueue EventBufferList_dequeue
  EventBufferList_finalize EventBufferList_is_empty
proof
  fix l :: "'w EventBufferList" and xs b and w :: 'w
  assume l: "ring_rel l xs"
  from l show "\<exists>r l' w' ys. EventBufferList_enqueue l b w = Some (r, l', w') \<and> mset ys = mset xs
      \<and> ring_rel l' (if r = Enqueued then ys @ [b] else ys)"
    by (rule enqueue_ring [where b = b and w = w]) blast
  from l obtain r l' w' where d: "EventBufferList_dequeue l w = Some (r, l', w')"
    "if xs \<noteq> [] \<and> \<not> bl_finalized l then r = Dequeued (hd xs) \<and> w' = w \<and> ring_rel l' (tl xs)
      else l' = l \<and> (bl_underflow l = None \<or> bl_finalized l \<longrightarrow> w' = w \<and> (\<forall>b. r \<noteq> Dequeued b))"
    by (rule dequeue_ring [where w = w])
  have "case r of Dequeued b \<Rightarrow> if xs = [] then ring_rel l' [] else b = hd xs \<and> ring_rel l' (tl xs) | _ \<Rightarrow> ring_rel l' xs"
    using d(2) l by (cases r) (auto split: if_splits)
  with d(1) show "\<exists>r l' w'. EventBufferList_dequeue l w = Some (r, l', w')
      \<and> (case r of Dequeued b \<Rightarrow> if xs = [] then ring_rel l' [] else b = hd xs \<and> ring_rel l' (tl xs) | _ \<Rightarrow> ring_rel l' xs)"
    by blast
  show "ring_rel (EventBufferList_finalize l) xs" using l by (simp add: ring_finalize)
  show "EventBufferList_is_empty l \<longleftrightarrow> xs = []" by (rule ring_empty [OF l])
qed

definition queue_rel :: "'w EventBufferList \<Rightarrow> EventBuffer list \<Rightarrow> bool" where
  "queue_rel l xs \<longleftrightarrow> ring_rel l xs \<and> ordered l \<and> bl_underflow l = None"

lemma queue_rel_config: "queue_rel l xs \<Longrightarrow> same_config l l' \<Longrightarrow> ring_rel l' ys \<Longrightarrow> queue_rel l' ys"
  by (simp add: queue_rel_def same_config_def ordered_def)

interpretation ring_queue: buffer_queue queue_rel EventBufferList_enqueue EventBufferList_dequeue
  EventBufferList_finalize EventBufferList_is_empty
proof
  fix l :: "'w EventBufferList" and xs b and w :: 'w
  assume l: "queue_rel l xs"
  then have rel: "ring_rel l xs" "ordered l" "bl_underflow l = None" by (auto simp: queue_rel_def)
  from rel(1) show "\<exists>r l' w'. EventBufferList_enqueue l b w = Some (r, l', w') \<and> queue_rel l' (if r = Enqueued then xs @ [b] else xs)"
    by (rule enqueue_ring [where b = b and w = w]) (use rel(2) queue_rel_config [OF l] in blast)
  from rel(1) obtain r l' w' where d: "EventBufferList_dequeue l w = Some (r, l', w')" "same_config l l'"
    "if xs \<noteq> [] \<and> \<not> bl_finalized l then r = Dequeued (hd xs) \<and> w' = w \<and> ring_rel l' (tl xs)
      else l' = l \<and> (bl_underflow l = None \<or> bl_finalized l \<longrightarrow> w' = w \<and> (\<forall>b. r \<noteq> Dequeued b))"
    by (rule dequeue_ring [where w = w])
  have "case r of Dequeued b \<Rightarrow> \<exists>ys. xs = b # ys \<and> queue_rel l' ys | _ \<Rightarrow> queue_rel l' xs"
    using d(3) l rel(3) queue_rel_config [OF l d(2), of "tl xs"]
    by (cases xs) (auto split: dequeue_result.splits if_splits)
  with d(1) show "\<exists>r l' w'. EventBufferList_dequeue l w = Some (r, l', w')
      \<and> (case r of Dequeued b \<Rightarrow> \<exists>ys. xs = b # ys \<and> queue_rel l' ys | _ \<Rightarrow> queue_rel l' xs)" by blast
  show "queue_rel (EventBufferList_finalize l) xs"
    using l by (simp add: queue_rel_def ring_finalize) (simp add: EventBufferList_finalize_def ordered_def)
  show "EventBufferList_is_empty l \<longleftrightarrow> xs = []" by (rule ring_empty [OF rel(1)])
qed

section \<open>How far a list grows\<close>

text \<open>The capacity starts at one and doubles below the limit.\<close>

definition grown :: "'w EventBufferList \<Rightarrow> bool" where
  "grown l \<longleftrightarrow> (\<exists>j. bl_capacity l = 2 ^ j \<and> (j = 0 \<or> 2 ^ (j - 1) < bl_max_capacity l))"

lemma grown_keep: "grown l \<Longrightarrow> same_config l l' \<Longrightarrow> bl_capacity l' = bl_capacity l \<Longrightarrow> grown l'"
  by (simp add: grown_def same_config_def)

lemma grown_double:
  assumes "grown l" and "same_config l l'" and "bl_capacity l < bl_max_capacity l" and "bl_capacity l' = bl_capacity l * 2"
  shows "grown l'"
proof -
  from assms(1) obtain j where "bl_capacity l = 2 ^ j" by (auto simp: grown_def)
  with assms(2-4) show ?thesis by (auto simp: grown_def same_config_def intro: exI [of _ "Suc j"])
qed

lemma grown_run:
  assumes "ring_rel l xs" and "grown l"
    and "list_run EventBufferList_enqueue EventBufferList_dequeue EventBufferList_finalize EventBufferList_is_empty cs l w g
      = Some (g', l', w')"
  shows "grown l' \<and> bl_max_capacity l' = bl_max_capacity l \<and> (\<exists>ys. ring_rel l' ys)"
  using assms
proof (induction cs arbitrary: l w g xs)
  case Nil
  then show ?case by auto
next
  case (Cons c cs)
  show ?case
  proof (cases c)
    case (Enqueue b)
    from Cons.prems(1) obtain r l1 w1 ys where e: "EventBufferList_enqueue l b w = Some (r, l1, w1)"
      "ring_rel l1 (if r = Enqueued then ys @ [b] else ys)" "same_config l l1"
      "bl_capacity l1 = bl_capacity l \<or> bl_capacity l < bl_max_capacity l \<and> bl_capacity l1 = bl_capacity l * 2"
      by (rule enqueue_ring [where b = b and w = w])
    have "grown l1" using e(4) grown_keep [OF Cons.prems(2) e(3)] grown_double [OF Cons.prems(2) e(3)] by blast
    from Cons.IH [OF e(2) this] Cons.prems(3) Enqueue e(1,3) show ?thesis by (auto simp: same_config_def)
  next
    case Dequeue
    from Cons.prems(1) obtain r l1 w1 where d: "EventBufferList_dequeue l w = Some (r, l1, w1)" "same_config l l1"
      "bl_capacity l1 = bl_capacity l"
      "if xs \<noteq> [] \<and> \<not> bl_finalized l then r = Dequeued (hd xs) \<and> w1 = w \<and> ring_rel l1 (tl xs)
      else l1 = l \<and> (bl_underflow l = None \<or> bl_finalized l \<longrightarrow> w1 = w \<and> (\<forall>b. r \<noteq> Dequeued b))"
      by (rule dequeue_ring [where w = w])
    from d(4) Cons.prems(1) obtain ys where "ring_rel l1 ys" by (auto split: if_splits)
    from Cons.IH [OF this grown_keep [OF Cons.prems(2) d(2,3)]] Cons.prems(3) Dequeue d(1,2)
    show ?thesis by (auto simp: same_config_def)
  next
    case Finalize
    have "grown (EventBufferList_finalize l)" using Cons.prems(2) by (simp add: grown_def EventBufferList_finalize_def)
    from Cons.IH [OF _ this, of xs w g] Cons.prems(1,3) Finalize
    show ?thesis by (simp add: ring_finalize) (simp add: EventBufferList_finalize_def)
  qed
qed

lemma grown_power_of_two:
  assumes "grown l" and "bl_max_capacity l = 2 ^ k"
  shows "bl_capacity l \<le> bl_max_capacity l"
proof -
  from assms(1) obtain j where j: "bl_capacity l = 2 ^ j" "j = 0 \<or> 2 ^ (j - 1) < bl_max_capacity l"
    by (auto simp: grown_def)
  have "j \<le> k"
  proof (cases j)
    case (Suc i)
    with j(2) assms(2) have "(2 :: int) ^ i < 2 ^ k" by simp
    then have "i < k" by (simp add: power_strict_increasing_iff)
    with Suc show ?thesis by simp
  qed simp
  then show ?thesis using j(1) assms(2) by (simp add: power_increasing)
qed

section \<open>Emptying and visiting a list\<close>

lemma dequeue_all_ring:
  assumes "ring_rel l xs" and "\<not> bl_finalized l" and "\<And>b w. handle b w = Some (h b w)"
  shows "\<exists>l'. EventBufferList_dequeue_all handle l w = Some (l', fold h xs w) \<and> ring_rel l' []"
  using assms(1,2)
proof (induction xs arbitrary: l w)
  case Nil
  then show ?case by (subst EventBufferList_dequeue_all.simps) (simp add: ring_empty)
next
  case (Cons x xs)
  from Cons.prems(1) obtain r l1 w1 where d: "EventBufferList_dequeue l w = Some (r, l1, w1)" "same_config l l1"
    "if x # xs \<noteq> [] \<and> \<not> bl_finalized l then r = Dequeued (hd (x # xs)) \<and> w1 = w \<and> ring_rel l1 (tl (x # xs))
      else l1 = l \<and> (bl_underflow l = None \<or> bl_finalized l \<longrightarrow> w1 = w \<and> (\<forall>b. r \<noteq> Dequeued b))"
    by (rule dequeue_ring [where w = w])
  then have d': "r = Dequeued x" "w1 = w" "ring_rel l1 xs" using Cons.prems(2) by auto
  have "\<not> bl_finalized l1" using d(2) Cons.prems(2) by (simp add: same_config_def)
  from Cons.IH [OF d'(3) this, of "h x w"] obtain l' where
    "EventBufferList_dequeue_all handle l1 (h x w) = Some (l', fold h xs (h x w))" "ring_rel l' []" by blast
  with d(1) d' Cons.prems(1) show ?case
    by (subst EventBufferList_dequeue_all.simps) (simp add: ring_empty assms(3))
qed

lemma dequeue_all_finalized:
  assumes "ring_rel l xs" and "bl_finalized l"
  shows "EventBufferList_dequeue_all handle l w = Some (l, w)"
  using assms by (subst EventBufferList_dequeue_all.simps) (simp add: ring_empty EventBufferList_dequeue_def)

lemma for_each_loop_ring:
  assumes "bl_capacity l = int c" and "length (bl_list l) = c" and "h < c" and "length (us @ vs) < c"
    and "ring_window (bl_list l) c h (map f us @ vs)"
  shows "\<exists>cells. EventBufferList_for_each_loop f (int ((h + length us) mod c)) (int ((h + length (us @ vs)) mod c)) l
      = Some (l\<lparr>bl_list := cells\<rparr>) \<and> length cells = c \<and> ring_window cells c h (map f (us @ vs))"
  using assms
proof (induction vs arbitrary: us l)
  case Nil
  then show ?case by (subst EventBufferList_for_each_loop.simps) (auto intro!: exI [of _ "bl_list l"])
next
  case (Cons v vs)
  let ?i = "(h + length us) mod c"
  let ?cells = "(bl_list l)[?i := Some (f v)]"
  from Cons.prems(3) have i: "?i < c" by (intro mod_less_divisor) simp
  have cell: "bl_list l ! ?i = Some v"
    using Cons.prems(5) [unfolded ring_window_def, THEN spec, of "length us"] by (simp add: nth_append)
  have ne: "?i \<noteq> (h + length (us @ v # vs)) mod c"
    using Cons.prems(3,4) mod_add_inj [of h c "length us" "length (us @ v # vs)"] by simp
  have win: "ring_window ?cells c h (map f (us @ [v]) @ vs)"
    unfolding ring_window_def
  proof (intro allI impI)
    fix k assume k: "k < length (map f (us @ [v]) @ vs)"
    show "?cells ! ((h + k) mod c) = Some ((map f (us @ [v]) @ vs) ! k)"
    proof (cases "k = length us")
      case True
      with i Cons.prems(2) show ?thesis by (simp add: nth_append)
    next
      case False
      with k Cons.prems(3,4) have "(h + k) mod c \<noteq> ?i" by (subst mod_add_inj) auto
      moreover have "bl_list l ! ((h + k) mod c) = Some ((map f us @ v # vs) ! k)"
        using Cons.prems(5) k by (simp add: ring_window_def)
      ultimately show ?thesis using False by (auto simp: nth_append nth_Cons split: nat.splits)
    qed
  qed
  have step: "(int ?i + 1) mod bl_capacity l = int ((h + length (us @ [v])) mod c)"
    using Cons.prems(1) by (simp add: zmod_int mod_simps) (simp add: algebra_simps)
  from Cons.IH [of "l\<lparr>bl_list := ?cells\<rparr>" "us @ [v]"] Cons.prems(1-4) win
  obtain cells where "EventBufferList_for_each_loop f (int ((h + length (us @ [v])) mod c))
      (int ((h + length ((us @ [v]) @ vs)) mod c)) (l\<lparr>bl_list := ?cells\<rparr>) = Some (l\<lparr>bl_list := cells\<rparr>)"
    "length cells = c" "ring_window cells c h (map f ((us @ [v]) @ vs))" by auto
  moreover have "EventBufferList_for_each_loop f (int ?i) (int ((h + length (us @ v # vs)) mod c)) l
      = EventBufferList_for_each_loop f (int ((h + length (us @ [v])) mod c)) (int ((h + length (us @ v # vs)) mod c))
          (l\<lparr>bl_list := ?cells\<rparr>)"
    using ne i Cons.prems(2) cell
    by (subst EventBufferList_for_each_loop.simps) (simp add: step del: of_nat_mod zmod_int)
  ultimately show ?case by (intro exI [of _ cells]) simp
qed

lemma for_each_ring:
  assumes "ring_rel l xs"
  shows "\<exists>l'. EventBufferList_for_each f True l = Some l'
    \<and> ring_rel l' (if int (length xs) = bl_capacity l then xs else map f xs)"
proof (cases "xs = []")
  case True
  with assms show ?thesis by (simp add: EventBufferList_for_each_def ring_empty)
next
  case False
  with assms obtain c h where *: "bl_capacity l = int c" "0 < c" "length (bl_list l) = c" "bl_head l = int h" "h < c"
    "length xs \<le> c" "bl_tail l = int ((h + length xs) mod c)" "ring_window (bl_list l) c h xs" by (rule ring_relE)
  show ?thesis
  proof (cases "length xs = c")
    case True
    with * assms False show ?thesis
      by (simp add: EventBufferList_for_each_def ring_empty) (subst EventBufferList_for_each_loop.simps, simp)
  next
    case n: False
    with *(6) have "length ([] @ xs) < c" by simp
    from for_each_loop_ring [OF *(1,3,5) this, of f] *(8) obtain cells where
      loop: "EventBufferList_for_each_loop f (int (h mod c)) (int ((h + length xs) mod c)) l = Some (l\<lparr>bl_list := cells\<rparr>)"
      "length cells = c" "ring_window cells c h (map f xs)" by auto
    then have "EventBufferList_for_each f True l = Some (l\<lparr>bl_list := cells\<rparr>)"
      using *(4,5,7) assms False by (simp add: EventBufferList_for_each_def ring_empty)
    moreover have "ring_rel (l\<lparr>bl_list := cells\<rparr>) (map f xs)"
      using * loop(2,3) False by (intro ring_relI [of _ c _ h]) simp_all
    ultimately show ?thesis using n *(1) by simp
  qed
qed

section \<open>Correctness of the lists\<close>

text \<open>
  C24. The lists that preserve the order refine a first-in first-out queue: in every interleaving of
  calls from any number of threads, the buffers taken out are the buffers put in, in the same order,
  and what was not yet taken out is in the ring; growing the ring changes nothing.
\<close>

theorem ring_fifo:
  "\<exists>g l' w' rest.
    list_run EventBufferList_enqueue EventBufferList_dequeue EventBufferList_finalize EventBufferList_is_empty cs
      (EventBufferList_create c resize_enabled_preserve_order max_capacity None overflow) w log_init = Some (g, l', w')
    \<and> ring_rel l' rest \<and> log_in g = log_out g @ rest"
proof -
  have "queue_rel (EventBufferList_create c resize_enabled_preserve_order max_capacity None overflow) []"
    using ring_create [of c resize_enabled_preserve_order max_capacity None overflow]
    by (simp add: queue_rel_def EventBufferList_create_def Let_def ordered_def)
  from ring_queue.queue_run [OF this, of log_init cs w] show ?thesis
    by (auto simp: log_init_def queue_rel_def)
qed

text \<open>
  C26. No list loses or duplicates a buffer, whatever its mode and its handlers: in every interleaving
  of calls, the buffers put in and the buffers made by the underflow handler are, as a multiset, the
  buffers taken out and those still in the ring.
\<close>

theorem ring_conserves:
  "\<exists>g l' w' rest.
    list_run EventBufferList_enqueue EventBufferList_dequeue EventBufferList_finalize EventBufferList_is_empty cs
      (EventBufferList_create c mode max_capacity underflow overflow) w log_init = Some (g, l', w')
    \<and> ring_rel l' rest \<and> mset (log_in g) + mset (log_made g) = mset (log_out g) + mset rest"
  using ring_bag.bag_run [OF ring_create [of c mode max_capacity underflow overflow], of log_init cs w]
  by (auto simp: log_init_def)

text \<open>
  C27. The backlog is bounded: a list that starts with one cell and whose limit is a power of two, as
  the default limits 256 and 1024 are, never holds more buffers than its limit.
\<close>

theorem ring_bounded:
  "\<exists>g l' w' rest.
    list_run EventBufferList_enqueue EventBufferList_dequeue EventBufferList_finalize EventBufferList_is_empty cs
      (EventBufferList_create 1 mode (2 ^ k) underflow overflow) w log_init = Some (g, l', w')
    \<and> ring_rel l' rest \<and> length rest \<le> 2 ^ k"
proof -
  let ?l = "EventBufferList_create 1 mode (2 ^ k) underflow overflow"
  from ring_bag.bag_run [OF ring_create [of 1 mode "2 ^ k" underflow overflow], of log_init cs w]
  obtain g l' w' rest where r: "list_run EventBufferList_enqueue EventBufferList_dequeue EventBufferList_finalize
      EventBufferList_is_empty cs ?l w log_init = Some (g, l', w')" "ring_rel l' rest" by (auto simp: log_init_def)
  have "grown ?l" by (auto simp: grown_def EventBufferList_create_def Let_def intro: exI [of _ 0])
  from grown_run [OF ring_create this r(1)]
  have g: "grown l'" "bl_max_capacity l' = 2 ^ k" by (auto simp: EventBufferList_create_def Let_def)
  from grown_power_of_two [OF g] ring_capacity [OF r(2)] have "int (length rest) \<le> bl_max_capacity l'" by linarith
  then have "length rest \<le> 2 ^ k" by (metis g(2) of_nat_le_iff of_nat_numeral of_nat_power)
  with r show ?thesis by blast
qed

text \<open>
  C29. Visiting the elements of a list applies the function to every buffer in it, unless the list is
  full: the loop then ends before its first iteration and visits none.
\<close>

theorem for_each_elements:
  assumes "ring_rel l xs"
  shows "\<exists>l'. EventBufferList_for_each iterate True l = Some l'
    \<and> ring_rel l' (if int (length xs) = bl_capacity l then xs else map iterate xs)"
  by (rule for_each_ring [OF assms])

theorem for_each_elements_witness:
  "\<exists>l'. EventBufferList_for_each EventBuffer_reset True
      \<lparr>bl_list = [Some EventBuffer_create_dummy, None], bl_capacity = 2, bl_max_capacity = 2, bl_head = 0, bl_tail = 1,
       bl_resize_mode = resize_disabled, bl_underflow = None, bl_overflow = None, bl_finalized = False\<rparr> = Some l'
    \<and> ring_rel l' [EventBuffer_reset EventBuffer_create_dummy]"
  using for_each_elements [where iterate = EventBuffer_reset and xs = "[EventBuffer_create_dummy]" and l =
      "\<lparr>bl_list = [Some EventBuffer_create_dummy, None], bl_capacity = 2, bl_max_capacity = 2, bl_head = 0, bl_tail = 1,
       bl_resize_mode = resize_disabled, bl_underflow = None, bl_overflow = None, bl_finalized = False\<rparr>"]
  by (simp add: ring_rel_def ring_window_def)

end
