(* ===== verification/EventBuffers.thy ===== *)
theory EventBuffers
  imports EventBufferQueue TraceReader
begin

text \<open>
  The pool of event buffers (\<open>EventBuffers.cpp\<close>): the flush queue, the compression queue and the free
  list, and how a thread hands its buffer over and gets a new one (\<open>Thread::flush_event_buffer\<close> of
  \<open>thread.cpp\<close>).  A queue that is \<open>NULL\<close> is \<open>None\<close>.  The handlers of the lists act on the memory and on the
  counter of queue overflows; the other self-monitoring counters are not modelled.  A result \<open>None\<close>
  stands for an access to a list that is \<open>NULL\<close>; \<open>Waits\<close> is the outcome of a call that blocks.
\<close>

section \<open>Flags\<close>

record trace_flags =
  TraceObjectsBufferSize :: nat
  TraceObjectsFuzzyBufferSizes :: bool
  TraceObjectsAsyncIO :: bool
  TraceObjectsCompressTrace :: bool
  TraceObjectsCompressTraceAdaptively :: bool
  TraceObjectsMaxFlushBacklog :: int
  TraceObjectsMaxFreeBuffers :: int
  TraceObjectsEagerFlush :: bool

record world =
  w_mem :: memory
  w_flush_overflows :: nat

text \<open>Code of the C library: \<open>usable\<close> is \<open>malloc_usable_size\<close>, \<open>fuzzy\<close> the random size computed with
  \<open>rand\<close> in floating point arithmetic.\<close>

record libc =
  usable :: "nat \<Rightarrow> nat"
  fuzzy :: "nat \<Rightarrow> nat"

section \<open>Creating and destroying buffers\<close>

definition EventBuffers_create :: "libc \<Rightarrow> trace_flags \<Rightarrow> memory \<Rightarrow> EventBuffer \<times> memory" where
  "EventBuffers_create lib fl m =
    (let buffer_size = TraceObjectsBufferSize fl div jint_size;
         buffer_size = (if TraceObjectsFuzzyBufferSizes fl then fuzzy lib buffer_size else buffer_size);
         buffer_size = max buffer_size MAX_EVENT_SIZE
     in EventBuffer_create (usable lib) buffer_size (\<not> TraceObjectsFuzzyBufferSizes fl) m)"

definition create_event_buffer :: "libc \<Rightarrow> trace_flags \<Rightarrow> world HandleUnderflow" where
  "create_event_buffer lib fl w =
    (case EventBuffers_create lib fl (w_mem w) of (buffer, m) \<Rightarrow> ((True, buffer), w\<lparr>w_mem := m\<rparr>))"

definition destroy_event_buffer :: "world HandleOverflow" where
  "destroy_event_buffer buffer w = (True, w\<lparr>w_mem := snd (EventBuffer_destroy buffer (w_mem w))\<rparr>)"

definition self_monitoring_report_flush_queue_overflow :: "world HandleOverflow" where
  "self_monitoring_report_flush_queue_overflow buffer w = (False, w\<lparr>w_flush_overflows := Suc (w_flush_overflows w)\<rparr>)"

section \<open>The lists\<close>

record EventBuffers =
  flush_queue :: "world EventBufferList option"
  free_list :: "world EventBufferList option"
  compression_queue :: "world EventBufferList option"

definition EventBuffers_init :: "libc \<Rightarrow> trace_flags \<Rightarrow> EventBuffers" where
  "EventBuffers_init lib fl =
    \<lparr>flush_queue = (if TraceObjectsAsyncIO fl
       then Some (EventBufferList_create 1 resize_enabled_preserve_order (TraceObjectsMaxFlushBacklog fl) None
                    (Some self_monitoring_report_flush_queue_overflow)) else None),
     free_list = Some (EventBufferList_create 1 resize_enabled_no_order (TraceObjectsMaxFreeBuffers fl)
       (Some (create_event_buffer lib fl)) (Some destroy_event_buffer)),
     compression_queue = (if TraceObjectsAsyncIO fl
       then Some (EventBufferList_create 1 resize_enabled_preserve_order (TraceObjectsMaxFlushBacklog fl) None None) else None)\<rparr>"

definition EventBuffers_destroy :: "EventBuffers \<Rightarrow> world \<Rightarrow> (EventBuffers \<times> world) option" where
  "EventBuffers_destroy eb w =
    Option.bind (case free_list eb of None \<Rightarrow> Some w | Some l \<Rightarrow> map_option snd (EventBufferList_destroy l w)) (\<lambda>w.
    Option.bind (case flush_queue eb of None \<Rightarrow> Some w | Some l \<Rightarrow> map_option snd (EventBufferList_destroy l w)) (\<lambda>w.
    Option.bind (case compression_queue eb of None \<Rightarrow> Some w | Some l \<Rightarrow> map_option snd (EventBufferList_destroy l w)) (\<lambda>w.
      Some (\<lparr>flush_queue = None, free_list = None, compression_queue = None\<rparr>, w))))"

definition enqueue_to_flush_queue :: "EventBuffers \<Rightarrow> EventBuffer \<Rightarrow> world \<Rightarrow> (enqueue_result \<times> EventBuffers \<times> world) option" where
  "enqueue_to_flush_queue eb buffer w = Option.bind (flush_queue eb) (\<lambda>l.
     map_option (\<lambda>(r, l, w). (r, eb\<lparr>flush_queue := Some l\<rparr>, w)) (EventBufferList_enqueue l buffer w))"

definition dequeue_from_flush_queue :: "EventBuffers \<Rightarrow> world \<Rightarrow> (dequeue_result \<times> EventBuffers \<times> world) option" where
  "dequeue_from_flush_queue eb w = Option.bind (flush_queue eb) (\<lambda>l.
     map_option (\<lambda>(r, l, w). (r, eb\<lparr>flush_queue := Some l\<rparr>, w)) (EventBufferList_dequeue l w))"

definition enqueue_to_compression :: "EventBuffers \<Rightarrow> EventBuffer \<Rightarrow> world \<Rightarrow> (enqueue_result \<times> EventBuffers \<times> world) option" where
  "enqueue_to_compression eb buffer w = Option.bind (compression_queue eb) (\<lambda>l.
     map_option (\<lambda>(r, l, w). (r, eb\<lparr>compression_queue := Some l\<rparr>, w)) (EventBufferList_enqueue l buffer w))"

definition dequeue_from_compression :: "EventBuffers \<Rightarrow> world \<Rightarrow> (dequeue_result \<times> EventBuffers \<times> world) option" where
  "dequeue_from_compression eb w = Option.bind (compression_queue eb) (\<lambda>l.
     map_option (\<lambda>(r, l, w). (r, eb\<lparr>compression_queue := Some l\<rparr>, w)) (EventBufferList_dequeue l w))"

definition peek_from_compression :: "EventBuffers \<Rightarrow> world \<Rightarrow> (dequeue_result \<times> EventBuffers \<times> world) option" where
  "peek_from_compression eb w = Option.bind (compression_queue eb) (\<lambda>l.
     map_option (\<lambda>(r, l, w). (r, eb\<lparr>compression_queue := Some l\<rparr>, w)) (EventBufferList_peek l w))"

definition finalize_compression_queue :: "EventBuffers \<Rightarrow> EventBuffers option" where
  "finalize_compression_queue eb =
    map_option (\<lambda>l. eb\<lparr>compression_queue := Some (EventBufferList_finalize l)\<rparr>) (compression_queue eb)"

definition finalize_flush_queue :: "EventBuffers \<Rightarrow> EventBuffers option" where
  "finalize_flush_queue eb = map_option (\<lambda>l. eb\<lparr>flush_queue := Some (EventBufferList_finalize l)\<rparr>) (flush_queue eb)"

definition enqueue_to_free_list :: "EventBuffers \<Rightarrow> EventBuffer \<Rightarrow> world \<Rightarrow> (enqueue_result \<times> EventBuffers \<times> world) option" where
  "enqueue_to_free_list eb buffer w = Option.bind (free_list eb) (\<lambda>l.
     map_option (\<lambda>(r, l, w). (r, eb\<lparr>free_list := Some l\<rparr>, w)) (EventBufferList_enqueue l buffer w))"

definition dequeue_from_free_list :: "EventBuffers \<Rightarrow> world \<Rightarrow> (dequeue_result \<times> EventBuffers \<times> world) option" where
  "dequeue_from_free_list eb w = Option.bind (free_list eb) (\<lambda>l.
     map_option (\<lambda>(r, l, w). (r, eb\<lparr>free_list := Some l\<rparr>, w)) (EventBufferList_dequeue l w))"

text \<open>\<open>clear_and_add_to_free_list\<close>, and \<open>dequeue_all\<close> with it as the handler.\<close>

definition clear_and_add_to_free_list :: "EventBuffer \<Rightarrow> EventBuffers \<Rightarrow> world \<Rightarrow> (EventBuffers \<times> world) option" where
  "clear_and_add_to_free_list buffer eb w = map_option snd (enqueue_to_free_list eb (EventBuffer_reset buffer) w)"

partial_function (option) EventBuffers_reset_flush_queue :: "EventBuffers \<Rightarrow> world \<Rightarrow> (EventBuffers \<times> world) option" where
  "EventBuffers_reset_flush_queue eb w =
    Option.bind (flush_queue eb) (\<lambda>l.
      if EventBufferList_is_empty l then Some (eb, w)
      else Option.bind (dequeue_from_flush_queue eb w) (\<lambda>(r, eb, w).
        case r of
          Dequeued buffer \<Rightarrow> Option.bind (clear_and_add_to_free_list buffer eb w) (\<lambda>(eb, w). EventBuffers_reset_flush_queue eb w)
        | Not_dequeued \<Rightarrow> Some (eb, w)
        | Dequeue_waits \<Rightarrow> None))"

partial_function (option) EventBuffers_reset_compression :: "EventBuffers \<Rightarrow> world \<Rightarrow> (EventBuffers \<times> world) option" where
  "EventBuffers_reset_compression eb w =
    Option.bind (compression_queue eb) (\<lambda>l.
      if EventBufferList_is_empty l then Some (eb, w)
      else Option.bind (dequeue_from_compression eb w) (\<lambda>(r, eb, w).
        case r of
          Dequeued buffer \<Rightarrow> Option.bind (clear_and_add_to_free_list buffer eb w) (\<lambda>(eb, w). EventBuffers_reset_compression eb w)
        | Not_dequeued \<Rightarrow> Some (eb, w)
        | Dequeue_waits \<Rightarrow> None))"

definition flush_queue_fill_level :: "EventBuffers \<Rightarrow> rat" where
  "flush_queue_fill_level eb = (case flush_queue eb of None \<Rightarrow> 0 | Some l \<Rightarrow> EventBufferList_fill_level l)"

definition compression_fill_level :: "EventBuffers \<Rightarrow> rat" where
  "compression_fill_level eb = (case compression_queue eb of None \<Rightarrow> 0 | Some l \<Rightarrow> EventBufferList_fill_level l)"

section \<open>A thread hands over its buffer\<close>

text \<open>The first half of \<open>Thread::flush_event_buffer\<close>: what happens to the buffer of the thread.\<close>

definition Thread_hand_over :: "trace_flags \<Rightarrow> EventBuffer \<Rightarrow> EventBuffers \<Rightarrow> world \<Rightarrow> AllocationTracingIO
    \<Rightarrow> (enqueue_result \<times> EventBuffers \<times> world \<times> AllocationTracingIO) option" where
  "Thread_hand_over fl event_buffer eb w io =
    (if EventBuffer_is_valid event_buffer then
       if EventBuffer_get_length event_buffer > 0 then
         if TraceObjectsAsyncIO fl then
           if TraceObjectsCompressTrace fl \<or> TraceObjectsCompressTraceAdaptively fl
           then map_option (\<lambda>(r, eb, w). (r, eb, w, io)) (enqueue_to_compression eb event_buffer w)
           else map_option (\<lambda>(r, eb, w). (r, eb, w, io)) (enqueue_to_flush_queue eb event_buffer w)
         else Option.bind (EventsWriter_write_buffer (TraceObjectsEagerFlush fl) (w_mem w) event_buffer io) (\<lambda>(event_buffer, io).
           map_option (\<lambda>(r, eb, w). (r, eb, w, io)) (enqueue_to_free_list eb event_buffer w))
       else map_option (\<lambda>(r, eb, w). (r, eb, w, io)) (enqueue_to_free_list eb (EventBuffer_reset event_buffer) w)
     else Some (Not_enqueued, eb, w, io))"

text \<open>The whole operation; the buffer of the thread afterwards is \<open>None\<close> while the thread is blocked.\<close>

definition Thread_flush_event_buffer :: "trace_flags \<Rightarrow> bool \<Rightarrow> nat \<Rightarrow> EventBuffer \<Rightarrow> EventBuffers \<Rightarrow> world
    \<Rightarrow> AllocationTracingIO \<Rightarrow> (EventBuffer option \<times> EventBuffers \<times> world \<times> AllocationTracingIO) option" where
  "Thread_flush_event_buffer fl get_new this event_buffer eb w io =
    Option.bind (Thread_hand_over fl event_buffer eb w io) (\<lambda>(r, eb, w, io).
      if r = Enqueue_waits then Some (None, eb, w, io)
      else if get_new then Option.bind (dequeue_from_free_list eb w) (\<lambda>(r, eb, w).
        case r of
          Dequeued buffer \<Rightarrow> Some (Some (EventBuffer_set_owner buffer this), eb, w, io)
        | Not_dequeued \<Rightarrow> Some (Some (EventBuffer_set_owner event_buffer this), eb, w, io)
        | Dequeue_waits \<Rightarrow> Some (None, eb, w, io))
      else Some (Some (EventBuffer_set_owner EventBuffer_create_dummy this), eb, w, io))"

section \<open>The free list holds usable buffers\<close>

definition clean :: "EventBuffer \<Rightarrow> bool" where
  "clean b \<longleftrightarrow> eb_top b = 0 \<and> eb_owner b = 0 \<and> eb_sync b = Sync_None \<and> \<not> eb_is_compressed b"

lemma reset_clean [simp]: "clean (EventBuffer_reset b)"
  by (simp add: clean_def EventBuffer_reset_def)

lemma reset_bottom [simp]: "eb_bottom (EventBuffer_reset b) = eb_bottom b"
  by (simp add: EventBuffer_reset_def)

definition pool_list :: "libc \<Rightarrow> trace_flags \<Rightarrow> world EventBufferList \<Rightarrow> EventBuffer list \<Rightarrow> memory \<Rightarrow> bool" where
  "pool_list lib fl l xs m \<longleftrightarrow> ring_rel l xs \<and> bl_underflow l = Some (create_event_buffer lib fl)
     \<and> bl_overflow l = Some destroy_event_buffer \<and> \<not> bl_finalized l \<and> memory_ok m
     \<and> distinct (map eb_bottom xs) \<and> (\<forall>b \<in> set xs. buffer_ok m b \<and> clean b)"

definition pool_holds :: "libc \<Rightarrow> trace_flags \<Rightarrow> EventBuffers \<Rightarrow> world \<Rightarrow> EventBuffer list \<Rightarrow> bool" where
  "pool_holds lib fl eb w xs \<longleftrightarrow> (\<exists>l. free_list eb = Some l \<and> pool_list lib fl l xs (w_mem w))"

definition pool_ok :: "libc \<Rightarrow> trace_flags \<Rightarrow> EventBuffers \<Rightarrow> world \<Rightarrow> nat set \<Rightarrow> bool" where
  "pool_ok lib fl eb w blocks \<longleftrightarrow> (\<exists>xs. pool_holds lib fl eb w xs \<and> eb_bottom ` set xs = blocks)"

lemma memory_ok_free: "memory_ok m \<Longrightarrow> memory_ok (free m b)"
  by (auto simp: memory_ok_def free_def)

lemma buffer_ok_free: "buffer_ok m c \<Longrightarrow> eb_bottom c \<noteq> b \<Longrightarrow> buffer_ok (free m b) c"
  by (simp add: buffer_ok_def free_def)

lemma holds_init: "memory_ok (w_mem w) \<Longrightarrow> pool_holds lib fl (EventBuffers_init lib fl) w []"
  using ring_create [of 1 resize_enabled_no_order "TraceObjectsMaxFreeBuffers fl" "Some (create_event_buffer lib fl)"
      "Some destroy_event_buffer"]
  by (auto simp: pool_holds_def pool_list_def EventBuffers_init_def EventBufferList_create_def Let_def)

lemma pool_init: "memory_ok (w_mem w) \<Longrightarrow> pool_ok lib fl (EventBuffers_init lib fl) w {}"
  using holds_init [of w lib fl] by (auto simp: pool_ok_def)

text \<open>Putting a buffer back never blocks: it is kept, or destroyed when the list is full.  No other block of the
  memory changes.\<close>

lemma holds_put:
  assumes "pool_holds lib fl eb w xs" and "buffer_ok (w_mem w) b" and "clean b" and "eb_bottom b \<notin> eb_bottom ` set xs"
  shows "\<exists>r eb' w' xs'. enqueue_to_free_list eb b w = Some (r, eb', w') \<and> r \<noteq> Enqueue_waits
    \<and> pool_holds lib fl eb' w' xs' \<and> set xs' \<subseteq> insert b (set xs)
    \<and> mem_last_id (w_mem w') = mem_last_id (w_mem w)
    \<and> (\<forall>k. k \<noteq> eb_bottom b \<longrightarrow> mem_block (w_mem w') k = mem_block (w_mem w) k)
    \<and> flush_queue eb' = flush_queue eb \<and> compression_queue eb' = compression_queue eb"
proof -
  from assms(1) obtain l where l: "free_list eb = Some l" "ring_rel l xs" "bl_underflow l = Some (create_event_buffer lib fl)"
    "bl_overflow l = Some destroy_event_buffer" "\<not> bl_finalized l" "memory_ok (w_mem w)"
    "distinct (map eb_bottom xs)" "\<forall>b \<in> set xs. buffer_ok (w_mem w) b \<and> clean b"
    by (auto simp: pool_holds_def pool_list_def)
  have kept: ?thesis if e: "EventBufferList_enqueue l b w = Some (Enqueued, l', w)" "ring_rel l' (ys @ [b])" "mset ys = mset xs"
    "same_config l l'" for l' ys
  proof -
    have set: "set ys = set xs" using e(3) by (metis set_mset_mset)
    have "distinct (map eb_bottom ys)" using l(7) e(3) by (metis mset_eq_imp_distinct_iff mset_map)
    with l e assms(2-4) have "pool_list lib fl l' (ys @ [b]) (w_mem w)"
      by (auto simp: pool_list_def same_config_def set)
    then have "pool_holds lib fl (eb\<lparr>free_list := Some l'\<rparr>) w (ys @ [b])" by (simp add: pool_holds_def)
    then show ?thesis using e(1) l(1) set by (auto simp: enqueue_to_free_list_def intro!: exI [of _ "ys @ [b]"])
  qed
  have int: "int (length xs) \<le> bl_capacity l" using ring_capacity [OF l(2)] by simp
  then consider "int (length xs) < bl_capacity l" | "int (length xs) = bl_capacity l" "can_grow l"
    | "int (length xs) = bl_capacity l" "\<not> can_grow l" by linarith
  then show ?thesis
  proof cases
    case 1
    with enqueue_room [OF l(2,5), of b w] kept [of _ xs] show ?thesis by blast
  next
    case 2
    with enqueue_grow [OF l(2,5), of b w] kept show ?thesis by blast
  next
    case 3
    then have "EventBufferList_enqueue l b w = Some (Not_enqueued, l, snd (destroy_event_buffer b w))"
      using l(2,4,5) by (subst EventBufferList_enqueue.simps) (auto simp: ring_full can_grow_def destroy_event_buffer_def)
    moreover have "\<forall>x \<in> set xs. eb_bottom x \<noteq> eb_bottom b" using assms(4) by (metis imageI)
    then have "pool_holds lib fl (eb\<lparr>free_list := Some l\<rparr>) (snd (destroy_event_buffer b w)) xs"
      using l unfolding pool_holds_def pool_list_def
      by (intro exI [of _ l]) (auto simp: destroy_event_buffer_def EventBuffer_destroy_def memory_ok_free intro!: buffer_ok_free)
    ultimately show ?thesis using l(1)
      by (auto simp: enqueue_to_free_list_def destroy_event_buffer_def EventBuffer_destroy_def free_def intro!: exI [of _ xs])
  qed
qed

lemma pool_put:
  assumes "pool_ok lib fl eb w blocks" and "buffer_ok (w_mem w) b" and "clean b" and "eb_bottom b \<notin> blocks"
  shows "\<exists>r eb' w' blocks'. enqueue_to_free_list eb b w = Some (r, eb', w') \<and> r \<noteq> Enqueue_waits
    \<and> pool_ok lib fl eb' w' blocks' \<and> mem_last_id (w_mem w') = mem_last_id (w_mem w)
    \<and> flush_queue eb' = flush_queue eb \<and> compression_queue eb' = compression_queue eb"
proof -
  from assms(1) obtain xs where "pool_holds lib fl eb w xs" "eb_bottom ` set xs = blocks" by (auto simp: pool_ok_def)
  with holds_put [OF this(1) assms(2,3)] assms(4) show ?thesis unfolding pool_ok_def by blast
qed

definition libc_ok :: "libc \<Rightarrow> bool" where
  "libc_ok lib \<longleftrightarrow> (\<forall>k. k \<le> usable lib k)"

text \<open>Taking a buffer never blocks: it is one of the list, or a new one.\<close>

lemma holds_get:
  assumes "pool_holds lib fl eb w xs" and "libc_ok lib" and "0 \<le> sint (mem_last_id (w_mem w))"
    and "sint (mem_last_id (w_mem w)) < 2 ^ 31 - 1"
  shows "\<exists>b eb' w' xs'. dequeue_from_free_list eb w = Some (Dequeued b, eb', w') \<and> buffer_ok (w_mem w') b \<and> clean b
    \<and> pool_holds lib fl eb' w' xs' \<and> set xs' \<subseteq> set xs \<and> eb_bottom b \<notin> eb_bottom ` set xs'
    \<and> (b \<in> set xs \<and> w' = w \<or> xs = [] \<and> (b, w_mem w') = EventBuffers_create lib fl (w_mem w))
    \<and> flush_queue eb' = flush_queue eb \<and> compression_queue eb' = compression_queue eb"
proof -
  from assms(1) obtain l where l: "free_list eb = Some l" "ring_rel l xs" "bl_underflow l = Some (create_event_buffer lib fl)"
    "bl_overflow l = Some destroy_event_buffer" "\<not> bl_finalized l" "memory_ok (w_mem w)"
    "distinct (map eb_bottom xs)" "\<forall>b \<in> set xs. buffer_ok (w_mem w) b \<and> clean b"
    by (auto simp: pool_holds_def pool_list_def)
  show ?thesis
  proof (cases xs)
    case Nil
    obtain b m' where c: "EventBuffers_create lib fl (w_mem w) = (b, m')" by (cases "EventBuffers_create lib fl (w_mem w)")
    then have c': "\<exists>n exact. EventBuffer_create (usable lib) n exact (w_mem w) = (b, m')"
      unfolding EventBuffers_create_def Let_def by blast
    then obtain n exact where c'': "EventBuffer_create (usable lib) n exact (w_mem w) = (b, m')" by blast
    have u: "\<And>k. k \<le> usable lib k" using assms(2) by (simp add: libc_ok_def)
    note ok = create_ok [OF c'' l(6) assms(3,4) u]
    have cl: "clean b" using c'' by (auto simp: EventBuffer_create_def clean_def Let_def split: prod.splits)
    have "dequeue_from_free_list eb w = Some (Dequeued b, eb\<lparr>free_list := Some l\<rparr>, w\<lparr>w_mem := m'\<rparr>)"
      using l Nil c by (simp add: dequeue_from_free_list_def EventBufferList_dequeue_def ring_empty create_event_buffer_def)
    moreover have "pool_holds lib fl (eb\<lparr>free_list := Some l\<rparr>) (w\<lparr>w_mem := m'\<rparr>) []"
      using l Nil ok(2) by (auto simp: pool_holds_def pool_list_def)
    ultimately show ?thesis using ok(1) cl c Nil by (auto intro!: exI [of _ "[]"])
  next
    case (Cons x ys)
    from l(2) Cons have "EventBufferList_dequeue l w = Some (Dequeued x, EventBufferList_remove_front l, w)"
      using l(5) by (simp add: EventBufferList_dequeue_def ring_empty ring_front)
    moreover have "pool_holds lib fl (eb\<lparr>free_list := Some (EventBufferList_remove_front l)\<rparr>) w ys"
      using l Cons ring_remove_front [of l x ys] same_config_remove_front [of l]
      by (auto simp: pool_holds_def pool_list_def same_config_def)
    ultimately show ?thesis using l(1,7,8) Cons by (auto simp: dequeue_from_free_list_def intro!: exI [of _ ys])
  qed
qed

lemma pool_get:
  assumes "pool_ok lib fl eb w blocks" and "libc_ok lib" and "0 \<le> sint (mem_last_id (w_mem w))"
    and "sint (mem_last_id (w_mem w)) < 2 ^ 31 - 1"
  shows "\<exists>b eb' w' blocks'. dequeue_from_free_list eb w = Some (Dequeued b, eb', w') \<and> buffer_ok (w_mem w') b \<and> clean b
    \<and> pool_ok lib fl eb' w' blocks' \<and> eb_bottom b \<notin> blocks'
    \<and> flush_queue eb' = flush_queue eb \<and> compression_queue eb' = compression_queue eb"
proof -
  from assms(1) obtain xs where "pool_holds lib fl eb w xs" by (auto simp: pool_ok_def)
  from holds_get [OF this assms(2-4)] show ?thesis unfolding pool_ok_def by blast
qed

section \<open>A thread always gets a usable buffer\<close>

definition queue_ok :: "world EventBufferList \<Rightarrow> bool" where
  "queue_ok l \<longleftrightarrow> (\<exists>xs. queue_rel l xs) \<and> (bl_overflow l = None \<or> bl_overflow l = Some self_monitoring_report_flush_queue_overflow)"

definition queues_ok :: "trace_flags \<Rightarrow> EventBuffers \<Rightarrow> bool" where
  "queues_ok fl eb \<longleftrightarrow> (TraceObjectsAsyncIO fl \<longrightarrow>
     (\<exists>l. flush_queue eb = Some l \<and> queue_ok l) \<and> (\<exists>l. compression_queue eb = Some l \<and> queue_ok l))"

lemma queues_init: "queues_ok fl (EventBuffers_init lib fl)"
  using ring_create [of 1 resize_enabled_preserve_order "TraceObjectsMaxFlushBacklog fl" "None :: world HandleUnderflow option"]
  by (auto simp: queues_ok_def queue_ok_def EventBuffers_init_def queue_rel_def ordered_def EventBufferList_create_def Let_def)

lemma enqueue_resized:
  assumes "\<not> bl_finalized l" and "EventBufferList_is_full l" and "can_grow l"
  shows "EventBufferList_enqueue l b w = EventBufferList_enqueue
    (EventBufferList_resize_to l (bl_capacity l * 2) (bl_resize_mode l = resize_enabled_preserve_order)) b w"
  using assms by (subst EventBufferList_enqueue.simps) (simp add: can_grow_def)

lemma queue_enqueue:
  assumes "queue_ok l"
  shows "\<exists>r l' w'. EventBufferList_enqueue l b w = Some (r, l', w') \<and> queue_ok l' \<and> w_mem w' = w_mem w"
proof -
  from assms obtain xs where xs: "queue_rel l xs" "bl_overflow l = None \<or> bl_overflow l = Some self_monitoring_report_flush_queue_overflow"
    by (auto simp: queue_ok_def)
  then have rel: "ring_rel l xs" "ordered l" by (auto simp: queue_rel_def)
  consider (room) "\<not> bl_finalized l" "int (length xs) < bl_capacity l"
    | (grow) "\<not> bl_finalized l" "int (length xs) = bl_capacity l" "can_grow l"
    | (blocked) "bl_finalized l \<or> int (length xs) = bl_capacity l \<and> \<not> can_grow l"
    using ring_capacity [OF rel(1)] by linarith
  then show ?thesis
  proof cases
    case room
    from enqueue_room [OF rel(1) this, of b w] obtain l' where
      "EventBufferList_enqueue l b w = Some (Enqueued, l', w)" "ring_rel l' (xs @ [b])" "same_config l l'" by blast
    with xs queue_rel_config [OF xs(1)] show ?thesis by (auto simp: queue_ok_def same_config_def)
  next
    case grow
    from enqueue_grow [OF rel(1) this, of b w] rel(2) obtain l' where
      "EventBufferList_enqueue l b w = Some (Enqueued, l', w)" "ring_rel l' (xs @ [b])" "same_config l l'" by blast
    with xs queue_rel_config [OF xs(1)] show ?thesis by (auto simp: queue_ok_def same_config_def)
  next
    case blocked
    then have "\<exists>r w'. EventBufferList_enqueue l b w = Some (r, l, w') \<and> w_mem w' = w_mem w"
      using rel(1) xs(2) by (subst EventBufferList_enqueue.simps)
        (auto simp: ring_full can_grow_def self_monitoring_report_flush_queue_overflow_def)
    with assms show ?thesis by blast
  qed
qed

definition usable_buffer :: "memory \<Rightarrow> nat \<Rightarrow> EventBuffer \<Rightarrow> bool" where
  "usable_buffer m t b \<longleftrightarrow> buffer_ok m b \<and> EventBuffer_get_length b = 0 \<and> eb_owner b = t \<and> eb_sync b = Sync_None
     \<and> \<not> eb_is_compressed b"

lemma hand_over_ok:
  assumes "pool_ok lib fl eb w blocks" and "queues_ok fl eb" and "buffer_ok (w_mem w) b" and "eb_bottom b \<notin> blocks"
    and "open_content io \<noteq> None"
  shows "\<exists>r eb' w' io' blocks'. Thread_hand_over fl b eb w io = Some (r, eb', w', io') \<and> pool_ok lib fl eb' w' blocks'
    \<and> queues_ok fl eb' \<and> mem_last_id (w_mem w') = mem_last_id (w_mem w) \<and> (r = Enqueue_waits \<longrightarrow> TraceObjectsAsyncIO fl)"
proof -
  have valid: "EventBuffer_is_valid b" by (rule buffer_okD [OF assms(3)])
  have put: "\<exists>r eb' w' blocks'. enqueue_to_free_list eb (EventBuffer_reset b) w = Some (r, eb', w') \<and> r \<noteq> Enqueue_waits
    \<and> pool_ok lib fl eb' w' blocks' \<and> queues_ok fl eb' \<and> mem_last_id (w_mem w') = mem_last_id (w_mem w)"
  proof -
    from pool_put [OF assms(1) reset_ok [OF assms(3)]] assms(4) obtain r eb' w' blocks' where
      p: "enqueue_to_free_list eb (EventBuffer_reset b) w = Some (r, eb', w')" "r \<noteq> Enqueue_waits" "pool_ok lib fl eb' w' blocks'"
      "mem_last_id (w_mem w') = mem_last_id (w_mem w)" "flush_queue eb' = flush_queue eb"
      "compression_queue eb' = compression_queue eb" by auto
    with assms(2) show ?thesis by (auto simp: queues_ok_def)
  qed
  show ?thesis
  proof (cases "EventBuffer_get_length b > 0")
    case False
    with put valid show ?thesis by (auto simp: Thread_hand_over_def)
  next
    case len: True
    show ?thesis
    proof (cases "TraceObjectsAsyncIO fl")
      case False
      from assms(5) obtain bs where "open_content io = Some bs" by blast
      from write_buffer_content [OF this assms(3), of "TraceObjectsEagerFlush fl"] obtain io' where
        "EventsWriter_write_buffer (TraceObjectsEagerFlush fl) (w_mem w) b io = Some (EventBuffer_reset b, io')" by blast
      with put valid len False show ?thesis by (auto simp: Thread_hand_over_def)
    next
      case True
      with assms(2) obtain fq cq where q: "flush_queue eb = Some fq" "queue_ok fq" "compression_queue eb = Some cq" "queue_ok cq"
        by (auto simp: queues_ok_def)
      have "\<exists>r eb' w'. enqueue_to_compression eb b w = Some (r, eb', w') \<and> queues_ok fl eb' \<and> w_mem w' = w_mem w
          \<and> free_list eb' = free_list eb"
        using queue_enqueue [OF q(4), of b w] q by (auto simp: enqueue_to_compression_def queues_ok_def)
      moreover have "\<exists>r eb' w'. enqueue_to_flush_queue eb b w = Some (r, eb', w') \<and> queues_ok fl eb' \<and> w_mem w' = w_mem w
          \<and> free_list eb' = free_list eb"
        using queue_enqueue [OF q(2), of b w] q by (auto simp: enqueue_to_flush_queue_def queues_ok_def)
      ultimately show ?thesis using True valid len assms(1)
        by (fastforce simp: Thread_hand_over_def pool_ok_def pool_holds_def)
    qed
  qed
qed

lemma flush_usable:
  assumes "pool_ok lib fl eb w blocks" and "queues_ok fl eb" and "buffer_ok (w_mem w) b" and "eb_bottom b \<notin> blocks"
    and "open_content io \<noteq> None" and "libc_ok lib" and "0 \<le> sint (mem_last_id (w_mem w))"
    and "sint (mem_last_id (w_mem w)) < 2 ^ 31 - 1"
  shows "\<exists>r eb' w' io' blocks'. Thread_flush_event_buffer fl True this b eb w io = Some (r, eb', w', io')
    \<and> pool_ok lib fl eb' w' blocks' \<and> queues_ok fl eb'
    \<and> (case r of None \<Rightarrow> TraceObjectsAsyncIO fl | Some b' \<Rightarrow> usable_buffer (w_mem w') this b' \<and> eb_bottom b' \<notin> blocks')"
proof -
  from hand_over_ok [OF assms(1-5)] obtain r eb1 w1 io1 bl1 where 1: "Thread_hand_over fl b eb w io = Some (r, eb1, w1, io1)"
    "pool_ok lib fl eb1 w1 bl1" "queues_ok fl eb1" "mem_last_id (w_mem w1) = mem_last_id (w_mem w)"
    "r = Enqueue_waits \<longrightarrow> TraceObjectsAsyncIO fl" by blast
  show ?thesis
  proof (cases "r = Enqueue_waits")
    case True
    with 1 show ?thesis by (auto simp: Thread_flush_event_buffer_def)
  next
    case False
    from pool_get [OF 1(2) assms(6)] assms(7,8) 1(4) obtain b2 eb2 w2 bl2 where
      2: "dequeue_from_free_list eb1 w1 = Some (Dequeued b2, eb2, w2)" "buffer_ok (w_mem w2) b2" "clean b2"
      "pool_ok lib fl eb2 w2 bl2" "eb_bottom b2 \<notin> bl2" "flush_queue eb2 = flush_queue eb1"
      "compression_queue eb2 = compression_queue eb1" by auto
    have "usable_buffer (w_mem w2) this (EventBuffer_set_owner b2 this)"
      using set_owner_ok [OF 2(2), of this] 2(3)
      by (simp add: usable_buffer_def clean_def EventBuffer_set_owner_def EventBuffer_get_length_def)
    with 1 2 False show ?thesis by (auto simp: Thread_flush_event_buffer_def queues_ok_def EventBuffer_set_owner_def)
  qed
qed

section \<open>Correctness of the hand-over\<close>



end
