(* ===== verification/Pipeline.thy ===== *)
theory Pipeline
  imports EventBuffers
begin

text \<open>
  The concurrent part of the tracing: threads hand event buffers to the compression queue
  (\<open>Thread::flush_event_buffer\<close>), compression threads take them, compress them and put them into the
  flush queue (\<open>CompressionThread::run\<close>), and the worker writes them (\<open>EventsWorkerThread::run\<close>), all in
  \<open>thread.cpp\<close>.  A state holds the queues and, for every thread, its program counter with its local
  variables; a step is one access to a shared object under its lock.  The queues are the first-in
  first-out queues that the event buffer lists refine; a call that blocks is a step that cannot be
  taken yet.  The decision whether to compress depends on time measurements and is left open, and so
  is whether the free list keeps or destroys a buffer.

  A buffer in flight carries the number of its hand-over, which is not part of the program.
\<close>

section \<open>State\<close>

record chunk =
  ch_seq :: nat
  ch_buffer :: EventBuffer

abbreviation ch_owner :: "chunk \<Rightarrow> nat" where
  "ch_owner c \<equiv> eb_owner (ch_buffer c)"

text \<open>The points of \<open>CompressionThread::run\<close> between accesses to shared objects.\<close>

datatype ct_pc =
    CT_created                        \<comment> \<open>constructed, not yet in the loop\<close>
  | CT_loop                           \<comment> \<open>\<open>idle = true\<close>, before the critical section\<close>
  | CT_peek                           \<comment> \<open>in the critical section, \<open>idle = false\<close>\<close>
  | CT_peek_waits                     \<comment> \<open>in the critical section, waiting in \<open>peek\<close>, \<open>idle = true\<close>\<close>
  | CT_peeked chunk                   \<comment> \<open>an ordinary buffer was peeked\<close>
  | CT_claimed chunk                  \<comment> \<open>\<open>add_thread_in_process\<close> returned true\<close>
  | CT_sync nat                       \<comment> \<open>master: a sync buffer was peeked, looking at the thread with this index\<close>
  | CT_sync_dequeued chunk            \<comment> \<open>master: took the sync buffer from the queue\<close>
  | CT_process chunk                  \<comment> \<open>left the critical section with a buffer\<close>
  | CT_compress chunk EventBuffer     \<comment> \<open>with a buffer of the free list for the result\<close>
  | CT_emit chunk "EventBuffer option" \<comment> \<open>to be put into the flush queue, the other buffer to be freed\<close>
  | CT_recycle EventBuffer nat        \<comment> \<open>to be put into the free list, then release the owner\<close>
  | CT_release nat                    \<comment> \<open>before \<open>remove_thread_in_process\<close>\<close>
  | CT_stopped                        \<comment> \<open>the compression queue is finalized\<close>

datatype worker_pc =
    W_created
  | W_dequeue                         \<comment> \<open>\<open>idle = false\<close>\<close>
  | W_waits                           \<comment> \<open>waiting in \<open>dequeue\<close>, \<open>idle = true\<close>\<close>
  | W_write chunk
  | W_recycle EventBuffer
  | W_stopped

record pipe =
  p_handed :: "chunk list"            \<comment> \<open>what was put into the compression queue, in order\<close>
  p_cq :: "chunk list"                \<comment> \<open>the compression queue\<close>
  p_cq_final :: bool
  p_fq :: "chunk list"                \<comment> \<open>the flush queue\<close>
  p_fq_final :: bool
  p_written :: "chunk list"           \<comment> \<open>the trace file\<close>
  p_free :: "EventBuffer list"
  p_local :: "nat \<Rightarrow> EventBuffer option"  \<comment> \<open>\<open>_event_buffer\<close> of a thread, \<open>None\<close> inside of the flush\<close>
  p_ct :: "nat \<Rightarrow> ct_pc"
  p_in_process :: "nat list"          \<comment> \<open>\<open>in_process[0]\<close> to \<open>in_process[nOfProcesses - 1]\<close>\<close>
  p_worker :: worker_pc

fun in_critical :: "ct_pc \<Rightarrow> bool" where
  "in_critical CT_peek = True"
| "in_critical CT_peek_waits = True"
| "in_critical (CT_peeked c) = True"
| "in_critical (CT_claimed c) = True"
| "in_critical (CT_sync i) = True"
| "in_critical (CT_sync_dequeued c) = True"
| "in_critical _ = False"

text \<open>The flag \<open>idle\<close> of a compression thread and of the worker.\<close>

fun is_Idle :: "ct_pc \<Rightarrow> bool" where
  "is_Idle CT_loop = True"
| "is_Idle CT_peek_waits = True"
| "is_Idle _ = False"

fun is_idle :: "worker_pc \<Rightarrow> bool" where
  "is_idle W_waits = True"
| "is_idle _ = False"

section \<open>The owners in process\<close>

definition add_thread_in_process :: "nat \<Rightarrow> nat list \<Rightarrow> bool \<times> nat list" where
  "add_thread_in_process thread in_process =
    (if thread \<in> set in_process then (False, in_process) else (True, in_process @ [thread]))"

text \<open>The last owner takes the place of the removed one.\<close>

fun remove_thread_in_process :: "nat \<Rightarrow> nat list \<Rightarrow> bool \<times> nat list" where
  "remove_thread_in_process thread [] = (False, [])"
| "remove_thread_in_process thread (t # ts) =
    (if t = thread then (True, if ts = [] then [] else last ts # butlast ts)
     else map_prod id (Cons t) (remove_thread_in_process thread ts))"

section \<open>Steps\<close>

definition set_ct :: "pipe \<Rightarrow> nat \<Rightarrow> ct_pc \<Rightarrow> pipe" where
  "set_ct s i pc = s\<lparr>p_ct := (p_ct s)(i := pc)\<rparr>"

text \<open>Threads that produce events.  The buffer is filled by \<open>EventBuffer_allocate\<close>, marked for
  synchronization, handed over, and replaced by one of the free list or by the dummy.\<close>

inductive thread_step :: "pipe \<Rightarrow> pipe \<Rightarrow> bool" where
  fill: "p_local s t = Some b \<Longrightarrow> EventBuffer_allocate b n = (p, b') \<Longrightarrow>
    thread_step s (s\<lparr>p_local := (p_local s)(t \<mapsto> b')\<rparr>)"
| mark: "p_local s t = Some b \<Longrightarrow> thread_step s (s\<lparr>p_local := (p_local s)(t \<mapsto> b\<lparr>eb_sync := y\<rparr>)\<rparr>)"
| hand_over: "p_local s t = Some b \<Longrightarrow> EventBuffer_is_valid b \<Longrightarrow> EventBuffer_get_length b > 0 \<Longrightarrow> \<not> p_cq_final s \<Longrightarrow>
    c = \<lparr>ch_seq = length (p_handed s), ch_buffer = b\<rparr> \<Longrightarrow>
    thread_step s (s\<lparr>p_local := (p_local s)(t := None), p_handed := p_handed s @ [c], p_cq := p_cq s @ [c]\<rparr>)"
| return_empty: "p_local s t = Some b \<Longrightarrow> EventBuffer_is_valid b \<Longrightarrow> EventBuffer_get_length b = 0 \<Longrightarrow>
    free' = p_free s \<or> free' = p_free s @ [EventBuffer_reset b] \<Longrightarrow>
    thread_step s (s\<lparr>p_local := (p_local s)(t := None), p_free := free'\<rparr>)"
| drop_dummy: "p_local s t = Some b \<Longrightarrow> \<not> EventBuffer_is_valid b \<Longrightarrow> thread_step s (s\<lparr>p_local := (p_local s)(t := None)\<rparr>)"
| get_free: "p_local s t = None \<Longrightarrow> p_free s = us @ b # vs \<Longrightarrow>
    thread_step s (s\<lparr>p_local := (p_local s)(t \<mapsto> EventBuffer_set_owner b t), p_free := us @ vs\<rparr>)"
| get_created: "p_local s t = None \<Longrightarrow> clean b \<Longrightarrow> EventBuffer_is_valid b \<Longrightarrow>
    thread_step s (s\<lparr>p_local := (p_local s)(t \<mapsto> EventBuffer_set_owner b t)\<rparr>)"
| get_dummy: "p_local s t = None \<Longrightarrow>
    thread_step s (s\<lparr>p_local := (p_local s)(t \<mapsto> EventBuffer_set_owner EventBuffer_create_dummy t)\<rparr>)"

text \<open>Compression thread \<open>i\<close> of \<open>n\<close>; thread 0 is the master.\<close>

inductive ct_step :: "nat \<Rightarrow> nat \<Rightarrow> pipe \<Rightarrow> pipe \<Rightarrow> bool" for n i where
  start: "p_ct s i = CT_created \<Longrightarrow> ct_step n i s (set_ct s i CT_loop)"
| enter: "p_ct s i = CT_loop \<Longrightarrow> \<forall>j < n. \<not> in_critical (p_ct s j) \<Longrightarrow> ct_step n i s (set_ct s i CT_peek)"
| peek_wait: "p_ct s i = CT_peek \<Longrightarrow> p_cq s = [] \<Longrightarrow> \<not> p_cq_final s \<Longrightarrow> ct_step n i s (set_ct s i CT_peek_waits)"
| peek_final: "p_ct s i = CT_peek \<or> p_ct s i = CT_peek_waits \<Longrightarrow> p_cq_final s \<Longrightarrow> ct_step n i s (set_ct s i CT_stopped)"
| peek_sync_master: "p_ct s i = CT_peek \<or> p_ct s i = CT_peek_waits \<Longrightarrow> \<not> p_cq_final s \<Longrightarrow> p_cq s = c # cs \<Longrightarrow>
    eb_sync (ch_buffer c) \<noteq> Sync_None \<Longrightarrow> i = 0 \<Longrightarrow> ct_step n i s (set_ct s i (CT_sync 0))"
| peek_sync_other: "p_ct s i = CT_peek \<or> p_ct s i = CT_peek_waits \<Longrightarrow> \<not> p_cq_final s \<Longrightarrow> p_cq s = c # cs \<Longrightarrow>
    eb_sync (ch_buffer c) \<noteq> Sync_None \<Longrightarrow> i \<noteq> 0 \<Longrightarrow> ct_step n i s (set_ct s i CT_loop)"
| peek: "p_ct s i = CT_peek \<or> p_ct s i = CT_peek_waits \<Longrightarrow> \<not> p_cq_final s \<Longrightarrow> p_cq s = c # cs \<Longrightarrow>
    eb_sync (ch_buffer c) = Sync_None \<Longrightarrow> ct_step n i s (set_ct s i (CT_peeked c))"
| claim: "p_ct s i = CT_peeked c \<Longrightarrow> add_thread_in_process (ch_owner c) (p_in_process s) = (True, ts) \<Longrightarrow>
    ct_step n i s (set_ct (s\<lparr>p_in_process := ts\<rparr>) i (CT_claimed c))"
| claim_fails: "p_ct s i = CT_peeked c \<Longrightarrow> add_thread_in_process (ch_owner c) (p_in_process s) = (False, ts) \<Longrightarrow>
    ct_step n i s (set_ct s i CT_loop)"
| dequeue: "p_ct s i = CT_claimed c' \<Longrightarrow> p_cq s = c # cs \<Longrightarrow> ct_step n i s (set_ct (s\<lparr>p_cq := cs\<rparr>) i (CT_process c))"
| sync_wait: "p_ct s i = CT_sync j \<Longrightarrow> j < n \<Longrightarrow> j = i \<or> is_Idle (p_ct s j) \<Longrightarrow> ct_step n i s (set_ct s i (CT_sync (Suc j)))"
| sync_dequeue: "p_ct s i = CT_sync n \<Longrightarrow> p_cq s = c # cs \<Longrightarrow>
    ct_step n i s (set_ct (s\<lparr>p_cq := cs\<rparr>) i (CT_sync_dequeued c))"
| sync_emit: "p_ct s i = CT_sync_dequeued c \<Longrightarrow> \<not> p_fq_final s \<Longrightarrow>
    ct_step n i s (set_ct (s\<lparr>p_fq := p_fq s @ [c]\<rparr>) i CT_loop)"
| process_empty: "p_ct s i = CT_process c \<Longrightarrow> EventBuffer_get_length (ch_buffer c) = 0 \<Longrightarrow>
    ct_step n i s (set_ct s i (CT_recycle (EventBuffer_reset (ch_buffer c)) (ch_owner c)))"
| process_plain: "p_ct s i = CT_process c \<Longrightarrow> EventBuffer_get_length (ch_buffer c) > 0 \<Longrightarrow>
    ct_step n i s (set_ct s i (CT_emit c None))"
| process_free: "p_ct s i = CT_process c \<Longrightarrow> EventBuffer_get_length (ch_buffer c) > 0 \<Longrightarrow> p_free s = us @ b # vs \<Longrightarrow>
    ct_step n i s (set_ct (s\<lparr>p_free := us @ vs\<rparr>) i
      (CT_compress c ((EventBuffer_set_owner b (ch_owner c))\<lparr>eb_sync := eb_sync (ch_buffer c)\<rparr>)))"
| process_created: "p_ct s i = CT_process c \<Longrightarrow> EventBuffer_get_length (ch_buffer c) > 0 \<Longrightarrow> clean b \<Longrightarrow> EventBuffer_is_valid b \<Longrightarrow>
    ct_step n i s (set_ct s i (CT_compress c ((EventBuffer_set_owner b (ch_owner c))\<lparr>eb_sync := eb_sync (ch_buffer c)\<rparr>)))"
| compressed: "p_ct s i = CT_compress c b \<Longrightarrow>
    ct_step n i s (set_ct s i (CT_emit (c\<lparr>ch_buffer := EventBuffer_set_compression b k\<rparr>) (Some (EventBuffer_reset (ch_buffer c)))))"
| not_compressed: "p_ct s i = CT_compress c b \<Longrightarrow> ct_step n i s (set_ct s i (CT_emit c (Some (EventBuffer_reset b))))"
| emit: "p_ct s i = CT_emit c r \<Longrightarrow> \<not> p_fq_final s \<Longrightarrow>
    ct_step n i s (set_ct (s\<lparr>p_fq := p_fq s @ [c]\<rparr>) i
      (case r of None \<Rightarrow> CT_release (ch_owner c) | Some b \<Rightarrow> CT_recycle b (ch_owner c)))"
| recycle: "p_ct s i = CT_recycle b t \<Longrightarrow> free' = p_free s \<or> free' = p_free s @ [b] \<Longrightarrow>
    ct_step n i s (set_ct (s\<lparr>p_free := free'\<rparr>) i (CT_release t))"
| release: "p_ct s i = CT_release t \<Longrightarrow> remove_thread_in_process t (p_in_process s) = (r, ts) \<Longrightarrow>
    ct_step n i s (set_ct (s\<lparr>p_in_process := ts\<rparr>) i CT_loop)"

inductive worker_step :: "pipe \<Rightarrow> pipe \<Rightarrow> bool" where
  w_start: "p_worker s = W_created \<Longrightarrow> worker_step s (s\<lparr>p_worker := W_dequeue\<rparr>)"
| w_wait: "p_worker s = W_dequeue \<Longrightarrow> p_fq s = [] \<Longrightarrow> \<not> p_fq_final s \<Longrightarrow> worker_step s (s\<lparr>p_worker := W_waits\<rparr>)"
| w_final: "p_worker s = W_dequeue \<or> p_worker s = W_waits \<Longrightarrow> p_fq_final s \<Longrightarrow> worker_step s (s\<lparr>p_worker := W_stopped\<rparr>)"
| w_dequeue: "p_worker s = W_dequeue \<or> p_worker s = W_waits \<Longrightarrow> \<not> p_fq_final s \<Longrightarrow> p_fq s = c # cs \<Longrightarrow>
    worker_step s (s\<lparr>p_worker := W_write c, p_fq := cs\<rparr>)"
| w_write: "p_worker s = W_write c \<Longrightarrow>
    worker_step s (s\<lparr>p_worker := W_recycle (EventBuffer_reset (ch_buffer c)), p_written := p_written s @ [c]\<rparr>)"
| w_recycle: "p_worker s = W_recycle b \<Longrightarrow> free' = p_free s \<or> free' = p_free s @ [b] \<Longrightarrow>
    worker_step s (s\<lparr>p_worker := W_dequeue, p_free := free'\<rparr>)"

text \<open>\<open>AllocationTracing::destroy\<close> finalizes the queues, after everything was written.\<close>

inductive control_step :: "nat \<Rightarrow> pipe \<Rightarrow> pipe \<Rightarrow> bool" for n where
  final_cq: "p_cq s = [] \<Longrightarrow> control_step n s (s\<lparr>p_cq_final := True\<rparr>)"
| final_fq: "\<forall>i < n. p_ct s i = CT_stopped \<Longrightarrow> p_fq s = [] \<Longrightarrow> control_step n s (s\<lparr>p_fq_final := True\<rparr>)"

inductive pipe_step :: "nat \<Rightarrow> pipe \<Rightarrow> pipe \<Rightarrow> bool" for n where
  thread_step: "thread_step s s' \<Longrightarrow> pipe_step n s s'"
| ct_step: "i < n \<Longrightarrow> ct_step n i s s' \<Longrightarrow> pipe_step n s s'"
| worker_step: "worker_step s s' \<Longrightarrow> pipe_step n s s'"
| control_step: "control_step n s s' \<Longrightarrow> pipe_step n s s'"

definition pipe_init :: pipe where
  "pipe_init = \<lparr>p_handed = [], p_cq = [], p_cq_final = False, p_fq = [], p_fq_final = False, p_written = [], p_free = [],
     p_local = (\<lambda>_. None), p_ct = (\<lambda>_. CT_created), p_in_process = [], p_worker = W_created\<rparr>"

inductive pipe_reachable :: "nat \<Rightarrow> pipe \<Rightarrow> bool" for n where
  reach_init: "pipe_reachable n pipe_init"
| reach_step: "pipe_reachable n s \<Longrightarrow> pipe_step n s s' \<Longrightarrow> pipe_reachable n s'"

section \<open>Who may be where\<close>

fun held :: "ct_pc \<Rightarrow> chunk option" where
  "held (CT_sync_dequeued c) = Some c"
| "held (CT_process c) = Some c"
| "held (CT_compress c b) = Some c"
| "held (CT_emit c r) = Some c"
| "held _ = None"

text \<open>The owner a compression thread has entered into \<open>in_process\<close>.\<close>

fun claims :: "ct_pc \<Rightarrow> nat option" where
  "claims (CT_claimed c) = Some (ch_owner c)"
| "claims (CT_process c) = Some (ch_owner c)"
| "claims (CT_compress c b) = Some (ch_owner c)"
| "claims (CT_emit c r) = Some (ch_owner c)"
| "claims (CT_recycle b t) = Some t"
| "claims (CT_release t) = Some t"
| "claims _ = None"

definition exclusive :: "nat \<Rightarrow> pipe \<Rightarrow> bool" where
  "exclusive n s \<longleftrightarrow> (\<forall>i < n. \<forall>j < n. in_critical (p_ct s i) \<longrightarrow> in_critical (p_ct s j) \<longrightarrow> i = j)"

lemma set_ct_simps [simp]:
  "p_ct (set_ct s i pc) = (p_ct s)(i := pc)" "p_handed (set_ct s i pc) = p_handed s" "p_cq (set_ct s i pc) = p_cq s"
  "p_cq_final (set_ct s i pc) = p_cq_final s" "p_fq (set_ct s i pc) = p_fq s" "p_fq_final (set_ct s i pc) = p_fq_final s"
  "p_written (set_ct s i pc) = p_written s" "p_free (set_ct s i pc) = p_free s" "p_local (set_ct s i pc) = p_local s"
  "p_in_process (set_ct s i pc) = p_in_process s" "p_worker (set_ct s i pc) = p_worker s"
  by (simp_all add: set_ct_def)

lemma thread_frame:
  assumes "thread_step s s'"
  shows "p_ct s' = p_ct s" "p_in_process s' = p_in_process s" "p_fq s' = p_fq s" "p_written s' = p_written s"
    "p_worker s' = p_worker s" "p_cq_final s' = p_cq_final s" "p_fq_final s' = p_fq_final s"
  using assms by (auto elim: thread_step.cases)

lemma worker_frame:
  assumes "worker_step s s'"
  shows "p_ct s' = p_ct s" "p_in_process s' = p_in_process s" "p_cq s' = p_cq s" "p_handed s' = p_handed s"
    "p_cq_final s' = p_cq_final s" "p_fq_final s' = p_fq_final s" "p_local s' = p_local s"
  using assms by (auto elim: worker_step.cases)

lemma control_frame:
  assumes "control_step n s s'"
  shows "p_ct s' = p_ct s" "p_in_process s' = p_in_process s" "p_cq s' = p_cq s" "p_handed s' = p_handed s"
    "p_fq s' = p_fq s" "p_written s' = p_written s" "p_worker s' = p_worker s"
  using assms by (auto elim: control_step.cases)

lemma ct_frame:
  assumes "ct_step n i s s'"
  shows "\<And>j. j \<noteq> i \<Longrightarrow> p_ct s' j = p_ct s j" "p_handed s' = p_handed s" "p_written s' = p_written s"
    "p_worker s' = p_worker s" "p_cq_final s' = p_cq_final s" "p_fq_final s' = p_fq_final s" "p_local s' = p_local s"
  using assms by (auto elim: ct_step.cases)

lemmas frames = thread_frame worker_frame control_frame

lemma ct_enters:
  assumes "ct_step n i s s'" and "in_critical (p_ct s' i)"
  shows "in_critical (p_ct s i) \<or> (\<forall>j < n. \<not> in_critical (p_ct s j))"
  using assms by (cases rule: ct_step.cases) (auto split: option.splits)

lemma exclusive_step: "pipe_step n s s' \<Longrightarrow> exclusive n s \<Longrightarrow> exclusive n s'"
proof (induction rule: pipe_step.induct)
  case (ct_step i s s')
  show ?case unfolding exclusive_def
  proof (intro allI impI)
    fix j k assume jk: "j < n" "k < n" "in_critical (p_ct s' j)" "in_critical (p_ct s' k)"
    show "j = k"
    proof (cases "j = i \<or> k = i")
      case True
      with jk have "in_critical (p_ct s' i)" by auto
      with ct_enters [OF ct_step.hyps(2)] ct_frame(1) [OF ct_step.hyps(2)] ct_step.prems jk ct_step.hyps(1)
      show ?thesis unfolding exclusive_def by metis
    next
      case False
      with ct_frame(1) [OF ct_step.hyps(2)] jk ct_step.prems show ?thesis by (auto simp: exclusive_def)
    qed
  qed
qed (simp_all add: exclusive_def frames)

text \<open>While a compression thread is in the critical section, the front of the queue is what it has seen.\<close>

definition front_seen :: "nat \<Rightarrow> pipe \<Rightarrow> bool" where
  "front_seen n s \<longleftrightarrow> (\<forall>i < n.
     (\<forall>c. p_ct s i = CT_peeked c \<or> p_ct s i = CT_claimed c \<longrightarrow> (\<exists>cs. p_cq s = c # cs) \<and> eb_sync (ch_buffer c) = Sync_None)
     \<and> (\<forall>j. p_ct s i = CT_sync j \<longrightarrow> i = 0 \<and> j \<le> n \<and> (\<exists>c cs. p_cq s = c # cs \<and> eb_sync (ch_buffer c) \<noteq> Sync_None)))"

lemma thread_cq: "thread_step s s' \<Longrightarrow> \<exists>xs. p_cq s' = p_cq s @ xs \<and> p_handed s' = p_handed s @ xs"
  by (auto elim: thread_step.cases)

lemma ct_cq:
  assumes "ct_step n i s s'"
  shows "p_cq s' = p_cq s \<or> in_critical (p_ct s i) \<and> (\<exists>c. p_cq s = c # p_cq s')"
  using assms by (auto elim: ct_step.cases)

lemma front_seen_ct:
  assumes step: "ct_step n i s s'" and i: "i < n" and ex: "exclusive n s" and inv: "front_seen n s"
  shows "front_seen n s'"
proof -
  have self: "(\<forall>c. p_ct s' i = CT_peeked c \<or> p_ct s' i = CT_claimed c \<longrightarrow> (\<exists>cs. p_cq s' = c # cs) \<and> eb_sync (ch_buffer c) = Sync_None)
     \<and> (\<forall>j. p_ct s' i = CT_sync j \<longrightarrow> i = 0 \<and> j \<le> n \<and> (\<exists>c cs. p_cq s' = c # cs \<and> eb_sync (ch_buffer c) \<noteq> Sync_None))"
    using step inv i by (cases rule: ct_step.cases) (auto simp: front_seen_def split: option.splits)
  have others: "p_cq s' = p_cq s" if "j < n" "j \<noteq> i" "in_critical (p_ct s j)" for j
    using ct_cq [OF step] ex i that by (auto simp: exclusive_def)
  show ?thesis unfolding front_seen_def
  proof (intro allI impI)
    fix j assume j: "j < n"
    show "(\<forall>c. p_ct s' j = CT_peeked c \<or> p_ct s' j = CT_claimed c \<longrightarrow> (\<exists>cs. p_cq s' = c # cs) \<and> eb_sync (ch_buffer c) = Sync_None)
       \<and> (\<forall>k. p_ct s' j = CT_sync k \<longrightarrow> j = 0 \<and> k \<le> n \<and> (\<exists>c cs. p_cq s' = c # cs \<and> eb_sync (ch_buffer c) \<noteq> Sync_None))"
    proof (cases "j = i")
      case True
      with self show ?thesis by simp
    next
      case False
      with ct_frame(1) [OF step] have eq: "p_ct s' j = p_ct s j" by simp
      show ?thesis using inv j others [OF j False] unfolding eq front_seen_def by force
    qed
  qed
qed

lemma front_seen_step: "pipe_step n s s' \<Longrightarrow> exclusive n s \<Longrightarrow> front_seen n s \<Longrightarrow> front_seen n s'"
proof (induction rule: pipe_step.induct)
  case (thread_step s s')
  from thread_cq [OF thread_step.hyps] obtain xs where "p_cq s' = p_cq s @ xs" by blast
  with thread_step.prems(2) thread_frame(1) [OF thread_step.hyps] show ?case unfolding front_seen_def by force
next
  case (ct_step i s s')
  then show ?case by (blast intro: front_seen_ct)
qed (simp_all add: front_seen_def frames)

section \<open>What the compression threads carry\<close>

definition payload :: "nat \<Rightarrow> pipe \<Rightarrow> bool" where
  "payload n s \<longleftrightarrow> (\<forall>c \<in> set (p_cq s). EventBuffer_get_length (ch_buffer c) > 0)
     \<and> (\<forall>i < n. (\<forall>c. p_ct s i = CT_process c \<longrightarrow> EventBuffer_get_length (ch_buffer c) > 0)
        \<and> (\<forall>c. held (p_ct s i) = Some c \<longrightarrow> claims (p_ct s i) \<noteq> None \<longrightarrow> eb_sync (ch_buffer c) = Sync_None)
        \<and> (\<forall>c b. p_ct s i = CT_compress c b \<longrightarrow> eb_owner b = ch_owner c \<and> eb_sync b = eb_sync (ch_buffer c)))"

lemma payload_ct:
  assumes step: "ct_step n i s s'" and i: "i < n" and fr: "front_seen n s" and inv: "payload n s"
  shows "payload n s'"
proof -
  have cq: "set (p_cq s') \<subseteq> set (p_cq s)" using ct_cq [OF step] by auto
  have self: "(\<forall>c. p_ct s' i = CT_process c \<longrightarrow> EventBuffer_get_length (ch_buffer c) > 0)
        \<and> (\<forall>c. held (p_ct s' i) = Some c \<longrightarrow> claims (p_ct s' i) \<noteq> None \<longrightarrow> eb_sync (ch_buffer c) = Sync_None)
        \<and> (\<forall>c b. p_ct s' i = CT_compress c b \<longrightarrow> eb_owner b = ch_owner c \<and> eb_sync b = eb_sync (ch_buffer c))"
  proof -
    have sync: "\<And>c. held (p_ct s i) = Some c \<Longrightarrow> claims (p_ct s i) \<noteq> None \<Longrightarrow> eb_sync (ch_buffer c) = Sync_None"
      and dest: "\<And>c b. p_ct s i = CT_compress c b \<Longrightarrow> eb_owner b = ch_owner c \<and> eb_sync b = eb_sync (ch_buffer c)"
      and queued: "\<And>c cs. p_cq s = c # cs \<Longrightarrow> EventBuffer_get_length (ch_buffer c) > 0"
      using inv i by (auto simp: payload_def)
    have front: "p_ct s i = CT_claimed c \<Longrightarrow> (\<exists>cs. p_cq s = c # cs) \<and> eb_sync (ch_buffer c) = Sync_None" for c
      using fr i by (auto simp: front_seen_def)
    from step show ?thesis
    proof (cases rule: ct_step.cases)
      case (dequeue c' c cs)
      with front [of c'] queued show ?thesis by simp
    next
      case (compressed c b k)
      with dest [of c b] sync [of c] show ?thesis by (simp add: EventBuffer_set_compression_def)
    next
      case (emit c r)
      then show ?thesis by (simp split: option.splits)
    next
      case (process_plain c)
      with sync [of c] show ?thesis by simp
    next
      case (process_free c us b vs)
      with sync [of c] show ?thesis by (simp add: EventBuffer_set_owner_def)
    next
      case (process_created c b)
      with sync [of c] show ?thesis by (simp add: EventBuffer_set_owner_def)
    next
      case (not_compressed c b)
      with sync [of c] show ?thesis by simp
    qed simp_all
  qed
  show ?thesis unfolding payload_def
  proof (intro conjI allI impI ballI)
    fix c assume "c \<in> set (p_cq s')"
    with cq inv show "EventBuffer_get_length (ch_buffer c) > 0" by (auto simp: payload_def)
  next
    fix j c assume "j < n" "p_ct s' j = CT_process c"
    with self inv ct_frame(1) [OF step] show "EventBuffer_get_length (ch_buffer c) > 0"
      by (cases "j = i") (auto simp: payload_def)
  next
    fix j c assume "j < n" "held (p_ct s' j) = Some c" "claims (p_ct s' j) \<noteq> None"
    with self inv ct_frame(1) [OF step] show "eb_sync (ch_buffer c) = Sync_None"
      by (cases "j = i") (auto simp: payload_def)
  next
    fix j c b assume "j < n" "p_ct s' j = CT_compress c b"
    with self inv ct_frame(1) [OF step] show "eb_owner b = ch_owner c" "eb_sync b = eb_sync (ch_buffer c)"
      by (cases "j = i"; auto simp: payload_def)+
  qed
qed

lemma payload_step: "pipe_step n s s' \<Longrightarrow> front_seen n s \<Longrightarrow> payload n s \<Longrightarrow> payload n s'"
proof (induction rule: pipe_step.induct)
  case (thread_step s s')
  have "\<forall>c \<in> set (p_cq s'). EventBuffer_get_length (ch_buffer c) > 0"
    using thread_step.hyps thread_step.prems(2) by (cases rule: thread_step.cases) (auto simp: payload_def)
  with thread_step.prems(2) thread_frame(1) [OF thread_step.hyps] show ?case by (simp add: payload_def)
next
  case (ct_step i s s')
  then show ?case by (blast intro: payload_ct)
qed (simp_all add: payload_def frames)

lemma remove_in_process:
  "distinct ts \<Longrightarrow> remove_thread_in_process t ts = (r, ts') \<Longrightarrow> distinct ts' \<and> set ts' = set ts - {t}"
proof (induction t ts arbitrary: r ts' rule: remove_thread_in_process.induct)
  case (1 t)
  then show ?case by simp
next
  case (2 t u us)
  show ?case
  proof (cases "u = t")
    case True
    show ?thesis
    proof (cases us rule: rev_cases)
      case Nil
      with 2 True show ?thesis by auto
    next
      case (snoc vs v)
      with 2(2,3) True show ?thesis by auto
    qed
  next
    case False
    obtain r1 ts1 where r1: "remove_thread_in_process t us = (r1, ts1)" by (cases "remove_thread_in_process t us")
    have us: "distinct us" "u \<notin> set us" using 2(2) by simp_all
    have ts': "ts' = u # ts1" using 2(3) r1 False by simp
    from 2(1) [OF False us(1) r1] us(2) False show ?thesis unfolding ts' by auto
  qed
qed

section \<open>One compression thread for every owner\<close>

text \<open>The list of owners and the owners of the threads below \<open>n\<close> agree.\<close>

definition claim_table :: "nat \<Rightarrow> nat list \<Rightarrow> (nat \<Rightarrow> nat option) \<Rightarrow> bool" where
  "claim_table n ts f \<longleftrightarrow> distinct ts \<and> (\<forall>t. t \<in> set ts \<longleftrightarrow> (\<exists>i < n. f i = Some t))
     \<and> (\<forall>i < n. \<forall>j < n. \<forall>t. f i = Some t \<longrightarrow> f j = Some t \<longrightarrow> i = j)"

lemma claim_table_add:
  assumes "claim_table n ts f" and "i < n" and "f i = None" and "t \<notin> set ts"
  shows "claim_table n (ts @ [t]) (f(i := Some t))"
proof -
  have "u \<in> set (ts @ [t]) \<longleftrightarrow> (\<exists>j < n. (f(i := Some t)) j = Some u)" for u
  proof (cases "u = t")
    case True
    with assms(2) show ?thesis by auto
  next
    case False
    have "u \<in> set ts \<longleftrightarrow> (\<exists>j < n. f j = Some u)" using assms(1) by (simp add: claim_table_def)
    also have "\<dots> \<longleftrightarrow> (\<exists>j < n. (f(i := Some t)) j = Some u)"
      using False assms(3) by (metis fun_upd_apply option.distinct(1) option.inject)
    finally show ?thesis using False by simp
  qed
  moreover have "j = k" if "j < n" "k < n" "(f(i := Some t)) j = Some u" "(f(i := Some t)) k = Some u" for j k u
    using that assms unfolding claim_table_def by (auto split: if_splits)
  ultimately show ?thesis using assms(1,4) unfolding claim_table_def by auto
qed

lemma claim_table_remove:
  assumes "claim_table n ts f" and "i < n" and "f i = Some t" and "distinct ts'" and "set ts' = set ts - {t}"
  shows "claim_table n ts' (f(i := None))"
proof -
  have "u \<in> set ts' \<longleftrightarrow> (\<exists>j < n. (f(i := None)) j = Some u)" for u
  proof -
    have "u \<in> set ts' \<longleftrightarrow> (\<exists>j < n. f j = Some u) \<and> u \<noteq> t" using assms(1,5) by (auto simp: claim_table_def)
    also have "\<dots> \<longleftrightarrow> (\<exists>j < n. (f(i := None)) j = Some u)"
      using assms(1-3) unfolding claim_table_def by (metis fun_upd_apply option.distinct(1) option.inject)
    finally show ?thesis .
  qed
  moreover have "j = k" if "j < n" "k < n" "(f(i := None)) j = Some u" "(f(i := None)) k = Some u" for j k u
    using that assms unfolding claim_table_def by (auto split: if_splits)
  ultimately show ?thesis using assms(4) unfolding claim_table_def by auto
qed

definition claimed :: "nat \<Rightarrow> pipe \<Rightarrow> bool" where
  "claimed n s \<longleftrightarrow> claim_table n (p_in_process s) (\<lambda>i. claims (p_ct s i))"

lemma ct_claims:
  assumes step: "ct_step n i s s'" and i: "i < n" and fr: "front_seen n s" and pl: "payload n s"
  obtains (same) "p_in_process s' = p_in_process s" "claims (p_ct s' i) = claims (p_ct s i)"
    | (claim) t where "claims (p_ct s i) = None" "t \<notin> set (p_in_process s)" "p_in_process s' = p_in_process s @ [t]"
        "claims (p_ct s' i) = Some t"
    | (release) t r where "claims (p_ct s i) = Some t" "claims (p_ct s' i) = None"
        "remove_thread_in_process t (p_in_process s) = (r, p_in_process s')"
proof -
  have dest: "\<And>c b. p_ct s i = CT_compress c b \<Longrightarrow> eb_owner b = ch_owner c" using pl i by (auto simp: payload_def)
  have front: "\<And>c. p_ct s i = CT_claimed c \<Longrightarrow> \<exists>cs. p_cq s = c # cs" using fr i by (auto simp: front_seen_def)
  from step show thesis
  proof (cases rule: ct_step.cases)
    case (claim c ts)
    then show thesis by (intro that(2) [of "ch_owner c"]) (auto simp: add_thread_in_process_def split: if_splits)
  next
    case (dequeue c' c cs)
    with front [of c'] show thesis by (intro that(1)) auto
  next
    case (compressed c b k)
    with dest show thesis by (intro that(1)) (auto simp: EventBuffer_set_compression_def)
  next
    case (emit c r)
    then show thesis by (intro that(1)) (auto split: option.splits)
  next
    case (release t r ts)
    then show thesis by (intro that(3) [of t r]) auto
  qed (intro that(1), auto)+
qed

lemma claimed_ct:
  assumes step: "ct_step n i s s'" and i: "i < n" and fr: "front_seen n s" and pl: "payload n s" and inv: "claimed n s"
  shows "claimed n s'"
proof -
  let ?f = "\<lambda>j. claims (p_ct s j)"
  have eq: "(\<lambda>j. claims (p_ct s' j)) = ?f(i := claims (p_ct s' i))" using ct_frame(1) [OF step] by auto
  from inv have inv': "claim_table n (p_in_process s) ?f" by (simp add: claimed_def)
  from step i fr pl show ?thesis
  proof (cases rule: ct_claims)
    case same
    then show ?thesis using inv' by (simp add: claimed_def eq fun_upd_idem)
  next
    case (claim t)
    with claim_table_add [OF inv' i] show ?thesis by (simp add: claimed_def eq)
  next
    case (release t r)
    have "distinct (p_in_process s)" using inv' by (simp add: claim_table_def)
    from remove_in_process [OF this release(3)] claim_table_remove [OF inv' i release(1)] release(2)
    show ?thesis by (simp add: claimed_def eq)
  qed
qed

lemma claimed_step: "pipe_step n s s' \<Longrightarrow> front_seen n s \<Longrightarrow> payload n s \<Longrightarrow> claimed n s \<Longrightarrow> claimed n s'"
proof (induction rule: pipe_step.induct)
  case (ct_step i s s')
  then show ?case by (blast intro: claimed_ct)
qed (simp_all add: claimed_def frames)

end
