(* ===== verification/PipelineOrder.thy ===== *)
theory PipelineOrder
  imports Pipeline
begin

text \<open>
  What the trace pipeline guarantees: the buffers of a thread are written in the order in which they
  were handed over, a synchronization buffer is written after all buffers handed over before it and
  before all later ones, and when \<open>EventBuffers::flush\<close> returns everything handed over before the call
  has been written.
\<close>

section \<open>Tags\<close>

text \<open>Compression replaces the buffer of a chunk but keeps its number and its owner.\<close>

definition tag :: "chunk \<Rightarrow> nat \<times> nat" where
  "tag c = (ch_seq c, ch_owner c)"

definition of_owner :: "nat \<Rightarrow> (nat \<times> nat) list \<Rightarrow> (nat \<times> nat) list" where
  "of_owner t xs = filter (\<lambda>x. snd x = t) xs"

lemma of_owner_append [simp]: "of_owner t (xs @ ys) = of_owner t xs @ of_owner t ys"
  by (simp add: of_owner_def)

lemma of_owner_simps [simp]: "of_owner t [] = []" "of_owner t (x # xs) = (if snd x = t then x # of_owner t xs else of_owner t xs)"
  by (simp_all add: of_owner_def)

lemma set_of_owner: "x \<in> set (of_owner (snd x) xs) \<longleftrightarrow> x \<in> set xs"
  by (simp add: of_owner_def)

lemma same_owners_set: "(\<And>t. of_owner t xs = of_owner t ys) \<Longrightarrow> set xs = set ys"
  by (metis set_of_owner subset_antisym subsetI)

text \<open>What the holders below \<open>n\<close> hold of the owner \<open>t\<close>.\<close>

definition holding :: "nat \<Rightarrow> (nat \<Rightarrow> (nat \<times> nat) option) \<Rightarrow> nat \<Rightarrow> (nat \<times> nat) list" where
  "holding n f t = concat (map (\<lambda>i. case f i of None \<Rightarrow> [] | Some x \<Rightarrow> of_owner t [x]) [0..<n])"

lemma holding_cong: "(\<And>i. i < n \<Longrightarrow> f i = g i) \<Longrightarrow> holding n f t = holding n g t"
  unfolding holding_def by (intro arg_cong [of _ _ concat] map_cong) auto

lemma holding_none: "(\<And>i x. i < n \<Longrightarrow> f i = Some x \<Longrightarrow> snd x \<noteq> t) \<Longrightarrow> holding n f t = []"
  by (force simp: holding_def concat_eq_Nil_conv split: option.splits)

lemma holding_split:
  assumes "i < n"
  shows "holding n f t = concat (map (\<lambda>i. case f i of None \<Rightarrow> [] | Some x \<Rightarrow> of_owner t [x]) [0..<i])
    @ (case f i of None \<Rightarrow> [] | Some x \<Rightarrow> of_owner t [x])
    @ concat (map (\<lambda>i. case f i of None \<Rightarrow> [] | Some x \<Rightarrow> of_owner t [x]) [Suc i..<n])"
proof -
  have "[0..<n] = [0..<i] @ i # [Suc i..<n]"
    using assms upt_add_eq_append [of 0 i "n - i"] by (simp add: upt_conv_Cons)
  then show ?thesis by (simp add: holding_def)
qed

lemma holding_one:
  assumes "i < n" and "f i = Some x" and "snd x = t" and "\<And>j y. j < n \<Longrightarrow> j \<noteq> i \<Longrightarrow> f j = Some y \<Longrightarrow> snd y \<noteq> t"
  shows "holding n f t = [x]"
proof -
  have none: "concat (map (\<lambda>i. case f i of None \<Rightarrow> [] | Some x \<Rightarrow> of_owner t [x]) js) = []"
    if "\<And>j. j \<in> set js \<Longrightarrow> j < n \<and> j \<noteq> i" for js
    using that assms(4) by (force simp: concat_eq_Nil_conv split: option.splits)
  have ends: "concat (map (\<lambda>i. case f i of None \<Rightarrow> [] | Some x \<Rightarrow> of_owner t [x]) [0..<i]) = []"
    "concat (map (\<lambda>i. case f i of None \<Rightarrow> [] | Some x \<Rightarrow> of_owner t [x]) [Suc i..<n]) = []"
    by (rule none, use assms(1) in simp)+
  show ?thesis unfolding holding_split [OF assms(1)] ends using assms(2,3) by simp
qed

lemma holding_other:
  assumes "i < n" and "\<And>x. f i = Some x \<Longrightarrow> snd x \<noteq> t" and "\<And>x. y = Some x \<Longrightarrow> snd x \<noteq> t"
  shows "holding n (f(i := y)) t = holding n f t"
proof -
  have "(case (f(i := y)) j of None \<Rightarrow> [] | Some x \<Rightarrow> of_owner t [x]) = (case f j of None \<Rightarrow> [] | Some x \<Rightarrow> of_owner t [x])" for j
    using assms(2,3) by (auto split: option.splits)
  then show ?thesis by (simp add: holding_def)
qed

section \<open>The master alone\<close>

definition quiet :: "nat \<Rightarrow> pipe \<Rightarrow> bool" where
  "quiet n s \<longleftrightarrow> (\<forall>i < n. \<forall>c. p_ct s i = CT_sync_dequeued c \<longrightarrow> i = 0)
     \<and> (\<forall>j. p_ct s 0 = CT_sync j \<longrightarrow> (\<forall>k < n. k < j \<longrightarrow> k \<noteq> 0 \<longrightarrow> held (p_ct s k) = None))
     \<and> (\<forall>c. p_ct s 0 = CT_sync_dequeued c \<longrightarrow> (\<forall>k < n. k \<noteq> 0 \<longrightarrow> held (p_ct s k) = None))"

lemma idle_holds_nothing: "is_Idle pc \<Longrightarrow> held pc = None"
  by (cases pc) simp_all

lemma ct_takes:
  assumes "ct_step n i s s'" and "held (p_ct s' i) \<noteq> None" and "held (p_ct s i) = None"
  shows "in_critical (p_ct s i)"
  using assms by (cases rule: ct_step.cases) (auto split: option.splits)

lemma quiet_ct:
  assumes step: "ct_step n i s s'" and i: "i < n" and ex: "exclusive n s" and fr: "front_seen n s" and inv: "quiet n s"
  shows "quiet n s'"
proof (cases "i = 0")
  case False
  then have eq: "p_ct s' 0 = p_ct s 0" and others: "\<And>j. j \<noteq> i \<Longrightarrow> p_ct s' j = p_ct s j" using ct_frame(1) [OF step] by auto
  have out: "\<not> in_critical (p_ct s i)" if "in_critical (p_ct s 0)"
    using ex [unfolded exclusive_def, rule_format, of i 0] that i False by auto
  have keep: "held (p_ct s' k) = None" if "held (p_ct s k) = None" "in_critical (p_ct s 0)" for k
    using that ct_takes [OF step] others [of k] out by (cases "k = i") metis+
  have "p_ct s' i \<noteq> CT_sync_dequeued c" for c
    using step False fr i by (cases rule: ct_step.cases) (auto simp: front_seen_def split: option.splits)
  then show ?thesis using inv eq others keep unfolding quiet_def by (metis in_critical.simps(5,6))
next
  case i0: True
  have others: "\<And>j. j \<noteq> 0 \<Longrightarrow> p_ct s' j = p_ct s j" using ct_frame(1) [OF step] i0 by auto
  have sd: "\<forall>j < n. \<forall>c. p_ct s' j = CT_sync_dequeued c \<longrightarrow> j = 0" using inv others unfolding quiet_def by metis
  have inv': "\<And>j k. p_ct s 0 = CT_sync j \<Longrightarrow> k < n \<Longrightarrow> k < j \<Longrightarrow> k \<noteq> 0 \<Longrightarrow> held (p_ct s k) = None"
    using inv by (auto simp: quiet_def)
  have "(\<forall>j. p_ct s' 0 = CT_sync j \<longrightarrow> (\<forall>k < n. k < j \<longrightarrow> k \<noteq> 0 \<longrightarrow> held (p_ct s k) = None))
     \<and> (\<forall>c. p_ct s' 0 = CT_sync_dequeued c \<longrightarrow> (\<forall>k < n. k \<noteq> 0 \<longrightarrow> held (p_ct s k) = None))"
    using step unfolding i0
  proof (cases rule: ct_step.cases)
    case (sync_wait j)
    then show ?thesis using inv' [of j] idle_holds_nothing by (auto simp: less_Suc_eq)
  next
    case (sync_dequeue c cs)
    then show ?thesis using inv' [of n] by auto
  next
    case (emit c r)
    then show ?thesis by (simp split: option.splits)
  qed simp_all
  then show ?thesis using sd others unfolding quiet_def by auto
qed

lemma quiet_step: "pipe_step n s s' \<Longrightarrow> exclusive n s \<Longrightarrow> front_seen n s \<Longrightarrow> quiet n s \<Longrightarrow> quiet n s'"
proof (induction rule: pipe_step.induct)
  case (ct_step i s s')
  then show ?case by (blast intro: quiet_ct)
qed (simp_all add: quiet_def frames)

section \<open>Order\<close>

text \<open>What has left the compression: written, being written, and in the flush queue.\<close>

fun writing :: "worker_pc \<Rightarrow> chunk list" where
  "writing (W_write c) = [c]"
| "writing _ = []"

definition out :: "pipe \<Rightarrow> chunk list" where
  "out s = p_written s @ writing (p_worker s) @ p_fq s"

abbreviation held_tags :: "pipe \<Rightarrow> nat \<Rightarrow> (nat \<times> nat) option" where
  "held_tags s i \<equiv> map_option tag (held (p_ct s i))"

definition in_order :: "nat \<Rightarrow> pipe \<Rightarrow> bool" where
  "in_order n s \<longleftrightarrow> map ch_seq (p_handed s) = [0..<length (p_handed s)]
     \<and> (\<exists>xs. p_handed s = xs @ p_cq s
          \<and> (\<forall>t. of_owner t (map tag (out s)) @ holding n (held_tags s) t = of_owner t (map tag xs)))"

lemma worker_out: "worker_step s s' \<Longrightarrow> out s' = out s"
  by (auto simp: out_def elim: worker_step.cases)

lemma ct_effect:
  assumes step: "ct_step n i s s'" and i: "i < n" and pl: "payload n s"
  obtains (silent) "p_cq s' = p_cq s" "p_fq s' = p_fq s" "held_tags s' i = held_tags s i"
    | (take_front) c where "p_cq s = c # p_cq s'" "p_fq s' = p_fq s" "held (p_ct s i) = None" "held (p_ct s' i) = Some c"
        "p_ct s i = CT_sync n \<or> (\<exists>d. p_ct s i = CT_claimed d)"
    | (put) c where "p_cq s' = p_cq s" "p_fq s' = p_fq s @ [c]" "held (p_ct s i) = Some c" "held (p_ct s' i) = None"
proof -
  have dest: "\<And>c b. p_ct s i = CT_compress c b \<Longrightarrow> eb_owner b = ch_owner c" using pl i by (auto simp: payload_def)
  have len: "\<And>c. p_ct s i = CT_process c \<Longrightarrow> EventBuffer_get_length (ch_buffer c) > 0" using pl i by (auto simp: payload_def)
  from step show thesis
  proof (cases rule: ct_step.cases)
    case (dequeue c' c cs)
    then show thesis by (intro that(2) [of c]) auto
  next
    case (sync_dequeue c cs)
    then show thesis by (intro that(2) [of c]) auto
  next
    case (sync_emit c)
    then show thesis by (intro that(3) [of c]) auto
  next
    case (process_empty c)
    with len [of c] show thesis by simp
  next
    case (compressed c b k)
    with dest [of c b] show thesis by (intro that(1)) (auto simp: tag_def EventBuffer_set_compression_def)
  next
    case (emit c r)
    then show thesis by (intro that(3) [of c]) (auto split: option.splits)
  qed ((rule that(1), simp, simp, fastforce)+)
qed

lemma held_claims: "held pc = Some c \<Longrightarrow> claims pc = Some (ch_owner c) \<or> pc = CT_sync_dequeued c"
  by (cases pc) auto

lemma other_holders:
  assumes cl: "claimed n s" and ex: "exclusive n s" and qu: "quiet n s" and ij: "i < n" "j < n" "i \<noteq> j"
    and held: "held (p_ct s j) = Some d"
  shows "p_ct s i = CT_claimed c \<Longrightarrow> ch_owner d \<noteq> ch_owner c" "held (p_ct s i) = Some c \<Longrightarrow> ch_owner d \<noteq> ch_owner c"
proof -
  have inj: "claims (p_ct s i) = Some t \<Longrightarrow> claims (p_ct s j) = Some t \<Longrightarrow> False" for t
    using cl ij unfolding claimed_def claim_table_def by blast
  have sync: "p_ct s k \<noteq> CT_sync_dequeued e" if "k < n" "l < n" "l \<noteq> k" "held (p_ct s l) \<noteq> None" for k l e
  proof
    assume e: "p_ct s k = CT_sync_dequeued e"
    with qu that(1) have "k = 0" unfolding quiet_def by blast
    with qu that e show False unfolding quiet_def by metis
  qed
  show "ch_owner d \<noteq> ch_owner c" if c: "held (p_ct s i) = Some c"
    using held_claims [OF c] held_claims [OF held] inj sync [of i j c] sync [of j i d] ij held c by auto
  show "ch_owner d \<noteq> ch_owner c" if c: "p_ct s i = CT_claimed c"
  proof -
    have "p_ct s j \<noteq> CT_sync_dequeued d" using ex [unfolded exclusive_def, rule_format, of i j] ij c by auto
    with held_claims [OF held] inj [of "ch_owner c"] c show ?thesis by auto
  qed
qed

lemma in_order_ct:
  assumes step: "ct_step n i s s'" and i: "i < n" and ex: "exclusive n s" and fr: "front_seen n s" and pl: "payload n s"
    and cl: "claimed n s" and qu: "quiet n s" and inv: "in_order n s"
  shows "in_order n s'"
proof -
  note fixed = ct_frame(2-4) [OF step]
  have same: "held_tags s' j = held_tags s j" if "j \<noteq> i" for j using ct_frame(1) [OF step that] by simp
  then have upd: "held_tags s' = (held_tags s)(i := held_tags s' i)" by auto
  from inv obtain xs where xs: "p_handed s = xs @ p_cq s"
    "\<And>t. of_owner t (map tag (out s)) @ holding n (held_tags s) t = of_owner t (map tag xs)" by (auto simp: in_order_def)
  have seqs: "map ch_seq (p_handed s') = [0..<length (p_handed s')]" using inv fixed(1) by (simp add: in_order_def)
  from step i pl show ?thesis
  proof (cases rule: ct_effect)
    case silent
    then have "held_tags s' = held_tags s" "out s' = out s" using upd fixed by (auto simp: out_def fun_upd_idem)
    with xs silent(1) fixed(1) seqs show ?thesis by (auto simp: in_order_def)
  next
    case (take_front c)
    have others: "snd y \<noteq> ch_owner c" if "j < n" "j \<noteq> i" "held_tags s j = Some y" for j y
    proof -
      from that(3) obtain d where d: "held (p_ct s j) = Some d" "y = tag d" by auto
      from take_front(5) show ?thesis
      proof
        assume "p_ct s i = CT_sync n"
        with fr i have "i = 0" by (auto simp: front_seen_def)
        with qu \<open>p_ct s i = CT_sync n\<close> that(1,2) d(1) show ?thesis by (auto simp: quiet_def)
      next
        assume "\<exists>d. p_ct s i = CT_claimed d"
        then obtain e where e: "p_ct s i = CT_claimed e" by blast
        with fr i take_front(1) have "e = c" by (auto simp: front_seen_def)
        with other_holders(1) [OF cl ex qu i that(1) _ d(1) e] that(2) d(2) show ?thesis by (auto simp: tag_def)
      qed
    qed
    have now: "held_tags s' i = Some (tag c)" and before: "held_tags s i = None" using take_front by auto
    have "of_owner t (map tag (out s')) @ holding n (held_tags s') t = of_owner t (map tag (xs @ [c]))" for t
    proof (cases "t = ch_owner c")
      case True
      have "holding n (held_tags s) t = []"
        by (rule holding_none, metis others before True option.distinct(1))
      moreover have "holding n (held_tags s') t = [tag c]"
        by (rule holding_one [of i n "held_tags s'", OF i now], simp add: tag_def True, metis others same True)
      moreover have "out s' = out s" using fixed take_front(2) by (simp add: out_def)
      ultimately show ?thesis using xs(2) [of t] True by (simp add: tag_def)
    next
      case False
      have "holding n (held_tags s') t = holding n (held_tags s) t"
        by (subst upd, rule holding_other [OF i]) (use False now before in \<open>simp_all add: tag_def\<close>)
      moreover have "out s' = out s" using fixed take_front(2) by (simp add: out_def)
      ultimately show ?thesis using xs(2) [of t] False by (simp add: tag_def)
    qed
    then show ?thesis using xs(1) take_front(1) fixed(1) seqs by (auto simp: in_order_def)
  next
    case (put c)
    have others: "snd y \<noteq> ch_owner c" if "j < n" "j \<noteq> i" "held_tags s j = Some y" for j y
      using that other_holders(2) [OF cl ex qu i that(1) _ _ put(3)] by (auto simp: tag_def)
    have now: "held_tags s' i = None" and before: "held_tags s i = Some (tag c)" using put by auto
    have out: "out s' = out s @ [c]" using fixed put(2) by (simp add: out_def)
    have "of_owner t (map tag (out s')) @ holding n (held_tags s') t = of_owner t (map tag xs)" for t
    proof (cases "t = ch_owner c")
      case True
      have "holding n (held_tags s) t = [tag c]"
        by (rule holding_one [of i n "held_tags s", OF i before], simp add: tag_def True, metis others True)
      moreover have "holding n (held_tags s') t = []"
        by (rule holding_none, metis others same now True option.distinct(1))
      ultimately show ?thesis using xs(2) [of t] True by (simp add: tag_def out)
    next
      case False
      have "holding n (held_tags s') t = holding n (held_tags s) t"
        by (subst upd, rule holding_other [OF i]) (use False now before in \<open>simp_all add: tag_def\<close>)
      then show ?thesis using xs(2) [of t] False by (simp add: tag_def out)
    qed
    then show ?thesis using xs(1) put(1) fixed(1) seqs by (auto simp: in_order_def)
  qed
qed

lemma in_order_thread:
  assumes "thread_step s s'" and "in_order n s"
  shows "in_order n s'"
proof -
  have out: "out s' = out s" and ct: "p_ct s' = p_ct s" using thread_frame [OF assms(1)] by (simp_all add: out_def)
  from assms(1) have "p_cq s' = p_cq s \<and> p_handed s' = p_handed s
      \<or> (\<exists>c. ch_seq c = length (p_handed s) \<and> p_cq s' = p_cq s @ [c] \<and> p_handed s' = p_handed s @ [c])"
    by (cases rule: thread_step.cases) auto
  with assms(2) out ct show ?thesis by (auto simp: in_order_def)
qed

lemma in_order_step:
  "pipe_step n s s' \<Longrightarrow> exclusive n s \<Longrightarrow> front_seen n s \<Longrightarrow> payload n s \<Longrightarrow> claimed n s \<Longrightarrow> quiet n s \<Longrightarrow> in_order n s
    \<Longrightarrow> in_order n s'"
proof (induction rule: pipe_step.induct)
  case (thread_step s s')
  then show ?case by (blast intro: in_order_thread)
next
  case (ct_step i s s')
  then show ?case by (blast intro: in_order_ct)
next
  case (worker_step s s')
  then show ?case using worker_frame [OF worker_step.hyps] worker_out [OF worker_step.hyps] by (simp add: in_order_def)
next
  case (control_step s s')
  then show ?case using control_frame [OF control_step.hyps] by (simp add: in_order_def out_def)
qed

section \<open>Synchronization buffers\<close>

definition sync_last :: "pipe \<Rightarrow> bool" where
  "sync_last s \<longleftrightarrow> (\<forall>c. p_ct s 0 = CT_sync_dequeued c \<longrightarrow> (\<exists>ys. p_handed s = ys @ c # p_cq s))"

lemma sync_last_ct:
  assumes step: "ct_step n i s s'" and i: "i < n" and ex: "exclusive n s" and ord: "in_order n s" and inv: "sync_last s"
  shows "sync_last s'"
proof (cases "i = 0")
  case False
  then have eq: "p_ct s' 0 = p_ct s 0" using ct_frame(1) [OF step] by simp
  have "p_cq s' = p_cq s" if "p_ct s 0 = CT_sync_dequeued c" for c
    using ct_cq [OF step] ex [unfolded exclusive_def, rule_format, of i 0] i False that by auto
  with inv eq ct_frame(2) [OF step] show ?thesis by (auto simp: sync_last_def)
next
  case True
  from ord obtain xs where xs: "p_handed s = xs @ p_cq s" by (auto simp: in_order_def)
  from step show ?thesis unfolding True
  proof (cases rule: ct_step.cases)
    case (sync_dequeue c cs)
    with xs show ?thesis by (simp add: sync_last_def)
  next
    case (emit c r)
    then show ?thesis by (simp add: sync_last_def split: option.splits)
  qed (simp_all add: sync_last_def)
qed

lemma sync_last_step:
  "pipe_step n s s' \<Longrightarrow> exclusive n s \<Longrightarrow> in_order n s \<Longrightarrow> sync_last s \<Longrightarrow> sync_last s'"
proof (induction rule: pipe_step.induct)
  case (thread_step s s')
  from thread_cq [OF thread_step.hyps] thread_frame(1) [OF thread_step.hyps] thread_step.prems(3)
  show ?case by (fastforce simp: sync_last_def)
next
  case (ct_step i s s')
  then show ?case by (blast intro: sync_last_ct)
qed (simp_all add: sync_last_def frames)

text \<open>A chunk with a synchronization mark comes after exactly the chunks with smaller numbers.\<close>

definition barrier :: "chunk list \<Rightarrow> bool" where
  "barrier cs \<longleftrightarrow> (\<forall>us x vs. cs = us @ x # vs \<longrightarrow> eb_sync (ch_buffer x) \<noteq> Sync_None \<longrightarrow> ch_seq ` set us = {0..<ch_seq x})"

lemma barrier_snoc:
  "barrier cs \<Longrightarrow> (eb_sync (ch_buffer c) \<noteq> Sync_None \<Longrightarrow> ch_seq ` set cs = {0..<ch_seq c}) \<Longrightarrow> barrier (cs @ [c])"
  unfolding barrier_def
proof (intro allI impI)
  fix us x vs assume *: "\<forall>us x vs. cs = us @ x # vs \<longrightarrow> eb_sync (ch_buffer x) \<noteq> Sync_None \<longrightarrow> ch_seq ` set us = {0..<ch_seq x}"
    "eb_sync (ch_buffer c) \<noteq> Sync_None \<Longrightarrow> ch_seq ` set cs = {0..<ch_seq c}"
    "cs @ [c] = us @ x # vs" "eb_sync (ch_buffer x) \<noteq> Sync_None"
  then show "ch_seq ` set us = {0..<ch_seq x}" by (cases vs rule: rev_cases) auto
qed

lemma barrier_prefix: "barrier (cs @ ds) \<Longrightarrow> barrier cs"
  by (auto simp: barrier_def)

lemma barrierD: "barrier cs \<Longrightarrow> cs = us @ x # vs \<Longrightarrow> eb_sync (ch_buffer x) \<noteq> Sync_None \<Longrightarrow> ch_seq ` set us = {0..<ch_seq x}"
  by (simp add: barrier_def)

lemma numbered_prefix:
  assumes "map f xs = [0..<length xs]" and "xs = ys @ zs"
  shows "map f ys = [0..<length ys]"
proof -
  have "map f ys = take (length ys) (map f xs)" using assms(2) by simp
  also have "\<dots> = [0..<length ys]" unfolding assms(1) using assms(2) by simp
  finally show ?thesis .
qed

lemma sync_alone:
  assumes n: "0 < n" and ct: "p_ct s 0 = CT_sync_dequeued c" and ord: "in_order n s" and qu: "quiet n s" and last: "sync_last s"
  shows "ch_seq ` set (out s) = {0..<ch_seq c}"
proof -
  from last ct obtain ys where ys: "p_handed s = ys @ c # p_cq s" by (auto simp: sync_last_def)
  from ord obtain xs where xs: "p_handed s = xs @ p_cq s"
    "\<And>t. of_owner t (map tag (out s)) @ holding n (held_tags s) t = of_owner t (map tag xs)"
    and seqs: "map ch_seq (p_handed s) = [0..<length (p_handed s)]" by (auto simp: in_order_def)
  from xs(1) ys have "xs = ys @ [c]" by simp
  have others: "held_tags s j = None" if "j < n" "j \<noteq> 0" for j using qu ct that by (simp add: quiet_def)
  have one: "held_tags s 0 = Some (tag c)" using ct by simp
  have "of_owner t (map tag (out s)) = of_owner t (map tag ys)" for t
  proof (cases "t = ch_owner c")
    case True
    have "holding n (held_tags s) t = [tag c]"
      by (rule holding_one [of 0 n "held_tags s", OF n one], simp add: tag_def True, metis others option.distinct(1))
    with xs(2) [of t] \<open>xs = ys @ [c]\<close> True show ?thesis by (simp add: tag_def)
  next
    case False
    have "holding n (held_tags s) t = []"
      by (rule holding_none, metis others one option.distinct(1) option.inject tag_def snd_conv False)
    with xs(2) [of t] \<open>xs = ys @ [c]\<close> False show ?thesis by (simp add: tag_def)
  qed
  then have "set (map tag (out s)) = set (map tag ys)" by (rule same_owners_set)
  then have "fst ` tag ` set (out s) = fst ` tag ` set ys" by simp
  then have "ch_seq ` set (out s) = ch_seq ` set ys" by (simp add: image_image tag_def)
  moreover have "map ch_seq ys = [0..<length ys]" "ch_seq c = length ys"
    using numbered_prefix [OF seqs ys] numbered_prefix [OF seqs, of "ys @ [c]" "p_cq s"] ys by simp_all
  ultimately show ?thesis by (metis atLeastLessThan_upt image_set)
qed

lemma barrier_ct:
  assumes step: "ct_step n i s s'" and i: "i < n" and pl: "payload n s" and ord: "in_order n s" and qu: "quiet n s"
    and last: "sync_last s" and inv: "barrier (out s)"
  shows "barrier (out s')"
  using step i pl
proof (cases rule: ct_effect)
  case (put c)
  then have out: "out s' = out s @ [c]" using ct_frame(3,4) [OF step] by (simp add: out_def)
  have "ch_seq ` set (out s) = {0..<ch_seq c}" if "eb_sync (ch_buffer c) \<noteq> Sync_None"
  proof -
    have "claims (p_ct s i) = None" using pl i put(3) that unfolding payload_def by blast
    with held_claims [OF put(3)] have "p_ct s i = CT_sync_dequeued c" by simp
    moreover from this qu i have "i = 0" unfolding quiet_def by blast
    ultimately show ?thesis using sync_alone [OF _ _ ord qu last] i by simp
  qed
  with inv out show ?thesis by (simp add: barrier_snoc)
qed (use inv ct_frame(3,4) [OF step] in \<open>simp_all add: out_def\<close>)

lemma barrier_step:
  "pipe_step n s s' \<Longrightarrow> payload n s \<Longrightarrow> in_order n s \<Longrightarrow> quiet n s \<Longrightarrow> sync_last s \<Longrightarrow> barrier (out s) \<Longrightarrow> barrier (out s')"
proof (induction rule: pipe_step.induct)
  case (thread_step s s')
  then show ?case using thread_frame [OF thread_step.hyps] by (simp add: out_def)
next
  case (ct_step i s s')
  then show ?case by (blast intro: barrier_ct)
next
  case (worker_step s s')
  then show ?case using worker_out [OF worker_step.hyps] by simp
next
  case (control_step s s')
  then show ?case using control_frame [OF control_step.hyps] by (simp add: out_def)
qed

section \<open>Reachable states\<close>

definition pipe_inv :: "nat \<Rightarrow> pipe \<Rightarrow> bool" where
  "pipe_inv n s \<longleftrightarrow> exclusive n s \<and> front_seen n s \<and> payload n s \<and> claimed n s \<and> quiet n s \<and> in_order n s \<and> sync_last s
     \<and> barrier (out s)"

lemma pipe_inv_init: "pipe_inv n pipe_init"
proof -
  have "holding n (held_tags pipe_init) t = []" for t by (rule holding_none) (simp add: pipe_init_def)
  moreover have "claimed n pipe_init" by (simp add: claimed_def claim_table_def pipe_init_def)
  ultimately show ?thesis
    by (simp add: pipe_inv_def exclusive_def front_seen_def payload_def quiet_def in_order_def sync_last_def barrier_def out_def pipe_init_def)
qed

lemma pipe_inv_step: "pipe_step n s s' \<Longrightarrow> pipe_inv n s \<Longrightarrow> pipe_inv n s'"
  unfolding pipe_inv_def
  by (blast intro: exclusive_step front_seen_step payload_step claimed_step quiet_step in_order_step sync_last_step barrier_step)

lemma pipe_reachable_inv: "pipe_reachable n s \<Longrightarrow> pipe_inv n s"
  by (induction rule: pipe_reachable.induct) (auto intro: pipe_inv_init pipe_inv_step)

end
