(* ===== verification/PipelineFlush.thy ===== *)
theory PipelineFlush
  imports PipelineOrder
begin

text \<open>
  \<open>EventBuffers::flush\<close> beside the running pipeline: it waits for an empty compression queue, for each
  compression thread to be idle once, for an empty flush queue and for an idle worker, each observed at
  a different moment.  When it returns, everything handed over before the call is written.  The theory
  also holds the bound on \<open>CompressionThread::in_process\<close> and the claims about the pipeline.
\<close>

datatype flush_pc = F_compression | F_idle nat | F_flush | F_worker | F_done

inductive flush_step :: "nat \<Rightarrow> flush_pc \<times> pipe \<Rightarrow> flush_pc \<times> pipe \<Rightarrow> bool" for n where
  f_other: "pipe_step n s s' \<Longrightarrow> flush_step n (pc, s) (pc, s')"
| f_compression: "p_cq s = [] \<Longrightarrow> flush_step n (F_compression, s) (F_idle 0, s)"
| f_idle: "i < n \<Longrightarrow> is_Idle (p_ct s i) \<Longrightarrow> flush_step n (F_idle i, s) (F_idle (Suc i), s)"
| f_all_idle: "flush_step n (F_idle n, s) (F_flush, s)"
| f_flush: "p_fq s = [] \<Longrightarrow> flush_step n (F_flush, s) (F_worker, s)"
| f_worker: "is_idle (p_worker s) \<Longrightarrow> flush_step n (F_worker, s) (F_done, s)"

section \<open>Old chunks\<close>

text \<open>The chunks handed over before the call have numbers below \<open>h\<close>.\<close>

abbreviation new_chunks :: "nat \<Rightarrow> chunk list \<Rightarrow> bool" where
  "new_chunks h cs \<equiv> \<forall>c \<in> set cs. h \<le> ch_seq c"

definition new_held :: "nat \<Rightarrow> nat \<Rightarrow> pipe \<Rightarrow> bool" where
  "new_held h k s \<longleftrightarrow> (\<forall>i < k. \<forall>c. held (p_ct s i) = Some c \<longrightarrow> h \<le> ch_seq c)"

fun progress :: "nat \<Rightarrow> nat \<Rightarrow> flush_pc \<Rightarrow> pipe \<Rightarrow> bool" where
  "progress h n F_compression s = True"
| "progress h n (F_idle i) s = (new_chunks h (p_cq s) \<and> new_held h i s \<and> i \<le> n)"
| "progress h n F_flush s = (new_chunks h (p_cq s) \<and> new_held h n s)"
| "progress h n F_worker s = (new_chunks h (p_cq s) \<and> new_held h n s \<and> new_chunks h (p_fq s))"
| "progress h n F_done s = ({0..<h} \<subseteq> ch_seq ` set (p_written s))"

definition flush_inv :: "nat \<Rightarrow> nat \<Rightarrow> flush_pc \<times> pipe \<Rightarrow> bool" where
  "flush_inv h n = (\<lambda>(pc, s). pipe_inv n s \<and> h \<le> length (p_handed s) \<and> progress h n pc s)"

lemma thread_new:
  assumes "thread_step s s'" and "h \<le> length (p_handed s)" and "new_chunks h (p_cq s)"
  shows "new_chunks h (p_cq s')"
  using assms by (cases rule: thread_step.cases) auto

lemma handed_grows: "pipe_step n s s' \<Longrightarrow> length (p_handed s) \<le> length (p_handed s')"
proof (induction rule: pipe_step.induct)
  case (thread_step s s')
  then show ?case using thread_cq by fastforce
qed (simp_all add: ct_frame frames)

lemma ct_new:
  assumes step: "ct_step n i s s'" and i: "i < n" and inv: "pipe_inv n s" and cq: "new_chunks h (p_cq s)"
  shows "new_chunks h (p_cq s')" "new_held h k s \<Longrightarrow> new_held h k s'"
    "new_held h n s \<Longrightarrow> new_chunks h (p_fq s) \<Longrightarrow> new_chunks h (p_fq s')"
proof -
  from inv have pl: "payload n s" by (simp add: pipe_inv_def)
  have others: "held (p_ct s' j) = held (p_ct s j)" if "j \<noteq> i" for j using ct_frame(1) [OF step that] by simp
  show "new_chunks h (p_cq s')" using ct_cq [OF step] cq by auto
  show "new_held h k s'" if k: "new_held h k s"
  proof -
    have "h \<le> ch_seq c" if "i < k" "held (p_ct s' i) = Some c" for c
      using step i pl
    proof (cases rule: ct_effect)
      case silent
      with that obtain d where "held (p_ct s i) = Some d" "tag d = tag c" by (cases "held (p_ct s i)") auto
      with k that(1) show ?thesis by (auto simp: new_held_def tag_def)
    next
      case (take_front d)
      with that cq show ?thesis by simp
    next
      case (put d)
      with that show ?thesis by simp
    qed
    with k others show ?thesis unfolding new_held_def by metis
  qed
  show "new_chunks h (p_fq s')" if k: "new_held h n s" and fq: "new_chunks h (p_fq s)"
    using step i pl
  proof (cases rule: ct_effect)
    case (put d)
    with k i fq show ?thesis by (auto simp: new_held_def)
  qed (use fq in simp_all)
qed

lemma progress_other:
  assumes "pipe_step n s s'" and "pipe_inv n s" and "h \<le> length (p_handed s)" and "progress h n pc s"
  shows "progress h n pc s'"
  using assms
proof (induction rule: pipe_step.induct)
  case (thread_step s s')
  with thread_frame [OF thread_step.hyps] thread_new [OF thread_step.hyps thread_step.prems(2)]
  show ?case by (cases pc) (simp_all add: new_held_def)
next
  case (ct_step i s s')
  note new = ct_new [OF ct_step.hyps(2,1) ct_step.prems(1), of h]
  show ?case
  proof (cases pc)
    case F_done
    with ct_step.prems(3) ct_frame(3) [OF ct_step.hyps(2)] show ?thesis by simp
  next
    case (F_idle k)
    then have "new_chunks h (p_cq s)" "new_held h k s" "k \<le> n" using ct_step.prems(3) by simp_all
    with new(1,2) show ?thesis unfolding F_idle progress.simps by blast
  next
    case F_flush
    then have "new_chunks h (p_cq s)" "new_held h n s" using ct_step.prems(3) by simp_all
    with new(1,2) show ?thesis unfolding F_flush progress.simps by blast
  next
    case F_worker
    then have "new_chunks h (p_cq s)" "new_held h n s" "new_chunks h (p_fq s)" using ct_step.prems(3) by simp_all
    with new show ?thesis unfolding F_worker progress.simps by blast
  qed simp
next
  case (worker_step s s')
  have "set (p_fq s') \<subseteq> set (p_fq s)" using worker_step.hyps by (auto elim: worker_step.cases)
  moreover have "ch_seq ` set (p_written s) \<subseteq> ch_seq ` set (p_written s')"
    using worker_step.hyps by (auto elim: worker_step.cases)
  ultimately show ?case using worker_frame(1,3) [OF worker_step.hyps] worker_step.prems(3)
    by (cases pc) (fastforce simp: new_held_def)+
next
  case (control_step s s')
  with control_frame [OF control_step.hyps] show ?case by (cases pc) (simp_all add: new_held_def)
qed

lemma all_out:
  assumes inv: "pipe_inv n s" and h: "h \<le> length (p_handed s)" and new: "new_chunks h (p_cq s)" "new_held h n s"
  shows "{0..<h} \<subseteq> ch_seq ` set (out s)"
proof
  fix k assume k: "k \<in> {0..<h}"
  from inv have "in_order n s" by (simp add: pipe_inv_def)
  then obtain xs where xs: "p_handed s = xs @ p_cq s"
    "\<And>t. of_owner t (map tag (out s)) @ holding n (held_tags s) t = of_owner t (map tag xs)"
    and seqs: "map ch_seq (p_handed s) = [0..<length (p_handed s)]" by (auto simp: in_order_def)
  have "k \<in> set (map ch_seq (p_handed s))" unfolding seqs using k h by simp
  with xs(1) new(1) k obtain c where c: "c \<in> set xs" "ch_seq c = k" by fastforce
  have "tag c \<in> set (of_owner (ch_owner c) (map tag xs))" using c(1) by (simp add: of_owner_def tag_def)
  then have "tag c \<in> set (map tag (out s)) \<or> tag c \<in> set (holding n (held_tags s) (ch_owner c))"
    unfolding xs(2) [symmetric] by (auto simp: of_owner_def)
  moreover have "tag c \<notin> set (holding n (held_tags s) (ch_owner c))"
  proof
    assume "tag c \<in> set (holding n (held_tags s) (ch_owner c))"
    then obtain i d where "i < n" "held (p_ct s i) = Some d" "tag d = tag c"
      by (auto simp: holding_def split: option.splits if_splits) metis
    with new(2) k c(2) show False by (auto simp: new_held_def tag_def)
  qed
  ultimately show "k \<in> ch_seq ` set (out s)" using c(2) by (auto simp: tag_def)
qed

lemma flush_inv_step:
  assumes "flush_step n x y" and "flush_inv h n x"
  shows "flush_inv h n y"
  using assms(1)
proof (cases rule: flush_step.cases)
  case (f_other s s' pc)
  with assms(2) progress_other [of n s s' h pc] handed_grows [of n s s'] pipe_inv_step [of n s s']
  show ?thesis by (auto simp: flush_inv_def)
next
  case (f_idle i s)
  with assms(2) idle_holds_nothing [of "p_ct s i"] show ?thesis by (auto simp: flush_inv_def new_held_def less_Suc_eq)
next
  case (f_worker s)
  with assms(2) have "{0..<h} \<subseteq> ch_seq ` set (out s)" by (intro all_out [of n]) (auto simp: flush_inv_def)
  moreover have "out s = p_written s @ p_fq s" using f_worker(3) by (cases "p_worker s") (simp_all add: out_def)
  moreover have "new_chunks h (p_fq s)" using assms(2) f_worker by (simp add: flush_inv_def)
  ultimately have "{0..<h} \<subseteq> ch_seq ` set (p_written s)" by fastforce
  with assms(2) f_worker show ?thesis by (simp add: flush_inv_def)
qed (use assms(2) in \<open>auto simp: flush_inv_def new_held_def\<close>)

lemma flush_steps_inv: "(flush_step n)\<^sup>*\<^sup>* x y \<Longrightarrow> flush_inv h n x \<Longrightarrow> flush_inv h n y"
  by (induction rule: rtranclp_induct) (auto intro: flush_inv_step)

section \<open>Written chunks\<close>

lemma of_owner_distinct: "(\<And>t. distinct (of_owner t xs)) \<Longrightarrow> distinct xs"
proof (induction xs)
  case (Cons x xs)
  have "distinct (of_owner t xs)" for t using Cons.prems [of t] by (simp split: if_splits)
  moreover have "x \<notin> set xs" using Cons.prems [of "snd x"] by (simp add: of_owner_def)
  ultimately show ?case using Cons.IH by simp
qed simp

lemma written_prefix:
  assumes "pipe_reachable n s"
  shows "\<exists>zs. of_owner t (map tag (p_handed s)) = of_owner t (map tag (p_written s)) @ zs"
proof -
  from pipe_reachable_inv [OF assms] have "in_order n s" by (simp add: pipe_inv_def)
  then obtain xs where "p_handed s = xs @ p_cq s"
    "of_owner t (map tag (out s)) @ holding n (held_tags s) t = of_owner t (map tag xs)" by (auto simp: in_order_def)
  then have "of_owner t (map tag (p_handed s)) = of_owner t (map tag (p_written s))
      @ of_owner t (map tag (writing (p_worker s) @ p_fq s)) @ holding n (held_tags s) t @ of_owner t (map tag (p_cq s))"
    by (simp add: out_def)
  then show ?thesis by blast
qed

lemma map_tag_owner: "map fst (of_owner t (map tag cs)) = map ch_seq (filter (\<lambda>c. ch_owner c = t) cs)"
  by (induction cs) (simp_all add: tag_def)

lemma written_distinct:
  assumes "pipe_reachable n s"
  shows "distinct (map ch_seq (p_written s))" "set (map ch_seq (p_written s)) \<subseteq> {0..<length (p_handed s)}"
proof -
  from pipe_reachable_inv [OF assms] have "map ch_seq (p_handed s) = [0..<length (p_handed s)]"
    by (simp add: pipe_inv_def in_order_def)
  then have seqs: "map fst (map tag (p_handed s)) = [0..<length (p_handed s)]" by (simp add: tag_def comp_def)
  have sub: "set (map tag (p_written s)) \<subseteq> set (map tag (p_handed s))"
  proof
    fix x assume "x \<in> set (map tag (p_written s))"
    then have "x \<in> set (of_owner (snd x) (map tag (p_written s)))" by (simp add: set_of_owner)
    with written_prefix [OF assms, of "snd x"] have "x \<in> set (of_owner (snd x) (map tag (p_handed s)))" by auto
    then show "x \<in> set (map tag (p_handed s))" by (simp only: set_of_owner)
  qed
  have "distinct (map fst (map tag (p_handed s)))" unfolding seqs by simp
  then have inj: "inj_on fst (set (map tag (p_handed s)))" and "distinct (map tag (p_handed s))"
    using distinct_map by blast+
  then have "distinct (of_owner t (map tag (p_written s)))" for t
    using written_prefix [OF assms, of t] by (metis distinct_append distinct_filter of_owner_def)
  then have "distinct (map tag (p_written s))" by (rule of_owner_distinct)
  with inj sub have "distinct (map fst (map tag (p_written s)))" by (metis distinct_map inj_on_subset)
  then show "distinct (map ch_seq (p_written s))" by (simp add: tag_def comp_def)
  have "fst ` set (map tag (p_written s)) \<subseteq> set (map fst (map tag (p_handed s)))" using sub by auto
  then show "set (map ch_seq (p_written s)) \<subseteq> {0..<length (p_handed s)}" unfolding seqs by (auto simp: tag_def image_image)
qed

lemma in_process_bound:
  assumes "pipe_reachable n s"
  shows "distinct (p_in_process s) \<and> length (p_in_process s) \<le> n"
proof -
  from pipe_reachable_inv [OF assms] have tab: "claim_table n (p_in_process s) (\<lambda>i. claims (p_ct s i))"
    by (simp add: pipe_inv_def claimed_def)
  have "set (p_in_process s) \<subseteq> (\<lambda>i. the (claims (p_ct s i))) ` {..<n}"
  proof
    fix t assume "t \<in> set (p_in_process s)"
    with tab obtain i where "i < n" "claims (p_ct s i) = Some t" unfolding claim_table_def by blast
    then show "t \<in> (\<lambda>i. the (claims (p_ct s i))) ` {..<n}" by (intro image_eqI [of _ _ i]) simp_all
  qed
  then have "card (set (p_in_process s)) \<le> n"
    by (metis card_image_le card_lessThan card_mono finite_imageI finite_lessThan le_trans)
  with tab show ?thesis by (simp add: claim_table_def distinct_card)
qed

section \<open>Runs\<close>

text \<open>Stretches of a run without interleaving.\<close>

definition full_buffer :: "nat \<Rightarrow> EventBufferSyncLevel \<Rightarrow> EventBuffer" where
  "full_buffer t y = \<lparr>eb_bottom = 1, eb_top = 4, eb_end = 64, eb_id = 1, eb_owner = t, eb_sync = y, eb_is_compressed = False\<rparr>"

lemma full_buffer_length [simp]: "EventBuffer_get_length (full_buffer t y) = 1"
  by (simp add: full_buffer_def EventBuffer_get_length_def)

lemma full_buffer_sel [simp]: "eb_owner (full_buffer t y) = t" "eb_sync (full_buffer t y) = y"
  by (simp_all add: full_buffer_def)

lemma reach_thread: "pipe_reachable n s \<Longrightarrow> thread_step s s' \<Longrightarrow> pipe_reachable n s'"
  by (rule reach_step [OF _ pipe_step.thread_step])

lemma reach_ct: "pipe_reachable n s \<Longrightarrow> i < n \<Longrightarrow> ct_step n i s s' \<Longrightarrow> pipe_reachable n s'"
  by (rule reach_step [OF _ pipe_step.ct_step])

lemma reach_worker: "pipe_reachable n s \<Longrightarrow> worker_step s s' \<Longrightarrow> pipe_reachable n s'"
  by (rule reach_step [OF _ pipe_step.worker_step])

lemma run_produce:
  assumes "pipe_reachable n s" and "p_local s t = None" and "\<not> p_cq_final s"
    and "c = \<lparr>ch_seq = length (p_handed s), ch_buffer = full_buffer t y\<rparr>"
  shows "pipe_reachable n (s\<lparr>p_handed := p_handed s @ [c], p_cq := p_cq s @ [c]\<rparr>)"
proof -
  define b :: EventBuffer
    where "b = \<lparr>eb_bottom = 1, eb_top = 0, eb_end = 64, eb_id = 1, eb_owner = 0, eb_sync = Sync_None, eb_is_compressed = False\<rparr>"
  have 1: "thread_step s (s\<lparr>p_local := (p_local s)(t \<mapsto> EventBuffer_set_owner b t)\<rparr>)" (is "thread_step s ?s1")
    using assms(2) by (intro get_created) (simp_all add: b_def clean_def EventBuffer_is_valid_def)
  have 2: "thread_step ?s1 (s\<lparr>p_local := (p_local s)(t \<mapsto> full_buffer t Sync_None)\<rparr>)" (is "thread_step _ ?s2")
    using fill [of ?s1 t "EventBuffer_set_owner b t" 1 "Some 0" "full_buffer t Sync_None"]
    by (simp add: EventBuffer_allocate_def EventBuffer_set_owner_def b_def full_buffer_def)
  have 3: "thread_step ?s2 (s\<lparr>p_local := (p_local s)(t \<mapsto> full_buffer t y)\<rparr>)" (is "thread_step _ ?s3")
    using mark [of ?s2 t "full_buffer t Sync_None" y] by (simp add: full_buffer_def)
  have 4: "thread_step ?s3 (s\<lparr>p_handed := p_handed s @ [c], p_cq := p_cq s @ [c]\<rparr>)"
    using hand_over [of ?s3 t "full_buffer t y" c] assms(2-4)
    by (simp add: full_buffer_def EventBuffer_is_valid_def EventBuffer_get_length_def fun_upd_idem)
  show ?thesis by (rule reach_thread [OF reach_thread [OF reach_thread [OF reach_thread [OF assms(1) 1] 2] 3] 4])
qed

lemma run_take:
  assumes "pipe_reachable n s" and "i < n" and "p_ct s i = CT_loop" and "\<forall>j < n. \<not> in_critical (p_ct s j)" and "\<not> p_cq_final s"
    and "p_cq s = c # cs" and "eb_sync (ch_buffer c) = Sync_None" and "ch_owner c \<notin> set (p_in_process s)"
  shows "pipe_reachable n (s\<lparr>p_cq := cs, p_ct := (p_ct s)(i := CT_process c), p_in_process := p_in_process s @ [ch_owner c]\<rparr>)"
proof -
  let ?s1 = "set_ct s i CT_peek"
  let ?s2 = "set_ct ?s1 i (CT_peeked c)"
  let ?s3 = "set_ct (?s2\<lparr>p_in_process := p_in_process s @ [ch_owner c]\<rparr>) i (CT_claimed c)"
  have 1: "ct_step n i s ?s1" using assms(3,4) by (rule enter)
  have 2: "ct_step n i ?s1 ?s2" using assms(5-7) by (intro peek) simp_all
  have 3: "ct_step n i ?s2 ?s3" using assms(8) by (intro claim) (simp_all add: add_thread_in_process_def)
  have 4: "ct_step n i ?s3 (set_ct (?s3\<lparr>p_cq := cs\<rparr>) i (CT_process c))" using assms(6) by (intro dequeue [of _ _ c]) simp_all
  have "pipe_reachable n (set_ct (?s3\<lparr>p_cq := cs\<rparr>) i (CT_process c))"
    by (rule reach_ct [OF reach_ct [OF reach_ct [OF reach_ct [OF assms(1,2) 1] assms(2) 2] assms(2) 3] assms(2) 4])
  then show ?thesis by (cases s) (simp add: set_ct_def)
qed

lemma run_finish:
  assumes "pipe_reachable n s" and "i < n" and "p_ct s i = CT_process c" and "EventBuffer_get_length (ch_buffer c) > 0"
    and "\<not> p_fq_final s" and "remove_thread_in_process (ch_owner c) (p_in_process s) = (r, ts)"
  shows "pipe_reachable n (s\<lparr>p_fq := p_fq s @ [c], p_ct := (p_ct s)(i := CT_loop), p_in_process := ts\<rparr>)"
proof -
  let ?s1 = "set_ct s i (CT_emit c None)"
  let ?s2 = "set_ct (?s1\<lparr>p_fq := p_fq s @ [c]\<rparr>) i (CT_release (ch_owner c))"
  have 1: "ct_step n i s ?s1" using assms(3,4) by (rule process_plain)
  have 2: "ct_step n i ?s1 ?s2" using emit [of ?s1 i c None n] assms(5) by simp
  have 3: "ct_step n i ?s2 (set_ct (?s2\<lparr>p_in_process := ts\<rparr>) i CT_loop)"
    using assms(6) by (intro release [of _ _ "ch_owner c" r]) simp_all
  have "pipe_reachable n (set_ct (?s2\<lparr>p_in_process := ts\<rparr>) i CT_loop)"
    by (rule reach_ct [OF reach_ct [OF reach_ct [OF assms(1,2) 1] assms(2) 2] assms(2) 3])
  then show ?thesis by (cases s) (simp add: set_ct_def)
qed

lemma run_sync:
  assumes "pipe_reachable 1 s" and "p_ct s 0 = CT_loop" and "\<not> p_cq_final s" "\<not> p_fq_final s"
    and "p_cq s = c # cs" and "eb_sync (ch_buffer c) \<noteq> Sync_None"
  shows "pipe_reachable 1 (s\<lparr>p_cq := cs, p_fq := p_fq s @ [c]\<rparr>)"
proof -
  have i: "(0::nat) < 1" by simp
  let ?s1 = "set_ct s 0 CT_peek"
  let ?s2 = "set_ct ?s1 0 (CT_sync 0)"
  let ?s3 = "set_ct ?s2 0 (CT_sync 1)"
  let ?s4 = "set_ct (?s3\<lparr>p_cq := cs\<rparr>) 0 (CT_sync_dequeued c)"
  have 1: "ct_step 1 0 s ?s1" using assms(2) by (intro enter) simp_all
  have 2: "ct_step 1 0 ?s1 ?s2" using assms(3,5,6) by (intro peek_sync_master) simp_all
  have 3: "ct_step 1 0 ?s2 ?s3" using sync_wait [of ?s2 0 0 1] by simp
  have 4: "ct_step 1 0 ?s3 ?s4" using assms(5) by (intro sync_dequeue) simp_all
  have 5: "ct_step 1 0 ?s4 (set_ct (?s4\<lparr>p_fq := p_fq s @ [c]\<rparr>) 0 CT_loop)" using sync_emit [of ?s4 0 c 1] assms(4) by simp
  have "pipe_reachable 1 (set_ct (?s4\<lparr>p_fq := p_fq s @ [c]\<rparr>) 0 CT_loop)"
    by (rule reach_ct [OF reach_ct [OF reach_ct [OF reach_ct [OF reach_ct [OF assms(1) i 1] i 2] i 3] i 4] i 5])
  moreover have "(p_ct s)(0 := CT_loop) = p_ct s" using assms(2) by (simp add: fun_upd_idem)
  ultimately show ?thesis by (cases s) (simp add: set_ct_def)
qed

lemma run_write:
  assumes "pipe_reachable n s" and "p_worker s = W_dequeue" and "\<not> p_fq_final s" and "p_fq s = c # cs"
  shows "pipe_reachable n (s\<lparr>p_fq := cs, p_written := p_written s @ [c]\<rparr>)"
proof -
  let ?s1 = "s\<lparr>p_worker := W_write c, p_fq := cs\<rparr>"
  let ?s2 = "?s1\<lparr>p_worker := W_recycle (EventBuffer_reset (ch_buffer c)), p_written := p_written s @ [c]\<rparr>"
  have 1: "worker_step s ?s1" using assms(2-4) by (intro w_dequeue) simp_all
  have 2: "worker_step ?s1 ?s2" using w_write [of ?s1 c] by simp
  have 3: "worker_step ?s2 (?s2\<lparr>p_worker := W_dequeue, p_free := p_free s\<rparr>)" by (rule w_recycle) simp_all
  have "pipe_reachable n (?s2\<lparr>p_worker := W_dequeue, p_free := p_free s\<rparr>)"
    by (rule reach_worker [OF reach_worker [OF reach_worker [OF assms(1) 1] 2] 3])
  then show ?thesis using assms(2) by (cases s) simp
qed

text \<open>Thread 7 hands over an ordinary buffer and a synchronization buffer, both are written.\<close>

definition two_chunks :: "chunk list" where
  "two_chunks = [\<lparr>ch_seq = 0, ch_buffer = full_buffer 7 Sync_None\<rparr>, \<lparr>ch_seq = 1, ch_buffer = full_buffer 7 Sync_Full\<rparr>]"

definition written_two :: pipe where
  "written_two = pipe_init\<lparr>p_handed := two_chunks, p_written := two_chunks, p_ct := (\<lambda>_. CT_created)(0 := CT_loop),
     p_worker := W_waits\<rparr>"

lemma written_two_reachable: "pipe_reachable 1 written_two"
proof -
  have i: "(0::nat) < 1" by simp
  let ?a = "\<lparr>ch_seq = 0, ch_buffer = full_buffer 7 Sync_None\<rparr>" and ?b = "\<lparr>ch_seq = 1, ch_buffer = full_buffer 7 Sync_Full\<rparr>"
  let ?i = "pipe_init\<lparr>p_worker := W_dequeue, p_ct := (\<lambda>_. CT_created)(0 := CT_loop)\<rparr>"
  have w: "worker_step pipe_init (pipe_init\<lparr>p_worker := W_dequeue\<rparr>)" by (rule w_start) (simp add: pipe_init_def)
  have "ct_step 1 0 (pipe_init\<lparr>p_worker := W_dequeue\<rparr>) ?i"
    using start [of "pipe_init\<lparr>p_worker := W_dequeue\<rparr>" 0 1] by (simp add: pipe_init_def set_ct_def)
  with reach_worker [OF reach_init w] have r0: "pipe_reachable 1 ?i" by (rule reach_ct [OF _ i])
  have r1: "pipe_reachable 1 (?i\<lparr>p_handed := [?a], p_cq := [?a]\<rparr>)"
    using run_produce [OF r0, of 7 ?a Sync_None] by (simp add: pipe_init_def)
  have r2: "pipe_reachable 1 (?i\<lparr>p_handed := two_chunks, p_cq := two_chunks\<rparr>)"
    using run_produce [OF r1, of 7 ?b Sync_Full] by (simp add: pipe_init_def two_chunks_def)
  have r3: "pipe_reachable 1 (?i\<lparr>p_handed := two_chunks, p_cq := [?b], p_ct := (\<lambda>_. CT_created)(0 := CT_process ?a), p_in_process := [7]\<rparr>)"
    using run_take [OF r2 i, of ?a "[?b]"] by (simp add: pipe_init_def two_chunks_def)
  have r4: "pipe_reachable 1 (?i\<lparr>p_handed := two_chunks, p_cq := [?b], p_fq := [?a]\<rparr>)"
    using run_finish [OF r3 i, of ?a True "[]"] by (simp add: pipe_init_def)
  have r5: "pipe_reachable 1 (?i\<lparr>p_handed := two_chunks, p_fq := [?a, ?b]\<rparr>)"
    using run_sync [OF r4, of ?b "[]"] by (simp add: pipe_init_def)
  have r6: "pipe_reachable 1 (?i\<lparr>p_handed := two_chunks, p_fq := [?b], p_written := [?a]\<rparr>)"
    using run_write [OF r5, of ?a "[?b]"] by (simp add: pipe_init_def)
  have r7: "pipe_reachable 1 (?i\<lparr>p_handed := two_chunks, p_written := two_chunks\<rparr>)"
    using run_write [OF r6, of ?b "[]"] by (simp add: pipe_init_def two_chunks_def)
  have "worker_step (?i\<lparr>p_handed := two_chunks, p_written := two_chunks\<rparr>) written_two"
    using w_wait [of "?i\<lparr>p_handed := two_chunks, p_written := two_chunks\<rparr>"] by (simp add: pipe_init_def written_two_def)
  then show ?thesis by (rule reach_worker [OF r7])
qed

section \<open>The table of owners in process overflows\<close>

text \<open>\<open>CONCURRENT_PROCESSINGS\<close>: the number of cells of \<open>in_process\<close>.\<close>

definition CONCURRENT_PROCESSINGS :: nat where
  "CONCURRENT_PROCESSINGS = 10"

definition crowd_chunk :: "nat \<Rightarrow> chunk" where
  "crowd_chunk k = \<lparr>ch_seq = k, ch_buffer = full_buffer k Sync_None\<rparr>"

text \<open>Each of the first \<open>k\<close> compression threads works on a buffer of its own owner.\<close>

definition crowd :: "nat \<Rightarrow> pipe" where
  "crowd k = pipe_init\<lparr>p_handed := map crowd_chunk [0..<k], p_ct := (\<lambda>i. if i < k then CT_process (crowd_chunk i) else CT_created),
     p_in_process := [0..<k]\<rparr>"

lemma crowd_reachable: "k \<le> n \<Longrightarrow> pipe_reachable n (crowd k)"
proof (induction k)
  case 0
  have "crowd 0 = pipe_init" by (simp add: crowd_def pipe_init_def)
  then show ?case by (simp add: reach_init)
next
  case (Suc k)
  let ?s = "crowd k" and ?c = "crowd_chunk k"
  let ?s1 = "?s\<lparr>p_handed := p_handed ?s @ [?c], p_cq := p_cq ?s @ [?c]\<rparr>"
  let ?s2 = "set_ct ?s1 k CT_loop"
  from Suc have k: "k < n" and r0: "pipe_reachable n ?s" by simp_all
  have r1: "pipe_reachable n ?s1"
    by (rule run_produce [OF r0, of k _ Sync_None]) (simp_all add: crowd_def pipe_init_def crowd_chunk_def)
  have "ct_step n k ?s1 ?s2" by (rule start) (simp add: crowd_def)
  from reach_ct [OF r1 k this] have r2: "pipe_reachable n ?s2" .
  have "pipe_reachable n (?s2\<lparr>p_cq := [], p_ct := (p_ct ?s2)(k := CT_process ?c), p_in_process := p_in_process ?s2 @ [ch_owner ?c]\<rparr>)"
    by (rule run_take [OF r2 k]) (auto simp: crowd_def pipe_init_def crowd_chunk_def)
  moreover have "?s2\<lparr>p_cq := [], p_ct := (p_ct ?s2)(k := CT_process ?c), p_in_process := p_in_process ?s2 @ [ch_owner ?c]\<rparr>
      = crowd (Suc k)"
    by (auto simp: crowd_def pipe_init_def set_ct_def crowd_chunk_def less_Suc_eq fun_eq_iff)
  ultimately show ?case by simp
qed

section \<open>Claims\<close>



text \<open>C30. No buffer is written twice, and only buffers that were handed over are written.\<close>

theorem written_once:
  "pipe_reachable n s \<Longrightarrow> distinct (map ch_seq (p_written s)) \<and> set (map ch_seq (p_written s)) \<subseteq> {0..<length (p_handed s)}"
  by (simp only: written_distinct conj_absorb simp_thms)

theorem written_once_witness:
  "distinct (map ch_seq (p_written written_two)) \<and> set (map ch_seq (p_written written_two)) \<subseteq> {0..<length (p_handed written_two)}"
  by (rule written_once [OF written_two_reachable])

text \<open>C10. A buffer with a synchronization mark is a barrier: what stands before it in the trace file is
  exactly what was handed over before it, by all threads together.\<close>

theorem sync_buffer_is_barrier:
  "pipe_reachable n s \<Longrightarrow> p_written s = us @ c # vs \<Longrightarrow> eb_sync (ch_buffer c) \<noteq> Sync_None
    \<Longrightarrow> ch_seq ` set us = {0..<ch_seq c}"
  using pipe_reachable_inv [of n s] barrier_prefix [of "p_written s" "writing (p_worker s) @ p_fq s"] barrierD
  unfolding pipe_inv_def out_def by blast

theorem sync_buffer_is_barrier_witness:
  "ch_seq ` set [two_chunks ! 0] = {0..<ch_seq (two_chunks ! 1)} \<and> eb_sync (ch_buffer (two_chunks ! 1)) = Sync_Full"
  using sync_buffer_is_barrier [OF written_two_reachable, of "[two_chunks ! 0]" "two_chunks ! 1" "[]"]
  by (simp add: written_two_def two_chunks_def)

text \<open>C11. When \<open>EventBuffers::flush\<close> returns, every buffer handed over before the call is in the trace file,
  although its four conditions are observed one after the other while the pipeline keeps running.\<close>

theorem flush_writes_all:
  assumes "pipe_reachable n s" and "(flush_step n)\<^sup>*\<^sup>* (F_compression, s) (F_done, s')"
  shows "set (map ch_seq (p_handed s)) \<subseteq> set (map ch_seq (p_written s'))"
proof -
  from pipe_reachable_inv [OF assms(1)] have inv: "pipe_inv n s" .
  then have "flush_inv (length (p_handed s)) n (F_compression, s)" by (simp add: flush_inv_def)
  from flush_steps_inv [OF assms(2) this] have "{0..<length (p_handed s)} \<subseteq> ch_seq ` set (p_written s')" by (simp add: flush_inv_def)
  moreover have "set (map ch_seq (p_handed s)) = {0..<length (p_handed s)}" using inv by (simp add: pipe_inv_def in_order_def del: set_map)
  ultimately show ?thesis by simp
qed

theorem flush_writes_all_witness:
  "set (map ch_seq (p_handed written_two)) \<subseteq> set (map ch_seq (p_written written_two))"
proof (rule flush_writes_all [OF written_two_reachable])
  have "flush_step 1 (F_compression, written_two) (F_idle 0, written_two)"
    by (rule f_compression) (simp add: written_two_def pipe_init_def)
  moreover have "flush_step 1 (F_idle 0, written_two) (F_idle 1, written_two)"
    using f_idle [of 0 1 written_two] by (simp add: written_two_def)
  moreover have "flush_step 1 (F_idle 1, written_two) (F_flush, written_two)" by (rule f_all_idle)
  moreover have "flush_step 1 (F_flush, written_two) (F_worker, written_two)"
    by (rule f_flush) (simp add: written_two_def pipe_init_def)
  moreover have "flush_step 1 (F_worker, written_two) (F_done, written_two)" by (rule f_worker) (simp add: written_two_def)
  ultimately show "(flush_step 1)\<^sup>*\<^sup>* (F_compression, written_two) (F_done, written_two)"
    by (meson converse_rtranclp_into_rtranclp rtranclp.rtrancl_refl)
qed

text \<open>C33. The table of owners in process has no duplicates and at most one entry per compression thread,
  and each number of compression threads can fill it: with more than \<open>CONCURRENT_PROCESSINGS\<close> compression
  threads \<open>add_thread_in_process\<close> writes behind the end of its array.\<close>

theorem in_process_table:
  "(\<forall>s. pipe_reachable n s \<longrightarrow> distinct (p_in_process s) \<and> length (p_in_process s) \<le> n)
   \<and> (\<exists>s. pipe_reachable n s \<and> length (p_in_process s) = n)
   \<and> (CONCURRENT_PROCESSINGS < n \<longrightarrow> (\<exists>s. pipe_reachable n s \<and> CONCURRENT_PROCESSINGS < length (p_in_process s)))"
proof -
  have "length (p_in_process (crowd n)) = n" by (simp add: crowd_def)
  with crowd_reachable [OF order_refl, of n] in_process_bound show ?thesis by metis
qed

theorem in_process_table_witness:
  "(\<exists>s. pipe_reachable 16 s \<and> CONCURRENT_PROCESSINGS < length (p_in_process s)) \<and> pipe_reachable 1 written_two"
  using in_process_table [of 16] written_two_reachable by (simp add: CONCURRENT_PROCESSINGS_def)

end
