(* ===== verification/EventPointerList.thy ===== *)
theory EventPointerList
  imports Bytes
begin

text \<open>
  \<open>EventPointerList\<close>: the pointers of one object that are waiting to be written, at most twelve, with the
  kind of each packed into two bits of \<open>ptr_kinds\<close>.  The lemmas relate the list to the sequence of
  (kind, value) pairs it holds.
\<close>

section \<open>The list\<close>

definition MAX_CAPACITY :: nat where
  "MAX_CAPACITY = 12"

abbreviation (input) END :: uint where "END \<equiv> 0"

abbreviation (input) RELATIVE_PTR :: uint where "RELATIVE_PTR \<equiv> 1"

abbreviation (input) ABSOLUTE_PTR :: uint where "ABSOLUTE_PTR \<equiv> 2"

abbreviation (input) NULL_PTR :: uint where "NULL_PTR \<equiv> 3"

record EventPointerList =
  epl_capacity :: nat
  epl_list :: "u64 list"
  epl_ptr_kinds :: uint
  epl_top :: nat
  epl_relative_ptrs :: nat
  epl_absolute_ptrs :: nat
  epl_null_ptrs :: nat

definition EventPointerList_create :: EventPointerList where
  "EventPointerList_create = \<lparr>epl_capacity = 2, epl_list = replicate 2 0, epl_ptr_kinds = 0, epl_top = 0,
     epl_relative_ptrs = 0, epl_absolute_ptrs = 0, epl_null_ptrs = 0\<rparr>"

text \<open>The kind is returned through a pointer to a local variable in the code; here it is the second component.\<close>

definition EventPointerList_get_next :: "EventPointerList \<Rightarrow> nat \<Rightarrow> u64 \<times> uint" where
  "EventPointerList_get_next l i = (epl_list l ! i, drop_bit ((MAX_CAPACITY - 1 - i) * 2) (epl_ptr_kinds l) AND 3)"

text \<open>The cells that \<open>realloc\<close> adds have no specified content; they are written before their value is used.\<close>

definition EventPointerList_resize :: "EventPointerList \<Rightarrow> EventPointerList" where
  "EventPointerList_resize l =
    (let new_capacity = if epl_capacity l * 2 > MAX_CAPACITY then MAX_CAPACITY else epl_capacity l * 2
     in if new_capacity \<noteq> epl_capacity l
        then l\<lparr>epl_list := epl_list l @ replicate (new_capacity - epl_capacity l) 0, epl_capacity := new_capacity\<rparr>
        else l)"

definition EventPointerList_add :: "EventPointerList \<Rightarrow> u64 \<Rightarrow> uint \<Rightarrow> EventPointerList" where
  "EventPointerList_add l p kind =
    (let l = (if epl_top l = epl_capacity l then EventPointerList_resize l else l);
         l = l\<lparr>epl_ptr_kinds := push_bit 2 (epl_ptr_kinds l) OR kind\<rparr>;
         l = (if kind = NULL_PTR then l\<lparr>epl_null_ptrs := epl_null_ptrs l + 1\<rparr>
              else if kind = RELATIVE_PTR then l\<lparr>epl_list := (epl_list l)[epl_top l := p], epl_relative_ptrs := epl_relative_ptrs l + 1\<rparr>
              else if kind = ABSOLUTE_PTR then l\<lparr>epl_list := (epl_list l)[epl_top l := p], epl_absolute_ptrs := epl_absolute_ptrs l + 1\<rparr>
              else l)
     in l\<lparr>epl_top := epl_top l + 1\<rparr>)"

definition EventPointerList_get_size :: "EventPointerList \<Rightarrow> nat" where
  "EventPointerList_get_size l = epl_top l"

definition EventPointerList_get_words :: "EventPointerList \<Rightarrow> nat" where
  "EventPointerList_get_words l = epl_relative_ptrs l + 2 * epl_absolute_ptrs l"

text \<open>\<open>get_kinds\<close> moves the kinds to the high end and stores them there.\<close>

definition EventPointerList_get_kinds :: "EventPointerList \<Rightarrow> uint \<times> EventPointerList" where
  "EventPointerList_get_kinds l =
    (let l = (if epl_top l \<noteq> 0 \<and> epl_top l \<noteq> MAX_CAPACITY
              then l\<lparr>epl_ptr_kinds := push_bit ((MAX_CAPACITY - epl_top l) * 2) (epl_ptr_kinds l)\<rparr> else l)
     in (epl_ptr_kinds l, l))"

definition EventPointerList_clear :: "EventPointerList \<Rightarrow> EventPointerList" where
  "EventPointerList_clear l = l\<lparr>epl_top := 0, epl_relative_ptrs := 0, epl_absolute_ptrs := 0, epl_null_ptrs := 0, epl_ptr_kinds := 0\<rparr>"

section \<open>Kinds packed into a word\<close>

type_synonym entry = "uint \<times> u64"

definition pack_kinds :: "uint list \<Rightarrow> uint" where
  "pack_kinds ks = foldl (\<lambda>w k. push_bit 2 w OR k) 0 ks"

abbreviation kinds_ok :: "uint list \<Rightarrow> bool" where
  "kinds_ok ks \<equiv> \<forall>k \<in> set ks. k < 4"

lemma bit_unat_less: "unat w < 2 ^ n \<Longrightarrow> bit w i \<Longrightarrow> i < n" for w :: "'a::len word"
proof (rule ccontr)
  assume *: "unat w < 2 ^ n" "bit w i" "\<not> i < n"
  then have "unat w < 2 ^ i" by (meson less_le_trans linorder_not_less one_le_numeral power_increasing)
  then have "\<not> bit (unat w) i" by (simp add: bit_iff_odd)
  with * show False by (simp add: bit_unsigned_iff)
qed

lemma less_4_bits: "k < 4 \<Longrightarrow> bit k i \<Longrightarrow> i < 2" for k :: uint
  by (rule bit_unat_less [of k 2]) (simp_all add: word_less_nat_alt)

lemma pack_kinds_snoc [simp]: "pack_kinds (ks @ [k]) = push_bit 2 (pack_kinds ks) OR k"
  by (simp add: pack_kinds_def)

lemma pack_kinds_Nil [simp]: "pack_kinds [] = 0"
  by (simp add: pack_kinds_def)

lemma bit_pack_kinds:
  "kinds_ok ks \<Longrightarrow> 2 * length ks \<le> 32 \<Longrightarrow> bit (pack_kinds ks) m \<longleftrightarrow>
     m < 2 * length ks \<and> bit (ks ! (length ks - 1 - m div 2)) (m mod 2)"
proof (induction ks arbitrary: m rule: rev_induct)
  case Nil
  then show ?case by simp
next
  case (snoc k ks)
  have k: "k < 4" and ih: "\<And>m. bit (pack_kinds ks) m \<longleftrightarrow> m < 2 * length ks \<and> bit (ks ! (length ks - 1 - m div 2)) (m mod 2)"
    using snoc.prems snoc.IH by auto
  show ?case
  proof (cases "m < 2")
    case True
    then show ?thesis by (auto simp: bit_or_iff bit_push_bit_iff nth_append)
  next
    case False
    then have "\<not> bit k m" using less_4_bits [OF k, of m] by auto
    obtain m' where m: "m = m' + 2" using False by (metis le_add_diff_inverse2 not_less)
    show ?thesis using \<open>\<not> bit k m\<close> snoc.prems(2)
      by (auto simp: bit_or_iff bit_push_bit_iff ih nth_append m)
  qed
qed

lemma kind_at:
  assumes "kinds_ok ks" and "length ks \<le> 12" and "i < 12"
  shows "drop_bit ((11 - i) * 2) (push_bit ((12 - length ks) * 2) (pack_kinds ks)) AND 3 = (if i < length ks then ks ! i else 0)"
proof (rule bit_word_eqI)
  fix m assume "m < LENGTH(32)"
  have three: "bit (3 :: uint) m \<longleftrightarrow> m < 2"
    using \<open>m < LENGTH(32)\<close> bit_mask_iff [of 2 m, where 'a = uint] by (simp add: mask_eq_exp_minus_1)
  show "bit (drop_bit ((11 - i) * 2) (push_bit ((12 - length ks) * 2) (pack_kinds ks)) AND 3) m = bit (if i < length ks then ks ! i else 0) m"
  proof (cases "i < length ks")
    case True
    define q where "q = (12 - length ks) * 2"
    define r where "r = m + 2 * (length ks - 1 - i)"
    have pos: "(11 - i) * 2 + m = q + r" using True assms(2) by (simp add: q_def r_def)
    have "bit (drop_bit ((11 - i) * 2) (push_bit q (pack_kinds ks))) m = bit (ks ! i) m" if m: "m < 2"
    proof -
      have "q + r < 32" "r < 2 * length ks" "length ks - 1 - r div 2 = i" "r mod 2 = m"
        using True assms(2) m by (auto simp: q_def r_def)
      then show ?thesis using bit_pack_kinds [OF assms(1), of r] assms(2)
        by (simp add: bit_drop_bit_eq bit_push_bit_iff pos)
    qed
    moreover have "bit (ks ! i) m \<Longrightarrow> m < 2" using less_4_bits assms(1) True nth_mem by blast
    ultimately show ?thesis using True three by (auto simp: bit_and_iff q_def)
  next
    case False
    then have "m + (11 - i) * 2 < (12 - length ks) * 2 \<or> \<not> m < 2" using assms(2,3) by auto
    with False three show ?thesis by (auto simp: bit_and_iff bit_drop_bit_eq bit_push_bit_iff)
  qed
qed

section \<open>What a list holds\<close>

definition entry_ok :: "entry \<Rightarrow> bool" where
  "entry_ok e \<longleftrightarrow> fst e \<in> {RELATIVE_PTR, ABSOLUTE_PTR, NULL_PTR}"

definition epl_rel :: "EventPointerList \<Rightarrow> entry list \<Rightarrow> bool" where
  "epl_rel l es \<longleftrightarrow> (\<forall>e \<in> set es. entry_ok e) \<and> epl_top l = length es
     \<and> epl_top l \<le> epl_capacity l \<and> epl_capacity l \<in> {2, 4, 8, 12} \<and> length (epl_list l) = epl_capacity l
     \<and> epl_ptr_kinds l = pack_kinds (map fst es)
     \<and> (\<forall>i < length es. fst (es ! i) \<noteq> NULL_PTR \<longrightarrow> epl_list l ! i = snd (es ! i))
     \<and> epl_relative_ptrs l = length (filter (\<lambda>e. fst e = RELATIVE_PTR) es)
     \<and> epl_absolute_ptrs l = length (filter (\<lambda>e. fst e = ABSOLUTE_PTR) es)
     \<and> epl_null_ptrs l = length (filter (\<lambda>e. fst e = NULL_PTR) es)"

lemma epl_create [simp]: "epl_rel EventPointerList_create []"
  by (simp add: epl_rel_def EventPointerList_create_def)

lemma epl_clear: "epl_rel l es \<Longrightarrow> epl_rel (EventPointerList_clear l) []"
  by (auto simp: epl_rel_def EventPointerList_clear_def)

lemma epl_size: "epl_rel l es \<Longrightarrow> EventPointerList_get_size l = length es"
  by (simp add: epl_rel_def EventPointerList_get_size_def)

lemma epl_length: "epl_rel l es \<Longrightarrow> length es \<le> 12"
  by (auto simp: epl_rel_def)

lemma resize_rel:
  assumes "epl_rel l es" and "epl_top l = epl_capacity l" and "length es < 12"
  shows "epl_rel (EventPointerList_resize l) es \<and> epl_top l < epl_capacity (EventPointerList_resize l)"
proof -
  have "epl_capacity l \<in> {2, 4, 8}" using assms by (auto simp: epl_rel_def)
  then show ?thesis using assms by (auto simp: epl_rel_def EventPointerList_resize_def MAX_CAPACITY_def Let_def nth_append)
qed

lemma add_rel_room:
  assumes "epl_rel l es" and "epl_top l < epl_capacity l" and "entry_ok (k, p)"
  shows "epl_rel (EventPointerList_add l p k) (es @ [(k, p)])"
  using assms by (auto simp: epl_rel_def EventPointerList_add_def entry_ok_def Let_def nth_append nth_list_update)

lemma add_rel:
  assumes "epl_rel l es" and "length es < 12" and "entry_ok (k, p)"
  shows "epl_rel (EventPointerList_add l p k) (es @ [(k, p)])"
proof (cases "epl_top l = epl_capacity l")
  case True
  define l' where "l' = EventPointerList_resize l"
  have "epl_rel l' es" "epl_top l' < epl_capacity l'" "epl_top l' = epl_top l"
    using resize_rel [OF assms(1) True assms(2)] assms(1) by (auto simp: l'_def epl_rel_def)
  moreover have "EventPointerList_add l p k = EventPointerList_add l' p k"
    using True \<open>epl_top l' < epl_capacity l'\<close> by (simp add: EventPointerList_add_def l'_def)
  ultimately show ?thesis using add_rel_room assms(3) by simp
next
  case False
  with assms show ?thesis by (intro add_rel_room) (auto simp: epl_rel_def)
qed

text \<open>The packed kinds as they are written, and the entries as they are read back from the list afterwards.\<close>

definition header_kinds :: "entry list \<Rightarrow> uint" where
  "header_kinds es = push_bit ((12 - length es) * 2) (pack_kinds (map fst es))"

lemma header_kinds_at:
  "\<forall>e \<in> set es. entry_ok e \<Longrightarrow> length es \<le> 12 \<Longrightarrow> i < 12
    \<Longrightarrow> drop_bit ((11 - i) * 2) (header_kinds es) AND 3 = (if i < length es then fst (es ! i) else END)"
  using kind_at [of "map fst es" i] by (force simp: header_kinds_def entry_ok_def)

lemma get_kinds_rel:
  assumes "epl_rel l es" and "EventPointerList_get_kinds l = (k, l')"
  shows "k = header_kinds es" "epl_ptr_kinds l' = header_kinds es" "epl_top l' = length es"
    "epl_list l' = epl_list l" "EventPointerList_get_words l' = EventPointerList_get_words l"
  using assms by (auto simp: epl_rel_def EventPointerList_get_kinds_def Let_def header_kinds_def MAX_CAPACITY_def
      EventPointerList_get_words_def split: if_splits)

lemma get_next_rel:
  assumes "epl_rel l es" and "EventPointerList_get_kinds l = (k, l')" and "i < length es"
  shows "snd (EventPointerList_get_next l' i) = fst (es ! i)"
    "fst (es ! i) \<noteq> NULL_PTR \<Longrightarrow> fst (EventPointerList_get_next l' i) = snd (es ! i)"
  using get_kinds_rel [OF assms(1,2)] header_kinds_at [of es i] epl_length [OF assms(1)] assms(1,3)
  by (auto simp: EventPointerList_get_next_def MAX_CAPACITY_def epl_rel_def)

lemma bit_header_kinds: "\<forall>e \<in> set es. entry_ok e \<Longrightarrow> length es \<le> 12 \<Longrightarrow> bit (header_kinds es) m \<Longrightarrow> m < 24"
  using bit_pack_kinds [of "map fst es" "m - (12 - length es) * 2"] by (force simp: header_kinds_def bit_push_bit_iff entry_ok_def)

end
