(* ===== verification/Events.thy ===== *)
theory Events
  imports EventPointerList
begin

text \<open>
  \<open>EventsRuntime\<close>: the events of the virtual machine and the words that are written for each of them.
  A call \<open>fire_event(thread, event_type, size, top) { ... }\<close> is the triple of its event type, the size
  it reserves in the event buffer, and the words its body writes at \<open>top\<close>.
\<close>

section \<open>Event types\<close>

type_synonym EventType = byte

abbreviation (input) EVENTS_NOP :: EventType where "EVENTS_NOP \<equiv> 0x00"

abbreviation (input) EVENTS_MARK :: EventType where "EVENTS_MARK \<equiv> 0x01"

abbreviation (input) EVENTS_GC_START :: EventType where "EVENTS_GC_START \<equiv> 0x02"

abbreviation (input) EVENTS_GC_END :: EventType where "EVENTS_GC_END \<equiv> 0x03"

abbreviation (input) EVENTS_GC_INFO :: EventType where "EVENTS_GC_INFO \<equiv> 0x04"

abbreviation (input) EVENTS_GC_FAILED :: EventType where "EVENTS_GC_FAILED \<equiv> 0x05"

abbreviation (input) EVENTS_SPACE_CREATE :: EventType where "EVENTS_SPACE_CREATE \<equiv> 0x06"

abbreviation (input) EVENTS_SPACE_ALLOC :: EventType where "EVENTS_SPACE_ALLOC \<equiv> 0x07"

abbreviation (input) EVENTS_SPACE_RELEASE :: EventType where "EVENTS_SPACE_RELEASE \<equiv> 0x08"

abbreviation (input) EVENTS_SPACE_REDEFINE :: EventType where "EVENTS_SPACE_REDEFINE \<equiv> 0x09"

abbreviation (input) EVENTS_SPACE_DESTROY :: EventType where "EVENTS_SPACE_DESTROY \<equiv> 0x0A"

abbreviation (input) EVENTS_THREAD_ALIVE :: EventType where "EVENTS_THREAD_ALIVE \<equiv> 0x0B"

abbreviation (input) EVENTS_THREAD_DEATH :: EventType where "EVENTS_THREAD_DEATH \<equiv> 0x0C"

abbreviation (input) EVENTS_TLAB_ALLOC :: EventType where "EVENTS_TLAB_ALLOC \<equiv> 0x0D"

abbreviation (input) EVENTS_PLAB_ALLOC :: EventType where "EVENTS_PLAB_ALLOC \<equiv> 0x0E"

abbreviation (input) EVENTS_ALLOC_SLOW :: EventType where "EVENTS_ALLOC_SLOW \<equiv> 0x0F"

abbreviation (input) EVENTS_IR_ALLOC_SLOW :: EventType where "EVENTS_IR_ALLOC_SLOW \<equiv> 0x10"

abbreviation (input) EVENTS_IR_ALLOC_SLOW_DEVIANT_TYPE :: EventType where "EVENTS_IR_ALLOC_SLOW_DEVIANT_TYPE \<equiv> 0x11"

abbreviation (input) EVENTS_IR_ALLOC_NORMAL :: EventType where "EVENTS_IR_ALLOC_NORMAL \<equiv> 0x12"

abbreviation (input) EVENTS_IR_ALLOC_FAST :: EventType where "EVENTS_IR_ALLOC_FAST \<equiv> 0x13"

abbreviation (input) EVENTS_C1_ALLOC_SLOW :: EventType where "EVENTS_C1_ALLOC_SLOW \<equiv> 0x14"

abbreviation (input) EVENTS_C1_ALLOC_SLOW_DEVIANT_TYPE :: EventType where "EVENTS_C1_ALLOC_SLOW_DEVIANT_TYPE \<equiv> 0x15"

abbreviation (input) EVENTS_C1_ALLOC_NORMAL :: EventType where "EVENTS_C1_ALLOC_NORMAL \<equiv> 0x16"

abbreviation (input) EVENTS_C1_ALLOC_FAST :: EventType where "EVENTS_C1_ALLOC_FAST \<equiv> 0x17"

abbreviation (input) EVENTS_C1_ALLOC_FAST_DEVIANT_TYPE :: EventType where "EVENTS_C1_ALLOC_FAST_DEVIANT_TYPE \<equiv> 0x18"

abbreviation (input) EVENTS_C2_ALLOC_SLOW :: EventType where "EVENTS_C2_ALLOC_SLOW \<equiv> 0x19"

abbreviation (input) EVENTS_C2_ALLOC_SLOW_DEVIANT_TYPE :: EventType where "EVENTS_C2_ALLOC_SLOW_DEVIANT_TYPE \<equiv> 0x1A"

abbreviation (input) EVENTS_C2_ALLOC_NORMAL :: EventType where "EVENTS_C2_ALLOC_NORMAL \<equiv> 0x1B"

abbreviation (input) EVENTS_C2_ALLOC_FAST :: EventType where "EVENTS_C2_ALLOC_FAST \<equiv> 0x1C"

abbreviation (input) EVENTS_C2_ALLOC_FAST_DEVIANT_TYPE :: EventType where "EVENTS_C2_ALLOC_FAST_DEVIANT_TYPE \<equiv> 0x1D"

abbreviation (input) EVENTS_GC_MOVE_SLOW :: EventType where "EVENTS_GC_MOVE_SLOW \<equiv> 0x1E"

abbreviation (input) EVENTS_GC_MOVE_FAST_WIDE :: EventType where "EVENTS_GC_MOVE_FAST_WIDE \<equiv> 0x1F"

abbreviation (input) EVENTS_GC_MOVE_FAST :: EventType where "EVENTS_GC_MOVE_FAST \<equiv> 0x20"

abbreviation (input) EVENTS_GC_MOVE_FAST_NARROW :: EventType where "EVENTS_GC_MOVE_FAST_NARROW \<equiv> 0x21"

abbreviation (input) EVENTS_GC_MOVE_REGION :: EventType where "EVENTS_GC_MOVE_REGION \<equiv> 0x22"

abbreviation (input) EVENTS_GC_KEEP_ALIVE :: EventType where "EVENTS_GC_KEEP_ALIVE \<equiv> 0x23"

abbreviation (input) EVENTS_SYNC_OBJ :: EventType where "EVENTS_SYNC_OBJ \<equiv> 0x24"

abbreviation (input) EVENTS_SYNC_OBJ_NARROW :: EventType where "EVENTS_SYNC_OBJ_NARROW \<equiv> 0x25"

abbreviation (input) EVENTS_DEALLOCATION :: EventType where "EVENTS_DEALLOCATION \<equiv> 0x26"

abbreviation (input) EVENTS_GC_MOVE_SLOW_PTR :: EventType where "EVENTS_GC_MOVE_SLOW_PTR \<equiv> 0x27"

abbreviation (input) EVENTS_GC_MOVE_FAST_WIDE_PTR :: EventType where "EVENTS_GC_MOVE_FAST_WIDE_PTR \<equiv> 0x28"

abbreviation (input) EVENTS_GC_MOVE_FAST_PTR :: EventType where "EVENTS_GC_MOVE_FAST_PTR \<equiv> 0x29"

abbreviation (input) EVENTS_GC_KEEP_ALIVE_PTR :: EventType where "EVENTS_GC_KEEP_ALIVE_PTR \<equiv> 0x2A"

abbreviation (input) EVENTS_GC_PTR_EXTENSION :: EventType where "EVENTS_GC_PTR_EXTENSION \<equiv> 0x2B"

abbreviation (input) EVENTS_GC_PTR_MULTITHREADED :: EventType where "EVENTS_GC_PTR_MULTITHREADED \<equiv> 0x2C"

abbreviation (input) EVENTS_GC_ROOT_PTR :: EventType where "EVENTS_GC_ROOT_PTR \<equiv> 0x2D"

abbreviation (input) EVENTS_GC_UPDATE_PTR_PREMOVE :: EventType where "EVENTS_GC_UPDATE_PTR_PREMOVE \<equiv> 0x2E"

abbreviation (input) EVENTS_GC_INTERRUPT :: EventType where "EVENTS_GC_INTERRUPT \<equiv> 0x2F"

abbreviation (input) EVENTS_GC_CONTINUE :: EventType where "EVENTS_GC_CONTINUE \<equiv> 0x30"

abbreviation (input) EVENTS_GC_UPDATE_PTR_POSTMOVE :: EventType where "EVENTS_GC_UPDATE_PTR_POSTMOVE \<equiv> 0x31"

abbreviation (input) EVENTS_TAG :: EventType where "EVENTS_TAG \<equiv> 0x32"

section \<open>Words of an event\<close>

definition StuffedWord_add :: "uint \<Rightarrow> uint \<Rightarrow> nat \<Rightarrow> uint" where
  "StuffedWord_add v x s = push_bit s v OR x"

definition stuff :: "(uint \<times> nat) list \<Rightarrow> uint" where
  "stuff fs = foldl (\<lambda>v (x, s). StuffedWord_add v x s) 0 fs"

definition event_field :: "EventType \<Rightarrow> uint \<times> nat" where
  "event_field event = (scast event, 6)"

definition event_gap :: "uint \<times> nat" where
  "event_gap = (0, 2)"

definition gap :: "nat \<Rightarrow> uint \<times> nat" where
  "gap n = (0, n)"

type_synonym fired = "EventType \<times> nat \<times> uint list"

text \<open>The words behind \<open>top\<close> after \<open>FireEventBlockControl\<close> has run.\<close>

definition write_anchor :: "EventType \<Rightarrow> uint list" where
  "write_anchor event_type = [0xFFFF00FF OR push_bit 8 (scast event_type)]"

definition fire_event :: "bool \<Rightarrow> fired \<Rightarrow> uint list" where
  "fire_event TraceObjectsInsertAnchors =
    (\<lambda>(event_type, _, ws). ws @ (if TraceObjectsInsertAnchors then write_anchor event_type else []))"

definition write_word :: "uint \<Rightarrow> uint list" where
  "write_word v = [v]"

definition write_wide_word :: "u64 \<Rightarrow> uint list" where
  "write_wide_word v = write_word (ucast v) @ write_word (ucast (signed_drop_bit 32 v))"

definition write_abs_addr :: "u64 \<Rightarrow> uint list" where
  "write_abs_addr addr = write_wide_word addr"

definition write_time :: "u64 \<Rightarrow> uint list" where
  "write_time time = write_wide_word time"

definition write_length :: "uint \<Rightarrow> uint list" where
  "write_length l = write_word l"

definition write_type :: "uint \<Rightarrow> uint list" where
  "write_type tid = write_word tid"

definition write_size :: "u64 \<Rightarrow> uint list" where
  "write_size sz = write_wide_word sz"

text \<open>The loop over the characters, with the word under construction and the number of characters in it.
  A \<open>char\<close> is signed on the machines the virtual machine supports.\<close>

fun write_chars :: "byte list \<Rightarrow> uint \<Rightarrow> nat \<Rightarrow> uint list" where
  "write_chars [] w filled = (if filled > 0 then write_word (push_bit ((4 - filled) * 8) w) else [])"
| "write_chars (c # cs) w filled =
    (let (out, w, filled) = if filled = 4 then (write_word w, 0, 0) else ([], w, filled)
     in out @ write_chars cs (push_bit 8 w OR scast c) (filled + 1))"

definition write_string :: "byte list \<Rightarrow> uint list" where
  "write_string s = write_word (of_nat (length s)) @ write_chars s 0 0"

section \<open>Allocation sites in events\<close>

definition is_special_allocation_site :: "uint \<Rightarrow> bool" where
  "is_special_allocation_site site \<longleftrightarrow> sint site < 15"

definition is_big_allocation_site :: "uint \<Rightarrow> bool" where
  "is_big_allocation_site site \<longleftrightarrow> 0x800000 \<le> sint site"

definition is_allocation_fast_event :: "EventType \<Rightarrow> bool" where
  "is_allocation_fast_event t \<longleftrightarrow>
    t \<in> {EVENTS_IR_ALLOC_FAST, EVENTS_C1_ALLOC_FAST, EVENTS_C2_ALLOC_FAST, EVENTS_C2_ALLOC_FAST_DEVIANT_TYPE}"

definition is_allocation_normal_event :: "EventType \<Rightarrow> bool" where
  "is_allocation_normal_event t \<longleftrightarrow> t \<in> {EVENTS_IR_ALLOC_NORMAL, EVENTS_C1_ALLOC_NORMAL, EVENTS_C2_ALLOC_NORMAL}"

definition is_allocation_slow_with_deviant_type_event :: "EventType \<Rightarrow> bool" where
  "is_allocation_slow_with_deviant_type_event t \<longleftrightarrow>
    t \<in> {EVENTS_IR_ALLOC_SLOW_DEVIANT_TYPE, EVENTS_C1_ALLOC_SLOW_DEVIANT_TYPE, EVENTS_C2_ALLOC_SLOW_DEVIANT_TYPE}"

definition is_allocation_slow_event :: "EventType \<Rightarrow> bool" where
  "is_allocation_slow_event t \<longleftrightarrow> t \<in> {EVENTS_ALLOC_SLOW, EVENTS_IR_ALLOC_SLOW, EVENTS_C1_ALLOC_SLOW, EVENTS_C2_ALLOC_SLOW}
     \<or> is_allocation_slow_with_deviant_type_event t"

definition is_allocation_event :: "EventType \<Rightarrow> bool" where
  "is_allocation_event t \<longleftrightarrow> is_allocation_fast_event t \<or> is_allocation_normal_event t \<or> is_allocation_slow_event t"

definition ARRAY_LENGTH_MAX_SMALL :: uint where
  "ARRAY_LENGTH_MAX_SMALL = 0xFF"

definition write_obj_alloc_event :: "uint \<Rightarrow> EventType \<Rightarrow> uint \<Rightarrow> uint list" where
  "write_obj_alloc_event allocation_site event_type array_length =
    (if is_big_allocation_site allocation_site
     then write_word (stuff [event_field event_type, event_gap, (allocation_site, 3 * 8)])
     else write_word (stuff [event_field event_type, event_gap, (allocation_site, 2 * 8), (array_length, 8)]))"

definition create_obj_alloc_fast_prototype :: "uint \<Rightarrow> EventType \<Rightarrow> uint" where
  "create_obj_alloc_fast_prototype allocation_site event_type =
    (if is_big_allocation_site allocation_site
     then stuff [event_field event_type, event_gap, (allocation_site, 3 * 8)]
     else stuff [event_field event_type, event_gap, (allocation_site, 2 * 8), gap 8])"

section \<open>Allocations\<close>

text \<open>What the events need of an object: its address, length (of an array), size in heap words, and the
  identifier of its type.\<close>

record Oop =
  o_addr :: u64
  o_is_array :: bool
  o_length :: uint
  o_is_mirror :: bool
  o_size :: u64
  o_type :: uint

abbreviation (input) HeapWordSize :: "'a::len word" where
  "HeapWordSize \<equiv> 8"

definition write_abs_obj_addr :: "Oop \<Rightarrow> uint list" where
  "write_abs_obj_addr obj = write_abs_addr (o_addr obj)"

definition fire_obj_alloc_fast_no_arrays :: "Oop \<Rightarrow> uint \<Rightarrow> EventType \<Rightarrow> fired" where
  "fire_obj_alloc_fast_no_arrays obj allocation_site event_type =
    (event_type, 1, write_obj_alloc_event allocation_site event_type 0)"

definition fire_obj_alloc_normal_no_arrays :: "Oop \<Rightarrow> uint \<Rightarrow> EventType \<Rightarrow> fired" where
  "fire_obj_alloc_normal_no_arrays obj allocation_site event_type =
    (event_type, 3, write_obj_alloc_event allocation_site event_type 0 @ write_abs_obj_addr obj)"

text \<open>Compiled code passes the event word and the array length in one \<open>jlong\<close>.\<close>

definition fire_obj_alloc_fast_event :: "Oop \<Rightarrow> u64 \<Rightarrow> fired" where
  "fire_obj_alloc_fast_event obj event =
    (let event_alloc = ucast (signed_drop_bit 32 event) :: uint;
         isBigAllocSite = signed_drop_bit 23 event_alloc AND 1 \<noteq> 0;
         array_length = if isBigAllocSite then 0 else event_alloc AND 0x000000FF;
         event_type = ucast (signed_drop_bit 26 event_alloc)
     in if array_length = ARRAY_LENGTH_MAX_SMALL
        then (event_type, 2, write_word event_alloc @ write_length (ucast (event AND 0xFFFFFFFF)))
        else (event_type, 1, write_word event_alloc))"

definition fire_obj_alloc_fast :: "Oop \<Rightarrow> uint \<Rightarrow> EventType \<Rightarrow> fired" where
  "fire_obj_alloc_fast obj allocation_site event_type =
    (if o_is_array obj
     then let array_length = o_length obj
       in if sint ARRAY_LENGTH_MAX_SMALL \<le> sint array_length
          then (event_type, 2, write_obj_alloc_event allocation_site event_type ARRAY_LENGTH_MAX_SMALL @ write_length array_length)
          else (event_type, 1, write_obj_alloc_event allocation_site event_type array_length)
     else (event_type, 1, write_obj_alloc_event allocation_site event_type 0))"

definition fire_obj_alloc_normal :: "Oop \<Rightarrow> uint \<Rightarrow> EventType \<Rightarrow> fired" where
  "fire_obj_alloc_normal obj allocation_site event_type =
    (if o_is_array obj
     then let array_length = o_length obj
       in if sint ARRAY_LENGTH_MAX_SMALL \<le> sint array_length
          then (event_type, 4, write_obj_alloc_event allocation_site event_type ARRAY_LENGTH_MAX_SMALL
                  @ write_abs_obj_addr obj @ write_length array_length)
          else (event_type, 3, write_obj_alloc_event allocation_site event_type array_length @ write_abs_obj_addr obj)
     else (event_type, 3, write_obj_alloc_event allocation_site event_type 0 @ write_abs_obj_addr obj))"

definition fire_obj_alloc_slow :: "Oop \<Rightarrow> uint \<Rightarrow> EventType \<Rightarrow> u64 \<Rightarrow> fired" where
  "fire_obj_alloc_slow obj allocation_site event_type sz =
    (let write_type_id = is_special_allocation_site allocation_site \<or> is_allocation_slow_with_deviant_type_event event_type;
         write_oop_size = o_is_mirror obj;
         additional_words = (if write_type_id then 1 else 0) + (if write_oop_size then 1 else 0);
         sz = if o_is_mirror obj then sz else o_size obj;
         additional = (if write_type_id then write_type (o_type obj) else [])
           @ (if write_oop_size then write_word (ucast (sz * HeapWordSize)) else [])
     in if o_is_array obj
        then let array_length = o_length obj
          in if sint ARRAY_LENGTH_MAX_SMALL \<le> sint array_length
             then (event_type, 4 + additional_words, write_obj_alloc_event allocation_site event_type ARRAY_LENGTH_MAX_SMALL
                     @ write_abs_obj_addr obj @ write_length array_length @ additional)
             else (event_type, 3 + additional_words, write_obj_alloc_event allocation_site event_type array_length
                     @ write_abs_obj_addr obj @ additional)
        else (event_type, 3 + additional_words, write_obj_alloc_event allocation_site event_type 0 @ write_abs_obj_addr obj @ additional))"

text \<open>The argument \<open>mirrored\<close> is the type identifier of the mirrored class, if there is one.\<close>

definition fire_mirror_obj_alloc :: "Oop \<Rightarrow> u64 \<Rightarrow> uint option \<Rightarrow> fired" where
  "fire_mirror_obj_alloc obj sz mirrored =
    (EVENTS_ALLOC_SLOW, 5, write_obj_alloc_event 1 EVENTS_ALLOC_SLOW 0 @ write_abs_obj_addr obj
       @ write_type (case mirrored of Some tid \<Rightarrow> - tid | None \<Rightarrow> 1) @ write_word (ucast (sz * HeapWordSize)))"

definition write_lab_alloc_event :: "EventType \<Rightarrow> uint list" where
  "write_lab_alloc_event event_type = write_word (stuff [event_field event_type, event_gap, gap (3 * 8)])"

definition fire_tlab_alloc :: "u64 \<Rightarrow> u64 \<Rightarrow> fired" where
  "fire_tlab_alloc addr sz =
    (EVENTS_TLAB_ALLOC, 5, write_lab_alloc_event EVENTS_TLAB_ALLOC @ write_size sz @ write_abs_addr addr)"

definition fire_plab_alloc :: "u64 \<Rightarrow> u64 \<Rightarrow> fired" where
  "fire_plab_alloc addr sz =
    (EVENTS_PLAB_ALLOC, 5, write_lab_alloc_event EVENTS_PLAB_ALLOC @ write_size sz @ write_abs_addr addr)"

section \<open>Garbage collections\<close>

definition write_gc_event :: "EventType \<Rightarrow> byte \<Rightarrow> uint \<Rightarrow> bool \<Rightarrow> bool \<Rightarrow> uint list" where
  "write_gc_event event_type gc_type gc_cause_id concurrent failed =
    (let flags = (0 OR push_bit 0 (if failed then 1 else 0)) OR push_bit 1 (if concurrent then 1 else 0)
     in write_word (stuff [event_field event_type, event_gap, (scast gc_type, 8), (gc_cause_id, 8), (flags, 8)]))"

text \<open>The argument \<open>base\<close> is what \<open>compute_rel_addr_base\<close> returns; relative addresses refer to it from now on.\<close>

definition fire_gc_start_end :: "EventType \<Rightarrow> uint \<Rightarrow> byte \<Rightarrow> uint \<Rightarrow> bool \<Rightarrow> bool \<Rightarrow> u64 \<Rightarrow> u64 \<Rightarrow> fired" where
  "fire_gc_start_end event_type gc_id gc_type gc_cause concurrent failed millis base =
    (event_type, 6, write_gc_event event_type gc_type gc_cause concurrent failed @ write_word gc_id @ write_time millis
       @ write_abs_addr base)"

definition fire_gc_info :: "uint \<Rightarrow> uint \<Rightarrow> fired" where
  "fire_gc_info collected_region gc_id =
    (EVENTS_GC_INFO, 2, write_word (stuff [event_field EVENTS_GC_INFO, event_gap, (collected_region, 3 * 8)]) @ write_word gc_id)"

definition fire_gc_failed :: "uint \<Rightarrow> fired" where
  "fire_gc_failed collected_region =
    (EVENTS_GC_FAILED, 1, write_word (stuff [event_field EVENTS_GC_FAILED, event_gap, (collected_region, 3 * 8)]))"

definition fire_gc_interrupt_continue :: "EventType \<Rightarrow> uint \<Rightarrow> u64 \<Rightarrow> fired" where
  "fire_gc_interrupt_continue event_type gc_id addr =
    (event_type, 4, write_word (stuff [event_field event_type, event_gap, gap (3 * 8)]) @ write_word gc_id @ write_abs_addr addr)"

section \<open>Moves\<close>

definition get_rel_addr :: "u64 \<Rightarrow> nat \<Rightarrow> u64 \<Rightarrow> nat \<Rightarrow> bool \<times> uint" where
  "get_rel_addr rel_addr_base LogMinObjAlignmentInBytes addr bits =
    (let rel_addr = signed_drop_bit LogMinObjAlignmentInBytes (addr - rel_addr_base);
         msk = push_bit bits 1 - 1
     in (rel_addr AND NOT msk = 0, ucast rel_addr))"

definition write_gc_move_event :: "EventType \<Rightarrow> uint \<Rightarrow> uint list" where
  "write_gc_move_event event_type no_of_objects = write_word (stuff [event_field event_type, event_gap, (no_of_objects, 3 * 8)])"

definition write_gc_move_fast_event :: "EventType \<Rightarrow> uint \<Rightarrow> byte \<Rightarrow> uint list" where
  "write_gc_move_fast_event event_type from_addr space =
    write_word (stuff [event_field event_type, (scast space, 2), (from_addr, 3 * 8)])"

definition write_gc_ptr_event :: "EventType \<Rightarrow> byte \<Rightarrow> uint \<Rightarrow> uint list" where
  "write_gc_ptr_event event_type space ptr_kinds =
    write_word (stuff [event_field event_type, (scast space, 2), (ptr_kinds, 3 * 8)])"

definition fire_gc_keep_alive :: "u64 \<Rightarrow> fired" where
  "fire_gc_keep_alive addr = (EVENTS_GC_KEEP_ALIVE, 3, write_gc_move_event EVENTS_GC_KEEP_ALIVE 0 @ write_abs_addr addr)"

definition fire_gc_move_slow :: "u64 \<Rightarrow> u64 \<Rightarrow> fired" where
  "fire_gc_move_slow from_addr to_addr =
    (EVENTS_GC_MOVE_SLOW, 5, write_gc_move_event EVENTS_GC_MOVE_SLOW 0 @ write_abs_addr from_addr @ write_abs_addr to_addr)"

definition fire_gc_move_region :: "u64 \<Rightarrow> u64 \<Rightarrow> uint \<Rightarrow> fired" where
  "fire_gc_move_region from_addr to_addr no_of_objects =
    (EVENTS_GC_MOVE_REGION, 5, write_gc_move_event EVENTS_GC_MOVE_REGION no_of_objects @ write_abs_addr from_addr @ write_abs_addr to_addr)"

definition fire_gc_move_fast :: "u64 \<Rightarrow> nat \<Rightarrow> u64 \<Rightarrow> byte \<Rightarrow> fired" where
  "fire_gc_move_fast base la from_addr to_space =
    (let (narrow, rel_narrow) = get_rel_addr base la from_addr (32 - 8 - 2);
         (fits, rel_from_addr) = get_rel_addr base la from_addr 32
     in if narrow then (EVENTS_GC_MOVE_FAST_NARROW, 1, write_gc_move_fast_event EVENTS_GC_MOVE_FAST_NARROW (push_bit 2 rel_narrow) to_space)
        else if fits then (EVENTS_GC_MOVE_FAST, 2, write_gc_move_fast_event EVENTS_GC_MOVE_FAST 0 to_space @ write_word rel_from_addr)
        else (EVENTS_GC_MOVE_FAST_WIDE, 3, write_gc_move_fast_event EVENTS_GC_MOVE_FAST_WIDE 0 to_space @ write_abs_addr from_addr))"

section \<open>Pointers\<close>

definition fire_gc_ptr :: "EventPointerList \<Rightarrow> uint list" where
  "fire_gc_ptr ptr_list = concat (map (\<lambda>i. let (ptr, kind) = EventPointerList_get_next ptr_list i
      in if kind = NULL_PTR then [] else if kind = ABSOLUTE_PTR then write_abs_addr ptr else write_word (ucast ptr))
    [0..<EventPointerList_get_size ptr_list])"

definition fire_gc_move_slow_ptr :: "EventPointerList \<Rightarrow> EventType \<Rightarrow> u64 \<Rightarrow> u64 \<Rightarrow> fired \<times> EventPointerList" where
  "fire_gc_move_slow_ptr ptr_list event_type from_addr to_addr =
    (let event_type = if event_type = EVENTS_GC_MOVE_SLOW then EVENTS_GC_MOVE_SLOW_PTR else EVENTS_GC_KEEP_ALIVE_PTR;
         event_size = 3 + EventPointerList_get_words ptr_list + (if event_type = EVENTS_GC_MOVE_SLOW_PTR then 2 else 0);
         (kinds, ptr_list) = EventPointerList_get_kinds ptr_list
     in ((event_type, event_size, write_gc_ptr_event event_type 0 kinds
            @ (if event_type = EVENTS_GC_MOVE_SLOW_PTR then write_abs_addr from_addr else [])
            @ write_abs_addr to_addr @ fire_gc_ptr ptr_list), ptr_list))"

definition fire_gc_move_fast_ptr :: "u64 \<Rightarrow> nat \<Rightarrow> EventPointerList \<Rightarrow> u64 \<Rightarrow> u64 \<Rightarrow> byte \<Rightarrow> fired \<times> EventPointerList" where
  "fire_gc_move_fast_ptr base la ptr_list from_addr to_addr to_space =
    (let event_size = EventPointerList_get_words ptr_list;
         (fits, rel_from_addr) = get_rel_addr base la from_addr 32;
         (kinds, ptr_list) = EventPointerList_get_kinds ptr_list
     in (if fits
         then (EVENTS_GC_MOVE_FAST_PTR, event_size + 2, write_gc_ptr_event EVENTS_GC_MOVE_FAST_PTR to_space kinds
                 @ write_word rel_from_addr @ fire_gc_ptr ptr_list)
         else (EVENTS_GC_MOVE_FAST_WIDE_PTR, event_size + 3, write_gc_ptr_event EVENTS_GC_MOVE_FAST_WIDE_PTR to_space kinds
                 @ write_abs_addr from_addr @ fire_gc_ptr ptr_list), ptr_list))"

definition fire_gc_obj_ptr :: "EventPointerList \<Rightarrow> EventType \<Rightarrow> u64 \<Rightarrow> fired \<times> EventPointerList" where
  "fire_gc_obj_ptr ptr_list event_type obj =
    (let event_size = 3 + EventPointerList_get_words ptr_list;
         (kinds, ptr_list) = EventPointerList_get_kinds ptr_list
     in ((event_type, event_size, write_gc_ptr_event event_type 0 kinds @ write_abs_addr obj @ fire_gc_ptr ptr_list), ptr_list))"

section \<open>Objects in synchronization collections\<close>

text \<open>The argument \<open>loaded\<close> is what \<open>AllocationSiteStorage::load\<close> finds in the header of the object.\<close>

definition sync_obj_site :: "bool \<Rightarrow> uint \<Rightarrow> uint" where
  "sync_obj_site TraceObjectsSaveAllocationSites loaded = (if TraceObjectsSaveAllocationSites then loaded else 0)"

definition write_sync_obj_event :: "EventType \<Rightarrow> uint \<Rightarrow> uint list" where
  "write_sync_obj_event event_type allocsite =
    (if is_big_allocation_site allocsite
     then write_word (stuff [event_field event_type, event_gap, (allocsite, 3 * 8)])
     else write_word (stuff [event_field event_type, event_gap, (allocsite, 2 * 8), gap 8]))"

definition sync_obj_size :: "Oop \<Rightarrow> uint \<Rightarrow> uint" where
  "sync_obj_size obj sz = (if sz = 0 then ucast (o_size obj) else sz) * HeapWordSize"

definition fire_sync_obj :: "bool \<Rightarrow> uint \<Rightarrow> u64 \<Rightarrow> Oop \<Rightarrow> uint \<Rightarrow> fired" where
  "fire_sync_obj save loaded from obj sz =
    (EVENTS_SYNC_OBJ, 6 + (if o_is_array obj then 1 else 0) + (if o_is_mirror obj then 1 else 0),
     write_sync_obj_event EVENTS_SYNC_OBJ (sync_obj_site save loaded) @ write_word (o_type obj)
       @ write_abs_addr from @ write_abs_obj_addr obj
       @ (if o_is_array obj then write_word (o_length obj) else [])
       @ (if o_is_mirror obj then write_word (sync_obj_size obj sz) else []))"

definition fire_sync_obj_narrow :: "bool \<Rightarrow> uint \<Rightarrow> Oop \<Rightarrow> uint \<Rightarrow> fired" where
  "fire_sync_obj_narrow save loaded obj sz =
    (EVENTS_SYNC_OBJ_NARROW, 4 + (if o_is_array obj then 1 else 0) + (if o_is_mirror obj then 1 else 0),
     write_sync_obj_event EVENTS_SYNC_OBJ_NARROW (sync_obj_site save loaded) @ write_word (o_type obj)
       @ write_abs_obj_addr obj
       @ (if o_is_array obj then write_length (o_length obj) else [])
       @ (if o_is_mirror obj then write_word (sync_obj_size obj sz) else []))"

definition fire_sync :: fired where
  "fire_sync = (EVENTS_NOP, 1, write_word (stuff [event_field EVENTS_NOP, event_gap, gap (3 * 8)]))"

section \<open>Threads\<close>

datatype ThreadType = VM_THREAD | GC_THREAD | COMPILER_THREAD | JAVA_THREAD | UNKNOWN_THREAD

primrec thread_type_id :: "ThreadType \<Rightarrow> uint" where
  "thread_type_id VM_THREAD = 0"
| "thread_type_id GC_THREAD = 1"
| "thread_type_id COMPILER_THREAD = 2"
| "thread_type_id JAVA_THREAD = 3"
| "thread_type_id UNKNOWN_THREAD = 4"

record Thread =
  t_is_VM_thread :: bool
  t_is_GC_task_thread :: bool
  t_is_ConcurrentGC_thread :: bool
  t_is_Compiler_thread :: bool
  t_is_Java_thread :: bool
  t_name :: "byte list"     \<comment> \<open>without the terminating 0\<close>
  t_thread_id :: u64        \<comment> \<open>\<open>java_lang_Thread::thread_id\<close>\<close>
  t_self_raw_id :: u64

definition get_thread_type :: "Thread \<Rightarrow> ThreadType" where
  "get_thread_type thread =
    (if t_is_VM_thread thread then VM_THREAD
     else if t_is_GC_task_thread thread \<or> t_is_ConcurrentGC_thread thread then GC_THREAD
     else if t_is_Compiler_thread thread then COMPILER_THREAD
     else if t_is_Java_thread thread then JAVA_THREAD
     else UNKNOWN_THREAD)"

definition fire_thread_alive :: "Thread \<Rightarrow> fired" where
  "fire_thread_alive thread =
    (let thread_id = if t_is_Java_thread thread then t_thread_id thread else - 1;
         name_length = min (length (t_name thread) + 1) (12 * 4)
     in (EVENTS_THREAD_ALIVE, 3 + name_length div 4 + (if name_length mod 4 \<noteq> 0 then 1 else 0),
         write_word (stuff [event_field EVENTS_THREAD_ALIVE, event_gap, (thread_type_id (get_thread_type thread), 2 * 8), gap 8])
           @ write_wide_word thread_id @ write_chars (take name_length (t_name thread @ [0])) 0 0))"

definition fire_thread_death :: "Thread \<Rightarrow> fired" where
  "fire_thread_death thread =
    (EVENTS_THREAD_DEATH, 3, write_word (stuff [event_field EVENTS_THREAD_DEATH, event_gap, gap (3 * 8)])
       @ write_wide_word (if t_is_Java_thread thread then t_thread_id thread else t_self_raw_id thread))"

section \<open>Marks, spaces and tags\<close>

definition fire_mark :: "u64 \<Rightarrow> fired" where
  "fire_mark mid = (EVENTS_MARK, 1 + 2, write_word (stuff [event_field EVENTS_MARK, event_gap, gap (3 * 8)]) @ write_wide_word mid)"

text \<open>The difference of two \<open>HeapWord*\<close>, in bytes.\<close>

definition space_size :: "u64 \<Rightarrow> u64 \<Rightarrow> u64" where
  "space_size bottom end_addr = signed_drop_bit 3 (end_addr - bottom) * HeapWordSize"

definition fire_space_creation :: "uint \<Rightarrow> u64 \<Rightarrow> u64 \<Rightarrow> fired" where
  "fire_space_creation sid bottom end_addr =
    (EVENTS_SPACE_CREATE, 6, write_word (stuff [event_field EVENTS_SPACE_CREATE, event_gap, gap (3 * 8)]) @ write_word sid
       @ write_abs_addr bottom @ write_size (space_size bottom end_addr))"

definition fire_space_alloc :: "uint \<Rightarrow> byte \<Rightarrow> byte \<Rightarrow> fired" where
  "fire_space_alloc sid mode type =
    (EVENTS_SPACE_ALLOC, 2, write_word (stuff [event_field EVENTS_SPACE_ALLOC, (scast type, 8), (scast mode, 8), event_gap, gap 8])
       @ write_word sid)"

definition fire_space_release :: "uint \<Rightarrow> fired" where
  "fire_space_release sid =
    (EVENTS_SPACE_RELEASE, 2, write_word (stuff [event_field EVENTS_SPACE_RELEASE, event_gap, gap (3 * 8)]) @ write_word sid)"

definition fire_space_redefine :: "uint \<Rightarrow> u64 \<Rightarrow> u64 \<Rightarrow> fired" where
  "fire_space_redefine sid bottom end_addr =
    (EVENTS_SPACE_REDEFINE, 6, write_word (stuff [event_field EVENTS_SPACE_REDEFINE, event_gap, gap (3 * 8)]) @ write_word sid
       @ write_abs_addr bottom @ write_size (space_size bottom end_addr))"

definition fire_space_destroyed :: "uint \<Rightarrow> u64 \<Rightarrow> fired" where
  "fire_space_destroyed startId numOfRegions =
    (EVENTS_SPACE_DESTROY, 4, write_word (stuff [event_field EVENTS_SPACE_DESTROY, event_gap, gap (3 * 8)]) @ write_word startId
       @ write_size numOfRegions)"

definition fire_tag :: "byte list \<Rightarrow> fired" where
  "fire_tag tag =
    (let tagWordLength = if length tag mod 4 = 0 then length tag div 4 else length tag div 4 + 1
     in (EVENTS_TAG, 1 + tagWordLength + 1, write_word (stuff [event_field EVENTS_TAG, event_gap, gap (3 * 8)]) @ write_string tag))"

end
