(* ===== verification/EventReader.thy ===== *)
theory EventReader
  imports Events "HOL-Library.Monad_Syntax" "HOL-Library.Signed_Division"
begin

text \<open>
  \<open>TraceSlaveParser\<close> of the analyzer: how the words of a buffer are read back as events.  The result of
  an event is the call of the event handler it ends in; \<open>None\<close> is a \<open>TraceException\<close>, an anchor error or
  an index error.  Java \<open>assert\<close> statements are not part of the model.
\<close>

section \<open>Symbols and handler calls\<close>

record AllocatedType =
  at_internalName :: string
  at_isMirrorAllocatedType :: bool

record Symbols =
  sym_site_type :: "uint \<Rightarrow> uint option"          \<comment> \<open>\<open>sites.getById(id).getAllocatedTypeId()\<close>\<close>
  sym_types :: "uint \<Rightarrow> AllocatedType option"     \<comment> \<open>\<open>types.getById(id)\<close>\<close>
  sym_heapWordSize :: uint
  sym_anchors :: bool

definition isArray :: "AllocatedType \<Rightarrow> bool" where
  "isArray t \<longleftrightarrow> at_internalName t \<noteq> [] \<and> hd (at_internalName t) = CHR ''[''"

definition MIRROR_CLASS_NAME :: string where
  "MIRROR_CLASS_NAME = ''Ljava/lang/Class;''"

datatype root =
    Class_loader_root u64 "byte list"
  | Class_root u64 uint
  | Static_field_root u64 uint uint
  | Local_variable_root u64 u64 uint uint uint
  | Vm_internal_thread_data_root u64 u64
  | Code_blob_root u64 uint uint
  | Jni_local_root u64 u64
  | Jni_global_root u64 bool
  | Other_root u64 uint
  | Debug_root u64 "byte list"

record ParserGCInfo =
  gci_eventType :: nat
  gci_gcTypeId :: nat
  gci_cause :: uint
  gci_id :: "16 word"
  gci_time :: u64
  gci_concurrent :: bool

datatype alloc_call =
    TlabAlloc uint u64
  | PlabAlloc uint u64
  | ObjAllocFastIr nat uint
  | ObjAllocFastCi nat uint uint bool uint
  | ObjAllocFastC2DeviantType nat uint uint bool uint
  | ObjAllocNormalIr nat uint u64
  | ObjAllocNormalCi nat uint uint u64 bool uint
  | ObjAllocSlowCiIr nat uint uint u64 bool uint uint
  | ObjAllocSlow nat uint uint u64 bool uint uint bool

datatype gc_call =
    GCStart ParserGCInfo
  | GCEnd ParserGCInfo bool
  | GCInfo uint uint
  | GCFailed uint
  | GCInterrupt uint u64
  | GCContinue uint u64
  | GCMoveRegion nat u64 u64 uint
  | SyncObj nat uint uint u64 u64 uint uint
  | RootPtrs "root list"

text \<open>Moves and pointers: \<open>doGCMove\<close> or \<open>doKeepAlive\<close>, followed by \<open>doPtrEvent\<close> when there are pointers.\<close>

datatype move_call =
    GCMove nat u64 u64 "nat option"
  | GCMovePtr nat u64 u64 "nat option" "u64 list"
  | KeepAlive nat u64
  | KeepAlivePtr nat u64 "u64 list"
  | ObjPtr nat u64 "u64 list"

datatype space_call =
    SpaceCreate uint u64 u64
  | SpaceAlloc uint nat nat
  | SpaceRelease uint
  | SpaceRedefine uint u64 u64
  | SpaceDestroy uint u64

datatype other_call =
    ThreadAlive uint u64 "byte list"
  | ThreadDeath u64
  | Nop
  | GCTag "byte list"

datatype call = Alloc alloc_call | GC gc_call | Move move_call | Space space_call | Other other_call

section \<open>Reading words\<close>

fun getNextWord :: "uint list \<Rightarrow> (uint \<times> uint list) option" where
  "getNextWord [] = None"
| "getNextWord (w # ws) = Some (w, ws)"

definition getNextDoubleWord :: "uint list \<Rightarrow> (u64 \<times> uint list) option" where
  "getNextDoubleWord ws = do {
     (low, ws) \<leftarrow> getNextWord ws;
     (high, ws) \<leftarrow> getNextWord ws;
     Some ((scast low AND 0xFFFFFFFF) OR push_bit 32 (scast high AND 0xFFFFFFFF), ws)
   }"

text \<open>The characters of a word, first the most significant one; \<open>True\<close> when a 0 ended the string.\<close>

primrec word_chars :: "uint \<Rightarrow> nat \<Rightarrow> byte list \<times> bool" where
  "word_chars w 0 = ([], False)"
| "word_chars w (Suc k) =
    (let c = ucast (signed_drop_bit (k * 8) w AND 0xFF)
     in if c = 0 then ([], True) else map_prod (Cons c) id (word_chars w k))"

fun read_chars :: "nat \<Rightarrow> uint list \<Rightarrow> (byte list \<times> uint list) option" where
  "read_chars 0 ws = Some ([], ws)"
| "read_chars (Suc n) ws = do {
     (w, ws) \<leftarrow> getNextWord ws;
     let (cs, ended) = word_chars w 4;
     if ended then Some (cs, ws) else map_option (map_prod ((@) cs) id) (read_chars n ws)
   }"

text \<open>\<open>for(j = 0; j < length; j += 4)\<close>; a negative length reads nothing.\<close>

definition getString :: "uint \<Rightarrow> uint list \<Rightarrow> (byte list \<times> uint list) option" where
  "getString len ws = read_chars (nat ((sint len + 3) div 4)) ws"

definition recover_mask :: "nat \<Rightarrow> nat \<Rightarrow> uint" where
  "recover_mask from to = ((\<lambda>v. v OR signed_drop_bit 8 v) ^^ (to - from)) (drop_bit (8 * from) 0xFF000000)"

definition recoverValue :: "u64 \<Rightarrow> nat \<Rightarrow> nat \<Rightarrow> uint" where
  "recoverValue w from to = ucast (signed_drop_bit (8 * (3 - to)) (w AND scast (recover_mask from to)))"

definition recoverArrayLength :: "uint \<Rightarrow> uint list \<Rightarrow> (uint \<times> uint list) option" where
  "recoverArrayLength w ws =
    (let arrayLength = recoverValue (scast w) 3 3 in if arrayLength = 255 then getNextWord ws else Some (arrayLength, ws))"

text \<open>\<open>RelAddrFactory\<close>: relative addresses are counted in units of the object alignment.\<close>

definition RelAddrFactory_create :: "u64 \<Rightarrow> u64 \<Rightarrow> uint \<Rightarrow> u64" where
  "RelAddrFactory_create alignment base rel_addr = base + (scast rel_addr AND 0xFFFFFFFF) * alignment"

definition getDefinedAddrOnly :: "uint \<Rightarrow> u64" where
  "getDefinedAddrOnly addr = scast (addr AND 0xFFFFFFFC)"

section \<open>Pointers\<close>

definition java_div :: "u64 \<Rightarrow> u64 \<Rightarrow> u64" where
  "java_div a b = word_of_int (sint a sdiv sint b)"

text \<open>The loop of \<open>parsePointers\<close> from index \<open>i\<close> on, with \<open>lastRef\<close>.\<close>

function parse_ptrs :: "u64 \<Rightarrow> uint \<Rightarrow> u64 \<Rightarrow> nat \<Rightarrow> u64 \<Rightarrow> uint list \<Rightarrow> (u64 list \<times> uint list) option" where
  "parse_ptrs heapWordSize ptrKinds ref i lastRef ws =
    (if i < 12
     then let kind = signed_drop_bit ((12 - i - 1) * 2) ptrKinds AND 0x3 in
       if kind = 1 then do {
         (a, ws) \<leftarrow> getNextWord ws;
         let addr = scast a + lastRef;
         (ps, ws) \<leftarrow> parse_ptrs heapWordSize ptrKinds ref (Suc i) addr ws;
         Some ((ref - addr * heapWordSize) # ps, ws)
       } else if kind = 2 then do {
         (addr, ws) \<leftarrow> getNextDoubleWord ws;
         (ps, ws) \<leftarrow> parse_ptrs heapWordSize ptrKinds ref (Suc i) (java_div (ref - addr) heapWordSize) ws;
         Some (addr # ps, ws)
       } else if kind = 3 then map_option (map_prod (Cons (- 1)) id) (parse_ptrs heapWordSize ptrKinds ref (Suc i) lastRef ws)
       else Some ([], ws)
     else Some ([], ws))"
  by pat_completeness auto
termination by (relation "measure (\<lambda>(_, _, _, i, _). 12 - i)") auto

declare parse_ptrs.simps [simp del]

definition parsePointers :: "Symbols \<Rightarrow> uint \<Rightarrow> u64 \<Rightarrow> uint list \<Rightarrow> (u64 list \<times> uint list) option" where
  "parsePointers symbols w ref ws =
    (let ptrKinds = recoverValue (scast w) 1 3
     in if ptrKinds = 0 then Some ([], ws) else parse_ptrs (scast (sym_heapWordSize symbols)) ptrKinds ref 0 0 ws)"

section \<open>Allocations\<close>

text \<open>Two bytes, or three when the highest bit of the two is set.\<close>

definition recover_site :: "uint \<Rightarrow> uint" where
  "recover_site w =
    (let allocationSiteId = recoverValue (scast w) 1 2
     in if signed_drop_bit 15 allocationSiteId AND 1 \<noteq> 0 then recoverValue (scast w) 1 3 else allocationSiteId)"

definition is_big_site_event :: "uint \<Rightarrow> bool" where
  "is_big_site_event w \<longleftrightarrow> signed_drop_bit 15 (recoverValue (scast w) 1 2) AND 1 \<noteq> 0"

abbreviation UNDEFINED_LENGTH :: uint where
  "UNDEFINED_LENGTH \<equiv> - 1"

definition parseTlabAlloc :: "uint list \<Rightarrow> (alloc_call \<times> uint list) option" where
  "parseTlabAlloc ws = do {
     (sz, ws) \<leftarrow> getNextDoubleWord ws;
     (addr, ws) \<leftarrow> getNextDoubleWord ws;
     Some (TlabAlloc (ucast sz) addr, ws)
   }"

definition parsePlabAlloc :: "uint list \<Rightarrow> (alloc_call \<times> uint list) option" where
  "parsePlabAlloc ws = do {
     (sz, ws) \<leftarrow> getNextDoubleWord ws;
     (addr, ws) \<leftarrow> getNextDoubleWord ws;
     Some (PlabAlloc (ucast sz) addr, ws)
   }"

definition parseObjAllocFastIr :: "nat \<Rightarrow> uint \<Rightarrow> uint list \<Rightarrow> (alloc_call \<times> uint list) option" where
  "parseObjAllocFastIr type w ws = Some (ObjAllocFastIr type (recover_site w), ws)"

definition parseObjAllocFastCi :: "Symbols \<Rightarrow> nat \<Rightarrow> uint \<Rightarrow> uint list \<Rightarrow> (alloc_call \<times> uint list) option" where
  "parseObjAllocFastCi symbols type w ws = do {
     let allocationSiteId = recover_site w;
     tid \<leftarrow> sym_site_type symbols allocationSiteId;
     allocatedType \<leftarrow> sym_types symbols tid;
     (arrayLength, ws) \<leftarrow> (if isArray allocatedType then recoverArrayLength w ws else Some (UNDEFINED_LENGTH, ws));
     Some (ObjAllocFastCi type allocationSiteId tid (isArray allocatedType) arrayLength, ws)
   }"

definition parseObjAllocFastC2DeviantType :: "Symbols \<Rightarrow> nat \<Rightarrow> uint \<Rightarrow> uint list \<Rightarrow> (alloc_call \<times> uint list) option" where
  "parseObjAllocFastC2DeviantType symbols type w ws = do {
     let allocationSiteId = recover_site w;
     (tid, ws) \<leftarrow> getNextWord ws;
     allocatedType \<leftarrow> sym_types symbols tid;
     (arrayLength, ws) \<leftarrow> (if isArray allocatedType then recoverArrayLength w ws else Some (UNDEFINED_LENGTH, ws));
     Some (ObjAllocFastC2DeviantType type allocationSiteId tid (isArray allocatedType) arrayLength, ws)
   }"

definition parseObjAllocNormalIr :: "nat \<Rightarrow> uint \<Rightarrow> uint list \<Rightarrow> (alloc_call \<times> uint list) option" where
  "parseObjAllocNormalIr type w ws = do {
     (addr, ws) \<leftarrow> getNextDoubleWord ws;
     Some (ObjAllocNormalIr type (recover_site w) addr, ws)
   }"

definition parseObjAllocNormalCi :: "Symbols \<Rightarrow> nat \<Rightarrow> uint \<Rightarrow> uint list \<Rightarrow> (alloc_call \<times> uint list) option" where
  "parseObjAllocNormalCi symbols type w ws = do {
     let allocationSiteId = recover_site w;
     tid \<leftarrow> sym_site_type symbols allocationSiteId;
     allocatedType \<leftarrow> sym_types symbols tid;
     (if at_internalName allocatedType = MIRROR_CLASS_NAME then None else do {
       (addr, ws) \<leftarrow> getNextDoubleWord ws;
       (arrayLength, ws) \<leftarrow> (if isArray allocatedType then recoverArrayLength w ws else Some (UNDEFINED_LENGTH, ws));
       Some (ObjAllocNormalCi type allocationSiteId tid addr (isArray allocatedType) arrayLength, ws)
     })
   }"

definition parseObjAllocSlowCiIr_Deviant :: "Symbols \<Rightarrow> nat \<Rightarrow> uint \<Rightarrow> uint list \<Rightarrow> (alloc_call \<times> uint list) option" where
  "parseObjAllocSlowCiIr_Deviant symbols eventType w ws = do {
     let allocationSiteId = recover_site w;
     (addr, ws) \<leftarrow> getNextDoubleWord ws;
     (arrayLength, ws) \<leftarrow> (if \<not> is_big_site_event w then recoverArrayLength w ws else Some (UNDEFINED_LENGTH, ws));
     (realAllocatedTypeId, ws) \<leftarrow> (if eventType \<in> {0x11, 0x15, 0x1A} then getNextWord ws else Some (- 1, ws));
     tid \<leftarrow> sym_site_type symbols allocationSiteId;
     type \<leftarrow> sym_types symbols tid;
     let arrayLength = (if isArray type then arrayLength else - 1);
     Some (ObjAllocSlowCiIr eventType tid allocationSiteId addr (isArray type) arrayLength realAllocatedTypeId, ws)
   }"

definition mayBeFiller :: "Symbols \<Rightarrow> uint \<Rightarrow> AllocatedType \<Rightarrow> bool" where
  "mayBeFiller symbols tid allocatedType \<longleftrightarrow>
     tid = 0 \<or> at_internalName allocatedType = ''[I'' \<or> at_internalName allocatedType = ''Ljava/lang/Object;''"

text \<open>The size of a mirror is also stored into its type, for the sizes that are computed later.\<close>

definition parseObjAllocSlow :: "Symbols \<Rightarrow> nat \<Rightarrow> uint \<Rightarrow> uint list \<Rightarrow> (alloc_call \<times> uint list) option" where
  "parseObjAllocSlow symbols type w ws = do {
     let allocationSiteId = recover_site w;
     tid \<leftarrow> sym_site_type symbols allocationSiteId;
     (addr, ws) \<leftarrow> getNextDoubleWord ws;
     (arrayLength, ws) \<leftarrow> (if \<not> is_big_site_event w then recoverArrayLength w ws else Some (UNDEFINED_LENGTH, ws));
     (tid, ws) \<leftarrow> (if tid = 0 then getNextWord ws else Some (tid, ws));
     allocatedType \<leftarrow> sym_types symbols tid;
     (sz, ws) \<leftarrow> (if at_isMirrorAllocatedType allocatedType then getNextWord ws else Some (UNDEFINED_LENGTH, ws));
     let array = (\<not> at_isMirrorAllocatedType allocatedType \<and> isArray allocatedType);
     let arrayLength = (if array then arrayLength else UNDEFINED_LENGTH);
     Some (ObjAllocSlow type allocationSiteId tid addr array arrayLength sz (mayBeFiller symbols tid allocatedType), ws)
   }"

section \<open>Garbage collections\<close>

definition parseGCMeta :: "nat \<Rightarrow> uint \<Rightarrow> uint list \<Rightarrow> (ParserGCInfo \<times> u64 \<times> uint list) option" where
  "parseGCMeta eventType w ws = do {
     let gcTypeId = unat (recoverValue (scast w) 1 1);
     (if gcTypeId < 5 then do {
       let gcCause = recoverValue (scast w) 2 2;
       let flags = recoverValue (scast w) 3 3;
       (gc_id, ws) \<leftarrow> getNextWord ws;
       (time, ws) \<leftarrow> getNextDoubleWord ws;
       (base, ws) \<leftarrow> getNextDoubleWord ws;
       Some (\<lparr>gci_eventType = eventType, gci_gcTypeId = gcTypeId, gci_cause = gcCause, gci_id = ucast gc_id, gci_time = time,
              gci_concurrent = (flags AND push_bit 1 1 \<noteq> 0)\<rparr>, base, ws)
     } else None)
   }"

definition parseGCStart :: "uint \<Rightarrow> uint list \<Rightarrow> (gc_call \<times> u64 \<times> uint list) option" where
  "parseGCStart w ws = do { (info, base, ws) \<leftarrow> parseGCMeta 0x02 w ws; Some (GCStart info, base, ws) }"

definition parseGCEnd :: "uint \<Rightarrow> uint list \<Rightarrow> (gc_call \<times> u64 \<times> uint list) option" where
  "parseGCEnd w ws = do {
     (info, base, ws) \<leftarrow> parseGCMeta 0x03 w ws;
     Some (GCEnd info (recoverValue (scast w) 3 3 AND 1 \<noteq> 0), base, ws)
   }"

definition parseGCInfo :: "uint \<Rightarrow> uint list \<Rightarrow> (gc_call \<times> uint list) option" where
  "parseGCInfo w ws = do { (gc_id, ws) \<leftarrow> getNextWord ws; Some (GCInfo (w AND 0x00FFFFFF) gc_id, ws) }"

definition parseGCFailed :: "uint \<Rightarrow> uint list \<Rightarrow> (gc_call \<times> uint list) option" where
  "parseGCFailed w ws = Some (GCFailed (w AND 0x00FFFFFF), ws)"

definition parseGCInterrupt :: "uint list \<Rightarrow> (gc_call \<times> uint list) option" where
  "parseGCInterrupt ws = do {
     (gc_id, ws) \<leftarrow> getNextWord ws;
     (address, ws) \<leftarrow> getNextDoubleWord ws;
     Some (GCInterrupt gc_id address, ws)
   }"

definition parseGCContinue :: "uint list \<Rightarrow> (gc_call \<times> uint list) option" where
  "parseGCContinue ws = do {
     (gc_id, ws) \<leftarrow> getNextWord ws;
     (address, ws) \<leftarrow> getNextDoubleWord ws;
     Some (GCContinue gc_id address, ws)
   }"

definition parseGCMoveRegion :: "nat \<Rightarrow> uint \<Rightarrow> uint list \<Rightarrow> (gc_call \<times> uint list) option" where
  "parseGCMoveRegion type w ws = do {
     let numOfObjects = recoverValue (scast w) 1 3;
     (fromAddr, ws) \<leftarrow> getNextDoubleWord ws;
     (toAddr, ws) \<leftarrow> getNextDoubleWord ws;
     Some (GCMoveRegion type fromAddr toAddr numOfObjects, ws)
   }"

definition parseSyncObj :: "Symbols \<Rightarrow> nat \<Rightarrow> uint \<Rightarrow> uint list \<Rightarrow> (gc_call \<times> uint list) option" where
  "parseSyncObj symbols type w ws = do {
     let allocationSiteId = recoverValue (scast w) 1 3;
     (tid, ws) \<leftarrow> getNextWord ws;
     (fromAddr, ws) \<leftarrow> getNextDoubleWord ws;
     (toAddr, ws) \<leftarrow> (if type = 0x24 then getNextDoubleWord ws else Some (fromAddr, ws));
     allocatedType \<leftarrow> sym_types symbols tid;
     (len, ws) \<leftarrow> (if isArray allocatedType then getNextWord ws else Some (UNDEFINED_LENGTH, ws));
     (sz, ws) \<leftarrow> (if at_internalName allocatedType = MIRROR_CLASS_NAME then getNextWord ws else Some (0, ws));
     Some (SyncObj type allocationSiteId tid fromAddr toAddr len sz, ws)
   }"

section \<open>Roots\<close>

definition parse_root :: "u64 \<Rightarrow> nat \<Rightarrow> uint list \<Rightarrow> (root \<times> uint list) option" where
  "parse_root ptr rootType ws =
    (if rootType = 0 then do { (len, ws) \<leftarrow> getNextWord ws; (s, ws) \<leftarrow> getString len ws; Some (Class_loader_root ptr s, ws) }
     else if rootType = 1 then do { (classId, ws) \<leftarrow> getNextWord ws; Some (Class_root ptr classId, ws) }
     else if rootType = 2 then do {
       (classId, ws) \<leftarrow> getNextWord ws; (offset, ws) \<leftarrow> getNextWord ws; Some (Static_field_root ptr classId offset, ws) }
     else if rootType = 3 then do {
       (threadId, ws) \<leftarrow> getNextDoubleWord ws; (classId, ws) \<leftarrow> getNextWord ws; (methodId, ws) \<leftarrow> getNextWord ws;
       (slot, ws) \<leftarrow> getNextWord ws; Some (Local_variable_root ptr threadId classId methodId slot, ws) }
     else if rootType = 4 then do { (threadId, ws) \<leftarrow> getNextDoubleWord ws; Some (Vm_internal_thread_data_root ptr threadId, ws) }
     else if rootType = 5 then do {
       (classId, ws) \<leftarrow> getNextWord ws; (methodId, ws) \<leftarrow> getNextWord ws; Some (Code_blob_root ptr classId methodId, ws) }
     else if rootType = 6 then do { (threadId, ws) \<leftarrow> getNextDoubleWord ws; Some (Jni_local_root ptr threadId, ws) }
     else if rootType = 7 then do { (weak, ws) \<leftarrow> getNextWord ws; Some (Jni_global_root ptr (weak \<noteq> 0), ws) }
     else if rootType < 16 then Some (Other_root ptr (of_nat rootType), ws)
     else if rootType = 16 then do { (len, ws) \<leftarrow> getNextWord ws; (s, ws) \<leftarrow> getString len ws; Some (Debug_root ptr s, ws) }
     else None)"

text \<open>The loop over at most \<open>MAX_ROOTS_PER_EVENT\<close> roots; a null pointer is passed on as -1.\<close>

fun parse_roots :: "nat \<Rightarrow> uint list \<Rightarrow> (root list \<times> uint list) option" where
  "parse_roots 0 ws = Some ([], ws)"
| "parse_roots (Suc n) ws = do {
     (ptr, ws) \<leftarrow> getNextDoubleWord ws;
     (if ptr = - 1 then Some ([], ws) else do {
       (rootType, ws) \<leftarrow> getNextWord ws;
       (r, ws) \<leftarrow> (if 0 \<le> sint rootType then parse_root (if ptr = 0 then - 1 else ptr) (unat rootType) ws else None);
       (rs, ws) \<leftarrow> parse_roots n ws;
       Some (r # rs, ws)
     })
   }"

definition MAX_ROOTS_PER_EVENT :: nat where
  "MAX_ROOTS_PER_EVENT = 3"

definition parseGCRootPtr :: "uint list \<Rightarrow> (gc_call \<times> uint list) option" where
  "parseGCRootPtr ws = map_option (map_prod RootPtrs id) (parse_roots MAX_ROOTS_PER_EVENT ws)"

section \<open>Moves\<close>

text \<open>The argument \<open>doGCMove\<close> is the main event handler, which returns the address the object is assigned to.\<close>

type_synonym move_handler = "nat \<Rightarrow> u64 \<Rightarrow> u64 \<Rightarrow> nat option \<Rightarrow> u64"

definition parseGCMoveFast :: "Symbols \<Rightarrow> move_handler \<Rightarrow> u64 \<Rightarrow> u64 \<Rightarrow> nat \<Rightarrow> uint \<Rightarrow> nat \<Rightarrow> uint list \<Rightarrow> (move_call \<times> uint list) option" where
  "parseGCMoveFast symbols doGCMove alignment base type w toSpace ws = do {
     (fromAddr, ws) \<leftarrow>
       (if type = 0x21 then Some (RelAddrFactory_create alignment base
            (ucast (signed_drop_bit 2 (getDefinedAddrOnly (recoverValue (scast w) 1 3)))), ws)
        else if type \<in> {0x1F, 0x28} then getNextDoubleWord ws
        else if type \<in> {0x20, 0x29} then map_option (map_prod (RelAddrFactory_create alignment base) id) (getNextWord ws)
        else None);
     let assignedAddr = doGCMove type fromAddr (- 1) (Some toSpace);
     (if type \<in> {0x29, 0x28} then do {
       (ptrs, ws) \<leftarrow> parsePointers symbols w assignedAddr ws;
       Some (GCMovePtr type fromAddr assignedAddr (Some toSpace) ptrs, ws)
     } else Some (GCMove type fromAddr (- 1) (Some toSpace), ws))
   }"

definition parseGCMoveSlow :: "Symbols \<Rightarrow> nat \<Rightarrow> uint \<Rightarrow> uint list \<Rightarrow> (move_call \<times> uint list) option" where
  "parseGCMoveSlow symbols type w ws = do {
     (fromAddr, ws) \<leftarrow> getNextDoubleWord ws;
     (toAddr, ws) \<leftarrow> getNextDoubleWord ws;
     (if type = 0x27 then do {
       (ptrs, ws) \<leftarrow> parsePointers symbols w toAddr ws;
       Some (GCMovePtr type fromAddr toAddr None ptrs, ws)
     } else Some (GCMove type fromAddr toAddr None, ws))
   }"

definition parseGCKeepAlive :: "Symbols \<Rightarrow> nat \<Rightarrow> uint \<Rightarrow> uint list \<Rightarrow> (move_call \<times> uint list) option" where
  "parseGCKeepAlive symbols type w ws = do {
     (addr, ws) \<leftarrow> getNextDoubleWord ws;
     (if type = 0x2A then do {
       (ptrs, ws) \<leftarrow> parsePointers symbols w addr ws;
       Some (KeepAlivePtr type addr ptrs, ws)
     } else Some (KeepAlive type addr, ws))
   }"

definition parseGCObjPtr :: "Symbols \<Rightarrow> nat \<Rightarrow> uint \<Rightarrow> uint list \<Rightarrow> (move_call \<times> uint list) option" where
  "parseGCObjPtr symbols type w ws = do {
     (addr, ws) \<leftarrow> getNextDoubleWord ws;
     (ptrs, ws) \<leftarrow> parsePointers symbols w addr ws;
     Some (ObjPtr type addr ptrs, ws)
   }"

section \<open>Spaces, threads, tags\<close>

definition parseSpaceCreate :: "uint list \<Rightarrow> (space_call \<times> uint list) option" where
  "parseSpaceCreate ws = do {
     (index, ws) \<leftarrow> getNextWord ws;
     (startAddr, ws) \<leftarrow> getNextDoubleWord ws;
     (sz, ws) \<leftarrow> getNextDoubleWord ws;
     Some (SpaceCreate index startAddr sz, ws)
   }"

text \<open>\<open>SpaceType\<close> has four values and \<open>SpaceMode\<close> three.\<close>

definition parseSpaceAlloc :: "uint \<Rightarrow> uint list \<Rightarrow> (space_call \<times> uint list) option" where
  "parseSpaceAlloc w ws = do {
     let spaceType = unat (signed_drop_bit 18 w AND 0xFF);
     let spaceMode = unat (signed_drop_bit 10 w AND 0xFF);
     (if spaceType < 4 \<and> spaceMode < 3 then do {
       (index, ws) \<leftarrow> getNextWord ws;
       Some (SpaceAlloc index spaceMode spaceType, ws)
     } else None)
   }"

definition parseSpaceRelease :: "uint list \<Rightarrow> (space_call \<times> uint list) option" where
  "parseSpaceRelease ws = do { (index, ws) \<leftarrow> getNextWord ws; Some (SpaceRelease index, ws) }"

definition parseSpaceRedefine :: "uint list \<Rightarrow> (space_call \<times> uint list) option" where
  "parseSpaceRedefine ws = do {
     (index, ws) \<leftarrow> getNextWord ws;
     (startAddr, ws) \<leftarrow> getNextDoubleWord ws;
     (sz, ws) \<leftarrow> getNextDoubleWord ws;
     Some (SpaceRedefine index startAddr sz, ws)
   }"

definition parseSpaceDestroy :: "uint list \<Rightarrow> (space_call \<times> uint list) option" where
  "parseSpaceDestroy ws = do {
     (firstIndex, ws) \<leftarrow> getNextWord ws;
     (nRegions, ws) \<leftarrow> getNextDoubleWord ws;
     Some (SpaceDestroy firstIndex nRegions, ws)
   }"

definition parseThreadAlive :: "uint \<Rightarrow> uint list \<Rightarrow> (other_call \<times> uint list) option" where
  "parseThreadAlive header ws = do {
     (thread_id, ws) \<leftarrow> getNextDoubleWord ws;
     (name, ws) \<leftarrow> read_chars 12 ws;
     Some (ThreadAlive header thread_id name, ws)
   }"

definition parseThreadDeath :: "uint list \<Rightarrow> (other_call \<times> uint list) option" where
  "parseThreadDeath ws = do { (thread_id, ws) \<leftarrow> getNextDoubleWord ws; Some (ThreadDeath thread_id, ws) }"

definition parseGCTag :: "uint list \<Rightarrow> (other_call \<times> uint list) option" where
  "parseGCTag ws = do {
     (tagTextLength, ws) \<leftarrow> getNextWord ws;
     (tagText, ws) \<leftarrow> getString tagTextLength ws;
     Some (GCTag tagText, ws)
   }"

section \<open>Events\<close>

definition parse_alloc :: "Symbols \<Rightarrow> nat \<Rightarrow> uint \<Rightarrow> uint list \<Rightarrow> (alloc_call \<times> uint list) option" where
  "parse_alloc symbols type w ws =
    (if type = 0x0D then parseTlabAlloc ws
     else if type = 0x0E then parsePlabAlloc ws
     else if type = 0x13 then parseObjAllocFastIr type w ws
     else if type \<in> {0x17, 0x1C} then parseObjAllocFastCi symbols type w ws
     else if type = 0x12 then parseObjAllocNormalIr type w ws
     else if type \<in> {0x16, 0x1B} then parseObjAllocNormalCi symbols type w ws
     else if type = 0x0F then parseObjAllocSlow symbols type w ws
     else if type \<in> {0x10, 0x14, 0x19, 0x11, 0x15, 0x1A} then parseObjAllocSlowCiIr_Deviant symbols type w ws
     else if type = 0x1D then parseObjAllocFastC2DeviantType symbols type w ws
     else None)"

definition parse_gc :: "Symbols \<Rightarrow> nat \<Rightarrow> uint \<Rightarrow> uint list \<Rightarrow> (gc_call \<times> uint list) option" where
  "parse_gc symbols type w ws =
    (if type = 0x2D then parseGCRootPtr ws
     else if type = 0x22 then parseGCMoveRegion type w ws
     else if type \<in> {0x24, 0x25} then parseSyncObj symbols type w ws
     else if type = 0x04 then parseGCInfo w ws
     else if type = 0x05 then parseGCFailed w ws
     else if type = 0x2F then parseGCInterrupt ws
     else if type = 0x30 then parseGCContinue ws
     else None)"

definition parse_move :: "Symbols \<Rightarrow> move_handler \<Rightarrow> u64 \<Rightarrow> u64 \<Rightarrow> nat \<Rightarrow> uint \<Rightarrow> nat \<Rightarrow> uint list \<Rightarrow> (move_call \<times> uint list) option" where
  "parse_move symbols doGCMove alignment base type w toSpace ws =
    (if type \<in> {0x20, 0x1F, 0x21, 0x29, 0x28} then parseGCMoveFast symbols doGCMove alignment base type w toSpace ws
     else if type \<in> {0x1E, 0x27} then parseGCMoveSlow symbols type w ws
     else if type \<in> {0x23, 0x2A} then parseGCKeepAlive symbols type w ws
     else if type \<in> {0x2B, 0x2E, 0x31, 0x2C} then parseGCObjPtr symbols type w ws
     else None)"

definition parse_space :: "nat \<Rightarrow> uint \<Rightarrow> uint list \<Rightarrow> (space_call \<times> uint list) option" where
  "parse_space type w ws =
    (if type = 0x06 then parseSpaceCreate ws
     else if type = 0x07 then parseSpaceAlloc w ws
     else if type = 0x08 then parseSpaceRelease ws
     else if type = 0x09 then parseSpaceRedefine ws
     else if type = 0x0A then parseSpaceDestroy ws
     else None)"

definition parse_other :: "nat \<Rightarrow> uint \<Rightarrow> uint list \<Rightarrow> (other_call \<times> uint list) option" where
  "parse_other type w ws =
    (if type = 0x0B then parseThreadAlive w ws
     else if type = 0x0C then parseThreadDeath ws
     else if type = 0x00 then Some (Nop, ws)
     else if type = 0x32 then parseGCTag ws
     else None)"

text \<open>The cases of the \<open>switch\<close>, grouped by the kind of call.  The event types \<open>MARK\<close>, \<open>OBJ_ALLOC_FAST_C1_DEVIANT_TYPE\<close>,
  \<open>GC_DEALLOCATION\<close>, \<open>CLEANUP\<close> and \<open>MOVE_GENERIC\<close> are rejected.\<close>

definition parse_event :: "Symbols \<Rightarrow> move_handler \<Rightarrow> u64 \<Rightarrow> u64 \<Rightarrow> nat \<Rightarrow> uint \<Rightarrow> nat \<Rightarrow> uint list \<Rightarrow> (call \<times> u64 \<times> uint list) option" where
  "parse_event symbols doGCMove alignment base type w toSpace ws =
    (if type = 0x02 then map_option (map_prod GC id) (parseGCStart w ws)
     else if type = 0x03 then map_option (map_prod GC id) (parseGCEnd w ws)
     else if type \<in> {0x0D..0x1D} then map_option (\<lambda>(c, ws). (Alloc c, base, ws)) (parse_alloc symbols type w ws)
     else if type \<in> {0x22, 0x24, 0x25, 0x04, 0x05, 0x2D, 0x2F, 0x30} then map_option (\<lambda>(c, ws). (GC c, base, ws)) (parse_gc symbols type w ws)
     else if type \<in> {0x1E..0x31} then map_option (\<lambda>(c, ws). (Move c, base, ws)) (parse_move symbols doGCMove alignment base type w toSpace ws)
     else if type \<in> {0x06..0x0A} then map_option (\<lambda>(c, ws). (Space c, base, ws)) (parse_space type w ws)
     else map_option (\<lambda>(c, ws). (Other c, base, ws)) (parse_other type w ws))"

definition ANCHOR_MASK :: uint where
  "ANCHOR_MASK = 0xFFFF00FF"

definition check_anchor :: "Symbols \<Rightarrow> nat \<Rightarrow> uint list \<Rightarrow> uint list option" where
  "check_anchor symbols type ws =
    (if sym_anchors symbols then do {
       (anchor, ws) \<leftarrow> getNextWord ws;
       (if anchor AND ANCHOR_MASK = ANCHOR_MASK \<and> unat (drop_bit 8 (anchor AND NOT ANCHOR_MASK)) = type then Some ws else None)
     } else Some ws)"

definition evaluateEvent :: "Symbols \<Rightarrow> move_handler \<Rightarrow> u64 \<Rightarrow> u64 \<Rightarrow> uint list \<Rightarrow> (call \<times> u64 \<times> uint list) option" where
  "evaluateEvent symbols doGCMove alignment base ws = do {
     (w, ws) \<leftarrow> getNextWord ws;
     let unsignedWord = scast w AND 0x00000000ffffffff;
     let recovered = recoverValue unsignedWord 0 0;
     let toSpace = unat (recovered AND 0x3);
     let type = unat (signed_drop_bit 2 recovered);
     (c, base, ws) \<leftarrow> parse_event symbols doGCMove alignment base type w toSpace ws;
     ws \<leftarrow> check_anchor symbols type ws;
     Some (c, base, ws)
   }"

section \<open>Every event takes at least one word\<close>

named_theorems shrinks \<open>a reader returns a rest that is not longer than its input\<close>

lemma getNextWord_length [shrinks]: "getNextWord ws = Some (w, ws') \<Longrightarrow> length ws = Suc (length ws')"
  by (cases ws) auto

lemma getNextDoubleWord_length [shrinks]: "getNextDoubleWord ws = Some (w, ws') \<Longrightarrow> length ws = length ws' + 2"
  by (auto simp: getNextDoubleWord_def Option.bind_eq_Some_conv dest!: getNextWord_length)

lemma read_chars_length [shrinks]: "read_chars n ws = Some (s, ws') \<Longrightarrow> length ws' \<le> length ws"
proof (induction n arbitrary: ws s)
  case (Suc n)
  then obtain w ws1 where w: "getNextWord ws = Some (w, ws1)" by (auto simp: Option.bind_eq_Some_conv)
  obtain cs ended where "word_chars w 4 = (cs, ended)" by (cases "word_chars w 4")
  with Suc.prems w Suc.IH [of ws1] getNextWord_length [OF w] show ?case by (fastforce split: if_splits)
qed simp

lemma getString_length [shrinks]: "getString n ws = Some (s, ws') \<Longrightarrow> length ws' \<le> length ws"
  by (simp add: getString_def read_chars_length)

lemma recoverArrayLength_length [shrinks]: "recoverArrayLength w ws = Some (l, ws') \<Longrightarrow> length ws' \<le> length ws"
  by (auto simp: recoverArrayLength_def Let_def split: if_splits dest: getNextWord_length)

lemma parse_ptrs_kind:
  assumes "i < 12" and "kind = signed_drop_bit ((11 - i) * 2) k AND 3"
  shows "kind = 1 \<Longrightarrow> parse_ptrs h k ref i l ws = do {
      (a, ws) \<leftarrow> getNextWord ws;
      (ps, ws) \<leftarrow> parse_ptrs h k ref (Suc i) (scast a + l) ws;
      Some ((ref - (scast a + l) * h) # ps, ws) }"
    "kind = 2 \<Longrightarrow> parse_ptrs h k ref i l ws = do {
      (addr, ws) \<leftarrow> getNextDoubleWord ws;
      (ps, ws) \<leftarrow> parse_ptrs h k ref (Suc i) (java_div (ref - addr) h) ws;
      Some (addr # ps, ws) }"
    "kind = 3 \<Longrightarrow> parse_ptrs h k ref i l ws = map_option (map_prod (Cons (- 1)) id) (parse_ptrs h k ref (Suc i) l ws)"
    "kind \<notin> {1, 2, 3} \<Longrightarrow> parse_ptrs h k ref i l ws = Some ([], ws)"
proof -
  have "12 - i - 1 = 11 - i" using assms(1) by simp
  note unfold = parse_ptrs.simps [of h k ref i l ws, unfolded Let_def this, folded assms(2)]
  show "kind = 1 \<Longrightarrow> parse_ptrs h k ref i l ws = do {
      (a, ws) \<leftarrow> getNextWord ws;
      (ps, ws) \<leftarrow> parse_ptrs h k ref (Suc i) (scast a + l) ws;
      Some ((ref - (scast a + l) * h) # ps, ws) }"
    unfolding unfold using assms(1) by simp
  show "kind = 2 \<Longrightarrow> parse_ptrs h k ref i l ws = do {
      (addr, ws) \<leftarrow> getNextDoubleWord ws;
      (ps, ws) \<leftarrow> parse_ptrs h k ref (Suc i) (java_div (ref - addr) h) ws;
      Some (addr # ps, ws) }"
    unfolding unfold using assms(1) by simp
  show "kind = 3 \<Longrightarrow> parse_ptrs h k ref i l ws = map_option (map_prod (Cons (- 1)) id) (parse_ptrs h k ref (Suc i) l ws)"
    unfolding unfold using assms(1) by simp
  show "kind \<notin> {1, 2, 3} \<Longrightarrow> parse_ptrs h k ref i l ws = Some ([], ws)"
    unfolding unfold using assms(1) by simp
qed

lemma parse_ptrs_end: "\<not> i < 12 \<Longrightarrow> parse_ptrs h k ref i l ws = Some ([], ws)"
  by (subst parse_ptrs.simps) simp

lemma parse_ptrs_length [shrinks]: "parse_ptrs h k ref i l ws = Some (ps, ws') \<Longrightarrow> length ws' \<le> length ws"
proof (induction "12 - i" arbitrary: i l ws ps)
  case 0
  then show ?case using parse_ptrs_end [of i h k ref l ws] by simp
next
  case (Suc n)
  define kind where "kind = signed_drop_bit ((11 - i) * 2) k AND 3"
  have i: "i < 12" and n: "n = 12 - Suc i" using Suc.hyps(2) by simp_all
  note unfold = parse_ptrs_kind [OF i kind_def, of h ref l ws]
  note ih = Suc.hyps(1) [OF n]
  consider "kind = 1" | "kind = 2" | "kind = 3" | "kind \<notin> {1, 2, 3}" by blast
  then show ?case
  proof cases
    case 1
    from Suc.prems [unfolded unfold(1) [OF 1]] show ?thesis
      by (auto simp: Option.bind_eq_Some_conv dest!: ih getNextWord_length)
  next
    case 2
    from Suc.prems [unfolded unfold(2) [OF 2]] show ?thesis
      by (auto simp: Option.bind_eq_Some_conv dest!: ih getNextDoubleWord_length)
  next
    case 3
    from Suc.prems [unfolded unfold(3) [OF 3]] show ?thesis by (auto dest!: ih)
  next
    case 4
    from Suc.prems [unfolded unfold(4) [OF 4]] show ?thesis by simp
  qed
qed

lemma parsePointers_length [shrinks]: "parsePointers sy w ref ws = Some (ps, ws') \<Longrightarrow> length ws' \<le> length ws"
  by (auto simp: parsePointers_def Let_def split: if_splits dest: parse_ptrs_length)

lemma parse_root_length [shrinks]: "parse_root p t ws = Some (r, ws') \<Longrightarrow> length ws' \<le> length ws"
  by (auto simp: parse_root_def Option.bind_eq_Some_conv split: if_splits dest!: shrinks)

lemma parse_roots_length [shrinks]: "parse_roots n ws = Some (rs, ws') \<Longrightarrow> length ws' \<le> length ws"
proof (induction n arbitrary: ws rs)
  case (Suc n)
  then obtain p ws1 where p: "getNextDoubleWord ws = Some (p, ws1)" by (auto simp: Option.bind_eq_Some_conv)
  with Suc show ?case
    by (fastforce simp: Option.bind_eq_Some_conv split: if_splits dest!: getNextWord_length getNextDoubleWord_length parse_root_length)
qed simp

lemma parse_alloc_length [shrinks]: "parse_alloc sy t w ws = Some (c, ws') \<Longrightarrow> length ws' \<le> length ws"
  unfolding parse_alloc_def
  by (auto simp: parseTlabAlloc_def parsePlabAlloc_def parseObjAllocFastIr_def parseObjAllocFastCi_def
      parseObjAllocFastC2DeviantType_def parseObjAllocNormalIr_def parseObjAllocNormalCi_def parseObjAllocSlow_def
      parseObjAllocSlowCiIr_Deviant_def Option.bind_eq_Some_conv Let_def split: if_splits dest!: shrinks)

lemma optional_word_length: "(if b then getNextWord ws else Some (x, ws)) = Some (y, ws') \<Longrightarrow> length ws' \<le> length ws"
  by (auto split: if_splits dest: getNextWord_length)

lemma optional_double_word_length:
  "(if b then getNextDoubleWord ws else Some (x, ws)) = Some (y, ws') \<Longrightarrow> length ws' \<le> length ws"
  by (auto split: if_splits dest: getNextDoubleWord_length)

lemma parseGCRootPtr_length [shrinks]: "parseGCRootPtr ws = Some (c, ws') \<Longrightarrow> length ws' \<le> length ws"
  by (auto simp: parseGCRootPtr_def Option.bind_eq_Some_conv Let_def split: if_splits dest!: parse_roots_length)

lemma parseGCMoveRegion_length [shrinks]: "parseGCMoveRegion t w ws = Some (c, ws') \<Longrightarrow> length ws' \<le> length ws"
  by (auto simp: parseGCMoveRegion_def Option.bind_eq_Some_conv Let_def split: if_splits dest!: getNextWord_length getNextDoubleWord_length)

lemma parseSyncObj_length [shrinks]: "parseSyncObj sy t w ws = Some (c, ws') \<Longrightarrow> length ws' \<le> length ws"
  by (auto simp: parseSyncObj_def Option.bind_eq_Some_conv Let_def
      dest!: getNextWord_length getNextDoubleWord_length optional_word_length optional_double_word_length)

lemma parseGCInfo_length [shrinks]: "parseGCInfo w ws = Some (c, ws') \<Longrightarrow> length ws' \<le> length ws"
  by (auto simp: parseGCInfo_def Option.bind_eq_Some_conv Let_def split: if_splits dest!: getNextWord_length getNextDoubleWord_length)

lemma parseGCFailed_length [shrinks]: "parseGCFailed w ws = Some (c, ws') \<Longrightarrow> length ws' \<le> length ws"
  by (auto simp: parseGCFailed_def Option.bind_eq_Some_conv Let_def split: if_splits dest!: getNextWord_length getNextDoubleWord_length)

lemma parseGCInterrupt_length [shrinks]: "parseGCInterrupt ws = Some (c, ws') \<Longrightarrow> length ws' \<le> length ws"
  by (auto simp: parseGCInterrupt_def Option.bind_eq_Some_conv Let_def split: if_splits dest!: getNextWord_length getNextDoubleWord_length)

lemma parseGCContinue_length [shrinks]: "parseGCContinue ws = Some (c, ws') \<Longrightarrow> length ws' \<le> length ws"
  by (auto simp: parseGCContinue_def Option.bind_eq_Some_conv Let_def split: if_splits dest!: getNextWord_length getNextDoubleWord_length)

lemma parse_gc_length [shrinks]: "parse_gc sy t w ws = Some (c, ws') \<Longrightarrow> length ws' \<le> length ws"
  by (auto simp: parse_gc_def split: if_splits dest: shrinks)

lemma parseGCMoveFast_length [shrinks]: "parseGCMoveFast sy m al b t w sp ws = Some (c, ws') \<Longrightarrow> length ws' \<le> length ws"
  by (auto simp: parseGCMoveFast_def Option.bind_eq_Some_conv Let_def split: if_splits dest!: getNextWord_length getNextDoubleWord_length parsePointers_length)

lemma parseGCMoveSlow_length [shrinks]: "parseGCMoveSlow sy t w ws = Some (c, ws') \<Longrightarrow> length ws' \<le> length ws"
  by (auto simp: parseGCMoveSlow_def Option.bind_eq_Some_conv Let_def split: if_splits dest!: getNextWord_length getNextDoubleWord_length parsePointers_length)

lemma parseGCKeepAlive_length [shrinks]: "parseGCKeepAlive sy t w ws = Some (c, ws') \<Longrightarrow> length ws' \<le> length ws"
  by (auto simp: parseGCKeepAlive_def Option.bind_eq_Some_conv Let_def split: if_splits dest!: getNextWord_length getNextDoubleWord_length parsePointers_length)

lemma parseGCObjPtr_length [shrinks]: "parseGCObjPtr sy t w ws = Some (c, ws') \<Longrightarrow> length ws' \<le> length ws"
  by (auto simp: parseGCObjPtr_def Option.bind_eq_Some_conv Let_def split: if_splits dest!: getNextWord_length getNextDoubleWord_length parsePointers_length)

lemma parse_move_length [shrinks]: "parse_move sy m al b t w sp ws = Some (c, ws') \<Longrightarrow> length ws' \<le> length ws"
  by (auto simp: parse_move_def split: if_splits dest: shrinks)

lemma parseSpaceCreate_length [shrinks]: "parseSpaceCreate ws = Some (c, ws') \<Longrightarrow> length ws' \<le> length ws"
  by (auto simp: parseSpaceCreate_def Option.bind_eq_Some_conv Let_def split: if_splits dest!: getNextWord_length getNextDoubleWord_length)

lemma parseSpaceAlloc_length [shrinks]: "parseSpaceAlloc w ws = Some (c, ws') \<Longrightarrow> length ws' \<le> length ws"
  by (auto simp: parseSpaceAlloc_def Option.bind_eq_Some_conv Let_def split: if_splits dest!: getNextWord_length getNextDoubleWord_length)

lemma parseSpaceRelease_length [shrinks]: "parseSpaceRelease ws = Some (c, ws') \<Longrightarrow> length ws' \<le> length ws"
  by (auto simp: parseSpaceRelease_def Option.bind_eq_Some_conv Let_def split: if_splits dest!: getNextWord_length getNextDoubleWord_length)

lemma parseSpaceRedefine_length [shrinks]: "parseSpaceRedefine ws = Some (c, ws') \<Longrightarrow> length ws' \<le> length ws"
  by (auto simp: parseSpaceRedefine_def Option.bind_eq_Some_conv Let_def split: if_splits dest!: getNextWord_length getNextDoubleWord_length)

lemma parseSpaceDestroy_length [shrinks]: "parseSpaceDestroy ws = Some (c, ws') \<Longrightarrow> length ws' \<le> length ws"
  by (auto simp: parseSpaceDestroy_def Option.bind_eq_Some_conv Let_def split: if_splits dest!: getNextWord_length getNextDoubleWord_length)

lemma parse_space_length [shrinks]: "parse_space t w ws = Some (c, ws') \<Longrightarrow> length ws' \<le> length ws"
  by (auto simp: parse_space_def split: if_splits dest: shrinks)

lemma parseThreadAlive_length [shrinks]: "parseThreadAlive w ws = Some (c, ws') \<Longrightarrow> length ws' \<le> length ws"
  by (auto simp: parseThreadAlive_def Option.bind_eq_Some_conv Let_def split: if_splits dest!: getNextWord_length getNextDoubleWord_length read_chars_length)

lemma parseThreadDeath_length [shrinks]: "parseThreadDeath ws = Some (c, ws') \<Longrightarrow> length ws' \<le> length ws"
  by (auto simp: parseThreadDeath_def Option.bind_eq_Some_conv Let_def split: if_splits dest!: getNextWord_length getNextDoubleWord_length)

lemma parseGCTag_length [shrinks]: "parseGCTag ws = Some (c, ws') \<Longrightarrow> length ws' \<le> length ws"
  by (auto simp: parseGCTag_def Option.bind_eq_Some_conv Let_def split: if_splits dest!: getNextWord_length getNextDoubleWord_length getString_length)

lemma parse_other_length [shrinks]: "parse_other t w ws = Some (c, ws') \<Longrightarrow> length ws' \<le> length ws"
  by (auto simp: parse_other_def split: if_splits dest: shrinks)

lemma parse_gc_meta_length [shrinks]: "parseGCMeta t w ws = Some (i, b, ws') \<Longrightarrow> length ws' \<le> length ws"
  by (auto simp: parseGCMeta_def Option.bind_eq_Some_conv Let_def split: if_splits dest!: getNextWord_length getNextDoubleWord_length)

lemma parse_event_length [shrinks]: "parse_event sy m al b t w sp ws = Some (c, b', ws') \<Longrightarrow> length ws' \<le> length ws"
  unfolding parse_event_def parseGCStart_def parseGCEnd_def
  by (auto simp: Option.bind_eq_Some_conv split: if_splits
      dest: parse_gc_meta_length parse_alloc_length parse_gc_length parse_move_length parse_space_length parse_other_length)

lemma evaluateEvent_consumes: "evaluateEvent sy m al b ws = Some (c, b', ws') \<Longrightarrow> length ws' < length ws"
  by (auto simp: evaluateEvent_def check_anchor_def Option.bind_eq_Some_conv Let_def split: if_splits
      dest!: getNextWord_length parse_event_length)

section \<open>Buffers\<close>

function evaluate_buffer :: "Symbols \<Rightarrow> move_handler \<Rightarrow> u64 \<Rightarrow> u64 \<Rightarrow> uint list \<Rightarrow> (call list \<times> u64) option" where
  "evaluate_buffer symbols doGCMove alignment base ws =
    (if ws = [] then Some ([], base)
     else case evaluateEvent symbols doGCMove alignment base ws of
         None \<Rightarrow> None
       | Some (c, base, ws) \<Rightarrow> map_option (map_prod (Cons c) id) (evaluate_buffer symbols doGCMove alignment base ws))"
  by pat_completeness auto
termination by (relation "measure (\<lambda>(_, _, _, _, ws). length ws)") (auto dest: evaluateEvent_consumes)

declare evaluate_buffer.simps [simp del]

end
