(* ===== verification/EventRoundtrip.thy ===== *)
theory EventRoundtrip
  imports EventReader EventBuffer
begin

text \<open>
  The words of every event the virtual machine fires are read back by the analyzer as the call with the
  same data.
\<close>

section \<open>Fields of the first word\<close>

named_theorems field_simps \<open>fields of a stuffed word\<close>

lemma and_masks:
  "w AND 0xFFFFFF = take_bit 24 w" "w AND 0xFFFF = take_bit 16 w" "w AND 0xFF = take_bit 8 w" "w AND 3 = take_bit 2 w"
  "w AND 1 = take_bit 1 w" for w :: "'a::len word"
  by (simp_all add: take_bit_eq_mask mask_eq_exp_minus_1)

lemma recover_masks:
  "(scast (recover_mask 0 0) :: u64) = push_bit 24 (mask 40)" "(scast (recover_mask 1 1) :: u64) = push_bit 16 (mask 8)"
  "(scast (recover_mask 2 2) :: u64) = push_bit 8 (mask 8)" "(scast (recover_mask 3 3) :: u64) = mask 8"
  "(scast (recover_mask 1 2) :: u64) = push_bit 8 (mask 16)" "(scast (recover_mask 1 3) :: u64) = mask 24"
  by code_simp+

lemma recover_fields:
  fixes w :: uint
  shows "recoverValue (scast w AND 0xffffffff) 0 0 = drop_bit 24 w"
    "recoverValue (scast w) 1 1 = take_bit 8 (drop_bit 16 w)"
    "recoverValue (scast w) 2 2 = take_bit 8 (drop_bit 8 w)"
    "recoverValue (scast w) 3 3 = take_bit 8 w"
    "recoverValue (scast w) 1 2 = take_bit 16 (drop_bit 8 w)"
    "recoverValue (scast w) 1 3 = take_bit 24 w"
proof -
  have m: "(0xffffffff :: u64) = mask 32" by code_simp
  show "recoverValue (scast w AND 0xffffffff) 0 0 = drop_bit 24 w"
    unfolding recoverValue_def recover_masks m
  proof (rule bit_word_eqI)
    fix n assume "n < LENGTH(32)"
    show "bit (ucast (signed_drop_bit (8 * (3 - 0)) ((scast w AND mask 32) AND push_bit 24 (mask 40 :: u64))) :: uint) n = bit (drop_bit 24 w) n"
      by (cases "n < 7"; cases "n = 7") (auto simp: bit_simps min_def dest: bit_imp_le_length)
  qed
  show "recoverValue (scast w) 1 1 = take_bit 8 (drop_bit 16 w)"
    unfolding recoverValue_def recover_masks by (rule bit_word_eqI) (auto simp: bit_simps min_def dest: bit_imp_le_length)
  show "recoverValue (scast w) 2 2 = take_bit 8 (drop_bit 8 w)"
    unfolding recoverValue_def recover_masks by (rule bit_word_eqI) (auto simp: bit_simps min_def dest: bit_imp_le_length)
  show "recoverValue (scast w) 3 3 = take_bit 8 w"
    unfolding recoverValue_def recover_masks by (rule bit_word_eqI) (auto simp: bit_simps min_def dest: bit_imp_le_length)
  show "recoverValue (scast w) 1 2 = take_bit 16 (drop_bit 8 w)"
    unfolding recoverValue_def recover_masks by (rule bit_word_eqI) (auto simp: bit_simps min_def dest: bit_imp_le_length)
  show "recoverValue (scast w) 1 3 = take_bit 24 w"
    unfolding recoverValue_def recover_masks by (rule bit_word_eqI) (auto simp: bit_simps min_def dest: bit_imp_le_length)
qed

text \<open>Every first word is an event type, two bits and 24 bits of data.\<close>

definition header :: "EventType \<Rightarrow> uint \<Rightarrow> uint \<Rightarrow> uint" where
  "header t g x = stuff [event_field t, (g, 2), (x, 24)]"

lemma stuff_header:
  "stuff [event_field t, event_gap, (x, 24)] = header t 0 x"
  "stuff [event_field t, (g, 2), (x, 24)] = header t g x"
  "stuff [event_field t, event_gap, gap 24] = header t 0 0"
  "stuff [event_field t, event_gap, (x, 16), (y, 8)] = header t 0 (push_bit 8 x OR y)"
  "stuff [event_field t, event_gap, (x, 16), gap 8] = header t 0 (push_bit 8 x)"
  "stuff [event_field t, event_gap, (x, 8), (y, 8), (z, 8)] = header t 0 (push_bit 16 x OR push_bit 8 y OR z)"
  by (simp_all add: header_def stuff_def StuffedWord_add_def event_field_def event_gap_def gap_def or.assoc)

lemma bit_scast_type: "unat t < 64 \<Longrightarrow> bit (scast t :: uint) n \<longleftrightarrow> n < 6 \<and> bit t n" for t :: EventType
  using bit_unat_less [of t 6 7] bit_unat_less [of t 6 n] by (auto simp: bit_simps min_def)

lemma scast_type: "unat t < 64 \<Longrightarrow> (scast t :: uint) = ucast t" for t :: EventType
  using bit_unat_less [of t 6] by (intro bit_word_eqI) (auto simp: bit_scast_type bit_ucast_iff)

lemma bit_header:
  assumes "unat t < 64" and "unat g < 4" and "unat x < 2 ^ 24"
  shows "bit (header t g x) n \<longleftrightarrow> (if n < 24 then bit x n else if n < 26 then bit g (n - 24) else n < 32 \<and> bit t (n - 26))"
proof -
  have "bit x n \<Longrightarrow> n < 24" "bit g (n - 24) \<Longrightarrow> n - 24 < 2"
    using bit_unat_less [of x 24] bit_unat_less [of g 2] assms(2,3) by auto
  moreover have "header t g x = push_bit 24 (push_bit 2 (scast t) OR g) OR x"
    by (simp only: header_def stuff_def StuffedWord_add_def event_field_def foldl.simps prod.case push_bit_of_0 or.left_neutral)
  then have "bit (header t g x) n \<longleftrightarrow> 24 \<le> n \<and> n < 32 \<and> (26 \<le> n \<and> n - 26 < 6 \<and> bit t (n - 26) \<or> bit g (n - 24)) \<or> bit x n"
    by (simp only: bit_or_iff bit_push_bit_iff bit_scast_type [OF assms(1)]) auto
  ultimately show ?thesis by auto
qed

lemma header_fields:
  assumes "unat t < 64" and "unat g < 4" and "unat x < 2 ^ 24"
  shows "unat (signed_drop_bit 2 (drop_bit 24 (header t g x))) = unat t"
    "unat (drop_bit 24 (header t g x) AND 3) = unat g"
    "take_bit 24 (header t g x) = x"
proof -
  have type_bits: "bit t n \<Longrightarrow> n < 6" for n using bit_unat_less [of t 6] assms(1) by simp
  have "signed_drop_bit 2 (drop_bit 24 (header t g x)) = ucast t"
    by (rule bit_word_eqI) (auto simp: bit_simps bit_header [OF assms] min_def dest: type_bits bit_imp_le_length)
  then show "unat (signed_drop_bit 2 (drop_bit 24 (header t g x))) = unat t"
    using assms(1) by (simp add: unsigned_ucast_eq take_bit_nat_eq_self_iff)
  have "drop_bit 24 (header t g x) AND 3 = g"
    unfolding and_masks using bit_unat_less [of g 2] assms(2)
    by (intro bit_word_eqI) (auto simp: bit_simps bit_header [OF assms])
  then show "unat (drop_bit 24 (header t g x) AND 3) = unat g" by simp
  show "take_bit 24 (header t g x) = x"
    using bit_unat_less [of x 24] assms(3) by (intro bit_word_eqI) (auto simp: bit_simps bit_header [OF assms])
qed

lemma unat_less_bits: "(\<And>i. bit w i \<Longrightarrow> i < n) \<Longrightarrow> unat w < 2 ^ n" for w :: "'a::len word"
proof -
  assume "\<And>i. bit w i \<Longrightarrow> i < n"
  then have "take_bit n w = w" by (intro bit_word_eqI) (auto simp: bit_take_bit_iff)
  then have "unat w = take_bit n (unat w)" by (metis unsigned_take_bit_eq)
  then show "unat w < 2 ^ n" by (metis take_bit_nat_less_exp)
qed

lemma payload_16_8:
  fixes a b :: uint
  assumes "unat a < 2 ^ 16" and "unat b < 2 ^ 8"
  shows "unat (push_bit 8 a OR b) < 2 ^ 24" "drop_bit 8 (push_bit 8 a OR b) = a" "take_bit 8 (push_bit 8 a OR b) = b"
  using bit_unat_less [OF assms(1)] bit_unat_less [OF assms(2)]
  by (intro unat_less_bits bit_word_eqI; fastforce simp: bit_simps)+

lemma payload_8_8_8:
  fixes a b c :: uint
  assumes "unat a < 2 ^ 8" and "unat b < 2 ^ 8" and "unat c < 2 ^ 8"
  shows "unat (push_bit 16 a OR push_bit 8 b OR c) < 2 ^ 24" "drop_bit 16 (push_bit 16 a OR push_bit 8 b OR c) = a"
    "take_bit 8 (drop_bit 8 (push_bit 16 a OR push_bit 8 b OR c)) = b" "take_bit 8 (push_bit 16 a OR push_bit 8 b OR c) = c"
  using bit_unat_less [OF assms(1)] bit_unat_less [OF assms(2)] bit_unat_less [OF assms(3)]
  by (intro unat_less_bits bit_word_eqI; fastforce simp: bit_simps)+

lemma payload_fields:
  fixes w :: uint
  shows "take_bit 8 w = take_bit 8 (take_bit 24 w)" "take_bit 16 (drop_bit 8 w) = drop_bit 8 (take_bit 24 w)"
    "take_bit 8 (drop_bit 16 w) = drop_bit 16 (take_bit 24 w)" "take_bit 8 (drop_bit 8 w) = take_bit 8 (drop_bit 8 (take_bit 24 w))"
  by (rule bit_word_eqI; auto simp: bit_simps)+

lemma recover_header:
  assumes "unat t < 64" and "unat g < 4" and "unat x < 2 ^ 24"
  shows "recoverValue (scast (header t g x)) 1 3 = x"
    "recoverValue (scast (header t g x)) 1 2 = drop_bit 8 x"
    "recoverValue (scast (header t g x)) 1 1 = drop_bit 16 x"
    "recoverValue (scast (header t g x)) 2 2 = take_bit 8 (drop_bit 8 x)"
    "recoverValue (scast (header t g x)) 3 3 = take_bit 8 x"
  unfolding recover_fields payload_fields [of "header t g x"] header_fields(3) [OF assms] by simp_all

section \<open>Reading what was written\<close>

named_theorems read_simps \<open>reading back single items\<close>

lemma getNextWord_write [read_simps]: "getNextWord (write_word w @ ws) = Some (w, ws)"
  by (simp add: write_word_def)

lemma scast_mask: "scast w AND (0xFFFFFFFF :: u64) = ucast w" for w :: uint
proof -
  have m: "(0xFFFFFFFF :: u64) = mask 32" by code_simp
  show ?thesis unfolding m
  proof (rule bit_word_eqI)
    fix n
    show "bit (scast w AND (mask 32 :: u64)) n = bit (ucast w :: u64) n"
      by (cases "n < 31"; cases "n = 31") (auto simp: bit_simps min_def dest: bit_imp_le_length)
  qed
qed

lemma double_word:
  fixes v :: u64
  shows "(scast (ucast v :: uint) AND 0xFFFFFFFF) OR push_bit 32 (scast (ucast (signed_drop_bit 32 v) :: uint) AND 0xFFFFFFFF) = v"
  unfolding scast_mask
proof (rule bit_word_eqI)
  fix n assume n: "n < LENGTH(64)"
  show "bit (ucast (ucast v :: uint) OR push_bit 32 (ucast (ucast (signed_drop_bit 32 v) :: uint)) :: u64) n = bit v n"
    using n by (cases "n < 32") (auto simp: bit_simps min_def)
qed

lemma getNextDoubleWord_write [read_simps]: "getNextDoubleWord (write_wide_word v @ ws) = Some (v, ws)"
  using double_word [of v] by (simp add: getNextDoubleWord_def write_wide_word_def write_word_def)

lemmas write_wide = write_abs_addr_def write_time_def write_size_def write_abs_obj_addr_def write_length_def write_type_def

lemma check_anchor_write:
  assumes "unat t < 64"
  shows "check_anchor sy (unat t) ((if sym_anchors sy then write_anchor t else []) @ ws) = Some ws"
proof -
  have type_bits: "bit t n \<Longrightarrow> n < 6" for n using bit_unat_less [of t 6] assms by simp
  have m: "ANCHOR_MASK = push_bit 16 (mask 16) OR mask 8" unfolding ANCHOR_MASK_def by code_simp
  have a: "0xFFFF00FF = ANCHOR_MASK" by (simp add: ANCHOR_MASK_def)
  have "(ANCHOR_MASK OR push_bit 8 (scast t)) AND ANCHOR_MASK = ANCHOR_MASK"
    by (rule bit_word_eqI) (auto simp: bit_simps)
  moreover have "drop_bit 8 ((ANCHOR_MASK OR push_bit 8 (scast t)) AND NOT ANCHOR_MASK) = ucast t"
    unfolding m scast_type [OF assms] by (rule bit_word_eqI) (auto simp: bit_simps dest: type_bits)
  ultimately show ?thesis
    using assms by (simp add: check_anchor_def write_anchor_def a unsigned_ucast_eq take_bit_nat_eq_self_iff)
qed

text \<open>The part of \<open>evaluateEvent\<close> that is the same for all events.\<close>

lemma evaluateEvent_header:
  assumes "unat t < 64" and "unat g < 4" and "unat x < 2 ^ 24"
    and "\<And>rest. parse_event sy m al base (unat t) (header t g x) (unat g) (body @ rest) = Some (c, base', rest)"
  shows "evaluateEvent sy m al base (fire_event (sym_anchors sy) (t, n, header t g x # body) @ ws) = Some (c, base', ws)"
  using header_fields [OF assms(1-3)] assms(4) [of "(if sym_anchors sy then write_anchor t else []) @ ws"] check_anchor_write [OF assms(1)]
  by (simp add: evaluateEvent_def fire_event_def recover_fields)

text \<open>The cases of the switch.\<close>

lemma parse_event_alloc:
  "parse_event sy m al b 0x0D w sp ws = map_option (\<lambda>(c, ws). (Alloc c, b, ws)) (parseTlabAlloc ws)"
  "parse_event sy m al b 0x0E w sp ws = map_option (\<lambda>(c, ws). (Alloc c, b, ws)) (parsePlabAlloc ws)"
  "parse_event sy m al b 0x13 w sp ws = map_option (\<lambda>(c, ws). (Alloc c, b, ws)) (parseObjAllocFastIr 0x13 w ws)"
  "parse_event sy m al b 0x17 w sp ws = map_option (\<lambda>(c, ws). (Alloc c, b, ws)) (parseObjAllocFastCi sy 0x17 w ws)"
  "parse_event sy m al b 0x1C w sp ws = map_option (\<lambda>(c, ws). (Alloc c, b, ws)) (parseObjAllocFastCi sy 0x1C w ws)"
  "parse_event sy m al b 0x12 w sp ws = map_option (\<lambda>(c, ws). (Alloc c, b, ws)) (parseObjAllocNormalIr 0x12 w ws)"
  "parse_event sy m al b 0x16 w sp ws = map_option (\<lambda>(c, ws). (Alloc c, b, ws)) (parseObjAllocNormalCi sy 0x16 w ws)"
  "parse_event sy m al b 0x1B w sp ws = map_option (\<lambda>(c, ws). (Alloc c, b, ws)) (parseObjAllocNormalCi sy 0x1B w ws)"
  "parse_event sy m al b 0x0F w sp ws = map_option (\<lambda>(c, ws). (Alloc c, b, ws)) (parseObjAllocSlow sy 0x0F w ws)"
  "parse_event sy m al b 0x10 w sp ws = map_option (\<lambda>(c, ws). (Alloc c, b, ws)) (parseObjAllocSlowCiIr_Deviant sy 0x10 w ws)"
  "parse_event sy m al b 0x14 w sp ws = map_option (\<lambda>(c, ws). (Alloc c, b, ws)) (parseObjAllocSlowCiIr_Deviant sy 0x14 w ws)"
  "parse_event sy m al b 0x19 w sp ws = map_option (\<lambda>(c, ws). (Alloc c, b, ws)) (parseObjAllocSlowCiIr_Deviant sy 0x19 w ws)"
  "parse_event sy m al b 0x11 w sp ws = map_option (\<lambda>(c, ws). (Alloc c, b, ws)) (parseObjAllocSlowCiIr_Deviant sy 0x11 w ws)"
  "parse_event sy m al b 0x15 w sp ws = map_option (\<lambda>(c, ws). (Alloc c, b, ws)) (parseObjAllocSlowCiIr_Deviant sy 0x15 w ws)"
  "parse_event sy m al b 0x1A w sp ws = map_option (\<lambda>(c, ws). (Alloc c, b, ws)) (parseObjAllocSlowCiIr_Deviant sy 0x1A w ws)"
  "parse_event sy m al b 0x1D w sp ws = map_option (\<lambda>(c, ws). (Alloc c, b, ws)) (parseObjAllocFastC2DeviantType sy 0x1D w ws)"
  by (simp_all add: parse_event_def parse_alloc_def)

lemma parse_event_gc:
  "parse_event sy m al b 0x2D w sp ws = map_option (\<lambda>(c, ws). (GC c, b, ws)) (parseGCRootPtr ws)"
  "parse_event sy m al b 0x22 w sp ws = map_option (\<lambda>(c, ws). (GC c, b, ws)) (parseGCMoveRegion 0x22 w ws)"
  "parse_event sy m al b 0x24 w sp ws = map_option (\<lambda>(c, ws). (GC c, b, ws)) (parseSyncObj sy 0x24 w ws)"
  "parse_event sy m al b 0x25 w sp ws = map_option (\<lambda>(c, ws). (GC c, b, ws)) (parseSyncObj sy 0x25 w ws)"
  "parse_event sy m al b 0x04 w sp ws = map_option (\<lambda>(c, ws). (GC c, b, ws)) (parseGCInfo w ws)"
  "parse_event sy m al b 0x05 w sp ws = map_option (\<lambda>(c, ws). (GC c, b, ws)) (parseGCFailed w ws)"
  "parse_event sy m al b 0x2F w sp ws = map_option (\<lambda>(c, ws). (GC c, b, ws)) (parseGCInterrupt ws)"
  "parse_event sy m al b 0x30 w sp ws = map_option (\<lambda>(c, ws). (GC c, b, ws)) (parseGCContinue ws)"
  by (simp_all add: parse_event_def parse_gc_def)

lemma parse_event_move:
  "parse_event sy m al b 0x20 w sp ws = map_option (\<lambda>(c, ws). (Move c, b, ws)) (parseGCMoveFast sy m al b 0x20 w sp ws)"
  "parse_event sy m al b 0x1F w sp ws = map_option (\<lambda>(c, ws). (Move c, b, ws)) (parseGCMoveFast sy m al b 0x1F w sp ws)"
  "parse_event sy m al b 0x21 w sp ws = map_option (\<lambda>(c, ws). (Move c, b, ws)) (parseGCMoveFast sy m al b 0x21 w sp ws)"
  "parse_event sy m al b 0x29 w sp ws = map_option (\<lambda>(c, ws). (Move c, b, ws)) (parseGCMoveFast sy m al b 0x29 w sp ws)"
  "parse_event sy m al b 0x28 w sp ws = map_option (\<lambda>(c, ws). (Move c, b, ws)) (parseGCMoveFast sy m al b 0x28 w sp ws)"
  "parse_event sy m al b 0x1E w sp ws = map_option (\<lambda>(c, ws). (Move c, b, ws)) (parseGCMoveSlow sy 0x1E w ws)"
  "parse_event sy m al b 0x27 w sp ws = map_option (\<lambda>(c, ws). (Move c, b, ws)) (parseGCMoveSlow sy 0x27 w ws)"
  "parse_event sy m al b 0x23 w sp ws = map_option (\<lambda>(c, ws). (Move c, b, ws)) (parseGCKeepAlive sy 0x23 w ws)"
  "parse_event sy m al b 0x2A w sp ws = map_option (\<lambda>(c, ws). (Move c, b, ws)) (parseGCKeepAlive sy 0x2A w ws)"
  "parse_event sy m al b 0x2B w sp ws = map_option (\<lambda>(c, ws). (Move c, b, ws)) (parseGCObjPtr sy 0x2B w ws)"
  "parse_event sy m al b 0x2E w sp ws = map_option (\<lambda>(c, ws). (Move c, b, ws)) (parseGCObjPtr sy 0x2E w ws)"
  "parse_event sy m al b 0x31 w sp ws = map_option (\<lambda>(c, ws). (Move c, b, ws)) (parseGCObjPtr sy 0x31 w ws)"
  "parse_event sy m al b 0x2C w sp ws = map_option (\<lambda>(c, ws). (Move c, b, ws)) (parseGCObjPtr sy 0x2C w ws)"
  by (simp_all add: parse_event_def parse_move_def)

lemma parse_event_other:
  "parse_event sy m al b 0x06 w sp ws = map_option (\<lambda>(c, ws). (Space c, b, ws)) (parseSpaceCreate ws)"
  "parse_event sy m al b 0x07 w sp ws = map_option (\<lambda>(c, ws). (Space c, b, ws)) (parseSpaceAlloc w ws)"
  "parse_event sy m al b 0x08 w sp ws = map_option (\<lambda>(c, ws). (Space c, b, ws)) (parseSpaceRelease ws)"
  "parse_event sy m al b 0x09 w sp ws = map_option (\<lambda>(c, ws). (Space c, b, ws)) (parseSpaceRedefine ws)"
  "parse_event sy m al b 0x0A w sp ws = map_option (\<lambda>(c, ws). (Space c, b, ws)) (parseSpaceDestroy ws)"
  "parse_event sy m al b 0x0B w sp ws = map_option (\<lambda>(c, ws). (Other c, b, ws)) (parseThreadAlive w ws)"
  "parse_event sy m al b 0x0C w sp ws = map_option (\<lambda>(c, ws). (Other c, b, ws)) (parseThreadDeath ws)"
  "parse_event sy m al b 0 w sp ws = map_option (\<lambda>(c, ws). (Other c, b, ws)) (Some (Nop, ws))"
  "parse_event sy m al b 0x32 w sp ws = map_option (\<lambda>(c, ws). (Other c, b, ws)) (parseGCTag ws)"
  by (simp_all add: parse_event_def parse_space_def parse_other_def)

lemma parse_event_start_end:
  "parse_event sy m al b 0x02 w sp ws = map_option (map_prod GC id) (parseGCStart w ws)"
  "parse_event sy m al b 0x03 w sp ws = map_option (map_prod GC id) (parseGCEnd w ws)"
  by (simp_all add: parse_event_def)

lemmas parse_event_cases = parse_event_alloc parse_event_gc parse_event_move parse_event_other parse_event_start_end

section \<open>Characters\<close>

text \<open>\<open>char\<close> values that are not negative.\<close>

abbreviation ascii :: "byte \<Rightarrow> bool" where
  "ascii c \<equiv> unat c < 128"

definition pack4 :: "byte \<Rightarrow> byte \<Rightarrow> byte \<Rightarrow> byte \<Rightarrow> uint" where
  "pack4 a b c d = push_bit 24 (ucast a) OR push_bit 16 (ucast b) OR push_bit 8 (ucast c) OR ucast d"

lemma scast_ascii: "ascii c \<Longrightarrow> (scast c :: uint) = ucast c"
proof -
  assume "ascii c"
  then have bits: "bit c i \<Longrightarrow> i < 7" for i using bit_unat_less [of c 7] by simp
  have "\<not> bit c 7" using bits by blast
  then show "(scast c :: uint) = ucast c" by (intro bit_word_eqI) (auto simp: bit_simps min_def dest: bits)
qed

lemma pack4_bytes:
  "ucast (signed_drop_bit (3 * 8) (pack4 a b c d) AND 0xFF) = a" "ucast (signed_drop_bit (2 * 8) (pack4 a b c d) AND 0xFF) = b"
  "ucast (signed_drop_bit (1 * 8) (pack4 a b c d) AND 0xFF) = c" "ucast (signed_drop_bit (0 * 8) (pack4 a b c d) AND 0xFF) = d"
  unfolding pack4_def and_masks
  by (rule bit_word_eqI; auto simp: bit_simps min_def dest: bit_imp_le_length)+

lemma word_chars_pack4: "word_chars (pack4 a b c d) 4 = (takeWhile (\<lambda>x. x \<noteq> 0) [a, b, c, d], 0 \<in> set [a, b, c, d])"
proof -
  note bytes = pack4_bytes [of a b c d]
  have "word_chars w 4 = word_chars w (Suc (Suc (Suc (Suc 0))))" for w by (simp add: eval_nat_numeral)
  then show ?thesis using bytes by (auto simp: Let_def)
qed

lemma write_chars_full: "write_chars cs w 4 = w # write_chars cs 0 0"
  by (cases cs) (simp_all add: write_word_def)

lemma write_chars_step:
  "write_chars (c # cs) w 0 = write_chars cs (push_bit 8 w OR scast c) 1"
  "write_chars (c # cs) w 1 = write_chars cs (push_bit 8 w OR scast c) 2"
  "write_chars (c # cs) w 2 = write_chars cs (push_bit 8 w OR scast c) 3"
  "write_chars (c # cs) w 3 = write_chars cs (push_bit 8 w OR scast c) 4"
proof -
  have step: "write_chars (c # cs) w f = write_chars cs (push_bit 8 w OR scast c) g" if "f \<noteq> 4" "g = f + 1" for f g
    using that by simp
  show "write_chars (c # cs) w 0 = write_chars cs (push_bit 8 w OR scast c) 1"
    "write_chars (c # cs) w 1 = write_chars cs (push_bit 8 w OR scast c) 2"
    "write_chars (c # cs) w 2 = write_chars cs (push_bit 8 w OR scast c) 3"
    "write_chars (c # cs) w 3 = write_chars cs (push_bit 8 w OR scast c) 4"
    by (rule step; simp)+
qed

lemma write_chars_end:
  "write_chars [] w 0 = []" "write_chars [] w 1 = [push_bit 24 w]" "write_chars [] w 2 = [push_bit 16 w]" "write_chars [] w 3 = [push_bit 8 w]"
  by (simp_all add: write_word_def)

lemma pack4_shifts:
  "pack4 a b c 0 OR ucast d = pack4 a b c d"
  "push_bit 8 (push_bit 8 (push_bit 8 (push_bit 8 0 OR ucast a) OR ucast b) OR ucast c) = pack4 a b c 0"
  "push_bit 16 (push_bit 8 (push_bit 8 0 OR ucast a) OR ucast b) = pack4 a b 0 0"
  "push_bit 24 (push_bit 8 0 OR ucast a) = pack4 a 0 0 0"
  unfolding pack4_def by (rule bit_word_eqI; auto simp: bit_simps)+

lemma write_chars_chunks:
  "ascii a \<Longrightarrow> ascii b \<Longrightarrow> ascii c \<Longrightarrow> ascii d \<Longrightarrow> write_chars (a # b # c # d # cs) 0 0 = pack4 a b c d # write_chars cs 0 0"
  "ascii a \<Longrightarrow> ascii b \<Longrightarrow> ascii c \<Longrightarrow> write_chars [a, b, c] 0 0 = [pack4 a b c 0]"
  "ascii a \<Longrightarrow> ascii b \<Longrightarrow> write_chars [a, b] 0 0 = [pack4 a b 0 0]"
  "ascii a \<Longrightarrow> write_chars [a] 0 0 = [pack4 a 0 0 0]"
  by (simp_all only: write_chars_step write_chars_full write_chars_end scast_ascii pack4_shifts)

declare write_chars.simps [simp del]

lemma read_chars_write:
  assumes "\<forall>c \<in> set s. ascii c" and "n = (length s + 3) div 4" and "0 \<notin> set s"
  shows "read_chars n (write_chars s 0 0 @ ws) = Some (s, ws)"
  using assms
proof (induction n arbitrary: s)
  case 0
  then have "s = []" by (cases s) auto
  then show ?case by (simp add: write_chars_end)
next
  case (Suc n)
  consider a where "s = [a]" | a b where "s = [a, b]" | a b c where "s = [a, b, c]" | a b c d s' where "s = a # b # c # d # s'"
  proof (cases s)
    case Nil
    with Suc.prems(2) show thesis by simp
  next
    case (Cons a s1)
    with that show thesis by (cases s1; cases "tl s1"; cases "tl (tl s1)") auto
  qed
  then show ?case
  proof cases
    case 1
    with Suc.prems show ?thesis by (simp add: write_chars_chunks(4) word_chars_pack4)
  next
    case 2
    with Suc.prems show ?thesis by (simp add: write_chars_chunks(3) word_chars_pack4)
  next
    case 3
    with Suc.prems show ?thesis by (simp add: write_chars_chunks(2) word_chars_pack4)
  next
    case 4
    have "Suc n = Suc ((length s' + 3) div 4)" using Suc.prems(2) unfolding 4 by simp
    then have "read_chars n (write_chars s' 0 0 @ ws) = Some (s', ws)" using Suc.prems 4 by (intro Suc.IH) auto
    with Suc.prems(1,3) 4 show ?thesis by (simp add: write_chars_chunks(1) word_chars_pack4)
  qed
qed

text \<open>A string that ends with a 0 within the words that are read.\<close>

lemma read_chars_terminated:
  assumes "\<forall>c \<in> set s. ascii c" and "length s < 4 * n" and "0 \<notin> set s"
  shows "read_chars n (write_chars (s @ [0]) 0 0 @ ws) = Some (s, ws)"
  using assms
proof (induction n arbitrary: s)
  case (Suc n)
  consider "s = []" | a where "s = [a]" | a b where "s = [a, b]" | a b c where "s = [a, b, c]" | a b c d s' where "s = a # b # c # d # s'"
  proof (cases s)
    case (Cons a s1)
    with that show thesis by (cases s1; cases "tl s1"; cases "tl (tl s1)") auto
  qed
  then show ?case
  proof cases
    case 1
    then show ?thesis by (simp add: write_chars_chunks(4) word_chars_pack4)
  next
    case 2
    with Suc.prems show ?thesis by (simp add: write_chars_chunks(3) word_chars_pack4)
  next
    case 3
    with Suc.prems show ?thesis by (simp add: write_chars_chunks(2) word_chars_pack4)
  next
    case 4
    with Suc.prems show ?thesis by (simp add: write_chars_chunks(1) word_chars_pack4 write_chars_end)
  next
    case 5
    then have "read_chars n (write_chars (s' @ [0]) 0 0 @ ws) = Some (s', ws)" using Suc.prems by (intro Suc.IH) auto
    with Suc.prems(1,3) 5 show ?thesis by (simp add: write_chars_chunks(1) word_chars_pack4)
  qed
qed simp

lemma read_name:
  assumes "\<forall>c \<in> set s. ascii c" and "0 \<notin> set s"
  shows "read_chars 12 (write_chars (take (min (length s + 1) 48) (s @ [0])) 0 0 @ ws) = Some (take 48 s, ws)"
proof (cases "length s < 48")
  case True
  then have "take (min (length s + 1) 48) (s @ [0]) = s @ [0]" "take 48 s = s" by simp_all
  with read_chars_terminated [of s 12 ws] assms True show ?thesis by (simp del: take_append)
next
  case False
  then have "take (min (length s + 1) 48) (s @ [0]) = take 48 s" by simp
  moreover have "\<forall>c \<in> set (take 48 s). ascii c" "0 \<notin> set (take 48 s)" using assms by (meson in_set_takeD)+
  ultimately show ?thesis using read_chars_write [of "take 48 s" 12 ws] False by simp
qed

lemma write_chars_length: "f \<le> 4 \<Longrightarrow> length (write_chars s w f) = (f + length s + 3) div 4"
proof (induction s w f rule: write_chars.induct)
  case (1 w f)
  have "(f + 3) div 4 = (if f > 0 then 1 else 0)" using 1 by (cases "f = 0") (auto intro!: div_nat_eqI)
  then show ?case by (simp add: write_chars.simps write_word_def)
next
  case (2 c cs w f)
  show ?case
  proof (cases "f = 4")
    case True
    with 2 show ?thesis by (simp add: write_chars.simps write_word_def)
  next
    case False
    with 2 show ?thesis by (simp add: write_chars.simps)
  qed
qed

lemma read_string:
  assumes "\<forall>c \<in> set s. ascii c" and "0 \<notin> set s" and "length s < 2 ^ 31"
  shows "(do { (len, ws) \<leftarrow> getNextWord (write_string s @ ws); getString len ws }) = Some (s, ws)"
proof -
  have "sint (of_nat (length s) :: uint) = int (length s)"
    using assms(3) by (simp add: signed_of_nat signed_take_bit_int_eq_self)
  then have "nat ((sint (of_nat (length s) :: uint) + 3) div 4) = (length s + 3) div 4"
    by (simp add: nat_div_distrib nat_add_distrib)
  then show ?thesis using read_chars_write [OF assms(1) refl assms(2), of ws]
    by (simp add: write_string_def write_word_def getString_def)
qed

section \<open>Sizes of events\<close>

text \<open>What \<open>FireEventBlockControl\<close> asserts: the body writes as many words as \<open>fire_event\<close> has reserved, and these are
  fewer than \<open>MAX_EVENT_SIZE\<close>.\<close>

definition size_ok :: "fired \<Rightarrow> bool" where
  "size_ok = (\<lambda>(event_type, req_size, ws). length ws = req_size \<and> 0 < req_size \<and> req_size < MAX_EVENT_SIZE)"

section \<open>Sequences of events\<close>

lemma evaluate_buffer_event:
  assumes "evaluateEvent sy m al base ws = Some (c, base', ws')"
  shows "evaluate_buffer sy m al base ws = map_option (map_prod (Cons c) id) (evaluate_buffer sy m al base' ws')"
  using evaluateEvent_consumes [OF assms] assms by (subst evaluate_buffer.simps) auto

text \<open>The events \<open>fs\<close>, fired one after the other into a buffer, are read as the calls \<open>cs\<close>, one for each of them, and change the base of
  relative addresses from \<open>base\<close> to \<open>base'\<close>.\<close>

inductive reads_as :: "Symbols \<Rightarrow> move_handler \<Rightarrow> u64 \<Rightarrow> u64 \<Rightarrow> fired list \<Rightarrow> call list \<Rightarrow> u64 \<Rightarrow> bool" for sy m al where
  reads_as_Nil: "reads_as sy m al base [] [] base"
| reads_as_Cons: "(\<And>ws. evaluateEvent sy m al base (fire_event (sym_anchors sy) f @ ws) = Some (c, b, ws))
    \<Longrightarrow> reads_as sy m al b fs cs base' \<Longrightarrow> reads_as sy m al base (f # fs) (c # cs) base'"

inductive_cases reads_as_NilE: "reads_as sy m al base [] cs base'"
inductive_cases reads_as_ConsE: "reads_as sy m al base (f # fs) cs base'"

lemma reads_as_single:
  assumes "\<And>ws. evaluateEvent sy m al base (fire_event (sym_anchors sy) f @ ws) = Some (c, base', ws)"
  shows "reads_as sy m al base [f] [c] base'"
  by (rule reads_as_Cons [OF assms reads_as_Nil])

lemma reads_as_append:
  "reads_as sy m al base fs cs base' \<Longrightarrow> reads_as sy m al base' gs ds base'' \<Longrightarrow> reads_as sy m al base (fs @ gs) (cs @ ds) base''"
  by (induction rule: reads_as.induct) (auto intro: reads_as_Cons)

lemma reads_as_split:
  assumes "reads_as sy m al base (fs @ gs) cs base''"
  shows "\<exists>ds es base'. cs = ds @ es \<and> reads_as sy m al base fs ds base' \<and> reads_as sy m al base' gs es base''"
  using assms
proof (induction fs arbitrary: base cs)
  case Nil
  then show ?case using reads_as_Nil by fastforce
next
  case (Cons f fs)
  from Cons.prems obtain c ds b where c: "cs = c # ds"
    "\<And>ws. evaluateEvent sy m al base (fire_event (sym_anchors sy) f @ ws) = Some (c, b, ws)" "reads_as sy m al b (fs @ gs) ds base''"
    by (auto elim: reads_as_ConsE)
  from Cons.IH [OF c(3)] obtain ds' es base' where "ds = ds' @ es" "reads_as sy m al b fs ds' base'" "reads_as sy m al base' gs es base''" by blast
  with c(1) reads_as_Cons [OF c(2)] show ?case by (intro exI [of _ "c # ds'"] exI [of _ es] exI [of _ base']) auto
qed

lemma reads_as_buffer:
  "reads_as sy m al base fs cs base' \<Longrightarrow> evaluate_buffer sy m al base (concat (map (fire_event (sym_anchors sy)) fs)) = Some (cs, base')"
proof (induction rule: reads_as.induct)
  case (reads_as_Nil base)
  then show ?case by (simp add: evaluate_buffer.simps)
next
  case (reads_as_Cons base f c b fs cs base')
  from evaluate_buffer_event [OF reads_as_Cons.hyps(1)] reads_as_Cons.IH show ?case by simp
qed

lemma reads_as_event:
  assumes "snd (snd f) = header (fst f) g x # body" and "unat (fst f) < 64" and "unat g < 4" and "unat x < 2 ^ 24"
    and "\<And>rest. parse_event sy m al base (unat (fst f)) (header (fst f) g x) (unat g) (body @ rest) = Some (c, base', rest)"
  shows "reads_as sy m al base [f] [c] base'"
proof -
  obtain t n ws where f: "f = (t, n, ws)" by (cases f)
  from assms(1) have ws: "ws = header t g x # body" by (simp add: f)
  show ?thesis unfolding f ws
    by (rule reads_as_single, rule evaluateEvent_header) (use assms f in simp_all)
qed

end
