(* ===== verification/EventAllocs.thy ===== *)
theory EventAllocs
  imports EventRoundtrip
begin

text \<open>
  Allocation events: what the analyzer reads for each of the \<open>fire_obj_alloc\<close> functions.
\<close>

section \<open>The allocation site in the first word\<close>

text \<open>Small identifiers have 15 bits; big ones have 24 bits and the highest of them set.\<close>

definition site_id :: "uint \<Rightarrow> bool" where
  "site_id site \<longleftrightarrow> unat site < 0x8000 \<or> 0x800000 \<le> unat site \<and> unat site < 0x1000000"

definition site_payload :: "uint \<Rightarrow> uint \<Rightarrow> uint" where
  "site_payload site len = (if is_big_allocation_site site then site else push_bit 8 site OR len)"

lemma sint_small: "unat w < 2 ^ 31 \<Longrightarrow> sint w = int (unat w)" for w :: uint
proof -
  assume "unat w < 2 ^ 31"
  then have "int (unat w) < int (2 ^ 31)" by (rule iffD2 [OF of_nat_less_iff])
  then have "uint w < 2 ^ 31" unfolding uint_nat by (metis of_nat_numeral of_nat_power)
  then have "signed_take_bit 31 (uint w) = uint w" using uint_ge_0 [of w] by (intro signed_take_bit_int_eq_self) linarith+
  then show ?thesis by (simp add: sint_uint)
qed

lemma site_id_big: "site_id site \<Longrightarrow> is_big_allocation_site site \<longleftrightarrow> 0x800000 \<le> unat site"
  by (auto simp: site_id_def is_big_allocation_site_def sint_small simp del: of_nat_unat)

lemma write_obj_alloc_event_header:
  "write_obj_alloc_event site t len = [header t 0 (site_payload site len)]"
  by (simp add: write_obj_alloc_event_def site_payload_def write_word_def stuff_header)

lemma site_payload_less: "site_id site \<Longrightarrow> unat len < 256 \<Longrightarrow> unat (site_payload site len) < 2 ^ 24"
  using payload_16_8(1) [of site len] by (auto simp: site_payload_def site_id_big site_id_def)

lemma odd_bit: "signed_drop_bit n w AND 1 \<noteq> 0 \<longleftrightarrow> bit w n" if "n < 32" for w :: uint
proof -
  have "bit (signed_drop_bit n w) 0 = bit w n" using that by (auto simp: bit_simps min_def)
  then show ?thesis by (simp add: and_one_eq odd_iff_mod_2_eq_one bit_0)
qed

lemma bit_top_iff: "unat w < 2 ^ Suc n \<Longrightarrow> bit w n \<longleftrightarrow> 2 ^ n \<le> unat w" for w :: uint
proof -
  assume "unat w < 2 ^ Suc n"
  then have "unat w div 2 ^ n < 2" by (simp add: less_mult_imp_div_less)
  moreover have "bit w n \<longleftrightarrow> odd (unat w div 2 ^ n)" by (simp flip: bit_iff_odd add: bit_unsigned_iff)
  moreover have "unat w div 2 ^ n = 0 \<longleftrightarrow> \<not> 2 ^ n \<le> unat w" by (auto simp: div_eq_0_iff)
  ultimately show ?thesis by (auto simp: less_2_cases_iff)
qed

lemma site_header:
  assumes "site_id site" and "unat len < 256" and "unat t < 64"
  shows "recover_site (header t 0 (site_payload site len)) = site"
    "is_big_site_event (header t 0 (site_payload site len)) \<longleftrightarrow> is_big_allocation_site site"
    "\<not> is_big_allocation_site site \<Longrightarrow> recoverValue (scast (header t 0 (site_payload site len))) 3 3 = len"
proof -
  have zero: "unat (0 :: uint) < 4" by simp
  note fields = recover_header [OF assms(3) zero site_payload_less [OF assms(1,2)]]
  have big: "bit (drop_bit 8 (site_payload site len)) 15 \<longleftrightarrow> is_big_allocation_site site"
  proof (cases "is_big_allocation_site site")
    case True
    then have "unat site < 2 ^ Suc 23" "2 ^ 23 \<le> unat site" using assms(1) by (auto simp: site_id_big site_id_def)
    then have "bit site 23" using bit_top_iff by blast
    with True show ?thesis by (simp add: site_payload_def bit_simps)
  next
    case False
    then have small: "unat site < 0x8000" using assms(1) by (auto simp: site_id_big site_id_def)
    then have "drop_bit 8 (site_payload site len) = site" using False payload_16_8(2) [of site len] assms(2) by (simp add: site_payload_def)
    with small False bit_unat_less [of site 15 15] show ?thesis by auto
  qed
  show "recover_site (header t 0 (site_payload site len)) = site"
  proof (cases "is_big_allocation_site site")
    case True
    then show ?thesis unfolding recover_site_def Let_def fields using big by (simp add: odd_bit site_payload_def)
  next
    case False
    then have "unat site < 2 ^ 16" using assms(1) by (auto simp: site_id_big site_id_def)
    with False big payload_16_8(2) [of site len] assms(2) show ?thesis
      unfolding recover_site_def Let_def fields by (simp add: odd_bit site_payload_def)
  qed
  show "is_big_site_event (header t 0 (site_payload site len)) \<longleftrightarrow> is_big_allocation_site site"
    unfolding is_big_site_event_def fields using big by (simp add: odd_bit)
  show "recoverValue (scast (header t 0 (site_payload site len))) 3 3 = len" if "\<not> is_big_allocation_site site"
  proof -
    have "unat site < 2 ^ 16" using assms(1) that by (auto simp: site_id_big site_id_def)
    with that payload_16_8(3) [of site len] assms(2) show ?thesis unfolding fields by (simp add: site_payload_def)
  qed
qed

section \<open>Array lengths\<close>

text \<open>The length that is coded in the first word, and the words for a length that does not fit.\<close>

definition length_code :: "Oop \<Rightarrow> uint" where
  "length_code obj = (if o_is_array obj then if 255 \<le> sint (o_length obj) then 0xFF else o_length obj else 0)"

definition length_words :: "Oop \<Rightarrow> uint list" where
  "length_words obj = (if o_is_array obj \<and> 255 \<le> sint (o_length obj) then write_length (o_length obj) else [])"

definition array_ok :: "Oop \<Rightarrow> uint \<Rightarrow> bool" where
  "array_ok obj site \<longleftrightarrow> o_is_array obj \<longrightarrow> 0 \<le> sint (o_length obj) \<and> \<not> is_big_allocation_site site"

lemma small_length: "0 \<le> sint w \<Longrightarrow> sint w < 255 \<Longrightarrow> unat w < 255" for w :: uint
proof -
  assume *: "0 \<le> sint w" "sint w < 255"
  define n where "n = nat (sint w)"
  have "int n = sint w" using *(1) by (simp add: n_def)
  then have "w = of_int (int n)" by simp
  then have "w = of_nat n" by (simp only: of_int_of_nat_eq)
  moreover have "n < 255" using * by (simp add: n_def nat_less_iff)
  ultimately show ?thesis by (simp add: unsigned_of_nat take_bit_nat_eq_self)
qed

lemma length_code_less: "array_ok obj site \<Longrightarrow> unat (length_code obj) < 256"
  using small_length [of "o_length obj"] by (auto simp: length_code_def array_ok_def not_le)

lemma recoverArrayLength_code:
  assumes "site_id site" and "array_ok obj site" and "unat t < 64" and "\<not> is_big_allocation_site site"
  shows "recoverArrayLength (header t 0 (site_payload site (length_code obj))) (length_words obj @ ws)
    = Some (if o_is_array obj then o_length obj else 0, ws)"
proof -
  have code: "recoverValue (scast (header t 0 (site_payload site (length_code obj)))) 3 3 = length_code obj"
    by (rule site_header(3) [OF assms(1) length_code_less [OF assms(2)] assms(3,4)])
  have "unat (o_length obj) < 255" if "o_is_array obj" "\<not> 255 \<le> sint (o_length obj)"
    using that assms(2) by (intro small_length) (auto simp: array_ok_def)
  then have "o_length obj \<noteq> 255" if "o_is_array obj" "\<not> 255 \<le> sint (o_length obj)" using that by fastforce
  with code show ?thesis by (auto simp: recoverArrayLength_def length_code_def length_words_def write_length_def write_word_def)
qed

section \<open>The events\<close>

text \<open>What all the \<open>fire_obj_alloc\<close> functions write.\<close>

lemma fire_obj_alloc_unfold:
  "snd (snd (fire_obj_alloc_fast obj site t)) = header t 0 (site_payload site (length_code obj)) # length_words obj"
  "snd (snd (fire_obj_alloc_normal obj site t)) = header t 0 (site_payload site (length_code obj)) # write_abs_addr (o_addr obj) @ length_words obj"
  "fst (fire_obj_alloc_fast obj site t) = t" "fst (fire_obj_alloc_normal obj site t) = t" "fst (fire_obj_alloc_slow obj site t sz) = t"
  by (simp_all add: fire_obj_alloc_fast_def fire_obj_alloc_normal_def fire_obj_alloc_slow_def Let_def write_obj_alloc_event_header
      length_code_def length_words_def ARRAY_LENGTH_MAX_SMALL_def write_abs_obj_addr_def)

lemma fire_obj_alloc_slow_words:
  "snd (snd (fire_obj_alloc_slow obj site t sz)) =
    header t 0 (site_payload site (length_code obj)) # write_abs_addr (o_addr obj) @ length_words obj
      @ (if is_special_allocation_site site \<or> is_allocation_slow_with_deviant_type_event t then write_type (o_type obj) else [])
      @ (if o_is_mirror obj then write_word (ucast (sz * HeapWordSize)) else [])"
  by (simp add: fire_obj_alloc_slow_def Let_def write_obj_alloc_event_header length_code_def length_words_def
      ARRAY_LENGTH_MAX_SMALL_def write_abs_obj_addr_def)

datatype alloc_event =
    Fast_ir Oop uint
  | Fast Oop uint EventType
  | Normal_ir Oop uint
  | Normal Oop uint EventType
  | Slow Oop uint EventType u64
  | Mirror Oop u64 "uint option"
  | Tlab u64 u64
  | Plab u64 u64

primrec fire_alloc :: "alloc_event \<Rightarrow> fired" where
  "fire_alloc (Fast_ir obj site) = fire_obj_alloc_fast_no_arrays obj site EVENTS_IR_ALLOC_FAST"
| "fire_alloc (Fast obj site t) = fire_obj_alloc_fast obj site t"
| "fire_alloc (Normal_ir obj site) = fire_obj_alloc_normal_no_arrays obj site EVENTS_IR_ALLOC_NORMAL"
| "fire_alloc (Normal obj site t) = fire_obj_alloc_normal obj site t"
| "fire_alloc (Slow obj site t sz) = fire_obj_alloc_slow obj site t sz"
| "fire_alloc (Mirror obj sz mirrored) = fire_mirror_obj_alloc obj sz mirrored"
| "fire_alloc (Tlab addr sz) = fire_tlab_alloc addr sz"
| "fire_alloc (Plab addr sz) = fire_plab_alloc addr sz"

text \<open>The symbols file tells the analyzer the type of each allocation site.  Sites of the virtual machine itself have
  the type 0, and their events carry the type.\<close>

definition site_type :: "Symbols \<Rightarrow> uint \<Rightarrow> (uint \<times> AllocatedType) option" where
  "site_type sy site = do { tid \<leftarrow> sym_site_type sy site; ty \<leftarrow> sym_types sy tid; Some (tid, ty) }"

definition mirror_type :: "uint option \<Rightarrow> uint" where
  "mirror_type mirrored = (case mirrored of Some tid \<Rightarrow> - tid | None \<Rightarrow> 1)"

primrec alloc_ok :: "Symbols \<Rightarrow> alloc_event \<Rightarrow> bool" where
  "alloc_ok sy (Fast_ir obj site) \<longleftrightarrow> site_id site"
| "alloc_ok sy (Fast obj site t) \<longleftrightarrow> site_id site \<and> array_ok obj site \<and> t \<in> {EVENTS_C1_ALLOC_FAST, EVENTS_C2_ALLOC_FAST}
     \<and> (case site_type sy site of Some (tid, ty) \<Rightarrow> isArray ty = o_is_array obj | None \<Rightarrow> False)"
| "alloc_ok sy (Normal_ir obj site) \<longleftrightarrow> site_id site"
| "alloc_ok sy (Normal obj site t) \<longleftrightarrow> site_id site \<and> array_ok obj site \<and> t \<in> {EVENTS_C1_ALLOC_NORMAL, EVENTS_C2_ALLOC_NORMAL}
     \<and> (case site_type sy site of Some (tid, ty) \<Rightarrow> isArray ty = o_is_array obj \<and> at_internalName ty \<noteq> MIRROR_CLASS_NAME | None \<Rightarrow> False)"
| "alloc_ok sy (Slow obj site t sz) \<longleftrightarrow> site_id site \<and> array_ok obj site \<and>
     (if t = EVENTS_ALLOC_SLOW
      then is_special_allocation_site site \<and> sym_site_type sy site = Some 0
        \<and> (case sym_types sy (o_type obj) of Some ty \<Rightarrow> at_isMirrorAllocatedType ty = o_is_mirror obj
              \<and> (o_is_mirror obj \<or> isArray ty = o_is_array obj) | None \<Rightarrow> False)
      else \<not> is_special_allocation_site site \<and> \<not> o_is_mirror obj
        \<and> t \<in> {EVENTS_IR_ALLOC_SLOW, EVENTS_C1_ALLOC_SLOW, EVENTS_C2_ALLOC_SLOW, EVENTS_IR_ALLOC_SLOW_DEVIANT_TYPE,
             EVENTS_C1_ALLOC_SLOW_DEVIANT_TYPE, EVENTS_C2_ALLOC_SLOW_DEVIANT_TYPE}
        \<and> (case site_type sy site of Some (tid, ty) \<Rightarrow> isArray ty = o_is_array obj | None \<Rightarrow> False))"
| "alloc_ok sy (Mirror obj sz mirrored) \<longleftrightarrow> sym_site_type sy 1 = Some 0
     \<and> (case sym_types sy (mirror_type mirrored) of Some ty \<Rightarrow> at_isMirrorAllocatedType ty | None \<Rightarrow> False)"
| "alloc_ok sy (Tlab addr sz) \<longleftrightarrow> True"
| "alloc_ok sy (Plab addr sz) \<longleftrightarrow> True"

abbreviation seen_length :: "Oop \<Rightarrow> uint" where
  "seen_length obj \<equiv> if o_is_array obj then o_length obj else UNDEFINED_LENGTH"

primrec seen_alloc :: "Symbols \<Rightarrow> alloc_event \<Rightarrow> alloc_call" where
  "seen_alloc sy (Fast_ir obj site) = ObjAllocFastIr 0x13 site"
| "seen_alloc sy (Fast obj site t) = ObjAllocFastCi (unat t) site (fst (the (site_type sy site))) (o_is_array obj) (seen_length obj)"
| "seen_alloc sy (Normal_ir obj site) = ObjAllocNormalIr 0x12 site (o_addr obj)"
| "seen_alloc sy (Normal obj site t) =
     ObjAllocNormalCi (unat t) site (fst (the (site_type sy site))) (o_addr obj) (o_is_array obj) (seen_length obj)"
| "seen_alloc sy (Slow obj site t sz) =
     (if t = EVENTS_ALLOC_SLOW
      then let array = (\<not> o_is_mirror obj \<and> o_is_array obj)
        in ObjAllocSlow 0x0F site (o_type obj) (o_addr obj) array (if array then o_length obj else UNDEFINED_LENGTH)
             (if o_is_mirror obj then ucast (sz * HeapWordSize) else UNDEFINED_LENGTH)
             (mayBeFiller sy (o_type obj) (the (sym_types sy (o_type obj))))
      else ObjAllocSlowCiIr (unat t) (fst (the (site_type sy site))) site (o_addr obj) (o_is_array obj) (seen_length obj)
             (if is_allocation_slow_with_deviant_type_event t then o_type obj else - 1))"
| "seen_alloc sy (Mirror obj sz mirrored) =
     ObjAllocSlow 0x0F 1 (mirror_type mirrored) (o_addr obj) False UNDEFINED_LENGTH (ucast (sz * HeapWordSize))
       (mayBeFiller sy (mirror_type mirrored) (the (sym_types sy (mirror_type mirrored))))"
| "seen_alloc sy (Tlab addr sz) = TlabAlloc (ucast sz) addr"
| "seen_alloc sy (Plab addr sz) = PlabAlloc (ucast sz) addr"

section \<open>Reading allocation events\<close>

lemma recover_optional_length:
  assumes "site_id site" and "array_ok obj site" and "unat t < 64"
  shows "(if o_is_array obj then recoverArrayLength (header t 0 (site_payload site (length_code obj))) (length_words obj @ ws)
      else Some (UNDEFINED_LENGTH, length_words obj @ ws)) = Some (seen_length obj, ws)"
  using recoverArrayLength_code [OF assms, of ws] assms(2) by (auto simp: array_ok_def length_words_def)

text \<open>Slow allocations read a length for every small site.\<close>

lemma recover_slow_length:
  assumes "site_id site" and "array_ok obj site" and "unat t < 64"
  obtains len where "\<And>ws. (if \<not> is_big_site_event (header t 0 (site_payload site (length_code obj)))
      then recoverArrayLength (header t 0 (site_payload site (length_code obj))) (length_words obj @ ws)
      else Some (UNDEFINED_LENGTH, length_words obj @ ws)) = Some (len, ws)" "o_is_array obj \<Longrightarrow> len = o_length obj"
proof (cases "is_big_allocation_site site")
  case True
  then have "\<not> o_is_array obj" using assms(2) by (auto simp: array_ok_def)
  with that [of UNDEFINED_LENGTH] True site_header(2) [OF assms(1) length_code_less [OF assms(2)] assms(3)]
  show thesis by (simp add: length_words_def)
next
  case False
  with that [of "if o_is_array obj then o_length obj else 0"] recoverArrayLength_code [OF assms False]
    site_header(2) [OF assms(1) length_code_less [OF assms(2)] assms(3)] show thesis by simp
qed

lemma reads_fast:
  assumes "alloc_ok sy (Fast obj site t)"
  shows "reads_as sy m al base [fire_obj_alloc_fast obj site t] [Alloc (seen_alloc sy (Fast obj site t))] base"
proof -
  obtain tid ty where ty: "sym_site_type sy site = Some tid" "sym_types sy tid = Some ty" "isArray ty = o_is_array obj"
    and site: "site_type sy site = Some (tid, ty)"
    using assms by (auto simp: site_type_def Option.bind_eq_Some_conv split: option.splits)
  have ok: "site_id site" "array_ok obj site" and t: "t = EVENTS_C1_ALLOC_FAST \<or> t = EVENTS_C2_ALLOC_FAST" "unat t < 64" using assms by auto
  note code = length_code_less [OF ok(2)]
  note hd = site_header [OF ok(1) code t(2)]
  note len = recover_optional_length [OF ok t(2)]
  have "parseObjAllocFastCi sy (unat t) (header t 0 (site_payload site (length_code obj))) (length_words obj @ rest)
      = Some (seen_alloc sy (Fast obj site t), rest)" for rest
    using ty site len [of rest] by (simp add: parseObjAllocFastCi_def hd(1))
  then show ?thesis
    by (intro reads_as_event [of _ 0 "site_payload site (length_code obj)" "length_words obj"])
      (use t in \<open>auto simp: fire_obj_alloc_unfold site_payload_less [OF ok(1) code, simplified] parse_event_alloc\<close>)
qed

lemma reads_normal:
  assumes "alloc_ok sy (Normal obj site t)"
  shows "reads_as sy m al base [fire_obj_alloc_normal obj site t] [Alloc (seen_alloc sy (Normal obj site t))] base"
proof -
  obtain tid ty where ty: "sym_site_type sy site = Some tid" "sym_types sy tid = Some ty" "isArray ty = o_is_array obj"
      "at_internalName ty \<noteq> MIRROR_CLASS_NAME"
    and site: "site_type sy site = Some (tid, ty)"
    using assms by (auto simp: site_type_def Option.bind_eq_Some_conv split: option.splits)
  have ok: "site_id site" "array_ok obj site" and t: "t = EVENTS_C1_ALLOC_NORMAL \<or> t = EVENTS_C2_ALLOC_NORMAL" "unat t < 64" using assms by auto
  note code = length_code_less [OF ok(2)]
  note hd = site_header [OF ok(1) code t(2)]
  note len = recover_optional_length [OF ok t(2)]
  have "parseObjAllocNormalCi sy (unat t) (header t 0 (site_payload site (length_code obj))) (write_abs_addr (o_addr obj) @ length_words obj @ rest)
      = Some (seen_alloc sy (Normal obj site t), rest)" for rest
    using ty site len [of rest] by (simp add: parseObjAllocNormalCi_def hd(1) write_abs_addr_def getNextDoubleWord_write)
  then show ?thesis
    by (intro reads_as_event [of _ 0 "site_payload site (length_code obj)" "write_abs_addr (o_addr obj) @ length_words obj"])
      (use t in \<open>auto simp: fire_obj_alloc_unfold site_payload_less [OF ok(1) code, simplified] parse_event_alloc\<close>)
qed

lemma reads_slow:
  assumes "alloc_ok sy (Slow obj site t sz)" and "t \<noteq> EVENTS_ALLOC_SLOW"
  shows "reads_as sy m al base [fire_obj_alloc_slow obj site t sz] [Alloc (seen_alloc sy (Slow obj site t sz))] base"
proof -
  obtain tid ty where ty: "sym_site_type sy site = Some tid" "sym_types sy tid = Some ty" "isArray ty = o_is_array obj"
    and site: "site_type sy site = Some (tid, ty)"
    using assms by (auto simp: site_type_def Option.bind_eq_Some_conv split: option.splits)
  have ok: "site_id site" "array_ok obj site" "\<not> is_special_allocation_site site" "\<not> o_is_mirror obj"
    and t: "t \<in> {EVENTS_IR_ALLOC_SLOW, EVENTS_C1_ALLOC_SLOW, EVENTS_C2_ALLOC_SLOW, EVENTS_IR_ALLOC_SLOW_DEVIANT_TYPE,
      EVENTS_C1_ALLOC_SLOW_DEVIANT_TYPE, EVENTS_C2_ALLOC_SLOW_DEVIANT_TYPE}" "unat t < 64" using assms by auto
  note code = length_code_less [OF ok(2)]
  define w where "w = header t 0 (site_payload site (length_code obj))"
  define body where "body = write_abs_addr (o_addr obj) @ length_words obj
      @ (if is_allocation_slow_with_deviant_type_event t then write_type (o_type obj) else [])"
  have hd: "recover_site w = site" using site_header(1) [OF ok(1) code t(2)] by (simp add: w_def)
  have dev: "is_allocation_slow_with_deviant_type_event t \<longleftrightarrow> unat t \<in> {0x11, 0x15, 0x1A}"
    using t(1) by (auto simp: is_allocation_slow_with_deviant_type_event_def)
  from recover_slow_length [OF ok(1,2) t(2), folded w_def] obtain len where
    len: "\<And>ws. (if \<not> is_big_site_event w then recoverArrayLength w (length_words obj @ ws)
      else Some (UNDEFINED_LENGTH, length_words obj @ ws)) = Some (len, ws)" and seen: "o_is_array obj \<Longrightarrow> len = o_length obj" by blast
  have "parseObjAllocSlowCiIr_Deviant sy (unat t) w (body @ rest) = Some (seen_alloc sy (Slow obj site t sz), rest)" for rest
    unfolding parseObjAllocSlowCiIr_Deviant_def body_def using ty site assms(2) len seen
    by (simp add: hd write_abs_addr_def getNextDoubleWord_write dev write_type_def write_word_def)
  then show ?thesis
    by (intro reads_as_event [of _ 0 "site_payload site (length_code obj)" body])
      (use t ok in \<open>auto simp: fire_obj_alloc_slow_words fire_obj_alloc_unfold site_payload_less [OF ok(1) code, simplified] parse_event_alloc
        w_def body_def\<close>)
qed

lemma reads_vm_slow:
  assumes "alloc_ok sy (Slow obj site EVENTS_ALLOC_SLOW sz)"
  shows "reads_as sy m al base [fire_obj_alloc_slow obj site EVENTS_ALLOC_SLOW sz] [Alloc (seen_alloc sy (Slow obj site EVENTS_ALLOC_SLOW sz))] base"
proof -
  obtain ty where ty: "sym_site_type sy site = Some 0" "sym_types sy (o_type obj) = Some ty" "at_isMirrorAllocatedType ty = o_is_mirror obj"
      "o_is_mirror obj \<or> isArray ty = o_is_array obj"
    using assms by (auto split: option.splits)
  have ok: "site_id site" "array_ok obj site" "is_special_allocation_site site" using assms by auto
  have t: "unat EVENTS_ALLOC_SLOW < 64" by simp
  note code = length_code_less [OF ok(2)]
  define w where "w = header EVENTS_ALLOC_SLOW 0 (site_payload site (length_code obj))"
  define body where "body = write_abs_addr (o_addr obj) @ length_words obj @ write_type (o_type obj)
      @ (if o_is_mirror obj then write_word (ucast (sz * HeapWordSize)) else [])"
  have hd: "recover_site w = site" using site_header(1) [OF ok(1) code t] by (simp add: w_def)
  from recover_slow_length [OF ok(1,2) t, folded w_def] obtain len where
    len: "\<And>ws. (if \<not> is_big_site_event w then recoverArrayLength w (length_words obj @ ws)
      else Some (UNDEFINED_LENGTH, length_words obj @ ws)) = Some (len, ws)" and seen: "o_is_array obj \<Longrightarrow> len = o_length obj" by blast
  have "parseObjAllocSlow sy 0x0F w (body @ rest) = Some (seen_alloc sy (Slow obj site EVENTS_ALLOC_SLOW sz), rest)" for rest
    unfolding parseObjAllocSlow_def body_def using ty len seen
    by (auto simp: hd write_abs_addr_def getNextDoubleWord_write write_type_def write_word_def Let_def)
  then show ?thesis
    by (intro reads_as_event [of _ 0 "site_payload site (length_code obj)" body])
      (use ok in \<open>auto simp: fire_obj_alloc_slow_words fire_obj_alloc_unfold site_payload_less [OF ok(1) code, simplified] parse_event_alloc
        w_def body_def\<close>)
qed

lemma site_1: "site_id 1" "\<not> is_big_allocation_site 1"
  by (simp_all add: site_id_def is_big_allocation_site_def)

lemma reads_ir:
  assumes "site_id site"
  shows "reads_as sy m al base [fire_obj_alloc_fast_no_arrays obj site EVENTS_IR_ALLOC_FAST] [Alloc (ObjAllocFastIr 0x13 site)] base"
    "reads_as sy m al base [fire_obj_alloc_normal_no_arrays obj site EVENTS_IR_ALLOC_NORMAL] [Alloc (ObjAllocNormalIr 0x12 site (o_addr obj))] base"
proof -
  have hd: "recover_site (header t 0 (site_payload site 0)) = site" if "unat t < 64" for t
    using site_header(1) [OF assms _ that, of 0] by simp
  have less: "unat (site_payload site 0) < 2 ^ 24" using site_payload_less [OF assms, of 0] by simp
  show "reads_as sy m al base [fire_obj_alloc_fast_no_arrays obj site EVENTS_IR_ALLOC_FAST] [Alloc (ObjAllocFastIr 0x13 site)] base"
    by (rule reads_as_event [of _ 0 "site_payload site 0" "[]"])
      (use less hd in \<open>simp_all add: fire_obj_alloc_fast_no_arrays_def write_obj_alloc_event_header parse_event_alloc parseObjAllocFastIr_def\<close>)
  show "reads_as sy m al base [fire_obj_alloc_normal_no_arrays obj site EVENTS_IR_ALLOC_NORMAL] [Alloc (ObjAllocNormalIr 0x12 site (o_addr obj))] base"
    by (rule reads_as_event [of _ 0 "site_payload site 0" "write_abs_addr (o_addr obj)"])
      (use less hd in \<open>simp_all add: fire_obj_alloc_normal_no_arrays_def write_obj_alloc_event_header write_abs_obj_addr_def parse_event_alloc
        parseObjAllocNormalIr_def write_abs_addr_def getNextDoubleWord_write\<close>)
qed

lemma reads_mirror:
  assumes "alloc_ok sy (Mirror obj sz mirrored)"
  shows "reads_as sy m al base [fire_mirror_obj_alloc obj sz mirrored] [Alloc (seen_alloc sy (Mirror obj sz mirrored))] base"
proof -
  have t: "unat EVENTS_ALLOC_SLOW < 64" and zero: "unat (0 :: uint) < 256" by simp_all
  define w where "w = header EVENTS_ALLOC_SLOW 0 (site_payload 1 0)"
  note hd = site_header [OF site_1(1) zero t, folded w_def]
  have less: "unat (site_payload 1 0) < 2 ^ 24" using site_payload_less [OF site_1(1) zero] .
  obtain ty where ty: "sym_site_type sy 1 = Some 0" "sym_types sy (mirror_type mirrored) = Some ty" "at_isMirrorAllocatedType ty"
    using assms by (auto split: option.splits)
  have "parseObjAllocSlow sy 0x0F w ((write_abs_addr (o_addr obj) @ write_type (mirror_type mirrored) @ write_word (ucast (sz * HeapWordSize))) @ rest)
      = Some (seen_alloc sy (Mirror obj sz mirrored), rest)" for rest
    unfolding parseObjAllocSlow_def using ty site_1(2)
    by (simp add: hd write_abs_addr_def getNextDoubleWord_write write_type_def write_word_def recoverArrayLength_def)
  then show ?thesis
    by (intro reads_as_event [of _ 0 "site_payload 1 0"
          "write_abs_addr (o_addr obj) @ write_type (mirror_type mirrored) @ write_word (ucast (sz * HeapWordSize))"])
      (use less in \<open>simp_all add: fire_mirror_obj_alloc_def write_obj_alloc_event_header write_abs_obj_addr_def parse_event_alloc w_def mirror_type_def\<close>)
qed

lemma reads_lab:
  "reads_as sy m al base [fire_tlab_alloc addr sz] [Alloc (TlabAlloc (ucast sz) addr)] base"
  "reads_as sy m al base [fire_plab_alloc addr sz] [Alloc (PlabAlloc (ucast sz) addr)] base"
  by (rule reads_as_event [of _ 0 0 "write_size sz @ write_abs_addr addr"];
      simp add: fire_tlab_alloc_def fire_plab_alloc_def write_lab_alloc_event_def write_word_def stuff_header parse_event_alloc
        parseTlabAlloc_def parsePlabAlloc_def write_size_def write_abs_addr_def getNextDoubleWord_write)+

lemma reads_alloc:
  assumes "alloc_ok sy e"
  shows "reads_as sy m al base [fire_alloc e] [Alloc (seen_alloc sy e)] base"
proof (cases e)
  case (Slow obj site t sz)
  with assms show ?thesis using reads_slow reads_vm_slow by (cases "t = EVENTS_ALLOC_SLOW") (simp_all only: fire_alloc.simps)
next
  case (Fast obj site t)
  with assms reads_fast show ?thesis by (simp only: fire_alloc.simps)
next
  case (Normal obj site t)
  with assms reads_normal show ?thesis by (simp only: fire_alloc.simps)
next
  case (Mirror obj sz mirrored)
  with assms reads_mirror show ?thesis by (simp only: fire_alloc.simps)
qed (use assms reads_ir reads_lab in simp_all)

end
