(* ===== verification/EventPointers.thy ===== *)
theory EventPointers
  imports EventRoundtrip
begin

text \<open>
  \<open>EventPointers\<close>: the pointers of an object are collected, written as distances to the previous one where
  the distance fits, and flushed after twelve pointers and at the end of the object.  The analyzer
  recovers the pointers from the resulting events.
\<close>

section \<open>Entries of a pointer list in an event\<close>

definition entry_words :: "entry \<Rightarrow> uint list" where
  "entry_words e = (if fst e = NULL_PTR then [] else if fst e = ABSOLUTE_PTR then write_abs_addr (snd e) else write_word (ucast (snd e)))"

lemma fire_gc_ptr_entries:
  assumes "epl_rel l es" and "EventPointerList_get_kinds l = (k, l')"
  shows "fire_gc_ptr l' = concat (map entry_words es)"
proof -
  have "EventPointerList_get_size l' = length es" using get_kinds_rel(3) [OF assms] by (simp add: EventPointerList_get_size_def)
  moreover have "(let (ptr, kind) = EventPointerList_get_next l' i
      in if kind = NULL_PTR then [] else if kind = ABSOLUTE_PTR then write_abs_addr ptr else write_word (ucast ptr)) = entry_words (es ! i)"
    if "i < length es" for i
    using get_next_rel [OF assms that] by (cases "EventPointerList_get_next l' i") (auto simp: entry_words_def)
  ultimately have "fire_gc_ptr l' = concat (map (\<lambda>i. entry_words (es ! i)) [0..<length es])"
    unfolding fire_gc_ptr_def by (intro arg_cong [of _ _ concat] map_cong) auto
  moreover have "map (\<lambda>i. entry_words (es ! i)) [0..<length es] = map entry_words es"
    by (metis (no_types) map_map map_nth comp_apply map_cong)
  ultimately show ?thesis by simp
qed

lemma entry_words_length:
  "\<forall>e \<in> set es. entry_ok e \<Longrightarrow> length (concat (map entry_words es))
     = length (filter (\<lambda>e. fst e = RELATIVE_PTR) es) + 2 * length (filter (\<lambda>e. fst e = ABSOLUTE_PTR) es)"
  by (induction es) (auto simp: entry_words_def entry_ok_def write_word_def write_abs_addr_def write_wide_word_def)

lemma get_words_rel: "epl_rel l es \<Longrightarrow> EventPointerList_get_words l = length (concat (map entry_words es))"
  by (simp add: epl_rel_def EventPointerList_get_words_def entry_words_length)

fun decode_entries :: "u64 \<Rightarrow> u64 \<Rightarrow> entry list \<Rightarrow> u64 list" where
  "decode_entries ref lastRef [] = []"
| "decode_entries ref lastRef ((k, v) # es) =
    (if k = RELATIVE_PTR then let addr = scast (ucast v :: uint) + lastRef in (ref - addr * 8) # decode_entries ref addr es
     else if k = ABSOLUTE_PTR then v # decode_entries ref (java_div (ref - v) 8) es
     else - 1 # decode_entries ref lastRef es)"

lemma signed_drop_bit_nonneg: "\<not> bit w 31 \<Longrightarrow> signed_drop_bit n w = drop_bit n w" for w :: uint
  by (rule bit_word_eqI) (auto simp: bit_simps min_def dest: bit_imp_le_length)

lemma kinds_shift:
  "\<forall>e \<in> set es. entry_ok e \<Longrightarrow> length es \<le> 12 \<Longrightarrow> signed_drop_bit n (header_kinds es) = drop_bit n (header_kinds es)"
  using bit_header_kinds [of es 31] by (intro signed_drop_bit_nonneg) auto

lemma parse_ptrs_entries:
  assumes ok: "\<forall>e \<in> set es. entry_ok e" and len: "length es \<le> 12" and i: "i \<le> length es"
  shows "parse_ptrs 8 (header_kinds es) ref i lastRef (concat (map entry_words (drop i es)) @ ws)
    = Some (decode_entries ref lastRef (drop i es), ws)"
  using i
proof (induction "length es - i" arbitrary: i lastRef)
  case 0
  then have i: "i = length es" by simp
  show ?case
  proof (cases "i < 12")
    case True
    have "signed_drop_bit ((11 - i) * 2) (header_kinds es) AND 3 = END"
      unfolding kinds_shift [OF ok len] using header_kinds_at [OF ok len True] i by simp
    with parse_ptrs_kind(4) [OF True refl] i show ?thesis by simp
  next
    case False
    with i show ?thesis by (simp add: parse_ptrs_end)
  qed
next
  case (Suc n)
  then have i: "i < length es" "i < 12" and n: "n = length es - Suc i" using len by simp_all
  obtain k v where kv: "es ! i = (k, v)" by (cases "es ! i")
  then have dr: "drop i es = (k, v) # drop (Suc i) es" using i by (metis Cons_nth_drop_Suc)
  have kind: "k = signed_drop_bit ((11 - i) * 2) (header_kinds es) AND 3"
    unfolding kinds_shift [OF ok len] using header_kinds_at [OF ok len i(2)] i kv by simp
  have "entry_ok (k, v)" using ok kv i(1) by (metis nth_mem)
  then consider "k = RELATIVE_PTR" | "k = ABSOLUTE_PTR" | "k = NULL_PTR" by (auto simp: entry_ok_def)
  then show ?case
  proof cases
    case 1
    show ?thesis unfolding parse_ptrs_kind(1) [OF i(2) kind 1] dr
      using Suc.hyps(1) [OF n] i 1 by (simp add: entry_words_def write_word_def Let_def)
  next
    case 2
    show ?thesis unfolding parse_ptrs_kind(2) [OF i(2) kind 2] dr
      using Suc.hyps(1) [OF n] i 2 by (simp add: entry_words_def write_abs_addr_def getNextDoubleWord_write)
  next
    case 3
    show ?thesis unfolding parse_ptrs_kind(3) [OF i(2) kind 3] dr
      using Suc.hyps(1) [OF n] i 3 by (simp add: entry_words_def)
  qed
qed

section \<open>Collecting pointers\<close>

record EventPointers =
  ep_event :: EventType
  ep_ptr_list :: EventPointerList
  ep_obj :: u64
  ep_from_addr :: u64
  ep_obj_is_inside_heap :: bool
  ep_to_space :: byte
  ep_is_clean :: bool
  ep_last_referent :: u64

definition EventPointers_create :: EventPointers where
  "EventPointers_create = \<lparr>ep_event = - 1, ep_ptr_list = EventPointerList_create, ep_obj = 0, ep_from_addr = 0,
     ep_obj_is_inside_heap = False, ep_to_space = 0, ep_is_clean = False, ep_last_referent = 0\<rparr>"

definition EventPointers_set_meta :: "EventPointers \<Rightarrow> EventType \<Rightarrow> u64 \<Rightarrow> bool \<Rightarrow> u64 \<Rightarrow> byte \<Rightarrow> bool \<Rightarrow> EventPointers" where
  "EventPointers_set_meta s event obj obj_is_inside_heap from_addr to_space is_clean =
    s\<lparr>ep_event := event, ep_obj := obj, ep_obj_is_inside_heap := obj_is_inside_heap, ep_from_addr := from_addr,
      ep_to_space := to_space, ep_last_referent := 0, ep_is_clean := is_clean\<rparr>"

text \<open>\<open>EventsGCRuntime::fire_gc_move_ptr\<close>.\<close>

definition fire_gc_move_ptr :: "u64 \<Rightarrow> nat \<Rightarrow> EventPointerList \<Rightarrow> EventType \<Rightarrow> u64 \<Rightarrow> u64 \<Rightarrow> byte \<Rightarrow> fired \<times> EventPointerList" where
  "fire_gc_move_ptr base la ptr_list event referee from_addr to_space =
    (if event = EVENTS_GC_MOVE_FAST then fire_gc_move_fast_ptr base la ptr_list from_addr referee to_space
     else fire_gc_move_slow_ptr ptr_list event from_addr referee)"

definition EventPointers_flush :: "u64 \<Rightarrow> nat \<Rightarrow> EventPointers \<Rightarrow> EventPointers \<times> fired list" where
  "EventPointers_flush base la s =
    (let (s, out) =
       (if ep_event s = EVENTS_GC_MOVE_FAST \<or> ep_event s = EVENTS_GC_MOVE_SLOW \<or> ep_event s = EVENTS_GC_KEEP_ALIVE
        then let (f, l) = fire_gc_move_ptr base la (ep_ptr_list s) (ep_event s) (ep_obj s) (ep_from_addr s) (ep_to_space s)
             in (s\<lparr>ep_ptr_list := l, ep_event := EVENTS_GC_PTR_EXTENSION, ep_from_addr := 0, ep_to_space := 0\<rparr>, [f])
        else if EventPointerList_get_size (ep_ptr_list s) > 0
             then let (f, l) = fire_gc_obj_ptr (ep_ptr_list s) (ep_event s) (ep_obj s) in (s\<lparr>ep_ptr_list := l\<rparr>, [f])
             else (s, []))
     in (s\<lparr>ep_last_referent := 0, ep_ptr_list := EventPointerList_clear (ep_ptr_list s)\<rparr>, out))"

text \<open>\<open>pointer_delta\<close> subtracts addresses as unsigned numbers.\<close>

definition pointer_delta :: "u64 \<Rightarrow> u64 \<Rightarrow> u64" where
  "pointer_delta left right = (left - right) div HeapWordSize"

definition EventPointers_set_new_referent :: "EventPointers \<Rightarrow> u64 \<Rightarrow> u64 \<times> EventPointers" where
  "EventPointers_set_new_referent s offset = (offset - ep_last_referent s, s\<lparr>ep_last_referent := offset\<rparr>)"

definition EventPointers_add :: "u64 \<Rightarrow> nat \<Rightarrow> EventPointers \<Rightarrow> u64 \<Rightarrow> EventPointers \<times> fired list" where
  "EventPointers_add base la s p =
    (let (s, out) = (if EventPointerList_get_size (ep_ptr_list s) = MAX_CAPACITY then EventPointers_flush base la s else (s, []));
         add = (\<lambda>s v kind. s\<lparr>ep_ptr_list := EventPointerList_add (ep_ptr_list s) v kind\<rparr>);
         s = (if p = 0 then add s 0 NULL_PTR
              else if ep_obj_is_inside_heap s
              then let (offset, s) = EventPointers_set_new_referent s (pointer_delta (ep_obj s) p);
                       cmp_offset = if sint offset < 0 then NOT offset + 1 else offset
                   in if cmp_offset AND 0xffffffff80000000 = 0
                      then if \<not> ep_is_clean s then add s offset RELATIVE_PTR else s
                      else if \<not> ep_is_clean s then add s p ABSOLUTE_PTR else s
              else add s p ABSOLUTE_PTR)
     in (s, out))"

definition EventPointers_clear :: "EventPointers \<Rightarrow> EventPointers" where
  "EventPointers_clear s = s\<lparr>ep_ptr_list := EventPointerList_clear (ep_ptr_list s)\<rparr>"

fun EventPointers_add_all :: "u64 \<Rightarrow> nat \<Rightarrow> EventPointers \<Rightarrow> u64 list \<Rightarrow> EventPointers \<times> fired list" where
  "EventPointers_add_all base la s [] = (s, [])"
| "EventPointers_add_all base la s (p # ps) =
    (let (s, out) = EventPointers_add base la s p; (s, out') = EventPointers_add_all base la s ps in (s, out @ out'))"

section \<open>The entry of a pointer\<close>

text \<open>The entry that is made for a pointer, and the new \<open>last_referent\<close>.\<close>

definition pointer_entry :: "u64 \<Rightarrow> bool \<Rightarrow> u64 \<Rightarrow> u64 \<Rightarrow> entry \<times> u64" where
  "pointer_entry obj inside lr p =
    (if p = 0 then ((NULL_PTR, 0), lr)
     else if inside
     then let offset = pointer_delta obj p; d = offset - lr
       in (if (if sint d < 0 then NOT d + 1 else d) AND 0xffffffff80000000 = 0 then (RELATIVE_PTR, d) else (ABSOLUTE_PTR, p), offset)
     else ((ABSOLUTE_PTR, p), lr))"

fun pointer_entries :: "u64 \<Rightarrow> bool \<Rightarrow> u64 \<Rightarrow> u64 list \<Rightarrow> entry list" where
  "pointer_entries obj inside lr [] = []"
| "pointer_entries obj inside lr (p # ps) =
    (let (e, lr) = pointer_entry obj inside lr p in e # pointer_entries obj inside lr ps)"

abbreviation seen_ptr :: "u64 \<Rightarrow> u64" where
  "seen_ptr p \<equiv> if p = 0 then - 1 else p"

lemma pointer_entry_ok: "entry_ok (fst (pointer_entry obj inside lr p))"
  by (simp add: pointer_entry_def entry_ok_def Let_def)

lemma pointer_entries_ok: "\<forall>e \<in> set (pointer_entries obj inside lr ps). entry_ok e"
proof (induction ps arbitrary: lr)
  case (Cons p ps)
  then show ?case using pointer_entry_ok [of obj inside lr p] by (simp add: split_beta)
qed simp

lemma pointer_entries_length [simp]: "length (pointer_entries obj inside lr ps) = length ps"
  by (induction ps arbitrary: lr) (simp_all add: split_beta)

text \<open>A distance that is taken as relative fits into 32 bits.\<close>

lemma relative_fits:
  fixes d :: u64
  assumes "(if sint d < 0 then NOT d + 1 else d) AND 0xffffffff80000000 = 0"
  shows "scast (ucast d :: uint) = d"
proof -
  let ?c = "if sint d < 0 then NOT d + 1 else d"
  have m: "(0xffffffff80000000 :: u64) = push_bit 31 (mask 33)" by code_simp
  have "unat ?c < 2 ^ 31"
  proof (rule unat_less_bits)
    fix i assume "bit ?c i"
    then have "i < 64" by (auto dest: bit_imp_le_length)
    have "\<not> bit (?c AND push_bit 31 (mask 33)) i" using assms unfolding m by simp
    with \<open>bit ?c i\<close> \<open>i < 64\<close> show "i < 31" by (auto simp: bit_simps)
  qed
  then have "int (unat ?c) < int (2 ^ 31)" by (rule iffD2 [OF of_nat_less_iff])
  then have c: "uint ?c < 2 ^ 31" unfolding uint_nat by (metis of_nat_numeral of_nat_power)
  obtain z where z: "d = word_of_int z" "- (2 ^ 31) \<le> z" "z < 2 ^ 31"
  proof (cases "sint d < 0")
    case True
    have "NOT d + 1 = - d" by (simp add: minus_eq_not_plus_1)
    with c True have "uint (- d) < 2 ^ 31" by simp
    moreover have "d = word_of_int (- uint (- d))" by simp
    ultimately show thesis using that [of "- uint (- d)"] uint_ge_0 [of "- d"] by linarith
  next
    case False
    moreover have "d = word_of_int (uint d)" by simp
    ultimately show thesis using that [of "uint d"] c uint_ge_0 [of d] by simp
  qed
  have "sint (ucast d :: uint) = signed_take_bit 31 (uint d)" by (simp add: signed_ucast_eq)
  also have "\<dots> = signed_take_bit 31 z" by (simp add: z(1) unsigned_of_int signed_take_bit_take_bit)
  also have "\<dots> = z" using z(2,3) by (simp add: signed_take_bit_int_eq_self)
  finally have "sint (ucast d :: uint) = z" .
  then show ?thesis using z(1) by (metis of_int_sint)
qed

text \<open>Objects are aligned to heap words.\<close>

definition word_aligned :: "u64 \<Rightarrow> bool" where
  "word_aligned a \<longleftrightarrow> a mod 8 = 0"

lemma pointer_delta_exact: "word_aligned (obj - p) \<Longrightarrow> pointer_delta obj p * 8 = obj - p"
  unfolding pointer_delta_def word_aligned_def by (metis add.right_neutral div_mult_mod_eq)

lemma java_div_exact: "word_aligned a \<Longrightarrow> java_div a 8 * 8 = a"
proof -
  have eight: "sint (8 :: u64) = 8" by code_simp
  assume "word_aligned a"
  then have "take_bit 3 a = 0" by (simp add: word_aligned_def take_bit_eq_mod)
  then have "\<not> bit (take_bit 3 a) n" for n by simp
  then have "\<not> bit a n" if "n < 3" for n using that by (simp add: bit_take_bit_iff)
  then have "take_bit 3 (sint a) = 0" by (intro bit_eqI) (auto simp: bit_take_bit_iff bit_signed_iff min_def)
  then have "8 dvd sint a" by (simp add: take_bit_eq_mod mod_eq_0_iff_dvd)
  then have "\<bar>sint a\<bar> div 8 * 8 = \<bar>sint a\<bar>" by (simp add: dvd_div_mult_self)
  then have "(sint a sdiv 8) * 8 = sint a" by (auto simp: signed_divide_int_def abs_if sgn_if split: if_splits)
  then have "java_div a 8 * 8 = word_of_int (sint a)"
    unfolding java_div_def by (metis of_int_mult of_int_numeral eight)
  then show "java_div a 8 * 8 = a" by simp
qed

lemma decode_inside:
  assumes "\<forall>p \<in> set ps. p \<noteq> 0 \<longrightarrow> word_aligned (obj - p)" and "lr * 8 = lastRef * 8"
  shows "decode_entries obj lastRef (pointer_entries obj True lr ps) = map seen_ptr ps"
  using assms
proof (induction ps arbitrary: lr lastRef)
  case (Cons p ps)
  show ?case
  proof (cases "p = 0")
    case True
    with Cons show ?thesis by (simp add: pointer_entry_def)
  next
    case False
    define d where "d = pointer_delta obj p - lr"
    have delta: "pointer_delta obj p * 8 = obj - p" using Cons.prems(1) False by (intro pointer_delta_exact) simp
    have ih: "decode_entries obj l (pointer_entries obj True (pointer_delta obj p) ps) = map seen_ptr ps"
      if "pointer_delta obj p * 8 = l * 8" for l using Cons that by simp
    show ?thesis
    proof (cases "(if sint d < 0 then NOT d + 1 else d) AND 0xffffffff80000000 = 0")
      case True
      then have fits: "scast (ucast d :: uint) = d" by (rule relative_fits)
      have "(d + lastRef) * 8 = obj - p"
        using Cons.prems(2) delta by (simp add: d_def algebra_simps)
      moreover have "pointer_entry obj True lr p = ((RELATIVE_PTR, d), pointer_delta obj p)"
        by (simp only: pointer_entry_def Let_def d_def [symmetric] True False if_True if_False simp_thms)
      ultimately show ?thesis using False fits ih [of "d + lastRef"] delta by simp
    next
      case no: False
      have "java_div (obj - p) 8 * 8 = obj - p" using Cons.prems(1) False by (intro java_div_exact) simp
      moreover have "pointer_entry obj True lr p = ((ABSOLUTE_PTR, p), pointer_delta obj p)"
        by (simp only: pointer_entry_def Let_def d_def [symmetric] no False if_True if_False simp_thms)
      ultimately show ?thesis using False ih [of "java_div (obj - p) 8"] delta by simp
    qed
  qed
qed simp

lemma decode_outside: "decode_entries obj lastRef (pointer_entries obj False lr ps) = map seen_ptr ps"
  by (induction ps arbitrary: lastRef) (simp_all add: pointer_entry_def)

lemma decode_pointers:
  "inside \<longrightarrow> (\<forall>p \<in> set ps. p \<noteq> 0 \<longrightarrow> word_aligned (obj - p))
    \<Longrightarrow> decode_entries obj 0 (pointer_entries obj inside 0 ps) = map seen_ptr ps"
  by (cases inside) (simp_all add: decode_inside decode_outside)

section \<open>Relative addresses\<close>

lemma shift_exact: "take_bit k x = 0 \<Longrightarrow> push_bit k (signed_drop_bit k x) = x" for x :: u64
proof (rule bit_word_eqI)
  fix n assume *: "take_bit k x = 0" and n: "n < LENGTH(64)"
  have "\<not> bit (take_bit k x) n" using * by simp
  with n show "bit (push_bit k (signed_drop_bit k x)) n = bit x n"
    by (cases "n < k") (auto simp: bit_simps min_def)
qed

lemma masked_zero_bits: "x AND NOT (push_bit k 1 - 1) = 0 \<Longrightarrow> k < 64 \<Longrightarrow> bit x n \<Longrightarrow> n < k" for x :: u64
proof -
  assume *: "x AND NOT (push_bit k 1 - 1) = 0" "k < 64" "bit x n"
  have "push_bit k 1 - 1 = (mask k :: u64)" by (simp add: mask_eq_exp_minus_1 push_bit_eq_mult)
  then have "\<not> bit (x AND NOT (mask k)) n" using *(1) by simp
  with *(3) bit_imp_le_length [OF *(3)] show "n < k" by (auto simp: bit_simps)
qed

lemma rel_addr_roundtrip:
  assumes "get_rel_addr base la addr bits = (True, rel)" and "bits \<le> 32" and "take_bit la (addr - base) = 0"
  shows "RelAddrFactory_create (2 ^ la) base rel = addr" "unat rel < 2 ^ bits"
proof -
  define r where "r = signed_drop_bit la (addr - base)"
  have rel: "rel = ucast r" and small: "\<And>n. bit r n \<Longrightarrow> n < bits"
    using assms(1,2) masked_zero_bits [of r bits] by (auto simp: get_rel_addr_def r_def Let_def)
  have "ucast rel = r" unfolding rel using small assms(2) by (intro bit_word_eqI) (force simp: bit_simps)
  moreover have "r * 2 ^ la = addr - base" using shift_exact [OF assms(3)] by (simp add: r_def push_bit_eq_mult)
  ultimately show "RelAddrFactory_create (2 ^ la) base rel = addr" by (simp add: RelAddrFactory_create_def scast_mask)
  show "unat rel < 2 ^ bits" unfolding rel using small by (intro unat_less_bits) (auto simp: bit_simps)
qed

lemma narrow_addr:
  assumes "unat rel < 2 ^ 22"
  shows "ucast (signed_drop_bit 2 (getDefinedAddrOnly (push_bit 2 rel))) = rel" "unat (push_bit 2 rel) < 2 ^ 24"
proof -
  have small: "bit rel n \<Longrightarrow> n < 22" for n using bit_unat_less [OF assms] by blast
  have m: "(0xFFFFFFFC :: uint) = push_bit 2 (mask 30)" by code_simp
  show "unat (push_bit 2 rel) < 2 ^ 24"
    by (rule unat_less_bits) (auto simp: bit_push_bit_iff dest: small)
  have "push_bit 2 rel AND 0xFFFFFFFC = push_bit 2 rel"
    unfolding m by (rule bit_word_eqI) (auto simp: bit_and_iff bit_push_bit_iff bit_mask_iff dest: small)
  then have "getDefinedAddrOnly (push_bit 2 rel) = scast (push_bit 2 rel)" by (simp only: getDefinedAddrOnly_def)
  moreover have "ucast (signed_drop_bit 2 (scast (push_bit 2 rel) :: u64)) = rel"
    by (rule bit_word_eqI)
      (auto simp: bit_ucast_iff bit_signed_drop_bit_iff bit_signed_iff bit_push_bit_iff min_def dest: small bit_imp_le_length)
  ultimately show "ucast (signed_drop_bit 2 (getDefinedAddrOnly (push_bit 2 rel))) = rel" by simp
qed

section \<open>Pointer events\<close>

abbreviation heap_words :: "Symbols \<Rightarrow> bool" where
  "heap_words sy \<equiv> sym_heapWordSize sy = 8"

lemma header_kinds_less: "\<forall>e \<in> set es. entry_ok e \<Longrightarrow> length es \<le> 12 \<Longrightarrow> unat (header_kinds es) < 2 ^ 24"
  by (rule unat_less_bits) (rule bit_header_kinds)

lemma parsePointers_entries:
  assumes ok: "\<forall>e \<in> set es. entry_ok e" and len: "length es \<le> 12" and sy: "heap_words sy" and tg: "unat t < 64" "unat g < 4"
  shows "parsePointers sy (header t g (header_kinds es)) ref (concat (map entry_words es) @ ws) = Some (decode_entries ref 0 es, ws)"
proof -
  have kinds: "recoverValue (scast (header t g (header_kinds es))) 1 3 = header_kinds es"
    by (rule recover_header(1) [OF tg header_kinds_less [OF ok len]])
  have eight: "scast (8 :: uint) = (8 :: u64)" by code_simp
  show ?thesis
  proof (cases "es = []")
    case True
    then have "header_kinds es = 0" by (simp add: header_kinds_def)
    with True kinds show ?thesis by (simp add: parsePointers_def)
  next
    case False
    then have "entry_ok (es ! 0)" using ok by simp
    then have "fst (es ! 0) \<noteq> 0" by (auto simp: entry_ok_def)
    then have "header_kinds es \<noteq> 0" using header_kinds_at [OF ok len, of 0] False by auto
    with kinds parse_ptrs_entries [OF ok len, of 0 ref 0 ws] sy eight show ?thesis by (simp add: parsePointers_def)
  qed
qed

lemma scast_space: "unat sp < 4 \<Longrightarrow> unat (scast sp :: uint) = unat sp" for sp :: byte
  using scast_ascii [of sp] by (simp add: unsigned_ucast_eq take_bit_nat_eq_self_iff)

text \<open>The call that an event with pointers ends in.\<close>

fun call_ptrs :: "call \<Rightarrow> u64 list" where
  "call_ptrs (Move (GCMovePtr t a b sp ps)) = ps"
| "call_ptrs (Move (KeepAlivePtr t a ps)) = ps"
| "call_ptrs (Move (ObjPtr t a ps)) = ps"
| "call_ptrs _ = []"

fun call_obj :: "call \<Rightarrow> u64 option" where
  "call_obj (Move (GCMovePtr t a b sp ps)) = Some b"
| "call_obj (Move (KeepAlivePtr t a ps)) = Some a"
| "call_obj (Move (ObjPtr t a ps)) = Some a"
| "call_obj _ = None"

lemma fire_gc_obj_ptr_roundtrip:
  assumes "epl_rel l es" and "heap_words sy" and "t \<in> {EVENTS_GC_PTR_EXTENSION, EVENTS_GC_PTR_MULTITHREADED,
      EVENTS_GC_UPDATE_PTR_PREMOVE, EVENTS_GC_UPDATE_PTR_POSTMOVE}"
  shows "evaluateEvent sy m al base (fire_event (sym_anchors sy) (fst (fire_gc_obj_ptr l t obj)) @ ws)
    = Some (Move (ObjPtr (unat t) obj (decode_entries obj 0 es)), base, ws)"
proof -
  obtain k l' where k: "EventPointerList_get_kinds l = (k, l')" by (cases "EventPointerList_get_kinds l")
  have ok: "\<forall>e \<in> set es. entry_ok e" and len: "length es \<le> 12" using assms(1) epl_length by (auto simp: epl_rel_def)
  have t: "unat t < 64" using assms(3) by auto
  have "fst (fire_gc_obj_ptr l t obj) = (t, 3 + EventPointerList_get_words l,
      header t 0 (header_kinds es) # write_abs_addr obj @ concat (map entry_words es))"
    using k get_kinds_rel(1) [OF assms(1) k] fire_gc_ptr_entries [OF assms(1) k]
    by (simp add: fire_gc_obj_ptr_def write_gc_ptr_event_def write_word_def stuff_header)
  moreover have "parse_event sy m al base (unat t) (header t 0 (header_kinds es)) (unat (0 :: uint))
      ((write_abs_addr obj @ concat (map entry_words es)) @ rest) = Some (Move (ObjPtr (unat t) obj (decode_entries obj 0 es)), base, rest)" for rest
    using assms(3) parsePointers_entries [OF ok len assms(2) t, of 0 obj rest]
    by (auto simp: parse_event_move parseGCObjPtr_def write_abs_addr_def getNextDoubleWord_write)
  ultimately show ?thesis
    using evaluateEvent_header [OF t _ header_kinds_less [OF ok len], of 0 sy m al base] by simp
qed

lemma parsed_pointers:
  assumes "epl_rel l es" and "heap_words sy" and "EventPointerList_get_kinds l = (k, l')" and "unat t < 64" and "unat sp < 4"
  shows "write_gc_ptr_event t sp k = [header t (scast sp) (header_kinds es)]"
    "unat (header_kinds es) < 2 ^ 24"
    "parsePointers sy (header t (scast sp) (header_kinds es)) ref (fire_gc_ptr l' @ ws) = Some (decode_entries ref 0 es, ws)"
    "unat (scast sp :: uint) = unat sp"
proof -
  have ok: "\<forall>e \<in> set es. entry_ok e" and len: "length es \<le> 12" using assms(1) epl_length by (auto simp: epl_rel_def)
  show "write_gc_ptr_event t sp k = [header t (scast sp) (header_kinds es)]"
    using get_kinds_rel(1) [OF assms(1,3)] by (simp add: write_gc_ptr_event_def write_word_def stuff_header)
  show "unat (header_kinds es) < 2 ^ 24" by (rule header_kinds_less [OF ok len])
  show sp: "unat (scast sp :: uint) = unat sp" by (rule scast_space [OF assms(5)])
  show "parsePointers sy (header t (scast sp) (header_kinds es)) ref (fire_gc_ptr l' @ ws) = Some (decode_entries ref 0 es, ws)"
    unfolding fire_gc_ptr_entries [OF assms(1,3)] using parsePointers_entries [OF ok len assms(2,4), of "scast sp" ref ws] sp assms(5) by simp
qed

lemma fire_gc_move_slow_ptr_roundtrip:
  assumes "epl_rel l es" and "heap_words sy"
  shows "evaluateEvent sy m al base (fire_event (sym_anchors sy) (fst (fire_gc_move_slow_ptr l t from_addr to_addr)) @ ws)
    = Some (Move (if t = EVENTS_GC_MOVE_SLOW then GCMovePtr 0x27 from_addr to_addr None (decode_entries to_addr 0 es)
        else KeepAlivePtr 0x2A to_addr (decode_entries to_addr 0 es)), base, ws)"
proof -
  obtain k l' where k: "EventPointerList_get_kinds l = (k, l')" by (cases "EventPointerList_get_kinds l")
  note ptrs = parsed_pointers [OF assms k, of _ 0]
  show ?thesis
  proof (cases "t = EVENTS_GC_MOVE_SLOW")
    case True
    have "parse_event sy m al base (unat EVENTS_GC_MOVE_SLOW_PTR) (header EVENTS_GC_MOVE_SLOW_PTR 0 (header_kinds es)) (unat (0 :: uint))
      ((write_abs_addr from_addr @ write_abs_addr to_addr @ fire_gc_ptr l') @ rest)
        = Some (Move (GCMovePtr 0x27 from_addr to_addr None (decode_entries to_addr 0 es)), base, rest)" for rest
      using ptrs(3) [of EVENTS_GC_MOVE_SLOW_PTR to_addr rest]
      by (simp add: parse_event_move parseGCMoveSlow_def write_abs_addr_def getNextDoubleWord_write)
    from evaluateEvent_header [OF _ _ _ this] ptrs(1) [of EVENTS_GC_MOVE_SLOW_PTR] ptrs(2) [of EVENTS_GC_MOVE_SLOW_PTR] True k
    show ?thesis by (simp add: fire_gc_move_slow_ptr_def)
  next
    case False
    have "parse_event sy m al base (unat EVENTS_GC_KEEP_ALIVE_PTR) (header EVENTS_GC_KEEP_ALIVE_PTR 0 (header_kinds es)) (unat (0 :: uint))
      ((write_abs_addr to_addr @ fire_gc_ptr l') @ rest) = Some (Move (KeepAlivePtr 0x2A to_addr (decode_entries to_addr 0 es)), base, rest)" for rest
      using ptrs(3) [of EVENTS_GC_KEEP_ALIVE_PTR to_addr rest]
      by (simp add: parse_event_move parseGCKeepAlive_def write_abs_addr_def getNextDoubleWord_write)
    from evaluateEvent_header [OF _ _ _ this] ptrs(1) [of EVENTS_GC_KEEP_ALIVE_PTR] ptrs(2) [of EVENTS_GC_KEEP_ALIVE_PTR] False k
    show ?thesis by (simp add: fire_gc_move_slow_ptr_def)
  qed
qed

lemma fire_gc_move_fast_ptr_roundtrip:
  assumes "epl_rel l es" and "heap_words sy" and "unat sp < 4" and "take_bit la (from_addr - base) = 0"
    and "m 0x29 from_addr (- 1) (Some (unat sp)) = to_addr" and "m 0x28 from_addr (- 1) (Some (unat sp)) = to_addr"
  shows "evaluateEvent sy m (2 ^ la) base
      (fire_event (sym_anchors sy) (fst (fire_gc_move_fast_ptr base la l from_addr to_addr sp)) @ ws)
    = Some (Move (GCMovePtr (if fst (get_rel_addr base la from_addr 32) then 0x29 else 0x28) from_addr to_addr (Some (unat sp))
        (decode_entries to_addr 0 es)), base, ws)"
proof -
  obtain k l' where k: "EventPointerList_get_kinds l = (k, l')" by (cases "EventPointerList_get_kinds l")
  note ptrs = parsed_pointers [OF assms(1,2) k _ assms(3)]
  obtain fits rel where rel: "get_rel_addr base la from_addr 32 = (fits, rel)" by (cases "get_rel_addr base la from_addr 32")
  show ?thesis
  proof (cases fits)
    case True
    then have "RelAddrFactory_create (2 ^ la) base rel = from_addr" using rel_addr_roundtrip(1) rel assms(4) by auto
    then have "parse_event sy m (2 ^ la) base (unat EVENTS_GC_MOVE_FAST_PTR) (header EVENTS_GC_MOVE_FAST_PTR (scast sp) (header_kinds es))
      (unat (scast sp :: uint)) ((write_word rel @ fire_gc_ptr l') @ rest)
        = Some (Move (GCMovePtr 0x29 from_addr to_addr (Some (unat sp)) (decode_entries to_addr 0 es)), base, rest)" for rest
      using ptrs(3) [of EVENTS_GC_MOVE_FAST_PTR to_addr rest] ptrs(4) [of EVENTS_GC_MOVE_FAST_PTR] assms(5)
      by (simp add: parse_event_move parseGCMoveFast_def write_word_def)
    from evaluateEvent_header [OF _ _ _ this] ptrs(1) [of EVENTS_GC_MOVE_FAST_PTR] ptrs(2) [of EVENTS_GC_MOVE_FAST_PTR]
      ptrs(4) [of EVENTS_GC_MOVE_FAST_PTR] assms(3) True k rel
    show ?thesis by (simp add: fire_gc_move_fast_ptr_def)
  next
    case False
    have "parse_event sy m (2 ^ la) base (unat EVENTS_GC_MOVE_FAST_WIDE_PTR) (header EVENTS_GC_MOVE_FAST_WIDE_PTR (scast sp) (header_kinds es))
      (unat (scast sp :: uint)) ((write_abs_addr from_addr @ fire_gc_ptr l') @ rest)
        = Some (Move (GCMovePtr 0x28 from_addr to_addr (Some (unat sp)) (decode_entries to_addr 0 es)), base, rest)" for rest
      using ptrs(3) [of EVENTS_GC_MOVE_FAST_WIDE_PTR to_addr rest] ptrs(4) [of EVENTS_GC_MOVE_FAST_WIDE_PTR] assms(6)
      by (simp add: parse_event_move parseGCMoveFast_def write_abs_addr_def getNextDoubleWord_write)
    from evaluateEvent_header [OF _ _ _ this] ptrs(1) [of EVENTS_GC_MOVE_FAST_WIDE_PTR] ptrs(2) [of EVENTS_GC_MOVE_FAST_WIDE_PTR]
      ptrs(4) [of EVENTS_GC_MOVE_FAST_WIDE_PTR] assms(3) False k rel
    show ?thesis by (simp add: fire_gc_move_fast_ptr_def)
  qed
qed

section \<open>Sizes of pointer events\<close>

lemma ptr_words_bound:
  assumes "epl_rel l es"
  shows "EventPointerList_get_words l \<le> 24"
proof -
  have "length (filter (\<lambda>e. fst e = RELATIVE_PTR) es) + length (filter (\<lambda>e. fst e = ABSOLUTE_PTR) es) \<le> length es"
    by (induction es) auto
  then show ?thesis using assms epl_length [OF assms] by (simp add: epl_rel_def EventPointerList_get_words_def)
qed

lemma fire_gc_ptr_length:
  "epl_rel l es \<Longrightarrow> EventPointerList_get_kinds l = (k, l') \<Longrightarrow> length (fire_gc_ptr l') = EventPointerList_get_words l"
  by (simp add: fire_gc_ptr_entries get_words_rel)

lemma ptr_events_size:
  assumes "epl_rel l es"
  shows "size_ok (fst (fire_gc_obj_ptr l t obj))" "size_ok (fst (fire_gc_move_ptr base la l t obj from_addr sp))"
proof -
  obtain k l' where k: "EventPointerList_get_kinds l = (k, l')" by (cases "EventPointerList_get_kinds l")
  note len = fire_gc_ptr_length [OF assms k] ptr_words_bound [OF assms]
  show "size_ok (fst (fire_gc_obj_ptr l t obj))" using k len
    by (simp add: size_ok_def fire_gc_obj_ptr_def write_gc_ptr_event_def write_abs_addr_def write_wide_word_def write_word_def MAX_EVENT_SIZE_def)
  show "size_ok (fst (fire_gc_move_ptr base la l t obj from_addr sp))" using k len
    by (simp add: size_ok_def fire_gc_move_ptr_def fire_gc_move_fast_ptr_def fire_gc_move_slow_ptr_def Let_def split_beta write_gc_ptr_event_def
        write_abs_addr_def write_wide_word_def write_word_def MAX_EVENT_SIZE_def)
qed

end
