(* ===== verification/ObjectPointers.thy ===== *)
theory ObjectPointers
  imports EventPointers
begin

text \<open>
  All pointers of an object through \<open>EventPointers\<close>: \<open>set_meta\<close>, any number of calls of \<open>add\<close> and a final
  \<open>flush\<close> fire a sequence of events that the analyzer reads as one move of the object, if it moved, and its
  pointers, in order.
\<close>

section \<open>The state between two pointers\<close>

definition last_ref :: "u64 \<Rightarrow> bool \<Rightarrow> u64 \<Rightarrow> u64 list \<Rightarrow> u64" where
  "last_ref obj inside lr ps = foldl (\<lambda>lr p. snd (pointer_entry obj inside lr p)) lr ps"

lemma last_ref_simps [simp]:
  "last_ref obj inside lr [] = lr" "last_ref obj inside lr (ps @ [p]) = snd (pointer_entry obj inside (last_ref obj inside lr ps) p)"
  by (simp_all add: last_ref_def)

lemma pointer_entries_snoc:
  "pointer_entries obj inside lr (ps @ [p]) = pointer_entries obj inside lr ps @ [fst (pointer_entry obj inside (last_ref obj inside lr ps) p)]"
  by (induction ps arbitrary: lr) (simp_all add: last_ref_def split_beta)

text \<open>What the object is announced as: the event, and for a fast move the addresses.  The handler of the analyzer assigns
  the address that the virtual machine has moved the object to.\<close>

definition meta_ok :: "move_handler \<Rightarrow> u64 \<Rightarrow> nat \<Rightarrow> EventType \<Rightarrow> u64 \<Rightarrow> u64 \<Rightarrow> byte \<Rightarrow> bool" where
  "meta_ok m base la event obj from_addr sp \<longleftrightarrow>
    (if event = EVENTS_GC_MOVE_FAST
     then unat sp < 4 \<and> take_bit la (from_addr - base) = 0
       \<and> m 0x29 from_addr (- 1) (Some (unat sp)) = obj \<and> m 0x28 from_addr (- 1) (Some (unat sp)) = obj
     else event \<in> {EVENTS_GC_MOVE_SLOW, EVENTS_GC_KEEP_ALIVE, EVENTS_GC_PTR_EXTENSION, EVENTS_GC_PTR_MULTITHREADED,
       EVENTS_GC_UPDATE_PTR_PREMOVE, EVENTS_GC_UPDATE_PTR_POSTMOVE})"

fun call_moves :: "call \<Rightarrow> (u64 \<times> u64) list" where
  "call_moves (Move (GCMovePtr t a b sp ps)) = [(a, b)]"
| "call_moves (Move (KeepAlivePtr t a ps)) = [(a, a)]"
| "call_moves _ = []"

definition announced :: "EventType \<Rightarrow> u64 \<Rightarrow> u64 \<Rightarrow> (u64 \<times> u64) list" where
  "announced event obj from_addr =
    (if event \<in> {EVENTS_GC_MOVE_FAST, EVENTS_GC_MOVE_SLOW} then [(from_addr, obj)]
     else if event = EVENTS_GC_KEEP_ALIVE then [(obj, obj)] else [])"

text \<open>The pointers \<open>qs\<close> have been added since the last flush.\<close>

definition ep_rel :: "move_handler \<Rightarrow> u64 \<Rightarrow> nat \<Rightarrow> u64 \<Rightarrow> bool \<Rightarrow> EventPointers \<Rightarrow> u64 list \<Rightarrow> bool" where
  "ep_rel m base la obj inside s qs \<longleftrightarrow> ep_obj s = obj \<and> ep_obj_is_inside_heap s = inside \<and> \<not> ep_is_clean s
     \<and> epl_rel (ep_ptr_list s) (pointer_entries obj inside 0 qs) \<and> ep_last_referent s = last_ref obj inside 0 qs
     \<and> meta_ok m base la (ep_event s) obj (ep_from_addr s) (ep_to_space s)"

abbreviation ptrs_aligned :: "bool \<Rightarrow> u64 \<Rightarrow> u64 list \<Rightarrow> bool" where
  "ptrs_aligned inside obj ps \<equiv> inside \<longrightarrow> (\<forall>p \<in> set ps. p \<noteq> 0 \<longrightarrow> word_aligned (obj - p))"

lemma clear_kinds: "epl_rel l es \<Longrightarrow> EventPointerList_get_kinds l = (k, l') \<Longrightarrow> epl_rel (EventPointerList_clear l') []"
  by (auto simp: epl_rel_def EventPointerList_clear_def EventPointerList_get_kinds_def Let_def split: if_splits)

lemma fired_list:
  assumes "EventPointerList_get_kinds l = (k, l')"
  shows "snd (fire_gc_obj_ptr l t obj) = l'" "snd (fire_gc_move_ptr base la l t obj from_addr sp) = l'"
  using assms by (simp_all add: fire_gc_obj_ptr_def fire_gc_move_ptr_def fire_gc_move_fast_ptr_def fire_gc_move_slow_ptr_def Let_def split_beta)

section \<open>Flushing\<close>

lemma reads_move_ptr:
  assumes "epl_rel l es" and "heap_words sy" and "meta_ok m base la event obj from_addr sp"
    and "event \<in> {EVENTS_GC_MOVE_FAST, EVENTS_GC_MOVE_SLOW, EVENTS_GC_KEEP_ALIVE}"
  shows "\<exists>c. reads_as sy m (2 ^ la) base [fst (fire_gc_move_ptr base la l event obj from_addr sp)] [c] base
     \<and> call_ptrs c = decode_entries obj 0 es \<and> call_obj c = Some obj \<and> call_moves c = announced event obj from_addr"
proof (cases "event = EVENTS_GC_MOVE_FAST")
  case True
  then have meta: "unat sp < 4" "take_bit la (from_addr - base) = 0"
    "m 0x29 from_addr (- 1) (Some (unat sp)) = obj" "m 0x28 from_addr (- 1) (Some (unat sp)) = obj"
    using assms(3) by (simp_all add: meta_ok_def)
  note read = fire_gc_move_fast_ptr_roundtrip [where m = m, OF assms(1,2) meta]
  have "reads_as sy m (2 ^ la) base [fst (fire_gc_move_ptr base la l event obj from_addr sp)]
      [Move (GCMovePtr (if fst (get_rel_addr base la from_addr 32) then 0x29 else 0x28) from_addr obj (Some (unat sp)) (decode_entries obj 0 es))] base"
    using True by (intro reads_as_single) (simp only: fire_gc_move_ptr_def simp_thms if_True read)
  then show ?thesis using True by (intro exI conjI) (auto simp: announced_def)
next
  case False
  note read = fire_gc_move_slow_ptr_roundtrip [OF assms(1,2), of m "2 ^ la" base event from_addr obj]
  have "reads_as sy m (2 ^ la) base [fst (fire_gc_move_ptr base la l event obj from_addr sp)]
      [Move (if event = EVENTS_GC_MOVE_SLOW then GCMovePtr 0x27 from_addr obj None (decode_entries obj 0 es)
         else KeepAlivePtr 0x2A obj (decode_entries obj 0 es))] base"
    using False by (intro reads_as_single) (simp only: fire_gc_move_ptr_def if_False read)
  then show ?thesis using False assms(4) by (intro exI conjI) (auto simp: announced_def)
qed

lemma reads_obj_ptr:
  assumes "epl_rel l es" and "heap_words sy" and "meta_ok m base la event obj from_addr sp"
    and "event \<notin> {EVENTS_GC_MOVE_FAST, EVENTS_GC_MOVE_SLOW, EVENTS_GC_KEEP_ALIVE}"
  shows "\<exists>c. reads_as sy m (2 ^ la) base [fst (fire_gc_obj_ptr l event obj)] [c] base
     \<and> call_ptrs c = decode_entries obj 0 es \<and> call_obj c = Some obj \<and> call_moves c = announced event obj from_addr"
proof -
  have "event \<in> {EVENTS_GC_PTR_EXTENSION, EVENTS_GC_PTR_MULTITHREADED, EVENTS_GC_UPDATE_PTR_PREMOVE, EVENTS_GC_UPDATE_PTR_POSTMOVE}"
    using assms(3,4) by (auto simp: meta_ok_def split: if_splits)
  from reads_as_single [OF fire_gc_obj_ptr_roundtrip [OF assms(1,2) this]]
  have "reads_as sy m (2 ^ la) base [fst (fire_gc_obj_ptr l event obj)] [Move (ObjPtr (unat event) obj (decode_entries obj 0 es))] base" .
  then show ?thesis using assms(4) by (intro exI conjI) (auto simp: announced_def)
qed

text \<open>The pointers since the last flush are written, and none is left.\<close>

lemma flush_rel:
  assumes "ep_rel m base la obj inside s qs" and "ptrs_aligned inside obj qs" and "heap_words sy"
    and "EventPointers_flush base la s = (s', out)"
  shows "\<exists>cs. reads_as sy m (2 ^ la) base out cs base \<and> concat (map call_ptrs cs) = map seen_ptr qs
     \<and> (\<forall>c \<in> set cs. call_obj c = Some obj)
     \<and> concat (map call_moves cs) = announced (ep_event s) obj (ep_from_addr s)
     \<and> announced (ep_event s') obj (ep_from_addr s') = [] \<and> (\<forall>f \<in> set out. size_ok f) \<and> ep_rel m base la obj inside s' []"
proof -
  have rel: "epl_rel (ep_ptr_list s) (pointer_entries obj inside 0 qs)"
    and meta: "meta_ok m base la (ep_event s) obj (ep_from_addr s) (ep_to_space s)"
    and obj: "ep_obj s = obj" and rest: "ep_obj_is_inside_heap s = inside" "\<not> ep_is_clean s"
    using assms(1) by (simp_all add: ep_rel_def)
  obtain k l where k: "EventPointerList_get_kinds (ep_ptr_list s) = (k, l)" by (cases "EventPointerList_get_kinds (ep_ptr_list s)")
  note list = fired_list [OF k] and clear = clear_kinds [OF rel k]
  note decode = decode_pointers [OF assms(2)] and size = ptr_events_size [OF rel]
  show ?thesis
  proof (cases "ep_event s \<in> {EVENTS_GC_MOVE_FAST, EVENTS_GC_MOVE_SLOW, EVENTS_GC_KEEP_ALIVE}")
    case True
    define f where "f = fst (fire_gc_move_ptr base la (ep_ptr_list s) (ep_event s) obj (ep_from_addr s) (ep_to_space s))"
    have "fire_gc_move_ptr base la (ep_ptr_list s) (ep_event s) obj (ep_from_addr s) (ep_to_space s) = (f, l)"
      using list(2) by (simp add: f_def prod_eq_iff)
    then have s': "out = [f]" "s' = s\<lparr>ep_ptr_list := EventPointerList_clear l, ep_event := EVENTS_GC_PTR_EXTENSION, ep_from_addr := 0,
        ep_to_space := 0, ep_last_referent := 0\<rparr>"
      using assms(4) True obj by (auto simp: EventPointers_flush_def)
    moreover from reads_move_ptr [OF rel assms(3) meta True] obtain c where
      "reads_as sy m (2 ^ la) base [f] [c] base" "call_ptrs c = map seen_ptr qs" "call_obj c = Some obj"
      "call_moves c = announced (ep_event s) obj (ep_from_addr s)"
      using decode by (auto simp: f_def)
    ultimately show ?thesis using clear obj rest size(2)
      by (intro exI [of _ "[c]"]) (simp add: ep_rel_def meta_ok_def announced_def f_def)
  next
    case no_move: False
    then have none: "announced (ep_event s) obj a = []" for a by (auto simp: announced_def)
    show ?thesis
    proof (cases "qs = []")
      case True
      then have "out = []" "s' = s\<lparr>ep_last_referent := 0, ep_ptr_list := EventPointerList_clear (ep_ptr_list s)\<rparr>"
        using assms(4) no_move epl_size [OF rel] by (auto simp: EventPointers_flush_def)
      then show ?thesis using True epl_clear [OF rel] obj rest meta none
        by (intro exI [of _ "[]"]) (simp add: ep_rel_def reads_as_Nil)
    next
      case False
      define f where "f = fst (fire_gc_obj_ptr (ep_ptr_list s) (ep_event s) obj)"
      have "fire_gc_obj_ptr (ep_ptr_list s) (ep_event s) obj = (f, l)" using list(1) by (simp add: f_def prod_eq_iff)
      then have s': "out = [f]" "s' = s\<lparr>ep_ptr_list := EventPointerList_clear l, ep_last_referent := 0\<rparr>"
        using assms(4) no_move False epl_size [OF rel] obj by (auto simp: EventPointers_flush_def)
      moreover from reads_obj_ptr [OF rel assms(3) meta no_move] obtain c where
        "reads_as sy m (2 ^ la) base [f] [c] base" "call_ptrs c = map seen_ptr qs" "call_obj c = Some obj" "call_moves c = []"
        using decode none by (auto simp: f_def)
      ultimately show ?thesis using clear obj rest meta none size(1)
        by (intro exI [of _ "[c]"]) (simp add: ep_rel_def f_def)
    qed
  qed
qed

section \<open>Adding\<close>

text \<open>\<open>add\<close> without the flush in front.\<close>

definition add_pointer :: "EventPointers \<Rightarrow> u64 \<Rightarrow> EventPointers" where
  "add_pointer s p =
    (let ((kind, v), lr) = pointer_entry (ep_obj s) (ep_obj_is_inside_heap s) (ep_last_referent s) p
     in s\<lparr>ep_last_referent := lr, ep_ptr_list := EventPointerList_add (ep_ptr_list s) v kind\<rparr>)"

lemma add_unfold:
  assumes "\<not> ep_is_clean s"
  shows "EventPointers_add base la s p =
    (if EventPointerList_get_size (ep_ptr_list s) = MAX_CAPACITY
     then let (s, out) = EventPointers_flush base la s in (add_pointer s p, out) else (add_pointer s p, []))"
proof -
  have "ep_is_clean (fst (EventPointers_flush base la s)) = ep_is_clean s"
    by (simp add: EventPointers_flush_def split_beta Let_def)
  then show ?thesis using assms
    by (cases "EventPointers_flush base la s")
      (auto simp: EventPointers_add_def add_pointer_def pointer_entry_def EventPointers_set_new_referent_def Let_def)
qed

lemma add_pointer_rel:
  assumes "ep_rel m base la obj inside s qs" and "length qs < 12"
  shows "ep_rel m base la obj inside (add_pointer s p) (qs @ [p])"
proof -
  obtain k v lr where e: "pointer_entry obj inside (last_ref obj inside 0 qs) p = ((k, v), lr)"
    by (cases "pointer_entry obj inside (last_ref obj inside 0 qs) p") auto
  then have "entry_ok (k, v)" using pointer_entry_ok [of obj inside "last_ref obj inside 0 qs" p] by simp
  then have "epl_rel (EventPointerList_add (ep_ptr_list s) v k) (pointer_entries obj inside 0 qs @ [(k, v)])"
    using assms by (intro add_rel) (simp_all add: ep_rel_def)
  then show ?thesis using assms(1) e by (auto simp: ep_rel_def add_pointer_def pointer_entries_snoc)
qed

lemma add_rel_step:
  assumes "ep_rel m base la obj inside s qs" and "ptrs_aligned inside obj qs" and "heap_words sy"
    and "EventPointers_add base la s p = (s', out)"
  shows "\<exists>cs qs'. reads_as sy m (2 ^ la) base out cs base \<and> concat (map call_ptrs cs) @ map seen_ptr qs' = map seen_ptr (qs @ [p])
     \<and> (\<forall>c \<in> set cs. call_obj c = Some obj)
     \<and> concat (map call_moves cs) @ announced (ep_event s') obj (ep_from_addr s') = announced (ep_event s) obj (ep_from_addr s)
     \<and> set qs' \<subseteq> set (qs @ [p]) \<and> (\<forall>f \<in> set out. size_ok f) \<and> ep_rel m base la obj inside s' qs'"
proof -
  have clean: "\<not> ep_is_clean s" and sz: "EventPointerList_get_size (ep_ptr_list s) = length qs"
    using assms(1) epl_size by (auto simp: ep_rel_def)
  have keeps: "ep_event (add_pointer s p) = ep_event s" "ep_from_addr (add_pointer s p) = ep_from_addr s" for s
    by (simp_all add: add_pointer_def split_beta Let_def)
  show ?thesis
  proof (cases "length qs = 12")
    case True
    obtain s1 out1 where fl: "EventPointers_flush base la s = (s1, out1)" by (cases "EventPointers_flush base la s")
    have s': "s' = add_pointer s1 p" "out = out1"
      using assms(4) fl True sz by (simp_all add: add_unfold [OF clean] MAX_CAPACITY_def)
    from flush_rel [OF assms(1-3) fl] obtain cs where
      cs: "reads_as sy m (2 ^ la) base out1 cs base" "concat (map call_ptrs cs) = map seen_ptr qs" "\<forall>c \<in> set cs. call_obj c = Some obj"
        "concat (map call_moves cs) = announced (ep_event s) obj (ep_from_addr s)"
        "announced (ep_event s1) obj (ep_from_addr s1) = []" "ep_rel m base la obj inside s1 []" "\<forall>f \<in> set out1. size_ok f" by auto
    have "ep_rel m base la obj inside s' [p]" using add_pointer_rel [OF cs(6), of p] s' by simp
    with cs s' show ?thesis by (intro exI [of _ cs] exI [of _ "[p]"]) (simp add: keeps)
  next
    case False
    then have "length qs < 12" using assms(1) epl_length by (force simp: ep_rel_def)
    then have "ep_rel m base la obj inside s' (qs @ [p])" "out = []" "s' = add_pointer s p"
      using assms(4) False sz add_pointer_rel [OF assms(1)] by (auto simp: add_unfold [OF clean] MAX_CAPACITY_def)
    then show ?thesis by (intro exI [of _ "[]"] exI [of _ "qs @ [p]"]) (simp add: keeps reads_as_Nil)
  qed
qed

lemma add_all_rel:
  assumes "ep_rel m base la obj inside s qs" and "ptrs_aligned inside obj (qs @ ps)" and "heap_words sy"
    and "EventPointers_add_all base la s ps = (s', out)"
  shows "\<exists>cs qs'. reads_as sy m (2 ^ la) base out cs base \<and> concat (map call_ptrs cs) @ map seen_ptr qs' = map seen_ptr (qs @ ps)
     \<and> (\<forall>c \<in> set cs. call_obj c = Some obj)
     \<and> concat (map call_moves cs) @ announced (ep_event s') obj (ep_from_addr s') = announced (ep_event s) obj (ep_from_addr s)
     \<and> set qs' \<subseteq> set (qs @ ps) \<and> (\<forall>f \<in> set out. size_ok f) \<and> ep_rel m base la obj inside s' qs'"
  using assms(1,2,4)
proof (induction ps arbitrary: s qs s' out)
  case Nil
  then show ?case by (intro exI [of _ "[]"] exI [of _ qs]) (simp add: reads_as_Nil)
next
  case (Cons p ps)
  obtain s1 out1 where one: "EventPointers_add base la s p = (s1, out1)" by (cases "EventPointers_add base la s p")
  obtain out2 where rest: "EventPointers_add_all base la s1 ps = (s', out2)" and out: "out = out1 @ out2"
    using Cons.prems(3) one by (auto split: prod.splits)
  from add_rel_step [OF Cons.prems(1) _ assms(3) one] Cons.prems(2) obtain cs1 qs1 where
    a: "reads_as sy m (2 ^ la) base out1 cs1 base" "concat (map call_ptrs cs1) @ map seen_ptr qs1 = map seen_ptr (qs @ [p])"
      "\<forall>c \<in> set cs1. call_obj c = Some obj"
      "concat (map call_moves cs1) @ announced (ep_event s1) obj (ep_from_addr s1) = announced (ep_event s) obj (ep_from_addr s)"
      "set qs1 \<subseteq> set (qs @ [p])" "ep_rel m base la obj inside s1 qs1" "\<forall>f \<in> set out1. size_ok f" by auto
  have "ptrs_aligned inside obj (qs1 @ ps)" using a(5) Cons.prems(2) by auto
  from Cons.IH [OF a(6) this rest] obtain cs2 qs2 where
    b: "reads_as sy m (2 ^ la) base out2 cs2 base" "concat (map call_ptrs cs2) @ map seen_ptr qs2 = map seen_ptr (qs1 @ ps)"
      "\<forall>c \<in> set cs2. call_obj c = Some obj"
      "concat (map call_moves cs2) @ announced (ep_event s') obj (ep_from_addr s') = announced (ep_event s1) obj (ep_from_addr s1)"
      "set qs2 \<subseteq> set (qs1 @ ps)" "ep_rel m base la obj inside s' qs2" "\<forall>f \<in> set out2. size_ok f" by auto
  have "concat (map call_ptrs (cs1 @ cs2)) @ map seen_ptr qs2 = (concat (map call_ptrs cs1) @ map seen_ptr qs1) @ map seen_ptr ps"
    using b(2) by simp
  also have "\<dots> = map seen_ptr (qs @ p # ps)" unfolding a(2) by simp
  finally have "concat (map call_ptrs (cs1 @ cs2)) @ map seen_ptr qs2 = map seen_ptr (qs @ p # ps)" .
  moreover have "set qs2 \<subseteq> set (qs @ p # ps)" using a(5) b(5) by auto
  ultimately show ?case using reads_as_append [OF a(1) b(1)] a(3,4,7) b(3,4,6,7) out
    by (intro exI [of _ "cs1 @ cs2"] exI [of _ qs2]) auto
qed

section \<open>An object with all its pointers\<close>

definition object_events :: "u64 \<Rightarrow> nat \<Rightarrow> EventPointers \<Rightarrow> EventType \<Rightarrow> u64 \<Rightarrow> bool \<Rightarrow> u64 \<Rightarrow> byte \<Rightarrow> u64 list \<Rightarrow> fired list" where
  "object_events base la s event obj inside from_addr sp ps =
    (let (s, out) = EventPointers_add_all base la (EventPointers_set_meta s event obj inside from_addr sp False) ps
     in out @ snd (EventPointers_flush base la s))"

lemma object_events_read:
  assumes "epl_rel (ep_ptr_list s) []" and "heap_words sy" and "meta_ok m base la event obj from_addr sp" and "ptrs_aligned inside obj ps"
  shows "\<exists>calls. reads_as sy m (2 ^ la) base (object_events base la s event obj inside from_addr sp ps) calls base
     \<and> concat (map call_ptrs calls) = map seen_ptr ps \<and> (\<forall>c \<in> set calls. call_obj c = Some obj)
     \<and> concat (map call_moves calls) = announced event obj from_addr
     \<and> (\<forall>f \<in> set (object_events base la s event obj inside from_addr sp ps). size_ok f)"
proof -
  define s0 where "s0 = EventPointers_set_meta s event obj inside from_addr sp False"
  have s0: "ep_rel m base la obj inside s0 []" "ep_event s0 = event" "ep_from_addr s0 = from_addr"
    using assms(1,3) by (simp_all add: s0_def ep_rel_def EventPointers_set_meta_def)
  obtain s1 out1 where one: "EventPointers_add_all base la s0 ps = (s1, out1)" by (cases "EventPointers_add_all base la s0 ps")
  from add_all_rel [OF s0(1) _ assms(2) one] assms(4) obtain cs qs where
    a: "reads_as sy m (2 ^ la) base out1 cs base" "concat (map call_ptrs cs) @ map seen_ptr qs = map seen_ptr ps"
      "\<forall>c \<in> set cs. call_obj c = Some obj" "concat (map call_moves cs) @ announced (ep_event s1) obj (ep_from_addr s1) = announced event obj from_addr"
      "set qs \<subseteq> set ps" "ep_rel m base la obj inside s1 qs" "\<forall>f \<in> set out1. size_ok f" using s0 by auto
  obtain s2 out2 where fl: "EventPointers_flush base la s1 = (s2, out2)" by (cases "EventPointers_flush base la s1")
  have "ptrs_aligned inside obj qs" using a(5) assms(4) by auto
  from flush_rel [OF a(6) this assms(2) fl] obtain ds where
    b: "reads_as sy m (2 ^ la) base out2 ds base" "concat (map call_ptrs ds) = map seen_ptr qs"
      "\<forall>c \<in> set ds. call_obj c = Some obj" "concat (map call_moves ds) = announced (ep_event s1) obj (ep_from_addr s1)"
      "\<forall>f \<in> set out2. size_ok f" by auto
  have "object_events base la s event obj inside from_addr sp ps = out1 @ out2"
    using one fl by (simp add: object_events_def s0_def [symmetric])
  with reads_as_append [OF a(1) b(1)] a(2-4,7) b(2-5) show ?thesis
    by (intro exI [of _ "cs @ ds"]) auto
qed

text \<open>C6. The pointers of an object survive the way through the trace: an object that is announced to
  \<open>EventPointers\<close> with any number of pointers, and flushed, fires a sequence of events that \<open>TraceSlaveParser\<close>
  reads without an error as calls that all refer to the object, announce its move exactly once if it was moved or kept alive, and
  list its pointers completely and in order, null pointers as -1.  Pointers of an object in the heap are aligned to
  heap words relative to the object.\<close>

theorem object_pointers_roundtrip:
  assumes "epl_rel (ep_ptr_list s) []" and "sym_heapWordSize sy = 8" and "meta_ok m base la event obj from_addr sp"
    and "inside \<longrightarrow> (\<forall>p \<in> set ps. p \<noteq> 0 \<longrightarrow> word_aligned (obj - p))"
  shows "\<exists>calls. evaluate_buffer sy m (2 ^ la) base
        (concat (map (fire_event (sym_anchors sy)) (object_events base la s event obj inside from_addr sp ps))) = Some (calls, base)
     \<and> concat (map call_ptrs calls) = map (\<lambda>p. if p = 0 then - 1 else p) ps \<and> (\<forall>c \<in> set calls. call_obj c = Some obj)
     \<and> concat (map call_moves calls) = announced event obj from_addr"
  using object_events_read [OF assms(1-4)] reads_as_buffer by meson

theorem object_pointers_roundtrip_witness:
  "\<exists>calls. evaluate_buffer \<lparr>sym_site_type = (\<lambda>_. None), sym_types = (\<lambda>_. None), sym_heapWordSize = 8, sym_anchors = True\<rparr>
        (\<lambda>_ _ _ _. 0x700001000) (2 ^ 3) 0x600000000
        (concat (map (fire_event True) (object_events 0x600000000 3 EventPointers_create EVENTS_GC_MOVE_FAST 0x700001000 True 0x600000040 2
          ([0x700001008, 0, 0x100000008] @ replicate 11 0x700002000)))) = Some (calls, 0x600000000)
     \<and> concat (map call_ptrs calls) = [0x700001008, - 1, 0x100000008] @ replicate 11 0x700002000
     \<and> (\<forall>c \<in> set calls. call_obj c = Some 0x700001000)
     \<and> concat (map call_moves calls) = [(0x600000040, 0x700001000)]"
proof -
  have "meta_ok (\<lambda>_ _ _ _. 0x700001000) 0x600000000 3 EVENTS_GC_MOVE_FAST 0x700001000 0x600000040 2"
    unfolding meta_ok_def by (simp add: take_bit_eq_mod)
  moreover have "True \<longrightarrow> (\<forall>p \<in> set ([0x700001008, 0, 0x100000008] @ replicate 11 0x700002000). p \<noteq> 0 \<longrightarrow> word_aligned (0x700001000 - p))"
    unfolding word_aligned_def by code_simp
  ultimately show ?thesis
    using object_pointers_roundtrip [of EventPointers_create "\<lparr>sym_site_type = (\<lambda>_. None), sym_types = (\<lambda>_. None), sym_heapWordSize = 8, sym_anchors = True\<rparr>"
      "\<lambda>_ _ _ _. 0x700001000" "0x600000000" 3 "EVENTS_GC_MOVE_FAST" "0x700001000" "0x600000040" 2 True
      "[0x700001008, 0, 0x100000008] @ replicate 11 0x700002000"]
    by (simp add: EventPointers_create_def announced_def)
qed

end
