(* ===== verification/EventKinds.thy ===== *)
theory EventKinds
  imports EventAllocs ObjectPointers
begin

text \<open>
  Events of garbage collections, spaces and threads: what the analyzer reads for each of them.
\<close>

section \<open>Garbage collections\<close>

lemma zero_payload: "unat (0 :: uint) < 4" "unat (0 :: uint) < 2 ^ 24"
  by simp_all

lemma gc_flags:
  fixes flags :: uint
  assumes "flags = (0 OR push_bit 0 (if failed then 1 else 0)) OR push_bit 1 (if concurrent then 1 else 0)"
  shows "unat flags < 2 ^ 8" "flags AND push_bit 1 1 \<noteq> 0 \<longleftrightarrow> concurrent" "flags AND 1 \<noteq> 0 \<longleftrightarrow> failed"
  unfolding assms by (cases failed; cases concurrent; simp)+

lemma reads_gc_start_end:
  assumes "t = EVENTS_GC_START \<or> t = EVENTS_GC_END" and "unat gc_type < 5" and "unat cause < 256"
  shows "reads_as sy m al base [fire_gc_start_end t gc_id gc_type cause concurrent failed millis base']
    [GC (let info = \<lparr>gci_eventType = unat t, gci_gcTypeId = unat gc_type, gci_cause = cause, gci_id = ucast gc_id, gci_time = millis,
              gci_concurrent = concurrent\<rparr>
         in if t = EVENTS_GC_START then GCStart info else GCEnd info failed)] base'"
proof -
  define flags :: uint where "flags = (0 OR push_bit 0 (if failed then 1 else 0)) OR push_bit 1 (if concurrent then 1 else 0)"
  note fl = gc_flags [OF flags_def]
  have ty: "unat (scast gc_type :: uint) = unat gc_type"
    using assms(2) scast_ascii [of gc_type] by (simp add: unsigned_ucast_eq take_bit_nat_eq_self_iff)
  define x where "x = push_bit 16 (scast gc_type) OR push_bit 8 cause OR flags"
  have "unat (scast gc_type :: uint) < 2 ^ 8" "unat cause < 2 ^ 8" using assms(2,3) ty by simp_all
  note pay = payload_8_8_8 [OF this fl(1), folded x_def]
  have t: "unat t < 64" using assms(1) by auto
  note rec = recover_header [OF t zero_payload(1) pay(1)]
  have wr: "write_gc_event t gc_type cause concurrent failed = [header t 0 x]"
    by (simp only: write_gc_event_def Let_def flags_def [symmetric] stuff_header x_def write_word_def)
  have meta: "parseGCMeta n (header t 0 x) ((write_word gc_id @ write_time millis @ write_abs_addr base') @ rest)
      = Some (\<lparr>gci_eventType = n, gci_gcTypeId = unat gc_type, gci_cause = cause, gci_id = ucast gc_id, gci_time = millis,
              gci_concurrent = concurrent\<rparr>, base', rest)" for n rest
    unfolding parseGCMeta_def rec pay Let_def ty using assms(2) fl(2)
    by (simp add: write_word_def write_wide getNextDoubleWord_write)
  have "recoverValue (scast (header t 0 x)) 3 3 = flags" unfolding rec(5) by (rule pay(4))
  then show ?thesis
    by (intro reads_as_event [of _ 0 x "write_word gc_id @ write_time millis @ write_abs_addr base'"])
      (use assms(1) pay(1) wr meta fl(3) in \<open>auto simp: fire_gc_start_end_def parse_event_start_end parseGCStart_def parseGCEnd_def simp del: append_assoc\<close>)
qed

lemma reads_gc_info:
  assumes "unat region < 2 ^ 24"
  shows "reads_as sy m al base [fire_gc_info region gc_id] [GC (GCInfo region gc_id)] base"
    "reads_as sy m al base [fire_gc_failed region] [GC (GCFailed region)] base"
proof -
  have hd: "header t 0 region AND 0x00FFFFFF = region" if "unat t < 64" for t
    using header_fields(3) [OF that zero_payload(1) assms] by (simp only: and_masks)
  show "reads_as sy m al base [fire_gc_info region gc_id] [GC (GCInfo region gc_id)] base"
    by (rule reads_as_event [of _ 0 region "write_word gc_id"])
      (use assms hd in \<open>simp_all add: fire_gc_info_def write_word_def stuff_header parse_event_gc parseGCInfo_def\<close>)
  show "reads_as sy m al base [fire_gc_failed region] [GC (GCFailed region)] base"
    by (rule reads_as_event [of _ 0 region "[]"])
      (use assms hd in \<open>simp_all add: fire_gc_failed_def write_word_def stuff_header parse_event_gc parseGCFailed_def\<close>)
qed

lemma reads_gc_interrupt_continue:
  "reads_as sy m al base [fire_gc_interrupt_continue EVENTS_GC_INTERRUPT gc_id addr] [GC (GCInterrupt gc_id addr)] base"
  "reads_as sy m al base [fire_gc_interrupt_continue EVENTS_GC_CONTINUE gc_id addr] [GC (GCContinue gc_id addr)] base"
  by (rule reads_as_event [of _ 0 0 "write_word gc_id @ write_abs_addr addr"];
      simp add: fire_gc_interrupt_continue_def write_word_def stuff_header parse_event_gc parseGCInterrupt_def parseGCContinue_def
        write_abs_addr_def getNextDoubleWord_write)+

section \<open>Moves\<close>

lemma reads_gc_move_slow:
  "reads_as sy m al base [fire_gc_keep_alive addr] [Move (KeepAlive 0x23 addr)] base"
  "reads_as sy m al base [fire_gc_move_slow from_addr to_addr] [Move (GCMove 0x1E from_addr to_addr None)] base"
proof -
  show "reads_as sy m al base [fire_gc_keep_alive addr] [Move (KeepAlive 0x23 addr)] base"
    by (rule reads_as_event [of _ 0 0 "write_abs_addr addr"])
      (simp_all add: fire_gc_keep_alive_def write_gc_move_event_def write_word_def stuff_header parse_event_move parseGCKeepAlive_def
        write_abs_addr_def getNextDoubleWord_write)
  show "reads_as sy m al base [fire_gc_move_slow from_addr to_addr] [Move (GCMove 0x1E from_addr to_addr None)] base"
    by (rule reads_as_event [of _ 0 0 "write_abs_addr from_addr @ write_abs_addr to_addr"])
      (simp_all add: fire_gc_move_slow_def write_gc_move_event_def write_word_def stuff_header parse_event_move parseGCMoveSlow_def
        write_abs_addr_def getNextDoubleWord_write)
qed

lemma reads_gc_move_region:
  assumes "unat n < 2 ^ 24"
  shows "reads_as sy m al base [fire_gc_move_region from_addr to_addr n] [GC (GCMoveRegion 0x22 from_addr to_addr n)] base"
proof -
  have t: "unat EVENTS_GC_MOVE_REGION < 64" by simp
  have "recoverValue (scast (header EVENTS_GC_MOVE_REGION 0 n)) 1 3 = n" by (rule recover_header(1) [OF t zero_payload(1) assms])
  then show ?thesis
    by (intro reads_as_event [of _ 0 n "write_abs_addr from_addr @ write_abs_addr to_addr"])
      (use assms in \<open>simp_all add: fire_gc_move_region_def write_gc_move_event_def write_word_def stuff_header parse_event_gc parseGCMoveRegion_def
        write_abs_addr_def getNextDoubleWord_write\<close>)
qed

text \<open>The three encodings of a fast move differ only in the event type the analyzer passes on.\<close>

definition fast_move_type :: "u64 \<Rightarrow> nat \<Rightarrow> u64 \<Rightarrow> nat" where
  "fast_move_type base la from_addr =
    (if fst (get_rel_addr base la from_addr 22) then 0x21 else if fst (get_rel_addr base la from_addr 32) then 0x20 else 0x1F)"

lemma reads_gc_move_fast:
  assumes "unat sp < 4" and "take_bit la (from_addr - base) = 0"
  shows "reads_as sy m (2 ^ la) base [fire_gc_move_fast base la from_addr sp]
    [Move (GCMove (fast_move_type base la from_addr) from_addr (- 1) (Some (unat sp)))] base"
proof -
  have g: "unat (scast sp :: uint) = unat sp" by (rule scast_space [OF assms(1)])
  obtain narrow rel22 where n: "get_rel_addr base la from_addr 22 = (narrow, rel22)" by (cases "get_rel_addr base la from_addr 22")
  obtain fits rel where f: "get_rel_addr base la from_addr 32 = (fits, rel)" by (cases "get_rel_addr base la from_addr 32")
  consider "narrow" | "\<not> narrow" "fits" | "\<not> narrow" "\<not> fits" by blast
  then show ?thesis
  proof cases
    case 1
    then have r: "RelAddrFactory_create (2 ^ la) base rel22 = from_addr" "unat rel22 < 2 ^ 22"
      using rel_addr_roundtrip [of base la from_addr 22 rel22] n assms(2) by auto
    have t: "unat EVENTS_GC_MOVE_FAST_NARROW < 64" and g4: "unat (scast sp :: uint) < 4" using g assms(1) by simp_all
    note na = narrow_addr [OF r(2)]
    have "recoverValue (scast (header EVENTS_GC_MOVE_FAST_NARROW (scast sp) (push_bit 2 rel22))) 1 3 = push_bit 2 rel22"
      by (rule recover_header(1) [OF t g4 na(2)])
    then have "parseGCMoveFast sy m (2 ^ la) base 0x21 (header EVENTS_GC_MOVE_FAST_NARROW (scast sp) (push_bit 2 rel22)) (unat sp) rest
        = Some (GCMove 0x21 from_addr (- 1) (Some (unat sp)), rest)" for rest
      by (simp only: parseGCMoveFast_def) (simp add: na(1) r(1) del: push_bit_numeral)
    then show ?thesis
      by (intro reads_as_event [of _ "scast sp" "push_bit 2 rel22" "[]"])
        (use 1 n f g assms(1) na(2) in \<open>simp_all add: fire_gc_move_fast_def write_gc_move_fast_event_def write_word_def stuff_header
          fast_move_type_def parse_event_move\<close>)
  next
    case 2
    then have "RelAddrFactory_create (2 ^ la) base rel = from_addr" using rel_addr_roundtrip [of base la from_addr 32 rel] f assms(2) by auto
    then show ?thesis
      by (intro reads_as_event [of _ "scast sp" 0 "write_word rel"])
        (use 2 n f g assms(1) in \<open>simp_all add: fire_gc_move_fast_def write_gc_move_fast_event_def write_word_def stuff_header
          fast_move_type_def parse_event_move parseGCMoveFast_def\<close>)
  next
    case 3
    then show ?thesis
      by (intro reads_as_event [of _ "scast sp" 0 "write_abs_addr from_addr"])
        (use n f g assms(1) in \<open>simp_all add: fire_gc_move_fast_def write_gc_move_fast_event_def write_word_def stuff_header
          fast_move_type_def parse_event_move parseGCMoveFast_def write_abs_addr_def getNextDoubleWord_write\<close>)
  qed
qed

section \<open>Objects in synchronization collections\<close>

text \<open>The identifier that the analyzer recovers from the first word.\<close>

definition sync_payload :: "uint \<Rightarrow> uint" where
  "sync_payload site = (if is_big_allocation_site site then site else push_bit 8 site)"

definition sync_type_ok :: "Symbols \<Rightarrow> Oop \<Rightarrow> bool" where
  "sync_type_ok sy obj \<longleftrightarrow> (case sym_types sy (o_type obj) of
      Some ty \<Rightarrow> isArray ty = o_is_array obj \<and> (at_internalName ty = MIRROR_CLASS_NAME) = o_is_mirror obj
    | None \<Rightarrow> False)"

abbreviation seen_sync_size :: "Oop \<Rightarrow> uint \<Rightarrow> uint" where
  "seen_sync_size obj sz \<equiv> if o_is_mirror obj then sync_obj_size obj sz else 0"

lemma sync_payload_less: "site_id site \<Longrightarrow> unat (sync_payload site) < 2 ^ 24"
proof -
  assume "site_id site"
  moreover have "sync_payload site = site_payload site 0" by (simp add: sync_payload_def site_payload_def)
  ultimately show ?thesis using site_payload_less [of site 0] by simp
qed

lemma sync_obj_site_id: "site_id loaded \<Longrightarrow> site_id (sync_obj_site save loaded)"
  by (simp add: sync_obj_site_def site_id_def)

lemma reads_sync_obj:
  assumes "site_id loaded" and "sync_type_ok sy obj"
  shows "reads_as sy m al base [fire_sync_obj save loaded from obj sz]
      [GC (SyncObj 0x24 (sync_payload (sync_obj_site save loaded)) (o_type obj) from (o_addr obj) (seen_length obj) (seen_sync_size obj sz))] base"
    "reads_as sy m al base [fire_sync_obj_narrow save loaded obj sz]
      [GC (SyncObj 0x25 (sync_payload (sync_obj_site save loaded)) (o_type obj) (o_addr obj) (o_addr obj) (seen_length obj) (seen_sync_size obj sz))] base"
proof -
  define site where "site = sync_obj_site save loaded"
  have site: "site_id site" using sync_obj_site_id [OF assms(1)] by (simp add: site_def)
  have wr: "write_sync_obj_event t site = [header t 0 (sync_payload site)]" for t
    by (simp add: write_sync_obj_event_def sync_payload_def write_word_def stuff_header)
  have hd: "recoverValue (scast (header t 0 (sync_payload site))) 1 3 = sync_payload site" if "unat t < 64" for t
    by (rule recover_header(1) [OF that zero_payload(1) sync_payload_less [OF site]])
  obtain ty where ty: "sym_types sy (o_type obj) = Some ty" "isArray ty = o_is_array obj"
      "at_internalName ty = MIRROR_CLASS_NAME \<longleftrightarrow> o_is_mirror obj"
    using assms(2) by (auto simp: sync_type_ok_def split: option.splits)
  note less = sync_payload_less [OF site, simplified]
  show "reads_as sy m al base [fire_sync_obj save loaded from obj sz]
      [GC (SyncObj 0x24 (sync_payload (sync_obj_site save loaded)) (o_type obj) from (o_addr obj) (seen_length obj) (seen_sync_size obj sz))] base"
    unfolding site_def [symmetric]
    by (rule reads_as_event [of _ 0 "sync_payload site" "write_word (o_type obj) @ write_abs_addr from @ write_abs_addr (o_addr obj)
          @ (if o_is_array obj then write_word (o_length obj) else []) @ (if o_is_mirror obj then write_word (sync_obj_size obj sz) else [])"])
      (use ty hd less in \<open>simp_all add: fire_sync_obj_def wr site_def [symmetric] write_abs_obj_addr_def write_word_def parse_event_gc parseSyncObj_def
        write_abs_addr_def getNextDoubleWord_write\<close>)
  show "reads_as sy m al base [fire_sync_obj_narrow save loaded obj sz]
      [GC (SyncObj 0x25 (sync_payload (sync_obj_site save loaded)) (o_type obj) (o_addr obj) (o_addr obj) (seen_length obj) (seen_sync_size obj sz))] base"
    unfolding site_def [symmetric]
    by (rule reads_as_event [of _ 0 "sync_payload site" "write_word (o_type obj) @ write_abs_addr (o_addr obj)
          @ (if o_is_array obj then write_length (o_length obj) else []) @ (if o_is_mirror obj then write_word (sync_obj_size obj sz) else [])"])
      (use ty hd less in \<open>simp_all add: fire_sync_obj_narrow_def wr site_def [symmetric] write_abs_obj_addr_def write_word_def write_length_def
        parse_event_gc parseSyncObj_def write_abs_addr_def getNextDoubleWord_write\<close>)
qed

lemma reads_sync: "reads_as sy m al base [fire_sync] [Other Nop] base"
  by (rule reads_as_event [of _ 0 0 "[]"]) (simp_all add: fire_sync_def write_word_def stuff_header parse_event_other)

section \<open>Threads and tags\<close>

abbreviation text_ok :: "byte list \<Rightarrow> bool" where
  "text_ok s \<equiv> (\<forall>c \<in> set s. ascii c) \<and> 0 \<notin> set s"

definition thread_header :: "Thread \<Rightarrow> uint" where
  "thread_header thread = header EVENTS_THREAD_ALIVE 0 (push_bit 8 (thread_type_id (get_thread_type thread)))"

definition seen_thread_id :: "Thread \<Rightarrow> u64" where
  "seen_thread_id thread = (if t_is_Java_thread thread then t_thread_id thread else - 1)"

lemma thread_type_less: "unat (push_bit 8 (thread_type_id ty)) < 2 ^ 24"
  by (cases ty) simp_all

lemma reads_thread_alive:
  assumes "text_ok (t_name thread)"
  shows "reads_as sy m al base [fire_thread_alive thread]
    [Other (ThreadAlive (thread_header thread) (seen_thread_id thread) (take 48 (t_name thread)))] base"
proof -
  define n where "n = min (length (t_name thread) + 1) 48"
  have name: "read_chars 12 (write_chars (take n (t_name thread @ [0])) 0 0 @ ws) = Some (take 48 (t_name thread), ws)" for ws
    unfolding n_def using assms by (intro read_name) auto
  show ?thesis
    by (rule reads_as_event [of _ 0 "push_bit 8 (thread_type_id (get_thread_type thread))"
          "write_wide_word (seen_thread_id thread) @ write_chars (take n (t_name thread @ [0])) 0 0"])
      (use name thread_type_less [of "get_thread_type thread"] in \<open>simp_all add: fire_thread_alive_def Let_def write_word_def stuff_header
        seen_thread_id_def n_def parse_event_other parseThreadAlive_def getNextDoubleWord_write thread_header_def del: take_append push_bit_numeral\<close>)
qed

lemma reads_thread_death:
  "reads_as sy m al base [fire_thread_death thread]
    [Other (ThreadDeath (if t_is_Java_thread thread then t_thread_id thread else t_self_raw_id thread))] base"
  by (rule reads_as_event [of _ 0 0 "write_wide_word (if t_is_Java_thread thread then t_thread_id thread else t_self_raw_id thread)"])
    (simp_all add: fire_thread_death_def write_word_def stuff_header parse_event_other parseThreadDeath_def getNextDoubleWord_write)

lemma reads_tag:
  assumes "text_ok tg" and "length tg < 2 ^ 31"
  shows "reads_as sy m al base [fire_tag tg] [Other (GCTag tg)] base"
proof -
  have rd: "(do { (len, ws) \<leftarrow> getNextWord (write_string tg @ ws); getString len ws }) = Some (tg, ws)" for ws
    using assms by (intro read_string) auto
  have "parseGCTag (write_string tg @ ws) = Some (GCTag tg, ws)" for ws
    using rd [of ws] by (auto simp: parseGCTag_def write_string_def write_word_def)
  then show ?thesis
    by (intro reads_as_event [of _ 0 0 "write_string tg"]) (simp_all add: fire_tag_def Let_def write_word_def stuff_header parse_event_other)
qed

section \<open>Spaces\<close>

lemma space_size_exact: "take_bit 3 (end_addr - bottom) = 0 \<Longrightarrow> space_size bottom end_addr = end_addr - bottom"
  using shift_exact [of 3 "end_addr - bottom"] by (simp add: space_size_def push_bit_eq_mult mult.commute)

lemma reads_space:
  "reads_as sy m al base [fire_space_creation sid bottom end_addr] [Space (SpaceCreate sid bottom (space_size bottom end_addr))] base"
  "reads_as sy m al base [fire_space_redefine sid bottom end_addr] [Space (SpaceRedefine sid bottom (space_size bottom end_addr))] base"
  "reads_as sy m al base [fire_space_release sid] [Space (SpaceRelease sid)] base"
  "reads_as sy m al base [fire_space_destroyed sid n] [Space (SpaceDestroy sid n)] base"
proof -
  show "reads_as sy m al base [fire_space_creation sid bottom end_addr] [Space (SpaceCreate sid bottom (space_size bottom end_addr))] base"
    by (rule reads_as_event [of _ 0 0 "write_word sid @ write_abs_addr bottom @ write_size (space_size bottom end_addr)"])
      (simp_all add: fire_space_creation_def write_word_def stuff_header parse_event_other parseSpaceCreate_def write_wide getNextDoubleWord_write)
  show "reads_as sy m al base [fire_space_redefine sid bottom end_addr] [Space (SpaceRedefine sid bottom (space_size bottom end_addr))] base"
    by (rule reads_as_event [of _ 0 0 "write_word sid @ write_abs_addr bottom @ write_size (space_size bottom end_addr)"])
      (simp_all add: fire_space_redefine_def write_word_def stuff_header parse_event_other parseSpaceRedefine_def write_wide getNextDoubleWord_write)
  show "reads_as sy m al base [fire_space_release sid] [Space (SpaceRelease sid)] base"
    by (rule reads_as_event [of _ 0 0 "write_word sid"])
      (simp_all add: fire_space_release_def write_word_def stuff_header parse_event_other parseSpaceRelease_def)
  show "reads_as sy m al base [fire_space_destroyed sid n] [Space (SpaceDestroy sid n)] base"
    by (rule reads_as_event [of _ 0 0 "write_word sid @ write_size n"])
      (simp_all add: fire_space_destroyed_def write_word_def stuff_header parse_event_other parseSpaceDestroy_def write_wide getNextDoubleWord_write)
qed

text \<open>\<open>SpaceType\<close> and \<open>SpaceMode\<close> share the bits behind the event type.\<close>

lemma reads_space_alloc:
  assumes "unat mode < 3" and "unat type < 4"
  shows "reads_as sy m al base [fire_space_alloc sid mode type] [Space (SpaceAlloc sid (unat mode) (unat type))] base"
proof -
  define x :: uint where "x = push_bit 18 (ucast type) OR push_bit 10 (ucast mode)"
  have bits: "bit type n \<Longrightarrow> n < 2" "bit mode n \<Longrightarrow> n < 2" for n
    using bit_unat_less [of type 2] bit_unat_less [of mode 2] assms by auto
  have cast: "(scast type :: uint) = ucast type" "(scast mode :: uint) = ucast mode"
    using scast_ascii [of type] scast_ascii [of mode] assms by simp_all
  have x: "unat x < 2 ^ 24" unfolding x_def by (rule unat_less_bits) (auto simp: bit_simps dest: bits)
  have bx: "bit x n \<longleftrightarrow> 18 \<le> n \<and> bit type (n - 18) \<or> 10 \<le> n \<and> bit mode (n - 10)" for n
    unfolding x_def by (auto simp: bit_simps dest: bits)
  have t: "unat EVENTS_SPACE_ALLOC < 64" by simp
  note hd = bit_header [OF t zero_payload(1) x]
  have wr: "stuff [event_field EVENTS_SPACE_ALLOC, (scast type, 8), (scast mode, 8), event_gap, gap 8] = header EVENTS_SPACE_ALLOC 0 x"
  proof (rule bit_word_eqI)
    fix n assume "n < LENGTH(32)"
    show "bit (stuff [event_field EVENTS_SPACE_ALLOC, (scast type, 8), (scast mode, 8), event_gap, gap 8]) n = bit (header EVENTS_SPACE_ALLOC 0 x) n"
      unfolding header_def stuff_def StuffedWord_add_def event_field_def event_gap_def gap_def foldl.simps prod.case cast x_def
      by (auto simp: bit_or_iff bit_push_bit_iff bit_ucast_iff dest: bits)
  qed
  have "signed_drop_bit 18 (header EVENTS_SPACE_ALLOC 0 x) AND 0xFF = ucast type"
    unfolding and_masks by (rule bit_word_eqI) (auto simp: bit_simps hd min_def bx dest: bits)
  then have ty: "unat (signed_drop_bit 18 (header EVENTS_SPACE_ALLOC 0 x) AND 0xFF) = unat type"
    using assms(2) by (simp add: unsigned_ucast_eq take_bit_nat_eq_self_iff)
  have "signed_drop_bit 10 (header EVENTS_SPACE_ALLOC 0 x) AND 0xFF = ucast mode"
    unfolding and_masks by (rule bit_word_eqI) (auto simp: bit_simps hd min_def bx dest: bits)
  then have mo: "unat (signed_drop_bit 10 (header EVENTS_SPACE_ALLOC 0 x) AND 0xFF) = unat mode"
    using assms(1) by (simp add: unsigned_ucast_eq take_bit_nat_eq_self_iff)
  show ?thesis
    by (rule reads_as_event [of _ 0 x "write_word sid"])
      (use assms x ty mo in \<open>simp_all add: fire_space_alloc_def write_word_def wr parse_event_other parseSpaceAlloc_def\<close>)
qed

end
