(* ===== verification/EventRoots.thy ===== *)
theory EventRoots
  imports EventRoundtrip
begin

text \<open>
  \<open>EventRootPointerList\<close>: the roots of a garbage collection are collected, three per event, and written with
  what is known about each of them.
\<close>

section \<open>Information about a root\<close>

datatype RootType = CLASS_LOADER_ROOT | CLASS_ROOT | STATIC_FIELD_ROOT | LOCAL_VARIABLE_ROOT | VM_INTERNAL_THREAD_DATA_ROOT
  | CODE_BLOB_ROOT | JNI_LOCAL_ROOT | JNI_GLOBAL_ROOT | CLASS_LOADER_INTERNAL_ROOT | UNIVERSE_ROOT | SYSTEM_DICTIONARY_ROOT
  | BUSY_MONITOR_ROOT | INTERNED_STRING_ROOT | FLAT_PROFILER_ROOT | MANAGEMENT_ROOT | JVMTI_ROOT | DEBUG_ROOT

primrec root_type_id :: "RootType \<Rightarrow> uint" where
  "root_type_id CLASS_LOADER_ROOT = 0"
| "root_type_id CLASS_ROOT = 1"
| "root_type_id STATIC_FIELD_ROOT = 2"
| "root_type_id LOCAL_VARIABLE_ROOT = 3"
| "root_type_id VM_INTERNAL_THREAD_DATA_ROOT = 4"
| "root_type_id CODE_BLOB_ROOT = 5"
| "root_type_id JNI_LOCAL_ROOT = 6"
| "root_type_id JNI_GLOBAL_ROOT = 7"
| "root_type_id CLASS_LOADER_INTERNAL_ROOT = 8"
| "root_type_id UNIVERSE_ROOT = 9"
| "root_type_id SYSTEM_DICTIONARY_ROOT = 10"
| "root_type_id BUSY_MONITOR_ROOT = 11"
| "root_type_id INTERNED_STRING_ROOT = 12"
| "root_type_id FLAT_PROFILER_ROOT = 13"
| "root_type_id MANAGEMENT_ROOT = 14"
| "root_type_id JVMTI_ROOT = 15"
| "root_type_id DEBUG_ROOT = 16"

record RootInfo =
  ri_type :: RootType
  ri_first_double_word :: u64
  ri_second_double_word :: u64
  ri_last_word :: uint
  ri_string :: "byte list"

text \<open>The constructors; a string is assigned after the construction.\<close>

definition RootInfo_class :: "uint \<Rightarrow> RootInfo" where
  "RootInfo_class class_id = \<lparr>ri_type = CLASS_ROOT, ri_first_double_word = - 1, ri_second_double_word = - 1, ri_last_word = class_id,
     ri_string = []\<rparr>"

definition pack_ints :: "uint \<Rightarrow> uint \<Rightarrow> u64" where
  "pack_ints high low = push_bit 32 (scast high) OR (scast low AND 0xffffffff)"

definition RootInfo_member :: "uint \<Rightarrow> uint \<Rightarrow> RootType \<Rightarrow> RootInfo" where
  "RootInfo_member class_id offset_or_method_id static_field_or_code_blob =
    \<lparr>ri_type = static_field_or_code_blob, ri_first_double_word = pack_ints offset_or_method_id class_id, ri_second_double_word = - 1,
     ri_last_word = - 1, ri_string = []\<rparr>"

definition RootInfo_thread :: "u64 \<Rightarrow> RootType \<Rightarrow> RootInfo" where
  "RootInfo_thread thread_id jni_local_or_thread =
    \<lparr>ri_type = jni_local_or_thread, ri_first_double_word = thread_id, ri_second_double_word = - 1, ri_last_word = - 1, ri_string = []\<rparr>"

definition RootInfo_local :: "u64 \<Rightarrow> uint \<Rightarrow> uint \<Rightarrow> uint \<Rightarrow> RootInfo" where
  "RootInfo_local thread_id class_id method_id slot =
    \<lparr>ri_type = LOCAL_VARIABLE_ROOT, ri_first_double_word = thread_id, ri_second_double_word = pack_ints method_id class_id,
     ri_last_word = slot, ri_string = []\<rparr>"

definition RootInfo_weak :: "bool \<Rightarrow> RootInfo" where
  "RootInfo_weak is_weak = \<lparr>ri_type = JNI_GLOBAL_ROOT, ri_first_double_word = - 1, ri_second_double_word = - 1,
     ri_last_word = (if is_weak then 1 else 0), ri_string = []\<rparr>"

definition RootInfo_type :: "RootType \<Rightarrow> RootInfo" where
  "RootInfo_type type = \<lparr>ri_type = type, ri_first_double_word = - 1, ri_second_double_word = - 1, ri_last_word = - 1, ri_string = []\<rparr>"

section \<open>The list\<close>

definition MAX_ROOTS_CAPACITY :: nat where
  "MAX_ROOTS_CAPACITY = 3"

record EventRootPointerList =
  rl_top :: nat
  rl_words :: nat
  rl_addr_list :: "u64 list"
  rl_info_list :: "RootInfo list"

definition EventRootPointerList_create :: EventRootPointerList where
  "EventRootPointerList_create = \<lparr>rl_top = 0, rl_words = 0, rl_addr_list = replicate MAX_ROOTS_CAPACITY 0,
     rl_info_list = replicate MAX_ROOTS_CAPACITY (RootInfo_type CLASS_LOADER_ROOT)\<rparr>"

definition EventRootPointerList_get_next :: "EventRootPointerList \<Rightarrow> nat \<Rightarrow> u64 \<times> RootInfo" where
  "EventRootPointerList_get_next l i = (rl_addr_list l ! i, rl_info_list l ! i)"

definition EventRootPointerList_clear :: "EventRootPointerList \<Rightarrow> EventRootPointerList" where
  "EventRootPointerList_clear l = l\<lparr>rl_top := 0, rl_words := 0\<rparr>"

definition EventRootPointerList_is_full :: "EventRootPointerList \<Rightarrow> bool" where
  "EventRootPointerList_is_full l \<longleftrightarrow> rl_top l = MAX_ROOTS_CAPACITY"

text \<open>The words of one root: the body of the loop of \<open>fire_gc_root_ptrs\<close>.\<close>

definition root_info_words :: "RootInfo \<Rightarrow> uint list" where
  "root_info_words info = (case ri_type info of
      CLASS_LOADER_ROOT \<Rightarrow> write_string (ri_string info)
    | CLASS_ROOT \<Rightarrow> write_word (ri_last_word info)
    | STATIC_FIELD_ROOT \<Rightarrow> write_wide_word (ri_first_double_word info)
    | LOCAL_VARIABLE_ROOT \<Rightarrow> write_wide_word (ri_first_double_word info) @ write_wide_word (ri_second_double_word info)
        @ write_word (ri_last_word info)
    | VM_INTERNAL_THREAD_DATA_ROOT \<Rightarrow> write_wide_word (ri_first_double_word info)
    | CODE_BLOB_ROOT \<Rightarrow> write_wide_word (ri_first_double_word info)
    | JNI_LOCAL_ROOT \<Rightarrow> write_wide_word (ri_first_double_word info)
    | JNI_GLOBAL_ROOT \<Rightarrow> write_word (ri_last_word info)
    | DEBUG_ROOT \<Rightarrow> write_string (ri_string info)
    | _ \<Rightarrow> [])"

definition root_words :: "u64 \<times> RootInfo \<Rightarrow> uint list" where
  "root_words = (\<lambda>(addr, info). write_wide_word addr @ write_word (root_type_id (ri_type info)) @ root_info_words info)"

definition fire_gc_root_ptrs :: "EventRootPointerList \<Rightarrow> fired" where
  "fire_gc_root_ptrs roots =
    (EVENTS_GC_ROOT_PTR, 1 + rl_words roots + (if EventRootPointerList_is_full roots then 0 else 2),
     write_gc_ptr_event EVENTS_GC_ROOT_PTR 0 0
       @ concat (map (\<lambda>i. root_words (EventRootPointerList_get_next roots i)) [0..<rl_top roots])
       @ (if EventRootPointerList_is_full roots then [] else write_wide_word (- 1)))"

definition EventRootPointerList_flush :: "EventRootPointerList \<Rightarrow> EventRootPointerList \<times> fired list" where
  "EventRootPointerList_flush l =
    (if rl_top l \<noteq> 0 then (EventRootPointerList_clear l, [fire_gc_root_ptrs l]) else (l, []))"

definition EventRootPointerList_add :: "EventRootPointerList \<Rightarrow> u64 \<Rightarrow> EventRootPointerList \<times> fired list" where
  "EventRootPointerList_add l p =
    (let (l, out) = (if rl_top l \<ge> MAX_ROOTS_CAPACITY then (EventRootPointerList_clear l, [fire_gc_root_ptrs l]) else (l, []))
     in (l\<lparr>rl_addr_list := (rl_addr_list l)[rl_top l := p]\<rparr>, out))"

text \<open>What the operations do after \<open>add\<close>: store the information, and count the entry and its words.\<close>

definition store_info :: "EventRootPointerList \<times> fired list \<Rightarrow> RootInfo \<Rightarrow> nat \<Rightarrow> EventRootPointerList \<times> fired list" where
  "store_info = (\<lambda>(l, out) info words.
    (l\<lparr>rl_info_list := (rl_info_list l)[rl_top l := info], rl_top := rl_top l + 1, rl_words := rl_words l + words\<rparr>, out))"

definition string_words :: "byte list \<Rightarrow> nat" where
  "string_words s = (if length s mod 4 = 0 then length s div 4 else length s div 4 + 1)"

definition add_class_loader :: "EventRootPointerList \<Rightarrow> u64 \<Rightarrow> byte list \<Rightarrow> EventRootPointerList \<times> fired list" where
  "add_class_loader l p loader_name =
    store_info (EventRootPointerList_add l p) ((RootInfo_type CLASS_LOADER_ROOT)\<lparr>ri_string := loader_name\<rparr>) (2 + 1 + 1 + string_words loader_name)"

definition add_class :: "EventRootPointerList \<Rightarrow> u64 \<Rightarrow> uint \<Rightarrow> EventRootPointerList \<times> fired list" where
  "add_class l p class_id = store_info (EventRootPointerList_add l p) (RootInfo_class class_id) (2 + (1 + 1))"

definition add_static_field :: "EventRootPointerList \<Rightarrow> u64 \<Rightarrow> uint \<Rightarrow> uint \<Rightarrow> EventRootPointerList \<times> fired list" where
  "add_static_field l p class_id offset =
    store_info (EventRootPointerList_add l p) (RootInfo_member class_id offset STATIC_FIELD_ROOT) (2 + (1 + 1 + 1))"

definition add_local_variable :: "EventRootPointerList \<Rightarrow> u64 \<Rightarrow> u64 \<Rightarrow> uint \<Rightarrow> uint \<Rightarrow> uint \<Rightarrow> EventRootPointerList \<times> fired list" where
  "add_local_variable l p thread_id class_id method_id slot =
    store_info (EventRootPointerList_add l p) (RootInfo_local thread_id class_id method_id slot) (2 + (1 + 2 + 1 + 1 + 1))"

definition add_vm_internal_thread_data :: "EventRootPointerList \<Rightarrow> u64 \<Rightarrow> u64 \<Rightarrow> EventRootPointerList \<times> fired list" where
  "add_vm_internal_thread_data l p thread_id =
    store_info (EventRootPointerList_add l p) (RootInfo_thread thread_id VM_INTERNAL_THREAD_DATA_ROOT) (2 + (1 + 2))"

definition add_code_blob :: "EventRootPointerList \<Rightarrow> u64 \<Rightarrow> uint \<Rightarrow> uint \<Rightarrow> EventRootPointerList \<times> fired list" where
  "add_code_blob l p class_id method_id =
    store_info (EventRootPointerList_add l p) (RootInfo_member class_id method_id CODE_BLOB_ROOT) (2 + (1 + 1 + 1))"

definition add_jni_local :: "EventRootPointerList \<Rightarrow> u64 \<Rightarrow> u64 \<Rightarrow> EventRootPointerList \<times> fired list" where
  "add_jni_local l p thread_id = store_info (EventRootPointerList_add l p) (RootInfo_thread thread_id JNI_LOCAL_ROOT) (2 + (1 + 2))"

definition add_jni_global :: "EventRootPointerList \<Rightarrow> u64 \<Rightarrow> bool \<Rightarrow> EventRootPointerList \<times> fired list" where
  "add_jni_global l p is_weak = store_info (EventRootPointerList_add l p) (RootInfo_weak is_weak) (2 + (1 + 1))"

definition add_other :: "EventRootPointerList \<Rightarrow> u64 \<Rightarrow> RootType \<Rightarrow> EventRootPointerList \<times> fired list" where
  "add_other l p root_type = store_info (EventRootPointerList_add l p) (RootInfo_type root_type) (2 + 1)"

definition add_debug :: "EventRootPointerList \<Rightarrow> u64 \<Rightarrow> byte list \<Rightarrow> EventRootPointerList \<times> fired list" where
  "add_debug l p vm_call =
    store_info (EventRootPointerList_add l p) ((RootInfo_type DEBUG_ROOT)\<lparr>ri_string := vm_call\<rparr>) (2 + 1 + 1 + string_words vm_call)"

section \<open>Adding roots of all kinds\<close>

datatype added_root =
    R_class_loader u64 "byte list"
  | R_class u64 uint
  | R_static_field u64 uint uint
  | R_local_variable u64 u64 uint uint uint
  | R_vm_thread u64 u64
  | R_code_blob u64 uint uint
  | R_jni_local u64 u64
  | R_jni_global u64 bool
  | R_other u64 RootType
  | R_debug u64 "byte list"

primrec add_root :: "EventRootPointerList \<Rightarrow> added_root \<Rightarrow> EventRootPointerList \<times> fired list" where
  "add_root l (R_class_loader p s) = add_class_loader l p s"
| "add_root l (R_class p c) = add_class l p c"
| "add_root l (R_static_field p c f) = add_static_field l p c f"
| "add_root l (R_local_variable p t c mi sl) = add_local_variable l p t c mi sl"
| "add_root l (R_vm_thread p t) = add_vm_internal_thread_data l p t"
| "add_root l (R_code_blob p c mi) = add_code_blob l p c mi"
| "add_root l (R_jni_local p t) = add_jni_local l p t"
| "add_root l (R_jni_global p w) = add_jni_global l p w"
| "add_root l (R_other p t) = add_other l p t"
| "add_root l (R_debug p s) = add_debug l p s"

fun add_roots :: "EventRootPointerList \<Rightarrow> added_root list \<Rightarrow> EventRootPointerList \<times> fired list" where
  "add_roots l [] = (l, [])"
| "add_roots l (r # rs) = (let (l, out) = add_root l r; (l, out') = add_roots l rs in (l, out @ out'))"

text \<open>The entry that is stored, and what the analyzer should see.\<close>

primrec root_entry :: "added_root \<Rightarrow> u64 \<times> RootInfo" where
  "root_entry (R_class_loader p s) = (p, (RootInfo_type CLASS_LOADER_ROOT)\<lparr>ri_string := s\<rparr>)"
| "root_entry (R_class p c) = (p, RootInfo_class c)"
| "root_entry (R_static_field p c f) = (p, RootInfo_member c f STATIC_FIELD_ROOT)"
| "root_entry (R_local_variable p t c mi sl) = (p, RootInfo_local t c mi sl)"
| "root_entry (R_vm_thread p t) = (p, RootInfo_thread t VM_INTERNAL_THREAD_DATA_ROOT)"
| "root_entry (R_code_blob p c mi) = (p, RootInfo_member c mi CODE_BLOB_ROOT)"
| "root_entry (R_jni_local p t) = (p, RootInfo_thread t JNI_LOCAL_ROOT)"
| "root_entry (R_jni_global p w) = (p, RootInfo_weak w)"
| "root_entry (R_other p t) = (p, RootInfo_type t)"
| "root_entry (R_debug p s) = (p, (RootInfo_type DEBUG_ROOT)\<lparr>ri_string := s\<rparr>)"

definition seen_addr :: "u64 \<Rightarrow> u64" where
  "seen_addr p = (if p = 0 then - 1 else p)"

primrec seen_root :: "added_root \<Rightarrow> root" where
  "seen_root (R_class_loader p s) = Class_loader_root (seen_addr p) s"
| "seen_root (R_class p c) = Class_root (seen_addr p) c"
| "seen_root (R_static_field p c f) = Static_field_root (seen_addr p) c f"
| "seen_root (R_local_variable p t c mi sl) = Local_variable_root (seen_addr p) t c mi sl"
| "seen_root (R_vm_thread p t) = Vm_internal_thread_data_root (seen_addr p) t"
| "seen_root (R_code_blob p c mi) = Code_blob_root (seen_addr p) c mi"
| "seen_root (R_jni_local p t) = Jni_local_root (seen_addr p) t"
| "seen_root (R_jni_global p w) = Jni_global_root (seen_addr p) w"
| "seen_root (R_other p t) = Other_root (seen_addr p) (root_type_id t)"
| "seen_root (R_debug p s) = Debug_root (seen_addr p) s"

definition root_text_ok :: "byte list \<Rightarrow> bool" where
  "root_text_ok s \<longleftrightarrow> (\<forall>c \<in> set s. ascii c) \<and> 0 \<notin> set s \<and> length s < 2 ^ 31"

primrec root_ok :: "added_root \<Rightarrow> bool" where
  "root_ok (R_class_loader p s) \<longleftrightarrow> p \<noteq> - 1 \<and> root_text_ok s"
| "root_ok (R_class p c) \<longleftrightarrow> p \<noteq> - 1"
| "root_ok (R_static_field p c f) \<longleftrightarrow> p \<noteq> - 1"
| "root_ok (R_local_variable p t c mi sl) \<longleftrightarrow> p \<noteq> - 1"
| "root_ok (R_vm_thread p t) \<longleftrightarrow> p \<noteq> - 1"
| "root_ok (R_code_blob p c mi) \<longleftrightarrow> p \<noteq> - 1"
| "root_ok (R_jni_local p t) \<longleftrightarrow> p \<noteq> - 1"
| "root_ok (R_jni_global p w) \<longleftrightarrow> p \<noteq> - 1"
| "root_ok (R_other p t) \<longleftrightarrow> p \<noteq> - 1 \<and> 8 \<le> unat (root_type_id t) \<and> unat (root_type_id t) < 16"
| "root_ok (R_debug p s) \<longleftrightarrow> p \<noteq> - 1 \<and> root_text_ok s"

section \<open>Words of a root\<close>

lemma write_pack_ints: "write_wide_word (pack_ints high low) = [low, high]"
proof -
  have v: "pack_ints high low = push_bit 32 (scast high) OR ucast low" by (simp only: pack_ints_def scast_mask)
  have "ucast (pack_ints high low) = low"
    unfolding v by (rule bit_word_eqI) (auto simp: bit_simps min_def)
  moreover have "ucast (signed_drop_bit 32 (pack_ints high low)) = high"
    unfolding v
  proof (rule bit_word_eqI)
    fix n assume "n < LENGTH(32)"
    then show "bit (ucast (signed_drop_bit 32 (push_bit 32 (scast high) OR ucast low :: u64)) :: uint) n = bit high n"
      by (cases "n = 31") (auto simp: bit_simps min_def dest: bit_imp_le_length)
  qed
  ultimately show ?thesis by (simp add: write_wide_word_def write_word_def)
qed

lemma string_words_length: "length (write_string s) = 1 + string_words s"
proof -
  have "(length s + 3) div 4 = string_words s"
  proof (cases "length s mod 4 = 0")
    case True
    then obtain k where "length s = 4 * k" by (auto simp: mod_eq_0_iff_dvd dvd_def)
    then show ?thesis by (simp add: string_words_def)
  next
    case False
    then have "(length s + 3) div 4 = Suc (length s div 4)" by presburger
    with False show ?thesis by (simp add: string_words_def)
  qed
  then show ?thesis by (simp add: write_string_def write_word_def write_chars_length)
qed

lemmas root_info_defs = RootInfo_type_def RootInfo_class_def RootInfo_member_def RootInfo_thread_def RootInfo_local_def RootInfo_weak_def

lemma wide_length: "length (write_wide_word v) = 2"
  by (simp add: write_wide_word_def write_word_def)

lemma four_plus: "4 + n = Suc (Suc (Suc (Suc n)))"
  by simp

lemma add_root_store:
  assumes "root_ok r"
  shows "add_root l r = store_info (EventRootPointerList_add l (fst (root_entry r))) (snd (root_entry r)) (length (root_words (root_entry r)))"
proof (cases r)
  case (R_other p t)
  with assms have "root_info_words (RootInfo_type t) = []" by (cases t) (simp_all add: root_info_words_def root_info_defs)
  with R_other show ?thesis by (simp add: add_other_def root_words_def wide_length write_word_def)
qed (simp_all add: add_class_loader_def add_class_def add_static_field_def add_local_variable_def add_vm_internal_thread_data_def
    add_code_blob_def add_jni_local_def add_jni_global_def add_debug_def root_words_def root_info_words_def root_info_defs
    wide_length write_word_def string_words_length four_plus)

lemma read_root:
  assumes "root_ok r"
  shows "parse_root (seen_addr (fst (root_entry r))) (unat (root_type_id (ri_type (snd (root_entry r)))))
    (root_info_words (snd (root_entry r)) @ ws) = Some (seen_root r, ws)"
proof (cases r)
  case (R_class_loader p s)
  with assms have "(do { (len, ws) \<leftarrow> getNextWord (write_string s @ ws); getString len ws }) = Some (s, ws)"
    by (intro read_string) (auto simp: root_text_ok_def)
  with R_class_loader show ?thesis
    by (auto simp: parse_root_def root_info_words_def root_info_defs write_string_def write_word_def)
next
  case (R_debug p s)
  with assms have "(do { (len, ws) \<leftarrow> getNextWord (write_string s @ ws); getString len ws }) = Some (s, ws)"
    by (intro read_string) (auto simp: root_text_ok_def)
  with R_debug show ?thesis
    by (auto simp: parse_root_def root_info_words_def root_info_defs write_string_def write_word_def)
next
  case (R_other p t)
  with assms show ?thesis by (cases t) (simp_all add: parse_root_def root_info_words_def root_info_defs)
qed (simp_all add: parse_root_def root_info_words_def root_info_defs write_word_def write_pack_ints getNextDoubleWord_write)

section \<open>What a list holds\<close>

definition rl_rel :: "EventRootPointerList \<Rightarrow> added_root list \<Rightarrow> bool" where
  "rl_rel l rs \<longleftrightarrow> rl_top l = length rs \<and> length rs \<le> 3 \<and> length (rl_addr_list l) = 3 \<and> length (rl_info_list l) = 3
     \<and> (\<forall>r \<in> set rs. root_ok r) \<and> (\<forall>i < length rs. EventRootPointerList_get_next l i = root_entry (rs ! i))
     \<and> rl_words l = length (concat (map (\<lambda>r. root_words (root_entry r)) rs))"

lemma rl_create: "rl_rel EventRootPointerList_create []"
  by (simp add: rl_rel_def EventRootPointerList_create_def MAX_ROOTS_CAPACITY_def)

lemma rl_clear: "rl_rel l rs \<Longrightarrow> rl_rel (EventRootPointerList_clear l) []"
  by (simp add: rl_rel_def EventRootPointerList_clear_def)

lemma read_roots:
  assumes "\<forall>r \<in> set rs. root_ok r" and "length rs \<le> n"
  shows "parse_roots n (concat (map (\<lambda>r. root_words (root_entry r)) rs) @ (if length rs = n then [] else write_wide_word (- 1)) @ ws)
    = Some (map seen_root rs, ws)"
  using assms
proof (induction rs arbitrary: n)
  case Nil
  then show ?case by (cases n) (simp_all add: getNextDoubleWord_write)
next
  case (Cons r rs)
  then obtain k where n: "n = Suc k" "length rs \<le> k" by (cases n) auto
  obtain p info where e: "root_entry r = (p, info)" by (cases "root_entry r")
  have p: "p \<noteq> - 1" using Cons.prems(1) e by (cases r) auto
  have id: "0 \<le> sint (root_type_id t)" for t by (cases t) simp_all
  have "parse_root (if p = 0 then - 1 else p) (unat (root_type_id (ri_type info))) (root_info_words info @ rest) = Some (seen_root r, rest)" for rest
    using read_root [of r rest] Cons.prems(1) e by (simp add: seen_addr_def)
  moreover have "parse_roots k (concat (map (\<lambda>r. root_words (root_entry r)) rs) @ (if length rs = k then [] else write_wide_word (- 1)) @ ws)
      = Some (map seen_root rs, ws)"
    using Cons n by simp
  ultimately show ?case using p id by (simp add: n e root_words_def getNextDoubleWord_write write_word_def)
qed

lemma fired_roots:
  assumes "rl_rel l rs"
  shows "snd (snd (fire_gc_root_ptrs l)) = header EVENTS_GC_ROOT_PTR 0 0
      # concat (map (\<lambda>r. root_words (root_entry r)) rs) @ (if length rs = 3 then [] else write_wide_word (- 1))"
proof -
  have "map (\<lambda>i. root_words (EventRootPointerList_get_next l i)) [0..<rl_top l] = map (\<lambda>r. root_words (root_entry r)) rs"
    using assms by (intro nth_equalityI) (auto simp: rl_rel_def)
  then show ?thesis using assms
    by (simp add: fire_gc_root_ptrs_def write_gc_ptr_event_def write_word_def stuff_header EventRootPointerList_is_full_def
        MAX_ROOTS_CAPACITY_def rl_rel_def)
qed

lemma reads_roots:
  assumes "rl_rel l rs"
  shows "reads_as sy m al base [fire_gc_root_ptrs l] [GC (RootPtrs (map seen_root rs))] base"
proof -
  have "parseGCRootPtr ((concat (map (\<lambda>r. root_words (root_entry r)) rs) @ (if length rs = 3 then [] else write_wide_word (- 1))) @ ws)
      = Some (RootPtrs (map seen_root rs), ws)" for ws
    using read_roots [of rs 3 ws] assms by (simp add: parseGCRootPtr_def MAX_ROOTS_PER_EVENT_def rl_rel_def)
  moreover have "fst (fire_gc_root_ptrs l) = EVENTS_GC_ROOT_PTR" by (simp add: fire_gc_root_ptrs_def)
  ultimately show ?thesis
    by (intro reads_as_event [of _ 0 0 "concat (map (\<lambda>r. root_words (root_entry r)) rs) @ (if length rs = 3 then [] else write_wide_word (- 1))"])
      (simp_all add: fired_roots [OF assms] parse_event_gc)
qed

primrec root_text :: "added_root \<Rightarrow> byte list" where
  "root_text (R_class_loader p s) = s"
| "root_text (R_class p c) = []"
| "root_text (R_static_field p c f) = []"
| "root_text (R_local_variable p t c mi sl) = []"
| "root_text (R_vm_thread p t) = []"
| "root_text (R_code_blob p c mi) = []"
| "root_text (R_jni_local p t) = []"
| "root_text (R_jni_global p w) = []"
| "root_text (R_other p t) = []"
| "root_text (R_debug p s) = s"

text \<open>Names of up to 240 characters fit into an event together with two other names of that length.\<close>

definition short_names :: "added_root list \<Rightarrow> bool" where
  "short_names rs \<longleftrightarrow> (\<forall>r \<in> set rs. length (root_text r) \<le> 240)"

lemma root_words_bound:
  assumes "root_ok r" and "length (root_text r) \<le> 240"
  shows "length (root_words (root_entry r)) \<le> 64"
proof -
  have "string_words (root_text r) \<le> 60" using assms(2) unfolding string_words_def by presburger
  then show ?thesis using assms(1)
  proof (cases r)
    case (R_other p t)
    with assms(1) show ?thesis by (cases t) (simp_all add: root_words_def root_info_words_def root_info_defs wide_length write_word_def)
  qed (simp_all add: root_words_def root_info_words_def root_info_defs wide_length write_word_def string_words_length)
qed

lemma roots_size:
  assumes "rl_rel l rs" and "short_names rs"
  shows "size_ok (fire_gc_root_ptrs l)"
proof -
  have "length (concat (map (\<lambda>r. root_words (root_entry r)) rs)) \<le> length rs * 64"
    if "\<forall>r \<in> set rs. root_ok r" "short_names rs" for rs
    using that
  proof (induction rs)
    case (Cons r rs)
    with root_words_bound [of r] show ?case by (simp add: short_names_def)
  qed simp
  then have bound: "rl_words l \<le> length rs * 64" using assms by (simp add: rl_rel_def)
  moreover have "length rs \<le> 3" "rl_top l = length rs" using assms(1) by (simp_all add: rl_rel_def)
  moreover have "length (snd (snd (fire_gc_root_ptrs l))) = 1 + rl_words l + (if length rs = 3 then 0 else 2)"
    unfolding fired_roots [OF assms(1)] using assms(1) by (simp add: rl_rel_def wide_length)
  ultimately show ?thesis
    by (auto simp: size_ok_def fire_gc_root_ptrs_def EventRootPointerList_is_full_def MAX_ROOTS_CAPACITY_def MAX_EVENT_SIZE_def)
qed

lemma store_info_rel:
  assumes "rl_rel l rs" and "length rs < 3" and "root_ok r"
  shows "rl_rel (fst (store_info (l\<lparr>rl_addr_list := (rl_addr_list l)[rl_top l := fst (root_entry r)]\<rparr>, out) (snd (root_entry r))
      (length (root_words (root_entry r))))) (rs @ [r])"
  using assms by (auto simp: rl_rel_def store_info_def EventRootPointerList_get_next_def nth_append less_Suc_eq)

fun call_roots :: "call \<Rightarrow> root list" where
  "call_roots (GC (RootPtrs rs)) = rs"
| "call_roots _ = []"

lemma add_root_rel:
  assumes "rl_rel l rs" and "root_ok r" and "add_root l r = (l', out)"
  shows "\<exists>cs rs'. reads_as sy m al base out cs base \<and> concat (map call_roots cs) @ map seen_root rs' = map seen_root (rs @ [r]) \<and> rl_rel l' rs'
     \<and> (short_names rs \<longrightarrow> (\<forall>f \<in> set out. size_ok f)) \<and> set rs' \<subseteq> set (rs @ [r])"
proof (cases "length rs = 3")
  case True
  then have "EventRootPointerList_add l (fst (root_entry r)) =
      ((EventRootPointerList_clear l)\<lparr>rl_addr_list := (rl_addr_list (EventRootPointerList_clear l))[rl_top (EventRootPointerList_clear l) := fst (root_entry r)]\<rparr>,
        [fire_gc_root_ptrs l])"
    using assms(1) by (simp add: EventRootPointerList_add_def MAX_ROOTS_CAPACITY_def rl_rel_def)
  then have "out = [fire_gc_root_ptrs l]" "rl_rel l' [r]"
    using assms(3) store_info_rel [OF rl_clear [OF assms(1)] _ assms(2), of "[fire_gc_root_ptrs l]"]
    unfolding add_root_store [OF assms(2)] by (auto simp: store_info_def)
  with reads_roots [OF assms(1), of sy m al base] roots_size [OF assms(1)] show ?thesis
    by (intro exI [of _ "[GC (RootPtrs (map seen_root rs))]"] exI [of _ "[r]"]) simp
next
  case False
  then have "length rs < 3" using assms(1) by (auto simp: rl_rel_def)
  then have "EventRootPointerList_add l (fst (root_entry r)) = (l\<lparr>rl_addr_list := (rl_addr_list l)[rl_top l := fst (root_entry r)]\<rparr>, [])"
    using assms(1) by (simp add: EventRootPointerList_add_def MAX_ROOTS_CAPACITY_def rl_rel_def)
  then have "out = []" "rl_rel l' (rs @ [r])"
    using assms(3) store_info_rel [OF assms(1) \<open>length rs < 3\<close> assms(2), of "[]"]
    unfolding add_root_store [OF assms(2)] by (auto simp: store_info_def)
  then show ?thesis by (intro exI [of _ "[]"] exI [of _ "rs @ [r]"]) (simp add: reads_as_Nil)
qed

lemma add_roots_rel:
  assumes "rl_rel l rs" and "\<forall>r \<in> set rs'. root_ok r" and "add_roots l rs' = (l', out)"
  shows "\<exists>cs qs. reads_as sy m al base out cs base \<and> concat (map call_roots cs) @ map seen_root qs = map seen_root (rs @ rs') \<and> rl_rel l' qs
     \<and> (short_names (rs @ rs') \<longrightarrow> (\<forall>f \<in> set out. size_ok f)) \<and> set qs \<subseteq> set (rs @ rs')"
  using assms
proof (induction rs' arbitrary: l rs out)
  case Nil
  then show ?case by (intro exI [of _ "[]"] exI [of _ rs]) (simp add: reads_as_Nil)
next
  case (Cons r rs')
  obtain l1 out1 where one: "add_root l r = (l1, out1)" by (cases "add_root l r")
  obtain out2 where rest: "add_roots l1 rs' = (l', out2)" and out: "out = out1 @ out2"
    using Cons.prems(3) one by (auto split: prod.splits)
  from add_root_rel [OF Cons.prems(1) _ one, of sy m al base] Cons.prems(2) obtain cs1 qs1 where
    a: "reads_as sy m al base out1 cs1 base" "concat (map call_roots cs1) @ map seen_root qs1 = map seen_root (rs @ [r])" "rl_rel l1 qs1"
      "short_names rs \<longrightarrow> (\<forall>f \<in> set out1. size_ok f)" "set qs1 \<subseteq> set (rs @ [r])"
    by auto
  from Cons.IH [OF a(3) _ rest] Cons.prems(2) obtain cs2 qs2 where
    b: "reads_as sy m al base out2 cs2 base" "concat (map call_roots cs2) @ map seen_root qs2 = map seen_root (qs1 @ rs')" "rl_rel l' qs2"
      "short_names (qs1 @ rs') \<longrightarrow> (\<forall>f \<in> set out2. size_ok f)" "set qs2 \<subseteq> set (qs1 @ rs')"
    by auto
  have "concat (map call_roots (cs1 @ cs2)) @ map seen_root qs2 = (concat (map call_roots cs1) @ map seen_root qs1) @ map seen_root rs'"
    using b(2) by simp
  also have "\<dots> = map seen_root (rs @ r # rs')" unfolding a(2) by simp
  finally have "concat (map call_roots (cs1 @ cs2)) @ map seen_root qs2 = map seen_root (rs @ r # rs')" .
  moreover have "short_names (rs @ r # rs') \<longrightarrow> (\<forall>f \<in> set out. size_ok f)" "set qs2 \<subseteq> set (rs @ r # rs')"
    using a(4,5) b(4,5) out by (auto simp: short_names_def)
  ultimately show ?case using reads_as_append [OF a(1) b(1)] b(3) out by blast
qed

section \<open>All roots of a collection\<close>

definition root_events :: "EventRootPointerList \<Rightarrow> added_root list \<Rightarrow> fired list" where
  "root_events l rs = (let (l, out) = add_roots l rs in out @ snd (EventRootPointerList_flush l))"

lemma root_events_read:
  assumes "rl_rel l []" and "\<forall>r \<in> set rs. root_ok r"
  shows "\<exists>calls. reads_as sy m al base (root_events l rs) calls base \<and> concat (map call_roots calls) = map seen_root rs
     \<and> (short_names rs \<longrightarrow> (\<forall>f \<in> set (root_events l rs). size_ok f))"
proof -
  obtain l' out where add: "add_roots l rs = (l', out)" by (cases "add_roots l rs")
  from add_roots_rel [OF assms add, of sy m al base] obtain cs qs where
    a: "reads_as sy m al base out cs base" "concat (map call_roots cs) @ map seen_root qs = map seen_root rs" "rl_rel l' qs"
      "short_names rs \<longrightarrow> (\<forall>f \<in> set out. size_ok f)" "set qs \<subseteq> set rs" by auto
  show ?thesis
  proof (cases "qs = []")
    case True
    then have "root_events l rs = out" using add a(3) by (simp add: root_events_def EventRootPointerList_flush_def rl_rel_def)
    with a True show ?thesis by (intro exI [of _ cs]) simp
  next
    case False
    then have "root_events l rs = out @ [fire_gc_root_ptrs l']"
      using add a(3) by (simp add: root_events_def EventRootPointerList_flush_def rl_rel_def)
    moreover have "short_names rs \<longrightarrow> size_ok (fire_gc_root_ptrs l')"
      using roots_size [OF a(3)] a(5) by (auto simp: short_names_def)
    ultimately show ?thesis using reads_as_append [OF a(1) reads_roots [OF a(3)]] a(2,4)
      by (intro exI [of _ "cs @ [GC (RootPtrs (map seen_root qs))]"]) simp
  qed
qed

text \<open>C7. The roots of a collection survive the way through the trace: whatever roots are added to an empty
  \<open>EventRootPointerList\<close>, in whatever order, the events it fires up to the final \<open>flush\<close> are read by \<open>TraceSlaveParser\<close>
  without an error as exactly these roots, in order and with all their data.  No root is at the address -1, which ends the roots of an
  event, and names are sequences of ASCII characters.\<close>

theorem roots_roundtrip:
  assumes "rl_rel l []" and "\<forall>r \<in> set rs. root_ok r"
  shows "\<exists>calls. evaluate_buffer sy m al base (concat (map (fire_event (sym_anchors sy)) (root_events l rs))) = Some (calls, base)
     \<and> concat (map call_roots calls) = map seen_root rs"
  using root_events_read [OF assms] reads_as_buffer by meson

theorem roots_roundtrip_witness:
  "\<exists>calls. evaluate_buffer \<lparr>sym_site_type = (\<lambda>_. None), sym_types = (\<lambda>_. None), sym_heapWordSize = 8, sym_anchors = False\<rparr> (\<lambda>_ _ _ _. 0) 8 0
      (concat (map (fire_event False) (root_events EventRootPointerList_create
        [R_local_variable 0x7000 12 3 4 5, R_class 0 9, R_class_loader 0x7100 [65, 66, 67, 68, 69], R_other 0x7200 UNIVERSE_ROOT]))) = Some (calls, 0)
     \<and> concat (map call_roots calls) = [Local_variable_root 0x7000 12 3 4 5, Class_root (- 1) 9, Class_loader_root 0x7100 [65, 66, 67, 68, 69],
         Other_root 0x7200 9]"
  using roots_roundtrip [OF rl_create, of "[R_local_variable 0x7000 12 3 4 5, R_class 0 9, R_class_loader 0x7100 [65, 66, 67, 68, 69], R_other 0x7200 UNIVERSE_ROOT]"
    "\<lparr>sym_site_type = (\<lambda>_. None), sym_types = (\<lambda>_. None), sym_heapWordSize = 8, sym_anchors = False\<rparr>" "\<lambda>_ _ _ _. 0" 8 0]
  by (simp add: root_text_ok_def seen_addr_def)

end
