(* ===== verification/EventStream.thy ===== *)
theory EventStream
  imports EventKinds EventRoots
begin

text \<open>
  Everything a thread can record, as one datatype: the events it fires, the conditions the virtual machine keeps when it fires
  them, and what the analyzer makes of them.
\<close>

section \<open>Recorded events\<close>

datatype gc_event =
    Start_end EventType uint byte uint bool bool u64 u64
  | Info uint uint
  | Failed uint
  | Interrupt uint u64
  | Continue uint u64
  | Keep_alive u64
  | Move_slow u64 u64
  | Move_region u64 u64 uint
  | Move_fast u64 byte
  | Sync_object u64 Oop uint uint
  | Sync_object_narrow Oop uint uint
  | Sync

datatype space_event = Creation uint u64 u64 | Space_alloc uint byte byte | Release uint | Redefine uint u64 u64 | Destroyed uint u64

datatype other_event = Thread_alive Thread | Thread_death Thread | Tag "byte list"

datatype vm_event =
    V_alloc alloc_event
  | V_gc gc_event
  | V_space space_event
  | V_other other_event
  | V_object EventType u64 bool u64 byte "u64 list"    \<comment> \<open>an object and its pointers\<close>
  | V_roots "added_root list"

primrec fire_gc :: "u64 \<Rightarrow> nat \<Rightarrow> gc_event \<Rightarrow> fired" where
  "fire_gc base la (Start_end t gc_id gc_type cause concurrent failed millis base') =
     fire_gc_start_end t gc_id gc_type cause concurrent failed millis base'"
| "fire_gc base la (Info region gc_id) = fire_gc_info region gc_id"
| "fire_gc base la (Failed region) = fire_gc_failed region"
| "fire_gc base la (Interrupt gc_id addr) = fire_gc_interrupt_continue EVENTS_GC_INTERRUPT gc_id addr"
| "fire_gc base la (Continue gc_id addr) = fire_gc_interrupt_continue EVENTS_GC_CONTINUE gc_id addr"
| "fire_gc base la (Keep_alive addr) = fire_gc_keep_alive addr"
| "fire_gc base la (Move_slow a b) = fire_gc_move_slow a b"
| "fire_gc base la (Move_region a b n) = fire_gc_move_region a b n"
| "fire_gc base la (Move_fast a sp) = fire_gc_move_fast base la a sp"
| "fire_gc base la (Sync_object from obj sz site) = fire_sync_obj True site from obj sz"
| "fire_gc base la (Sync_object_narrow obj sz site) = fire_sync_obj_narrow True site obj sz"
| "fire_gc base la Sync = fire_sync"

primrec fire_space :: "space_event \<Rightarrow> fired" where
  "fire_space (Creation sid bottom end_addr) = fire_space_creation sid bottom end_addr"
| "fire_space (Space_alloc sid mode type) = fire_space_alloc sid mode type"
| "fire_space (Release sid) = fire_space_release sid"
| "fire_space (Redefine sid bottom end_addr) = fire_space_redefine sid bottom end_addr"
| "fire_space (Destroyed sid n) = fire_space_destroyed sid n"

primrec fire_other :: "other_event \<Rightarrow> fired" where
  "fire_other (Thread_alive thread) = fire_thread_alive thread"
| "fire_other (Thread_death thread) = fire_thread_death thread"
| "fire_other (Tag s) = fire_tag s"

text \<open>Pointers and roots are collected in lists that are empty before and after each of these.\<close>

primrec fire_vm :: "u64 \<Rightarrow> nat \<Rightarrow> vm_event \<Rightarrow> fired list" where
  "fire_vm base la (V_alloc e) = [fire_alloc e]"
| "fire_vm base la (V_gc e) = [fire_gc base la e]"
| "fire_vm base la (V_space e) = [fire_space e]"
| "fire_vm base la (V_other e) = [fire_other e]"
| "fire_vm base la (V_object t obj inside from_addr sp ps) = object_events base la EventPointers_create t obj inside from_addr sp ps"
| "fire_vm base la (V_roots rs) = root_events EventRootPointerList_create rs"

text \<open>The start and the end of a collection set a new base for relative addresses.\<close>

fun next_base :: "u64 \<Rightarrow> vm_event \<Rightarrow> u64" where
  "next_base base (V_gc (Start_end t gc_id gc_type cause concurrent failed millis base')) = base'"
| "next_base base _ = base"

fun fire_vms :: "u64 \<Rightarrow> nat \<Rightarrow> vm_event list \<Rightarrow> fired list" where
  "fire_vms base la [] = []"
| "fire_vms base la (e # es) = fire_vm base la e @ fire_vms (next_base base e) la es"

section \<open>Conditions\<close>

primrec gc_ok :: "Symbols \<Rightarrow> u64 \<Rightarrow> nat \<Rightarrow> gc_event \<Rightarrow> bool" where
  "gc_ok sy base la (Start_end t gc_id gc_type cause concurrent failed millis base') \<longleftrightarrow>
     t \<in> {EVENTS_GC_START, EVENTS_GC_END} \<and> unat gc_type < 5 \<and> unat cause < 256"
| "gc_ok sy base la (Info region gc_id) \<longleftrightarrow> unat region < 2 ^ 24"
| "gc_ok sy base la (Failed region) \<longleftrightarrow> unat region < 2 ^ 24"
| "gc_ok sy base la (Interrupt gc_id addr) \<longleftrightarrow> True"
| "gc_ok sy base la (Continue gc_id addr) \<longleftrightarrow> True"
| "gc_ok sy base la (Keep_alive addr) \<longleftrightarrow> True"
| "gc_ok sy base la (Move_slow a b) \<longleftrightarrow> True"
| "gc_ok sy base la (Move_region a b n) \<longleftrightarrow> unat n < 2 ^ 24"
| "gc_ok sy base la (Move_fast a sp) \<longleftrightarrow> unat sp < 4 \<and> take_bit la (a - base) = 0"
| "gc_ok sy base la (Sync_object from obj sz site) \<longleftrightarrow> sync_type_ok sy obj \<and> site_id site \<and> is_big_allocation_site site"
| "gc_ok sy base la (Sync_object_narrow obj sz site) \<longleftrightarrow> sync_type_ok sy obj \<and> site_id site \<and> is_big_allocation_site site"
| "gc_ok sy base la Sync \<longleftrightarrow> True"

primrec space_ok :: "space_event \<Rightarrow> bool" where
  "space_ok (Creation sid bottom end_addr) \<longleftrightarrow> take_bit 3 (end_addr - bottom) = 0"
| "space_ok (Space_alloc sid mode type) \<longleftrightarrow> unat mode < 3 \<and> unat type < 4"
| "space_ok (Release sid) \<longleftrightarrow> True"
| "space_ok (Redefine sid bottom end_addr) \<longleftrightarrow> take_bit 3 (end_addr - bottom) = 0"
| "space_ok (Destroyed sid n) \<longleftrightarrow> True"

primrec other_ok :: "other_event \<Rightarrow> bool" where
  "other_ok (Thread_alive thread) \<longleftrightarrow> text_ok (t_name thread)"
| "other_ok (Thread_death thread) \<longleftrightarrow> True"
| "other_ok (Tag s) \<longleftrightarrow> text_ok s \<and> length s < 2 ^ 31"

primrec vm_ok :: "Symbols \<Rightarrow> move_handler \<Rightarrow> u64 \<Rightarrow> nat \<Rightarrow> vm_event \<Rightarrow> bool" where
  "vm_ok sy m base la (V_alloc e) \<longleftrightarrow> alloc_ok sy e"
| "vm_ok sy m base la (V_gc e) \<longleftrightarrow> gc_ok sy base la e"
| "vm_ok sy m base la (V_space e) \<longleftrightarrow> space_ok e"
| "vm_ok sy m base la (V_other e) \<longleftrightarrow> other_ok e"
| "vm_ok sy m base la (V_object t obj inside from_addr sp ps) \<longleftrightarrow> heap_words sy \<and> meta_ok m base la t obj from_addr sp
     \<and> (inside \<longrightarrow> (\<forall>p \<in> set ps. p \<noteq> 0 \<longrightarrow> word_aligned (obj - p)))"
| "vm_ok sy m base la (V_roots rs) \<longleftrightarrow> (\<forall>r \<in> set rs. root_ok r)"

fun vms_ok :: "Symbols \<Rightarrow> move_handler \<Rightarrow> u64 \<Rightarrow> nat \<Rightarrow> vm_event list \<Rightarrow> bool" where
  "vms_ok sy m base la [] \<longleftrightarrow> True"
| "vms_ok sy m base la (e # es) \<longleftrightarrow> vm_ok sy m base la e \<and> vms_ok sy m (next_base base e) la es"

section \<open>What the analyzer should see\<close>

primrec seen_gc :: "u64 \<Rightarrow> nat \<Rightarrow> gc_event \<Rightarrow> call" where
  "seen_gc base la (Start_end t gc_id gc_type cause concurrent failed millis base') =
     GC (let info = \<lparr>gci_eventType = unat t, gci_gcTypeId = unat gc_type, gci_cause = cause, gci_id = ucast gc_id, gci_time = millis,
              gci_concurrent = concurrent\<rparr>
         in if t = EVENTS_GC_START then GCStart info else GCEnd info failed)"
| "seen_gc base la (Info region gc_id) = GC (GCInfo region gc_id)"
| "seen_gc base la (Failed region) = GC (GCFailed region)"
| "seen_gc base la (Interrupt gc_id addr) = GC (GCInterrupt gc_id addr)"
| "seen_gc base la (Continue gc_id addr) = GC (GCContinue gc_id addr)"
| "seen_gc base la (Keep_alive addr) = Move (KeepAlive 0x23 addr)"
| "seen_gc base la (Move_slow a b) = Move (GCMove 0x1E a b None)"
| "seen_gc base la (Move_region a b n) = GC (GCMoveRegion 0x22 a b n)"
| "seen_gc base la (Move_fast a sp) = Move (GCMove (fast_move_type base la a) a (- 1) (Some (unat sp)))"
| "seen_gc base la (Sync_object from obj sz site) = GC (SyncObj 0x24 site (o_type obj) from (o_addr obj) (seen_length obj) (seen_sync_size obj sz))"
| "seen_gc base la (Sync_object_narrow obj sz site) =
     GC (SyncObj 0x25 site (o_type obj) (o_addr obj) (o_addr obj) (seen_length obj) (seen_sync_size obj sz))"
| "seen_gc base la Sync = Other Nop"

primrec seen_space :: "space_event \<Rightarrow> call" where
  "seen_space (Creation sid bottom end_addr) = Space (SpaceCreate sid bottom (end_addr - bottom))"
| "seen_space (Space_alloc sid mode type) = Space (SpaceAlloc sid (unat mode) (unat type))"
| "seen_space (Release sid) = Space (SpaceRelease sid)"
| "seen_space (Redefine sid bottom end_addr) = Space (SpaceRedefine sid bottom (end_addr - bottom))"
| "seen_space (Destroyed sid n) = Space (SpaceDestroy sid n)"

primrec seen_other :: "other_event \<Rightarrow> call" where
  "seen_other (Thread_alive thread) = Other (ThreadAlive (thread_header thread) (seen_thread_id thread) (take 48 (t_name thread)))"
| "seen_other (Thread_death thread) = Other (ThreadDeath (if t_is_Java_thread thread then t_thread_id thread else t_self_raw_id thread))"
| "seen_other (Tag s) = Other (GCTag s)"

text \<open>The calls that tell the analyzer what happened.\<close>

primrec explains :: "Symbols \<Rightarrow> u64 \<Rightarrow> nat \<Rightarrow> vm_event \<Rightarrow> call list \<Rightarrow> bool" where
  "explains sy base la (V_alloc e) cs \<longleftrightarrow> cs = [Alloc (seen_alloc sy e)]"
| "explains sy base la (V_gc e) cs \<longleftrightarrow> cs = [seen_gc base la e]"
| "explains sy base la (V_space e) cs \<longleftrightarrow> cs = [seen_space e]"
| "explains sy base la (V_other e) cs \<longleftrightarrow> cs = [seen_other e]"
| "explains sy base la (V_object t obj inside from_addr sp ps) cs \<longleftrightarrow>
     concat (map call_ptrs cs) = map (\<lambda>p. if p = 0 then - 1 else p) ps \<and> (\<forall>c \<in> set cs. call_obj c = Some obj)
     \<and> concat (map call_moves cs) = announced t obj from_addr"
| "explains sy base la (V_roots rs) cs \<longleftrightarrow> concat (map call_roots cs) = map seen_root rs"

fun explain_all :: "Symbols \<Rightarrow> u64 \<Rightarrow> nat \<Rightarrow> vm_event list \<Rightarrow> call list list \<Rightarrow> bool" where
  "explain_all sy base la [] css \<longleftrightarrow> css = []"
| "explain_all sy base la (e # es) [] \<longleftrightarrow> False"
| "explain_all sy base la (e # es) (cs # css) \<longleftrightarrow> explains sy base la e cs \<and> explain_all sy (next_base base e) la es css"

section \<open>Reading the events of a buffer\<close>

lemma reads_gc:
  assumes "gc_ok sy base la e"
  shows "reads_as sy m (2 ^ la) base [fire_gc base la e] [seen_gc base la e] (next_base base (V_gc e))"
proof (cases e)
  case (Start_end t gc_id gc_type cause concurrent failed millis base')
  with assms reads_gc_start_end [of t gc_type cause sy m "2 ^ la" base gc_id concurrent failed millis base'] show ?thesis by auto
next
  case (Sync_object src obj sz site)
  with assms reads_sync_obj(1) [of site sy obj m "2 ^ la" base True src sz] show ?thesis
    by (simp add: sync_obj_site_def sync_payload_def)
next
  case (Sync_object_narrow obj sz site)
  with assms reads_sync_obj(2) [of site sy obj m "2 ^ la" base True sz] show ?thesis
    by (simp add: sync_obj_site_def sync_payload_def)
qed (use assms reads_gc_info reads_gc_interrupt_continue reads_gc_move_slow reads_gc_move_region reads_gc_move_fast reads_sync in simp_all)

lemma reads_space_event:
  assumes "space_ok e"
  shows "reads_as sy m al base [fire_space e] [seen_space e] base"
proof (cases e)
  case (Creation sid bottom end_addr)
  with assms reads_space(1) [of sy m al base sid bottom end_addr] show ?thesis by (simp add: space_size_exact)
next
  case (Redefine sid bottom end_addr)
  with assms reads_space(2) [of sy m al base sid bottom end_addr] show ?thesis by (simp add: space_size_exact)
qed (use assms reads_space reads_space_alloc in simp_all)

lemma reads_other:
  assumes "other_ok e"
  shows "reads_as sy m al base [fire_other e] [seen_other e] base"
  using assms reads_thread_alive reads_thread_death reads_tag by (cases e) simp_all

text \<open>Tags and the names of roots have no bound of their own.\<close>

fun vm_small :: "vm_event \<Rightarrow> bool" where
  "vm_small (V_other (Tag s)) \<longleftrightarrow> length s \<le> 788"
| "vm_small (V_roots rs) \<longleftrightarrow> short_names rs"
| "vm_small _ \<longleftrightarrow> True"

lemmas write_defs = write_word_def write_wide_word_def write_wide write_lab_alloc_event_def write_gc_event_def write_gc_move_event_def
  write_gc_move_fast_event_def

lemma alloc_size: "size_ok (fire_alloc e)"
  by (cases e) (simp_all add: size_ok_def MAX_EVENT_SIZE_def fire_obj_alloc_fast_no_arrays_def fire_obj_alloc_normal_no_arrays_def
      fire_obj_alloc_fast_def fire_obj_alloc_normal_def fire_obj_alloc_slow_def fire_mirror_obj_alloc_def fire_tlab_alloc_def fire_plab_alloc_def
      Let_def write_obj_alloc_event_header write_defs)

lemma gc_size: "size_ok (fire_gc base la e)"
  by (cases e) (simp_all add: size_ok_def MAX_EVENT_SIZE_def fire_gc_start_end_def fire_gc_info_def fire_gc_failed_def
      fire_gc_interrupt_continue_def fire_gc_keep_alive_def fire_gc_move_slow_def fire_gc_move_region_def fire_gc_move_fast_def
      fire_sync_obj_def fire_sync_obj_narrow_def write_sync_obj_event_def fire_sync_def split_beta Let_def write_defs)

lemma space_event_size: "size_ok (fire_space e)"
  by (cases e) (simp_all add: size_ok_def MAX_EVENT_SIZE_def fire_space_creation_def fire_space_alloc_def fire_space_release_def
      fire_space_redefine_def fire_space_destroyed_def write_defs)

lemma thread_alive_size: "size_ok (fire_thread_alive thread)"
proof -
  define n where "n = min (length (t_name thread) + 1) (12 * 4)"
  have "length (take n (t_name thread @ [0])) = n" by (simp add: n_def)
  then have "length (write_chars (take n (t_name thread @ [0])) 0 0) = (n + 3) div 4" by (simp only: write_chars_length)
  moreover have "(n + 3) div 4 = n div 4 + (if n mod 4 \<noteq> 0 then 1 else 0)" by presburger
  moreover have "(n + 3) div 4 \<le> 12" by (simp add: n_def)
  ultimately show ?thesis unfolding fire_thread_alive_def Let_def n_def [symmetric]
    by (simp add: size_ok_def write_defs MAX_EVENT_SIZE_def del: take_append)
qed

lemma tag_size: "length s \<le> 788 \<Longrightarrow> size_ok (fire_tag s)"
proof -
  assume "length s \<le> 788"
  then have "string_words s \<le> 197" unfolding string_words_def by presburger
  then show ?thesis
    by (simp add: size_ok_def fire_tag_def Let_def string_words_length write_word_def MAX_EVENT_SIZE_def flip: string_words_def)
qed

lemma other_size: "vm_small (V_other e) \<Longrightarrow> size_ok (fire_other e)"
proof (cases e)
  case (Thread_death thread)
  then show ?thesis by (simp add: size_ok_def fire_thread_death_def write_defs MAX_EVENT_SIZE_def)
qed (simp_all add: thread_alive_size tag_size)

lemma reads_vm:
  assumes "vm_ok sy m base la e"
  shows "\<exists>cs. reads_as sy m (2 ^ la) base (fire_vm base la e) cs (next_base base e) \<and> explains sy base la e cs
    \<and> (vm_small e \<longrightarrow> (\<forall>f \<in> set (fire_vm base la e). size_ok f))"
proof (cases e)
  case (V_object t obj inside from_addr sp ps)
  have "epl_rel (ep_ptr_list EventPointers_create) []" by (simp add: EventPointers_create_def)
  with object_events_read [of EventPointers_create sy m base la t obj from_addr sp inside ps] assms V_object show ?thesis by simp
next
  case (V_roots rs)
  with root_events_read [OF rl_create, of rs sy m "2 ^ la" base] assms show ?thesis by simp
next
  case (V_gc e')
  with assms reads_gc [of sy base la e' m] gc_size show ?thesis by auto
qed (use assms reads_alloc reads_space_event reads_other alloc_size space_event_size other_size in auto)

abbreviation final_base :: "u64 \<Rightarrow> vm_event list \<Rightarrow> u64" where
  "final_base base es \<equiv> foldl next_base base es"

lemma reads_vms:
  "vms_ok sy m base la es \<Longrightarrow>
    \<exists>css. reads_as sy m (2 ^ la) base (fire_vms base la es) (concat css) (final_base base es) \<and> explain_all sy base la es css
      \<and> (list_all vm_small es \<longrightarrow> (\<forall>f \<in> set (fire_vms base la es). size_ok f))"
proof (induction es arbitrary: base)
  case Nil
  show ?case by (intro exI [of _ "[]"]) (simp add: reads_as_Nil)
next
  case (Cons e es)
  from Cons.prems reads_vm [of sy m base la e] obtain cs where
    a: "reads_as sy m (2 ^ la) base (fire_vm base la e) cs (next_base base e)" "explains sy base la e cs"
      "vm_small e \<longrightarrow> (\<forall>f \<in> set (fire_vm base la e). size_ok f)" by auto
  from Cons.IH [of "next_base base e"] Cons.prems obtain css where
    b: "reads_as sy m (2 ^ la) (next_base base e) (fire_vms (next_base base e) la es) (concat css) (final_base (next_base base e) es)"
      "explain_all sy (next_base base e) la es css"
      "list_all vm_small es \<longrightarrow> (\<forall>f \<in> set (fire_vms (next_base base e) la es). size_ok f)" by auto
  from reads_as_append [OF a(1) b(1)] a(2,3) b(2,3) show ?case by (intro exI [of _ "cs # css"]) auto
qed

section \<open>Correctness of recording and reading\<close>

definition sample_symbols :: Symbols where
  "sample_symbols = \<lparr>sym_site_type = (\<lambda>site. if site < 15 then Some 0 else Some 5),
     sym_types = (\<lambda>t. if t = 5 then Some \<lparr>at_internalName = ''[I'', at_isMirrorAllocatedType = False\<rparr> else None),
     sym_heapWordSize = 8, sym_anchors = True\<rparr>"

definition sample_array :: Oop where
  "sample_array = \<lparr>o_addr = 0x700000100, o_is_array = True, o_length = 300, o_is_mirror = False, o_size = 152, o_type = 5\<rparr>"

definition sample_events :: "vm_event list" where
  "sample_events = [V_alloc (Normal sample_array 20 EVENTS_C1_ALLOC_NORMAL), V_alloc (Slow sample_array 2 EVENTS_ALLOC_SLOW 0),
     V_gc (Start_end EVENTS_GC_START 1 0 3 False False 99 0x700000000), V_gc (Move_fast 0x700000100 1),
     V_object EVENTS_GC_KEEP_ALIVE 0x700000200 True 0 0 [0x700000100, 0], V_roots [R_class 0x700000100 5],
     V_gc (Start_end EVENTS_GC_END 1 0 3 False False 101 0x700001000), V_space (Release 4), V_other (Tag [72, 105])]"

lemma sample_ok: "vms_ok sample_symbols (\<lambda>_ _ _ _. 0) 0 3 sample_events" "list_all vm_small sample_events"
  by (simp_all add: sample_events_def sample_symbols_def sample_array_def site_id_def array_ok_def is_big_allocation_site_def
      is_special_allocation_site_def site_type_def isArray_def MIRROR_CLASS_NAME_def meta_ok_def word_aligned_def take_bit_eq_mod short_names_def)

text \<open>C5. Everything a thread records can be read back: for every sequence of allocations, collections, moves, objects with
  pointers, roots, spaces, threads and tags that meets the conditions of the virtual machine, \<open>TraceSlaveParser\<close> reads the
  words of the fired events, with or without anchors, without an error and completely, and the calls it makes tell exactly what happened, event by event.\<close>

theorem events_roundtrip:
  assumes "vms_ok sy m base la es"
  shows "\<exists>css. evaluate_buffer sy m (2 ^ la) base (concat (map (fire_event (sym_anchors sy)) (fire_vms base la es)))
       = Some (concat css, foldl next_base base es)
     \<and> explain_all sy base la es css"
  using reads_vms [OF assms] reads_as_buffer by meson

theorem events_roundtrip_witness:
  "\<exists>css. evaluate_buffer sample_symbols (\<lambda>_ _ _ _. 0) (2 ^ 3) 0
       (concat (map (fire_event (sym_anchors sample_symbols)) (fire_vms 0 3 sample_events))) = Some (concat css, 0x700001000)
     \<and> explain_all sample_symbols 0 3 sample_events css"
  using events_roundtrip [OF sample_ok(1)] by (simp add: sample_events_def)





section \<open>Where recording and reading disagree\<close>

text \<open>C34. A mark event cannot be read: \<open>fire_mark\<close> writes an event of type \<open>EVENTS_MARK\<close>, and the \<open>switch\<close> of
  \<open>evaluateEvent\<close> rejects a buffer that continues with one.\<close>

theorem mark_rejected:
  "evaluate_buffer sy m al base (fire_event (sym_anchors sy) (fire_mark mid) @ ws) = None"
proof -
  have t: "unat EVENTS_MARK < 64" by simp
  have words: "fire_event (sym_anchors sy) (fire_mark mid) @ ws = header EVENTS_MARK 0 0 # (write_wide_word mid
      @ (if sym_anchors sy then write_anchor EVENTS_MARK else []) @ ws)"
    by (simp add: fire_event_def fire_mark_def write_word_def stuff_header)
  have "parse_event sy m al base 1 (header EVENTS_MARK 0 0) 0 rest = None" for rest
    by (simp add: parse_event_def parse_other_def)
  then have "evaluateEvent sy m al base (fire_event (sym_anchors sy) (fire_mark mid) @ ws) = None"
    using header_fields [OF t zero_payload] by (simp add: words evaluateEvent_def recover_fields)
  then show ?thesis by (subst evaluate_buffer.simps) (simp add: words)
qed

text \<open>C35. The allocation site of an object is lost in a synchronization collection when its identifier is a small one: the virtual machine writes
  two bytes and leaves the third one empty, and \<open>parseSyncObj\<close> always reads three bytes, so a small identifier is seen
  multiplied by 256.\<close>

theorem small_sync_site_shifted:
  assumes "site_id site" and "\<not> is_big_allocation_site site" and "sync_type_ok sy obj"
  shows "evaluate_buffer sy m al base (fire_event (sym_anchors sy) (fire_sync_obj_narrow True site obj sz))
    = Some ([GC (SyncObj 0x25 (256 * site) (o_type obj) (o_addr obj) (o_addr obj) (seen_length obj) (seen_sync_size obj sz))], base)"
proof -
  have "sync_payload (sync_obj_site True site) = 256 * site" using assms(2) by (simp add: sync_payload_def sync_obj_site_def push_bit_eq_mult)
  with reads_as_buffer [OF reads_sync_obj(2) [OF assms(1,3), of m al base True sz]] show ?thesis by simp
qed

theorem small_sync_site_shifted_witness:
  "evaluate_buffer sample_symbols (\<lambda>_ _ _ _. 0) 8 0 (fire_event True (fire_sync_obj_narrow True 20 sample_array 0))
    = Some ([GC (SyncObj 0x25 5120 5 0x700000100 0x700000100 300 0)], 0)"
proof -
  have "sync_type_ok sample_symbols sample_array"
    by (simp add: sync_type_ok_def sample_symbols_def sample_array_def isArray_def MIRROR_CLASS_NAME_def)
  moreover have "site_id 20" "\<not> is_big_allocation_site 20" by (simp_all add: site_id_def is_big_allocation_site_def)
  ultimately show ?thesis
    using small_sync_site_shifted [of 20 sample_symbols sample_array "\<lambda>_ _ _ _. 0" 8 0 0] by (simp add: sample_array_def sample_symbols_def)
qed

end
