(* ===== verification/EventRecording.thy ===== *)
theory EventRecording
  imports EventBuffers EventRoundtrip
begin

text \<open>
  Recording events: \<open>EventsRuntime::allocate_event\<close> and the blocks of \<open>fire_event\<close> and \<open>fire_event_sync\<close>
  (\<open>EventsRuntime.cpp\<close>), which put the words of an event into the buffer of a thread, and
  \<open>EventBuffersFlushAll.cpp\<close>, which flushes the buffers of all threads.  Threads are numbers, each of them has a
  buffer.  The steps of a thread on its own buffer do not interfere with those of other threads, and the operations
  on the lists and on the file are atomic, so the sequence of operations is any interleaving of the threads.
\<close>

section \<open>Outcomes\<close>

text \<open>An operation returns, blocks in a queue, or fails (an access outside of the allocated memory).\<close>

datatype 'a outcome = Returns 'a | Blocks | Fails

primrec and_then :: "'a outcome \<Rightarrow> ('a \<Rightarrow> 'b outcome) \<Rightarrow> 'b outcome" where
  "and_then (Returns x) f = f x"
| "and_then Blocks f = Blocks"
| "and_then Fails f = Fails"

section \<open>Threads with event buffers\<close>

record recorder =
  rc_buffers :: "nat \<Rightarrow> EventBuffer"
  rc_lists :: EventBuffers
  rc_world :: world
  rc_io :: AllocationTracingIO

definition set_buffer :: "nat \<Rightarrow> EventBuffer \<Rightarrow> recorder \<Rightarrow> recorder" where
  "set_buffer t b s = s\<lparr>rc_buffers := (rc_buffers s)(t := b)\<rparr>"

definition flush_event_buffer :: "trace_flags \<Rightarrow> bool \<Rightarrow> nat \<Rightarrow> recorder \<Rightarrow> recorder outcome" where
  "flush_event_buffer fl get_new t s =
    (case Thread_flush_event_buffer fl get_new t (rc_buffers s t) (rc_lists s) (rc_world s) (rc_io s) of
       None \<Rightarrow> Fails
     | Some (None, _) \<Rightarrow> Blocks
     | Some (Some b, eb, w, io) \<Rightarrow> Returns \<lparr>rc_buffers = (rc_buffers s)(t := b), rc_lists = eb, rc_world = w, rc_io = io\<rparr>)"

text \<open>The result is the offset of the words in the buffer, \<open>None\<close> for \<open>NULL\<close>.\<close>

definition allocate_event :: "trace_flags \<Rightarrow> nat \<Rightarrow> nat \<Rightarrow> recorder \<Rightarrow> (nat option \<times> recorder) outcome" where
  "allocate_event fl t req_size s =
    (case EventBuffer_allocate (rc_buffers s t) req_size of
       (Some local_buffer_top, b) \<Rightarrow> Returns (Some local_buffer_top, set_buffer t b s)
     | (None, _) \<Rightarrow> and_then (flush_event_buffer fl True t s) (\<lambda>s.
         case EventBuffer_allocate (rc_buffers s t) req_size of (local_buffer_top, b) \<Rightarrow> Returns (local_buffer_top, set_buffer t b s)))"

definition store_words :: "nat \<Rightarrow> nat \<Rightarrow> uint list \<Rightarrow> recorder \<Rightarrow> recorder outcome" where
  "store_words t p ws s =
    (case store_bytes (w_mem (rc_world s)) (eb_bottom (rc_buffers s t)) p (concat (map jint_bytes ws)) of
       None \<Rightarrow> Fails
     | Some m \<Rightarrow> Returns (s\<lparr>rc_world := (rc_world s)\<lparr>w_mem := m\<rparr>\<rparr>))"

text \<open>\<open>fire_event\<close>: the body of the loop is not executed when there is no memory, and the anchor is written at the end
  of the reserved words.\<close>

definition record_event :: "trace_flags \<Rightarrow> bool \<Rightarrow> nat \<Rightarrow> fired \<Rightarrow> recorder \<Rightarrow> recorder outcome" where
  "record_event fl TraceObjectsInsertAnchors t = (\<lambda>(event_type, req_size, ws) s.
    and_then (allocate_event fl t (req_size + (if TraceObjectsInsertAnchors then 1 else 0)) s) (\<lambda>(cursor, s).
      case cursor of
        None \<Rightarrow> Returns s
      | Some cursor \<Rightarrow> and_then (store_words t cursor ws s) (\<lambda>s.
          if TraceObjectsInsertAnchors then store_words t (cursor + req_size * jint_size) (write_anchor event_type) s else Returns s)))"

primrec record_events :: "trace_flags \<Rightarrow> bool \<Rightarrow> nat \<Rightarrow> fired list \<Rightarrow> recorder \<Rightarrow> recorder outcome" where
  "record_events fl anchors t [] s = Returns s"
| "record_events fl anchors t (f # fs) s = and_then (record_event fl anchors t f s) (record_events fl anchors t fs)"

section \<open>Flushing several threads\<close>

text \<open>\<open>do_thread0\<close>.  Retiring the allocation buffer of a Java thread (\<open>make_parsable\<close>) fills its rest with objects and
  thereby fires events of the current thread: they are an argument, empty for other threads.\<close>

definition do_thread0 :: "trace_flags \<Rightarrow> bool \<Rightarrow> nat \<Rightarrow> nat \<times> fired list \<Rightarrow> recorder \<Rightarrow> recorder outcome" where
  "do_thread0 fl anchors current = (\<lambda>(thread, retired) s.
    and_then (record_events fl anchors current retired s) (flush_event_buffer fl False thread))"

text \<open>\<open>FlushBufferThreadClosure\<close> visits the threads it is applied to, except for the last one, which follows when
  the closure is destroyed (once: the compiler elides the copy of the temporary object that initializes it).\<close>

primrec do_threads :: "trace_flags \<Rightarrow> bool \<Rightarrow> (nat \<Rightarrow> bool) \<Rightarrow> nat \<Rightarrow> (nat \<times> fired list) list \<Rightarrow> recorder \<Rightarrow> recorder outcome" where
  "do_threads fl anchors condition current [] s = Returns s"
| "do_threads fl anchors condition current (v # vs) s =
    and_then (if fst v \<noteq> current \<and> condition (fst v) then do_thread0 fl anchors current v s else Returns s)
      (do_threads fl anchors condition current vs)"

definition FlushBufferThreadClosure :: "trace_flags \<Rightarrow> bool \<Rightarrow> (nat \<Rightarrow> bool) \<Rightarrow> nat \<Rightarrow> (nat \<times> fired list) list \<Rightarrow> fired list
    \<Rightarrow> recorder \<Rightarrow> recorder outcome" where
  "FlushBufferThreadClosure fl anchors condition current visited own s =
    and_then (do_threads fl anchors condition current visited s) (\<lambda>s.
      if condition current then do_thread0 fl anchors current (current, own) s else Returns s)"

definition flush_all :: "trace_flags \<Rightarrow> bool \<Rightarrow> nat \<Rightarrow> (nat \<times> fired list) list \<Rightarrow> fired list \<Rightarrow> recorder \<Rightarrow> recorder outcome" where
  "flush_all fl anchors = FlushBufferThreadClosure fl anchors (\<lambda>_. True)"

text \<open>The argument \<open>flush_gc_condition\<close> holds for the threads of the virtual machine and of the collector.\<close>

definition flush_gc_threads :: "trace_flags \<Rightarrow> bool \<Rightarrow> (nat \<Rightarrow> bool) \<Rightarrow> nat \<Rightarrow> (nat \<times> fired list) list \<Rightarrow> fired list
    \<Rightarrow> recorder \<Rightarrow> recorder outcome" where
  "flush_gc_threads fl anchors flush_gc_condition = FlushBufferThreadClosure fl anchors flush_gc_condition"

section \<open>Events that synchronize\<close>

definition MAX2 :: "EventBufferSyncLevel \<Rightarrow> EventBufferSyncLevel \<Rightarrow> EventBufferSyncLevel" where
  "MAX2 a b = (if sync_code a > sync_code b then a else b)"

text \<open>\<open>fire_event_sync\<close>: the constructor of \<open>SyncBlockControl\<close>, the event, and the destructor.\<close>

definition record_event_sync :: "trace_flags \<Rightarrow> bool \<Rightarrow> (nat \<Rightarrow> bool) \<Rightarrow> nat \<Rightarrow> EventBufferSyncLevel \<Rightarrow> bool
    \<Rightarrow> (nat \<times> fired list) list \<Rightarrow> fired list \<Rightarrow> fired \<Rightarrow> recorder \<Rightarrow> recorder outcome" where
  "record_event_sync fl anchors flush_gc_condition t level gc_only visited own f s =
    and_then (if gc_only then flush_gc_threads fl anchors flush_gc_condition t visited own s
              else if level = Sync_Full then flush_all fl anchors t visited own s else Returns s) (\<lambda>s.
    and_then (record_event fl anchors t f s) (\<lambda>s.
      flush_event_buffer fl False t
        (set_buffer t ((rc_buffers s t)\<lparr>eb_sync := MAX2 (eb_sync (rc_buffers s t)) level\<rparr>) s)))"

section \<open>Sequences of operations\<close>

datatype operation =
    Record nat fired
  | Synchronize nat EventBufferSyncLevel bool "(nat \<times> fired list) list" "fired list" fired
  | Flush_all nat "(nat \<times> fired list) list" "fired list"
  | Flush nat

primrec perform :: "trace_flags \<Rightarrow> bool \<Rightarrow> (nat \<Rightarrow> bool) \<Rightarrow> operation \<Rightarrow> recorder \<Rightarrow> recorder outcome" where
  "perform fl anchors gc (Record t f) s = record_event fl anchors t f s"
| "perform fl anchors gc (Synchronize t level gc_only visited own f) s = record_event_sync fl anchors gc t level gc_only visited own f s"
| "perform fl anchors gc (Flush_all t visited own) s = flush_all fl anchors t visited own s"
| "perform fl anchors gc (Flush t) s = flush_event_buffer fl False t s"

primrec perform_all :: "trace_flags \<Rightarrow> bool \<Rightarrow> (nat \<Rightarrow> bool) \<Rightarrow> operation list \<Rightarrow> recorder \<Rightarrow> recorder outcome" where
  "perform_all fl anchors gc [] s = Returns s"
| "perform_all fl anchors gc (op # ops) s = and_then (perform fl anchors gc op s) (perform_all fl anchors gc ops)"

text \<open>The thread that performs an operation, and the events that it records in the course of it.\<close>

primrec op_thread :: "operation \<Rightarrow> nat" where
  "op_thread (Record t f) = t"
| "op_thread (Synchronize t level gc_only visited own f) = t"
| "op_thread (Flush_all t visited own) = t"
| "op_thread (Flush t) = t"

definition retired_events :: "(nat \<Rightarrow> bool) \<Rightarrow> nat \<Rightarrow> (nat \<times> fired list) list \<Rightarrow> fired list \<Rightarrow> fired list" where
  "retired_events condition t visited own =
    concat (map snd (filter (\<lambda>v. fst v \<noteq> t \<and> condition (fst v)) visited)) @ (if condition t then own else [])"

definition enter_events :: "(nat \<Rightarrow> bool) \<Rightarrow> nat \<Rightarrow> EventBufferSyncLevel \<Rightarrow> bool \<Rightarrow> (nat \<times> fired list) list \<Rightarrow> fired list \<Rightarrow> fired list" where
  "enter_events gc t level gc_only visited own =
    (if gc_only then retired_events gc t visited own else if level = Sync_Full then retired_events (\<lambda>_. True) t visited own else [])"

primrec op_events :: "(nat \<Rightarrow> bool) \<Rightarrow> operation \<Rightarrow> fired list" where
  "op_events gc (Record t f) = [f]"
| "op_events gc (Synchronize t level gc_only visited own f) = enter_events gc t level gc_only visited own @ [f]"
| "op_events gc (Flush_all t visited own) = retired_events (\<lambda>_. True) t visited own"
| "op_events gc (Flush t) = []"

definition recorded_by :: "(nat \<Rightarrow> bool) \<Rightarrow> nat \<Rightarrow> operation list \<Rightarrow> fired list" where
  "recorded_by gc u ops = concat (map (op_events gc) (filter (\<lambda>op. op_thread op = u) ops))"

text \<open>A thread starts with a dummy buffer, and the lists are empty.\<close>

definition dummy_buffer :: "nat \<Rightarrow> EventBuffer" where
  "dummy_buffer t = EventBuffer_set_owner EventBuffer_create_dummy t"

definition recorder_init :: "libc \<Rightarrow> trace_flags \<Rightarrow> AllocationTracingIO \<Rightarrow> recorder" where
  "recorder_init lib fl io = \<lparr>rc_buffers = dummy_buffer, rc_lists = EventBuffers_init lib fl,
     rc_world = \<lparr>w_mem = memory_init, w_flush_overflows = 0\<rparr>, rc_io = io\<rparr>"

section \<open>What the buffers and the file hold\<close>

definition event_bytes :: "bool \<Rightarrow> fired list \<Rightarrow> byte list" where
  "event_bytes anchors fs = concat (map jint_bytes (concat (map (fire_event anchors) fs)))"

text \<open>An entry of the log: the thread, the synchronization level and the events of a buffer in the file.\<close>

type_synonym log_entry = "nat \<times> EventBufferSyncLevel \<times> fired list"

definition entry_bytes :: "bool \<Rightarrow> log_entry \<Rightarrow> byte list" where
  "entry_bytes anchors = (\<lambda>(t, y, fs). trace_record t False y (event_bytes anchors fs))"

definition buffer_bytes :: "libc \<Rightarrow> trace_flags \<Rightarrow> nat" where
  "buffer_bytes lib fl = eb_end (fst (EventBuffers_create lib fl memory_init))"

definition holds_events :: "memory \<Rightarrow> bool \<Rightarrow> nat \<Rightarrow> nat \<Rightarrow> EventBuffer \<Rightarrow> EventBufferSyncLevel \<Rightarrow> fired list \<Rightarrow> bool" where
  "holds_events m anchors limit t b y fs \<longleftrightarrow> (\<forall>f \<in> set fs. size_ok f) \<and>
    (if EventBuffer_is_valid b
     then buffer_ok m b \<and> \<not> eb_is_compressed b \<and> eb_owner b = t \<and> eb_sync b = y \<and> eb_end b \<le> limit
        \<and> EventBuffer_content m b = Some (event_bytes anchors fs)
     else eb_end b = 0 \<and> eb_top b = 0 \<and> fs = [])"

text \<open>The state of the recorder, with the log \<open>es\<close> of the file after its first bytes \<open>start\<close>, the events \<open>pend\<close> and the level
  \<open>ys\<close> of each thread's buffer, while \<open>k\<close> more buffers can be created.\<close>

definition rec_rel :: "libc \<Rightarrow> trace_flags \<Rightarrow> bool \<Rightarrow> nat \<Rightarrow> byte list \<Rightarrow> nat \<Rightarrow> recorder \<Rightarrow> log_entry list \<Rightarrow> (nat \<Rightarrow> fired list)
    \<Rightarrow> (nat \<Rightarrow> EventBufferSyncLevel) \<Rightarrow> bool" where
  "rec_rel lib fl anchors limit start k s es pend ys \<longleftrightarrow>
    (\<exists>xs. pool_holds lib fl (rc_lists s) (rc_world s) xs \<and> (\<forall>b \<in> set xs. eb_end b \<le> limit)
      \<and> (\<forall>t. EventBuffer_is_valid (rc_buffers s t) \<longrightarrow> eb_bottom (rc_buffers s t) \<notin> eb_bottom ` set xs))
    \<and> (\<forall>t. holds_events (w_mem (rc_world s)) anchors limit t (rc_buffers s t) (ys t) (pend t))
    \<and> (\<forall>t u. t \<noteq> u \<longrightarrow> EventBuffer_is_valid (rc_buffers s t) \<longrightarrow> EventBuffer_is_valid (rc_buffers s u)
        \<longrightarrow> eb_bottom (rc_buffers s t) \<noteq> eb_bottom (rc_buffers s u))
    \<and> open_content (rc_io s) = Some (start @ concat (map (entry_bytes anchors) es))
    \<and> (\<forall>(t, y, fs) \<in> set es. length (event_bytes anchors fs) \<le> limit)
    \<and> 0 \<le> sint (mem_last_id (w_mem (rc_world s))) \<and> sint (mem_last_id (w_mem (rc_world s))) + int k \<le> 2 ^ 31 - 1"

lemma rec_relI:
  assumes "pool_holds lib fl (rc_lists s) (rc_world s) xs" and "\<And>b. b \<in> set xs \<Longrightarrow> eb_end b \<le> limit"
    and "\<And>t. EventBuffer_is_valid (rc_buffers s t) \<Longrightarrow> eb_bottom (rc_buffers s t) \<notin> eb_bottom ` set xs"
    and "\<And>t. holds_events (w_mem (rc_world s)) anchors limit t (rc_buffers s t) (ys t) (pend t)"
    and "\<And>t u. t \<noteq> u \<Longrightarrow> EventBuffer_is_valid (rc_buffers s t) \<Longrightarrow> EventBuffer_is_valid (rc_buffers s u)
        \<Longrightarrow> eb_bottom (rc_buffers s t) \<noteq> eb_bottom (rc_buffers s u)"
    and "open_content (rc_io s) = Some (start @ concat (map (entry_bytes anchors) es))"
    and "\<forall>(t, y, fs) \<in> set es. length (event_bytes anchors fs) \<le> limit"
    and "0 \<le> sint (mem_last_id (w_mem (rc_world s)))" and "sint (mem_last_id (w_mem (rc_world s))) + int k \<le> 2 ^ 31 - 1"
  shows "rec_rel lib fl anchors limit start k s es pend ys"
  unfolding rec_rel_def by (intro conjI exI [of _ xs]) (use assms in \<open>simp_all\<close>)

lemma rec_relD:
  assumes "rec_rel lib fl anchors limit start k s es pend ys"
  shows "holds_events (w_mem (rc_world s)) anchors limit t (rc_buffers s t) (ys t) (pend t)"
    "t \<noteq> u \<Longrightarrow> EventBuffer_is_valid (rc_buffers s t) \<Longrightarrow> EventBuffer_is_valid (rc_buffers s u)
        \<Longrightarrow> eb_bottom (rc_buffers s t) \<noteq> eb_bottom (rc_buffers s u)"
    "open_content (rc_io s) = Some (start @ concat (map (entry_bytes anchors) es))"
    "\<forall>(t, y, fs) \<in> set es. length (event_bytes anchors fs) \<le> limit"
    "0 \<le> sint (mem_last_id (w_mem (rc_world s)))" "sint (mem_last_id (w_mem (rc_world s))) + int k \<le> 2 ^ 31 - 1"
  using assms unfolding rec_rel_def by simp_all

lemma rec_rel_pool:
  assumes "rec_rel lib fl anchors limit start k s es pend ys"
  obtains xs where "pool_holds lib fl (rc_lists s) (rc_world s) xs" "\<And>b. b \<in> set xs \<Longrightarrow> eb_end b \<le> limit"
    "\<And>t. EventBuffer_is_valid (rc_buffers s t) \<Longrightarrow> eb_bottom (rc_buffers s t) \<notin> eb_bottom ` set xs"
proof -
  from assms have "\<exists>xs. pool_holds lib fl (rc_lists s) (rc_world s) xs \<and> (\<forall>b \<in> set xs. eb_end b \<le> limit)
      \<and> (\<forall>t. EventBuffer_is_valid (rc_buffers s t) \<longrightarrow> eb_bottom (rc_buffers s t) \<notin> eb_bottom ` set xs)"
    unfolding rec_rel_def by (rule conjunct1)
  with that show ?thesis by blast
qed

lemma rec_rel_mono:
  "rec_rel lib fl anchors limit start k' s es pend ys \<Longrightarrow> k \<le> k' \<Longrightarrow> rec_rel lib fl anchors limit start k s es pend ys"
  by (simp add: rec_rel_def)

lemma rec_rel_level:
  assumes "rec_rel lib fl anchors limit start k' s es pend ys" and "\<not> EventBuffer_is_valid (rc_buffers s t)" and "k \<le> k'"
  shows "rec_rel lib fl anchors limit start k s es pend (ys(t := y))"
proof -
  from rec_rel_pool [OF assms(1)] obtain xs where xs: "pool_holds lib fl (rc_lists s) (rc_world s) xs" "\<And>b. b \<in> set xs \<Longrightarrow> eb_end b \<le> limit"
    "\<And>t. EventBuffer_is_valid (rc_buffers s t) \<Longrightarrow> eb_bottom (rc_buffers s t) \<notin> eb_bottom ` set xs" by blast
  have "holds_events (w_mem (rc_world s)) anchors limit u (rc_buffers s u) ((ys(t := y)) u) (pend u)" for u
    using rec_relD(1) [OF assms(1), of u] assms(2) by (cases "u = t") (simp_all add: holds_events_def)
  with xs rec_relD(2-6) [OF assms(1)] assms(3) show ?thesis by (intro rec_relI [of _ _ _ xs]) simp_all
qed

text \<open>The output is synchronous, and a new buffer is not larger than the limit.\<close>

definition sync_setup :: "libc \<Rightarrow> trace_flags \<Rightarrow> nat \<Rightarrow> bool" where
  "sync_setup lib fl limit \<longleftrightarrow> \<not> TraceObjectsAsyncIO fl \<and> libc_ok lib \<and> buffer_bytes lib fl \<le> limit"

lemma event_bytes_simps [simp]:
  "event_bytes anchors [] = []"
  "event_bytes anchors (fs @ gs) = event_bytes anchors fs @ event_bytes anchors gs"
  by (simp_all add: event_bytes_def)

lemma fire_event_nonempty: "size_ok f \<Longrightarrow> fire_event anchors f \<noteq> []"
  by (cases f) (auto simp: size_ok_def fire_event_def)

lemma event_bytes_empty: "\<forall>f \<in> set fs. size_ok f \<Longrightarrow> event_bytes anchors fs = [] \<longleftrightarrow> fs = []"
proof (cases fs)
  case (Cons f gs)
  moreover assume "\<forall>f \<in> set fs. size_ok f"
  ultimately obtain w ws where "fire_event anchors f = w # ws" using fire_event_nonempty [of f anchors] by (cases "fire_event anchors f") auto
  then have "length (event_bytes anchors fs) \<ge> 4" by (simp add: event_bytes_def Cons)
  then show ?thesis using Cons by auto
qed simp

lemma create_frame:
  assumes "EventBuffers_create lib fl m = (b, m')"
  shows "eb_bottom b = mem_next m" "k \<noteq> mem_next m \<Longrightarrow> mem_block m' k = mem_block m k" "mem_last_id m' = mem_last_id m + 1"
    "eb_end b = buffer_bytes lib fl"
  using assms by (auto simp: EventBuffers_create_def buffer_bytes_def EventBuffer_create_def calloc_def Let_def)

lemma holds_frame:
  assumes "holds_events m anchors limit t b y fs"
    and "EventBuffer_is_valid b \<Longrightarrow> mem_block m' (eb_bottom b) = mem_block m (eb_bottom b)"
  shows "holds_events m' anchors limit t b y fs"
  using assms by (auto simp: holds_events_def buffer_ok_def EventBuffer_content_def load_bytes_def)

lemma dummy_buffer_simps [simp]:
  "\<not> EventBuffer_is_valid (dummy_buffer t)" "eb_end (dummy_buffer t) = 0" "eb_top (dummy_buffer t) = 0"
  by (simp_all add: dummy_buffer_def EventBuffer_set_owner_def EventBuffer_create_dummy_def EventBuffer_is_valid_def)

lemma holds_dummy [simp]: "holds_events m anchors limit t (dummy_buffer u) y fs \<longleftrightarrow> fs = []"
  by (auto simp: holds_events_def)

section \<open>Handing over a buffer, and taking a new one\<close>

lemma put_rel:
  assumes "rec_rel lib fl anchors limit start k s es pend ys" and "EventBuffer_is_valid (rc_buffers s t)"
  shows "\<exists>r eb w. enqueue_to_free_list (rc_lists s) (EventBuffer_reset (rc_buffers s t)) (rc_world s) = Some (r, eb, w) \<and> r \<noteq> Enqueue_waits
    \<and> rec_rel lib fl anchors limit start k \<lparr>rc_buffers = (rc_buffers s)(t := dummy_buffer t), rc_lists = eb, rc_world = w, rc_io = rc_io s\<rparr>
        es (pend(t := [])) ys"
proof -
  let ?b = "rc_buffers s t"
  from rec_rel_pool [OF assms(1)] obtain xs where xs: "pool_holds lib fl (rc_lists s) (rc_world s) xs" "\<And>b. b \<in> set xs \<Longrightarrow> eb_end b \<le> limit"
    "\<And>t. EventBuffer_is_valid (rc_buffers s t) \<Longrightarrow> eb_bottom (rc_buffers s t) \<notin> eb_bottom ` set xs" by blast
  from rec_relD(1) [OF assms(1), of t] have ok: "buffer_ok (w_mem (rc_world s)) ?b" "eb_end ?b \<le> limit" using assms(2) by (auto simp: holds_events_def)
  have "eb_bottom (EventBuffer_reset ?b) \<notin> eb_bottom ` set xs" using xs(3) assms(2) by simp
  from holds_put [OF xs(1) reset_ok [OF ok(1)] reset_clean this] obtain r eb w xs' where
    p: "enqueue_to_free_list (rc_lists s) (EventBuffer_reset ?b) (rc_world s) = Some (r, eb, w)" "r \<noteq> Enqueue_waits"
    "pool_holds lib fl eb w xs'" "set xs' \<subseteq> insert (EventBuffer_reset ?b) (set xs)"
    "mem_last_id (w_mem w) = mem_last_id (w_mem (rc_world s))"
    "\<And>k. k \<noteq> eb_bottom ?b \<Longrightarrow> mem_block (w_mem w) k = mem_block (w_mem (rc_world s)) k" by auto
  have other: "eb_bottom (rc_buffers s u) \<noteq> eb_bottom ?b" if "u \<noteq> t" "EventBuffer_is_valid (rc_buffers s u)" for u
    using rec_relD(2) [OF assms(1) that(1)] assms(2) that(2) by simp
  have mem: "holds_events (w_mem w) anchors limit u (((rc_buffers s)(t := dummy_buffer t)) u) (ys u) ((pend(t := [])) u)" for u
  proof (cases "u = t")
    case False
    from holds_frame [OF rec_relD(1) [OF assms(1)] p(6) [OF other]] False show ?thesis by simp
  qed simp
  have small: "eb_end b \<le> limit" if "b \<in> set xs'" for b
    using p(4) xs(2) ok(2) that by (auto simp: EventBuffer_reset_def)
  have "eb_bottom ` set xs' \<subseteq> insert (eb_bottom ?b) (eb_bottom ` set xs)" using image_mono [OF p(4), of eb_bottom] by simp
  then have apart: "EventBuffer_is_valid (((rc_buffers s)(t := dummy_buffer t)) u) \<Longrightarrow>
      eb_bottom (((rc_buffers s)(t := dummy_buffer t)) u) \<notin> eb_bottom ` set xs'" for u
    using xs(3) other [of u] by (cases "u = t") auto
  have "rec_rel lib fl anchors limit start k \<lparr>rc_buffers = (rc_buffers s)(t := dummy_buffer t), rc_lists = eb, rc_world = w,
      rc_io = rc_io s\<rparr> es (pend(t := [])) ys"
  proof (rule rec_relI [of _ _ _ xs'])
    fix u v
    let ?bs = "(rc_buffers s)(t := dummy_buffer t)"
    assume "u \<noteq> v" "EventBuffer_is_valid (rc_buffers \<lparr>rc_buffers = ?bs, rc_lists = eb, rc_world = w, rc_io = rc_io s\<rparr> u)"
      "EventBuffer_is_valid (rc_buffers \<lparr>rc_buffers = ?bs, rc_lists = eb, rc_world = w, rc_io = rc_io s\<rparr> v)"
    with rec_relD(2) [OF assms(1), of u v] show "eb_bottom (rc_buffers \<lparr>rc_buffers = ?bs, rc_lists = eb, rc_world = w, rc_io = rc_io s\<rparr> u)
        \<noteq> eb_bottom (rc_buffers \<lparr>rc_buffers = ?bs, rc_lists = eb, rc_world = w, rc_io = rc_io s\<rparr> v)" by (simp split: if_splits)
  qed (use p(3,5) small apart mem rec_relD(3-6) [OF assms(1)] in \<open>simp_all\<close>)
  with p(1,2) show ?thesis by blast
qed

lemma hand_over_rel:
  assumes "rec_rel lib fl anchors limit start k s es pend ys" and "sync_setup lib fl limit"
  shows "\<exists>r eb w io. Thread_hand_over fl (rc_buffers s t) (rc_lists s) (rc_world s) (rc_io s) = Some (r, eb, w, io) \<and> r \<noteq> Enqueue_waits
    \<and> rec_rel lib fl anchors limit start k \<lparr>rc_buffers = (rc_buffers s)(t := dummy_buffer t), rc_lists = eb, rc_world = w, rc_io = io\<rparr>
        (es @ (if pend t = [] then [] else [(t, ys t, pend t)])) (pend(t := [])) ys"
proof (cases "EventBuffer_is_valid (rc_buffers s t)")
  case False
  moreover from assms(1) have "holds_events (w_mem (rc_world s)) anchors limit t (rc_buffers s t) (ys t) (pend t)" by (simp add: rec_rel_def)
  ultimately have "pend t = []" by (simp add: holds_events_def)
  moreover from rec_rel_pool [OF assms(1)] obtain xs where "pool_holds lib fl (rc_lists s) (rc_world s) xs" "\<And>b. b \<in> set xs \<Longrightarrow> eb_end b \<le> limit"
    "\<And>t. EventBuffer_is_valid (rc_buffers s t) \<Longrightarrow> eb_bottom (rc_buffers s t) \<notin> eb_bottom ` set xs" by blast
  with rec_relD [OF assms(1)] have "rec_rel lib fl anchors limit start k \<lparr>rc_buffers = (rc_buffers s)(t := dummy_buffer t), rc_lists = rc_lists s,
      rc_world = rc_world s, rc_io = rc_io s\<rparr> es (pend(t := [])) ys"
    by (intro rec_relI [of _ _ _ xs]) (simp_all split: if_splits)
  ultimately show ?thesis using False by (simp add: Thread_hand_over_def)
next
  case True
  let ?b = "rc_buffers s t"
  from assms(1) True have b: "buffer_ok (w_mem (rc_world s)) ?b" "\<not> eb_is_compressed ?b" "eb_owner ?b = t" "eb_sync ?b = ys t" "eb_end ?b \<le> limit"
    "EventBuffer_content (w_mem (rc_world s)) ?b = Some (event_bytes anchors (pend t))" "\<forall>f \<in> set (pend t). size_ok f"
    by (auto simp: rec_rel_def holds_events_def dest: spec [of _ t])
  have len: "length (event_bytes anchors (pend t)) = eb_top ?b" using content_ok [OF b(1)] b(6) by simp
  have words: "eb_top ?b mod 4 = 0" "eb_top ?b \<le> eb_end ?b"
    using b(1,2) by (auto simp: buffer_ok_def EventBuffer_assert_is_valid_def EventBuffer_get_raw_length_def)
  have empty: "EventBuffer_get_length ?b = 0 \<longleftrightarrow> pend t = []"
    using event_bytes_empty [OF b(7), of anchors] len words(1) by (auto simp: EventBuffer_get_length_def)
  show ?thesis
  proof (cases "pend t = []")
    case True
    with put_rel [OF assms(1) \<open>EventBuffer_is_valid ?b\<close>] empty \<open>EventBuffer_is_valid ?b\<close> show ?thesis
      by (fastforce simp: Thread_hand_over_def)
  next
    case False
    from assms(1) have "open_content (rc_io s) = Some (start @ concat (map (entry_bytes anchors) es))" by (simp add: rec_rel_def)
    from write_buffer_content [OF this b(1), of "TraceObjectsEagerFlush fl"] obtain io where
      io: "EventsWriter_write_buffer (TraceObjectsEagerFlush fl) (w_mem (rc_world s)) ?b (rc_io s) = Some (EventBuffer_reset ?b, io)"
      "open_content io = Some (start @ concat (map (entry_bytes anchors) (es @ [(t, ys t, pend t)])))"
      using b(2-4,6) by (auto simp: buffer_record_def entry_bytes_def)
    have "rec_rel lib fl anchors limit start k (s\<lparr>rc_io := io\<rparr>) (es @ [(t, ys t, pend t)]) pend ys"
      using assms(1) io(2) len words(2) b(5) unfolding rec_rel_def by auto
    from put_rel [OF this, of t] True obtain r eb w where
      "enqueue_to_free_list (rc_lists s) (EventBuffer_reset ?b) (rc_world s) = Some (r, eb, w)" "r \<noteq> Enqueue_waits"
      "rec_rel lib fl anchors limit start k \<lparr>rc_buffers = (rc_buffers s)(t := dummy_buffer t), rc_lists = eb, rc_world = w, rc_io = io\<rparr>
        (es @ [(t, ys t, pend t)]) (pend(t := [])) ys" by auto
    with True False empty io(1) assms(2) show ?thesis by (simp add: Thread_hand_over_def sync_setup_def)
  qed
qed

lemma take_rel:
  assumes "rec_rel lib fl anchors limit start (Suc k) s es pend ys" and "sync_setup lib fl limit"
    and "\<not> EventBuffer_is_valid (rc_buffers s t)"
  shows "\<exists>b eb w. dequeue_from_free_list (rc_lists s) (rc_world s) = Some (Dequeued b, eb, w) \<and> EventBuffer_is_valid b \<and> eb_top b = 0
    \<and> rec_rel lib fl anchors limit start k \<lparr>rc_buffers = (rc_buffers s)(t := EventBuffer_set_owner b t), rc_lists = eb, rc_world = w,
        rc_io = rc_io s\<rparr> es pend (ys(t := Sync_None))"
proof -
  let ?m = "w_mem (rc_world s)"
  from rec_rel_pool [OF assms(1)] obtain xs where xs: "pool_holds lib fl (rc_lists s) (rc_world s) xs" "\<And>b. b \<in> set xs \<Longrightarrow> eb_end b \<le> limit"
    "\<And>t. EventBuffer_is_valid (rc_buffers s t) \<Longrightarrow> eb_bottom (rc_buffers s t) \<notin> eb_bottom ` set xs" by blast
  from assms(1) have id: "0 \<le> sint (mem_last_id ?m)" "sint (mem_last_id ?m) + int k < 2 ^ 31 - 1" by (simp_all add: rec_rel_def)
  then have small: "sint (mem_last_id ?m) < 2 ^ 31 - 1" by simp
  from assms(2) have lib: "libc_ok lib" by (simp add: sync_setup_def)
  from holds_get [OF xs(1) lib id(1) small] obtain b eb w xs' where
    g: "dequeue_from_free_list (rc_lists s) (rc_world s) = Some (Dequeued b, eb, w)" "buffer_ok (w_mem w) b" "clean b"
    "pool_holds lib fl eb w xs'" "set xs' \<subseteq> set xs" "eb_bottom b \<notin> eb_bottom ` set xs'"
    "b \<in> set xs \<and> w = rc_world s \<or> xs = [] \<and> (b, w_mem w) = EventBuffers_create lib fl ?m" by blast
  have fresh: "eb_bottom (rc_buffers s u) \<noteq> eb_bottom b \<and> mem_block (w_mem w) (eb_bottom (rc_buffers s u)) = mem_block ?m (eb_bottom (rc_buffers s u))"
    if "EventBuffer_is_valid (rc_buffers s u)" for u
  proof (cases "b \<in> set xs \<and> w = rc_world s")
    case True
    with xs(3) that show ?thesis by (metis imageI)
  next
    case False
    with g(7) have c: "EventBuffers_create lib fl ?m = (b, w_mem w)" by simp
    from assms(1) that have "buffer_ok ?m (rc_buffers s u)" by (auto simp: rec_rel_def holds_events_def dest: spec [of _ u])
    moreover have "memory_ok ?m" using xs(1) by (auto simp: pool_holds_def pool_list_def)
    ultimately have "eb_bottom (rc_buffers s u) \<noteq> mem_next ?m" by (auto simp: buffer_ok_def memory_ok_def)
    with create_frame [OF c] show ?thesis by auto
  qed
  have b: "eb_end b \<le> limit" "0 \<le> sint (mem_last_id (w_mem w))" "sint (mem_last_id (w_mem w)) + int k \<le> 2 ^ 31 - 1"
    using g(7) xs(2) id next_id [OF id(1) small] assms(2) create_frame(3,4) [of lib fl ?m b "w_mem w"]
    by (auto simp: sync_setup_def)
  have valid: "EventBuffer_is_valid b" by (rule buffer_okD [OF g(2)])
  have own: "EventBuffer_is_valid (EventBuffer_set_owner b t)" "eb_bottom (EventBuffer_set_owner b t) = eb_bottom b"
    using valid by (simp_all add: EventBuffer_set_owner_def EventBuffer_is_valid_def)
  let ?bs = "(rc_buffers s)(t := EventBuffer_set_owner b t)"
  have "holds_events (w_mem w) anchors limit u (?bs u) ((ys(t := Sync_None)) u) (pend u)" for u
  proof (cases "u = t")
    case True
    from assms(1,3) have "pend t = []" by (auto simp: rec_rel_def holds_events_def dest: spec [of _ t])
    moreover have "EventBuffer_content (w_mem w) (EventBuffer_set_owner b t) = Some []"
      using content_ok [OF set_owner_ok [OF g(2), of t]] g(3) by (auto simp: clean_def EventBuffer_set_owner_def)
    ultimately show ?thesis using True own(1) set_owner_ok [OF g(2), of t] g(3) b(1)
      by (simp add: holds_events_def clean_def EventBuffer_set_owner_def)
  next
    case False
    from assms(1) have "holds_events ?m anchors limit u (rc_buffers s u) (ys u) (pend u)" by (simp add: rec_rel_def)
    from holds_frame [OF this] fresh [of u] False show ?thesis by simp
  qed
  moreover have "eb_bottom (?bs u) \<notin> eb_bottom ` set xs'" if "EventBuffer_is_valid (?bs u)" for u
    using that g(6) xs(3) [of u] own(2) image_mono [OF g(5), of eb_bottom] by (cases "u = t") (simp_all, blast)
  moreover have "eb_bottom (?bs u) \<noteq> eb_bottom (?bs v)" if "u \<noteq> v" "EventBuffer_is_valid (?bs u)" "EventBuffer_is_valid (?bs v)" for u v
    using that fresh [of u] fresh [of v] own(2) assms(1) by (auto simp: rec_rel_def split: if_splits)
  ultimately have "rec_rel lib fl anchors limit start k \<lparr>rc_buffers = ?bs, rc_lists = eb, rc_world = w, rc_io = rc_io s\<rparr> es pend (ys(t := Sync_None))"
    using g(4,5) xs(2) b rec_relD(3,4) [OF assms(1)] by (intro rec_relI [of _ _ _ xs']) auto
  with g(1,3) valid show ?thesis by (auto simp: clean_def)
qed

lemma flush_buffer_rel:
  assumes "rec_rel lib fl anchors limit start (if get_new then Suc k else k) s es pend ys" and "sync_setup lib fl limit"
  shows "\<exists>s'. flush_event_buffer fl get_new t s = Returns s'
    \<and> rec_rel lib fl anchors limit start k s' (es @ (if pend t = [] then [] else [(t, ys t, pend t)])) (pend(t := [])) (ys(t := Sync_None))
    \<and> (if get_new then EventBuffer_is_valid (rc_buffers s' t) \<and> eb_top (rc_buffers s' t) = 0 else rc_buffers s' t = dummy_buffer t)"
proof -
  let ?es = "es @ (if pend t = [] then [] else [(t, ys t, pend t)])"
  from hand_over_rel [OF assms, of t] obtain r eb w io where
    h: "Thread_hand_over fl (rc_buffers s t) (rc_lists s) (rc_world s) (rc_io s) = Some (r, eb, w, io)" "r \<noteq> Enqueue_waits"
    "rec_rel lib fl anchors limit start (if get_new then Suc k else k) \<lparr>rc_buffers = (rc_buffers s)(t := dummy_buffer t), rc_lists = eb, rc_world = w, rc_io = io\<rparr>
        ?es (pend(t := [])) ys" by blast
  show ?thesis
  proof (cases get_new)
    case True
    from take_rel [OF h(3) [unfolded if_P [OF True]] assms(2), of t] obtain b eb' w' where
      "dequeue_from_free_list eb w = Some (Dequeued b, eb', w')" "EventBuffer_is_valid b" "eb_top b = 0"
      "rec_rel lib fl anchors limit start k \<lparr>rc_buffers = (rc_buffers s)(t := EventBuffer_set_owner b t), rc_lists = eb', rc_world = w',
        rc_io = io\<rparr> ?es (pend(t := [])) (ys(t := Sync_None))" by auto
    with h True show ?thesis
      by (simp add: flush_event_buffer_def Thread_flush_event_buffer_def EventBuffer_set_owner_def EventBuffer_is_valid_def)
  next
    case False
    from rec_rel_level [OF h(3), of t k] False have "rec_rel lib fl anchors limit start k \<lparr>rc_buffers = (rc_buffers s)(t := dummy_buffer t),
        rc_lists = eb, rc_world = w, rc_io = io\<rparr> ?es (pend(t := [])) (ys(t := Sync_None))" by simp
    with h False show ?thesis
      by (simp add: flush_event_buffer_def Thread_flush_event_buffer_def dummy_buffer_def)
  qed
qed

section \<open>Recording an event\<close>

lemma allocate_room:
  assumes "buffer_ok m b" and "\<not> eb_is_compressed b" and "eb_top b + n * jint_size \<le> eb_end b"
  shows "EventBuffer_allocate b n = (Some (eb_top b), b\<lparr>eb_top := eb_top b + n * jint_size\<rparr>)"
    "buffer_ok m (b\<lparr>eb_top := eb_top b + n * jint_size\<rparr>)"
proof -
  show e: "EventBuffer_allocate b n = (Some (eb_top b), b\<lparr>eb_top := eb_top b + n * jint_size\<rparr>)"
    using assms(3) by (simp add: EventBuffer_allocate_def Let_def)
  from allocate_ok [OF assms(1,2) e] show "buffer_ok m (b\<lparr>eb_top := eb_top b + n * jint_size\<rparr>)" by simp
qed

text \<open>Storing the words of an event at the top of a buffer appends them to what the buffer holds.\<close>

lemma append_content:
  assumes "EventBuffer_content m b = Some bs" and "store_bytes m (eb_bottom b) (eb_top b) vs = Some m'"
  shows "EventBuffer_content m' (b\<lparr>eb_top := eb_top b + length vs\<rparr>) = Some (bs @ vs)"
  using load_append [of m' "eb_bottom b" 0 "eb_top b" bs "length vs" vs] load_store_same [OF assms(2)]
    load_store_before [OF assms(2), of 0 "eb_top b"] assms(1)
  by (simp add: EventBuffer_content_def)

lemma stored_block: "store_bytes m b i vs = Some m' \<Longrightarrow> c \<noteq> b \<Longrightarrow> mem_block m' c = mem_block m c"
  by (auto simp: store_bytes_def split: option.splits if_splits)

lemma stored_last_id: "store_bytes m b i vs = Some m' \<Longrightarrow> mem_last_id m' = mem_last_id m"
  by (auto simp: store_bytes_def split: option.splits if_splits)

lemma store_append:
  assumes "i + length (vs @ ws) \<le> length bs" and "mem_block m b = Some bs"
  shows "store_bytes m b i (vs @ ws) = Option.bind (store_bytes m b i vs) (\<lambda>m. store_bytes m b (i + length vs) ws)"
proof -
  have "length (take i bs) = i" using assms(1) by simp
  moreover have "drop (i + length vs + length ws) (take i bs @ vs @ drop (i + length vs) bs) = drop (i + (length vs + length ws)) bs"
    using assms(1) by (simp add: add.commute add.left_commute)
  moreover have "take (i + length vs) (take i bs @ vs @ drop (i + length vs) bs) = take i bs @ vs" using assms(1) by simp
  ultimately show ?thesis using assms by (simp add: store_bytes_def del: take_append drop_append)
qed

lemma length_words [simp]: "length (concat (map jint_bytes ws)) = length ws * jint_size"
  by (induction ws) simp_all

definition event_words :: "bool \<Rightarrow> fired \<Rightarrow> nat" where
  "event_words anchors f = fst (snd f) + (if anchors then 1 else 0)"

lemma length_event_bytes: "size_ok f \<Longrightarrow> length (event_bytes anchors [f]) = event_words anchors f * jint_size"
  by (cases f) (auto simp: event_bytes_def fire_event_def size_ok_def event_words_def write_anchor_def)

lemma append_rel:
  assumes "rec_rel lib fl anchors limit start k s es pend ys" and "EventBuffer_is_valid (rc_buffers s t)" and "size_ok f"
    and "eb_top (rc_buffers s t) + event_words anchors f * jint_size \<le> eb_end (rc_buffers s t)"
    and "store_bytes (w_mem (rc_world s)) (eb_bottom (rc_buffers s t)) (eb_top (rc_buffers s t)) (event_bytes anchors [f]) = Some m"
  shows "rec_rel lib fl anchors limit start k ((set_buffer t ((rc_buffers s t)\<lparr>eb_top := eb_top (rc_buffers s t) + event_words anchors f * jint_size\<rparr>) s)
      \<lparr>rc_world := (rc_world s)\<lparr>w_mem := m\<rparr>\<rparr>) es (pend(t := pend t @ [f])) ys"
proof -
  let ?b = "rc_buffers s t" and ?b' = "(rc_buffers s t)\<lparr>eb_top := eb_top (rc_buffers s t) + event_words anchors f * jint_size\<rparr>"
  from rec_rel_pool [OF assms(1)] obtain xs where xs: "pool_holds lib fl (rc_lists s) (rc_world s) xs" "\<And>b. b \<in> set xs \<Longrightarrow> eb_end b \<le> limit"
    "\<And>t. EventBuffer_is_valid (rc_buffers s t) \<Longrightarrow> eb_bottom (rc_buffers s t) \<notin> eb_bottom ` set xs" by blast
  from rec_relD(1) [OF assms(1), of t] assms(2) have b: "buffer_ok (w_mem (rc_world s)) ?b" "\<not> eb_is_compressed ?b" "eb_owner ?b = t"
    "eb_sync ?b = ys t" "eb_end ?b \<le> limit" "EventBuffer_content (w_mem (rc_world s)) ?b = Some (event_bytes anchors (pend t))"
    "\<forall>f \<in> set (pend t). size_ok f" by (auto simp: holds_events_def)
  have valid: "EventBuffer_is_valid ?b'" using assms(2) by (simp add: EventBuffer_is_valid_def)
  have "holds_events m anchors limit u (((rc_buffers s)(t := ?b')) u) (ys u) ((pend(t := pend t @ [f])) u)" for u
  proof (cases "u = t")
    case True
    have "buffer_ok m ?b'" using allocate_room(2) [OF b(1,2) assms(4)] store_buffer_ok [OF assms(5)] by blast
    moreover have "EventBuffer_content m ?b' = Some (event_bytes anchors (pend t @ [f]))"
      using append_content [OF b(6) assms(5)] length_event_bytes [OF assms(3), of anchors] by simp
    ultimately show ?thesis using True valid b assms(3) by (auto simp: holds_events_def)
  next
    case False
    from holds_frame [OF rec_relD(1) [OF assms(1)] stored_block [OF assms(5) rec_relD(2) [OF assms(1) False _ assms(2)]]] False
    show ?thesis by simp
  qed
  moreover have "pool_holds lib fl (rc_lists s) ((rc_world s)\<lparr>w_mem := m\<rparr>) xs"
    using xs(1) store_memory_ok [OF _ assms(5)] store_buffer_ok [OF assms(5)] by (auto simp: pool_holds_def pool_list_def)
  moreover have "EventBuffer_is_valid (((rc_buffers s)(t := ?b')) u) = EventBuffer_is_valid (rc_buffers s u)"
    "eb_bottom (((rc_buffers s)(t := ?b')) u) = eb_bottom (rc_buffers s u)" for u
    using valid assms(2) by simp_all
  ultimately show ?thesis using xs(2,3) rec_relD(2-6) [OF assms(1)] stored_last_id [OF assms(5)]
    by (intro rec_relI [of _ _ _ xs]) (simp_all add: set_buffer_def)
qed

lemma write_rel:
  assumes "rec_rel lib fl anchors limit start k s es pend ys" and "EventBuffer_is_valid (rc_buffers s t)" and "size_ok (e, n, ws)"
    and "eb_top (rc_buffers s t) + event_words anchors (e, n, ws) * jint_size \<le> eb_end (rc_buffers s t)"
  shows "\<exists>s'. and_then (store_words t (eb_top (rc_buffers s t)) ws
        (set_buffer t ((rc_buffers s t)\<lparr>eb_top := eb_top (rc_buffers s t) + event_words anchors (e, n, ws) * jint_size\<rparr>) s))
      (\<lambda>s'. if anchors then store_words t (eb_top (rc_buffers s t) + n * jint_size) (write_anchor e) s' else Returns s') = Returns s'
    \<and> rec_rel lib fl anchors limit start k s' es (pend(t := pend t @ [(e, n, ws)])) ys"
proof -
  let ?b = "rc_buffers s t" and ?m = "w_mem (rc_world s)"
  from rec_relD(1) [OF assms(1), of t] assms(2) obtain bs where bs: "mem_block ?m (eb_bottom ?b) = Some bs" "length bs = eb_end ?b"
    by (auto simp: holds_events_def buffer_ok_def)
  have bytes: "event_bytes anchors [(e, n, ws)] = concat (map jint_bytes ws) @ (if anchors then concat (map jint_bytes (write_anchor e)) else [])"
    by (simp add: event_bytes_def fire_event_def)
  have len: "eb_top ?b + length (event_bytes anchors [(e, n, ws)]) \<le> length bs"
    using assms(4) length_event_bytes [OF assms(3), of anchors] bs(2) by simp
  from store_inside [OF bs(1) len] obtain m where m: "store_bytes ?m (eb_bottom ?b) (eb_top ?b) (event_bytes anchors [(e, n, ws)]) = Some m" by blast
  have "length ws = n" using assms(3) by (simp add: size_ok_def)
  have "and_then (store_words t (eb_top ?b) ws (set_buffer t (?b\<lparr>eb_top := eb_top ?b + event_words anchors (e, n, ws) * jint_size\<rparr>) s))
      (\<lambda>s'. if anchors then store_words t (eb_top ?b + n * jint_size) (write_anchor e) s' else Returns s')
    = Returns ((set_buffer t (?b\<lparr>eb_top := eb_top ?b + event_words anchors (e, n, ws) * jint_size\<rparr>) s)\<lparr>rc_world := (rc_world s)\<lparr>w_mem := m\<rparr>\<rparr>)"
  proof (cases anchors)
    case True
    with m len \<open>length ws = n\<close>
      store_append [OF _ bs(1), of "eb_top ?b" "concat (map jint_bytes ws)" "concat (map jint_bytes (write_anchor e))"]
    obtain m1 where "store_bytes ?m (eb_bottom ?b) (eb_top ?b) (concat (map jint_bytes ws)) = Some m1"
      "store_bytes m1 (eb_bottom ?b) (eb_top ?b + n * jint_size) (concat (map jint_bytes (write_anchor e))) = Some m"
      unfolding bytes by (auto split: Option.bind_splits)
    then show ?thesis using True by (simp add: store_words_def set_buffer_def)
  next
    case False
    with m show ?thesis unfolding bytes by (simp add: store_words_def set_buffer_def)
  qed
  with append_rel [OF assms m] show ?thesis by blast
qed

text \<open>Between operations no buffer has a synchronization level.\<close>

abbreviation recorder_rel :: "libc \<Rightarrow> trace_flags \<Rightarrow> bool \<Rightarrow> nat \<Rightarrow> byte list \<Rightarrow> nat \<Rightarrow> recorder \<Rightarrow> log_entry list \<Rightarrow> (nat \<Rightarrow> fired list) \<Rightarrow> bool" where
  "recorder_rel lib fl anchors limit start k s es pend \<equiv> rec_rel lib fl anchors limit start k s es pend (\<lambda>_. Sync_None)"

lemma record_event_alloc:
  assumes "EventBuffer_allocate (rc_buffers s' t) (event_words anchors (e, n, ws)) = (Some p, b)"
    and "s' = s \<or> fst (EventBuffer_allocate (rc_buffers s t) (event_words anchors (e, n, ws))) = None \<and> flush_event_buffer fl True t s = Returns s'"
  shows "record_event fl anchors t (e, n, ws) s = and_then (store_words t p ws (set_buffer t b s'))
     (\<lambda>s. if anchors then store_words t (p + n * jint_size) (write_anchor e) s else Returns s)"
  using assms by (auto simp: record_event_def allocate_event_def event_words_def split: prod.splits option.splits)

lemma record_rel:
  assumes "recorder_rel lib fl anchors limit start (Suc k) s es pend" and "sync_setup lib fl limit" and "size_ok f"
  shows "\<exists>s' es' rest. record_event fl anchors t f s = Returns s' \<and> recorder_rel lib fl anchors limit start k s' (es @ es') (pend(t := rest @ [f]))
    \<and> (es' = [] \<and> rest = pend t \<or> es' = [(t, Sync_None, pend t)] \<and> rest = [])"
proof -
  obtain e n ws where f: "f = (e, n, ws)" by (cases f)
  let ?n = "event_words anchors (e, n, ws) * jint_size"
  have words: "0 < ?n" "?n \<le> MAX_EVENT_SIZE * jint_size"
    using assms(3) by (simp_all add: f size_ok_def event_words_def)
  show ?thesis
  proof (cases "eb_top (rc_buffers s t) + ?n \<le> eb_end (rc_buffers s t)")
    case True
    with words(1) have valid: "EventBuffer_is_valid (rc_buffers s t)"
      using rec_relD(1) [OF assms(1), of t] by (auto simp: holds_events_def split: if_splits)
    from True have "EventBuffer_allocate (rc_buffers s t) (event_words anchors (e, n, ws))
        = (Some (eb_top (rc_buffers s t)), (rc_buffers s t)\<lparr>eb_top := eb_top (rc_buffers s t) + ?n\<rparr>)"
      by (simp add: EventBuffer_allocate_def Let_def)
    from record_event_alloc [OF this, of s fl] write_rel [OF rec_rel_mono [OF assms(1), of k] valid assms(3) [unfolded f] True]
    obtain s' where "record_event fl anchors t f s = Returns s'" "recorder_rel lib fl anchors limit start k s' es (pend(t := pend t @ [f]))"
      by (auto simp: f)
    then show ?thesis by (intro exI [of _ s'] exI [of _ "[]"] exI [of _ "pend t"]) simp
  next
    case False
    from flush_buffer_rel [where get_new = True, OF _ assms(2), of anchors start k s es pend "\<lambda>_. Sync_None" t] assms(1) obtain s' where
      s': "flush_event_buffer fl True t s = Returns s'" "EventBuffer_is_valid (rc_buffers s' t)" "eb_top (rc_buffers s' t) = 0"
      "recorder_rel lib fl anchors limit start k s' (es @ (if pend t = [] then [] else [(t, Sync_None, pend t)])) (pend(t := []))"
      by (auto simp: fun_upd_idem)
    have "MAX_EVENT_SIZE * jint_size \<le> eb_end (rc_buffers s' t)"
      using rec_relD(1) [OF s'(4), of t] s'(2) by (auto simp: holds_events_def buffer_ok_def)
    with words(2) s'(3) have room: "eb_top (rc_buffers s' t) + ?n \<le> eb_end (rc_buffers s' t)" by simp
    then have "EventBuffer_allocate (rc_buffers s' t) (event_words anchors (e, n, ws))
        = (Some (eb_top (rc_buffers s' t)), (rc_buffers s' t)\<lparr>eb_top := eb_top (rc_buffers s' t) + ?n\<rparr>)"
      by (simp add: EventBuffer_allocate_def Let_def)
    moreover have "fst (EventBuffer_allocate (rc_buffers s t) (event_words anchors (e, n, ws))) = None"
      using False by (simp add: EventBuffer_allocate_def Let_def)
    ultimately have "record_event fl anchors t f s = and_then (store_words t (eb_top (rc_buffers s' t)) ws
        (set_buffer t ((rc_buffers s' t)\<lparr>eb_top := eb_top (rc_buffers s' t) + ?n\<rparr>) s'))
      (\<lambda>s. if anchors then store_words t (eb_top (rc_buffers s' t) + n * jint_size) (write_anchor e) s else Returns s)"
      unfolding f using s'(1) by (intro record_event_alloc) auto
    with write_rel [OF s'(4,2) assms(3) [unfolded f] room] obtain s'' where "record_event fl anchors t f s = Returns s''"
      "recorder_rel lib fl anchors limit start k s'' (es @ (if pend t = [] then [] else [(t, Sync_None, pend t)])) (pend(t := [] @ [f]))"
      by (auto simp: f)
    then show ?thesis
      by (intro exI [of _ s''] exI [of _ "if pend t = [] then [] else [(t, Sync_None, pend t)]"] exI [of _ "[]"]) simp
  qed
qed

section \<open>No operation loses an event\<close>

definition events_of :: "nat \<Rightarrow> log_entry list \<Rightarrow> fired list" where
  "events_of u es = concat (map (\<lambda>(t, y, fs). fs) (filter (\<lambda>(t, y, fs). t = u) es))"

lemma events_of_simps [simp]:
  "events_of u [] = []"
  "events_of u (es @ es') = events_of u es @ events_of u es'"
  "events_of u [(t, y, fs)] = (if t = u then fs else [])"
  by (simp_all add: events_of_def)

text \<open>The file only grows, a thread's events are in the file and in its buffer, in order, and the only new
  events are \<open>fs\<close>, of the thread \<open>t\<close>.\<close>

definition kept :: "log_entry list \<Rightarrow> (nat \<Rightarrow> fired list) \<Rightarrow> nat \<Rightarrow> fired list \<Rightarrow> log_entry list \<Rightarrow> (nat \<Rightarrow> fired list) \<Rightarrow> bool" where
  "kept es pend t fs es' pend' \<longleftrightarrow> (\<exists>more. es' = es @ more)
    \<and> (\<forall>u. events_of u es' @ pend' u = events_of u es @ pend u @ (if u = t then fs else []))
    \<and> (\<forall>u. u \<noteq> t \<longrightarrow> pend u = [] \<longrightarrow> pend' u = [])"

lemma kept_refl: "kept es pend t [] es pend"
  by (simp add: kept_def)

lemma kept_trans:
  assumes "kept es pend t fs es1 pend1" and "kept es1 pend1 t gs es2 pend2"
  shows "kept es pend t (fs @ gs) es2 pend2"
  unfolding kept_def
proof (intro conjI allI impI)
  from assms show "\<exists>more. es2 = es @ more" by (auto simp: kept_def)
  fix u
  from assms have "events_of u es2 @ pend2 u = (events_of u es1 @ pend1 u) @ (if u = t then gs else [])"
    "events_of u es1 @ pend1 u = events_of u es @ pend u @ (if u = t then fs else [])" by (simp_all add: kept_def)
  then show "events_of u es2 @ pend2 u = events_of u es @ pend u @ (if u = t then fs @ gs else [])" by simp
  assume "u \<noteq> t" "pend u = []"
  with assms show "pend2 u = []" by (simp add: kept_def)
qed

lemma kept_flush: "kept es pend t [] (es @ (if pend v = [] then [] else [(v, y, pend v)])) (pend(v := []))"
  by (auto simp: kept_def)

lemma kept_record:
  "es' = [] \<and> rest = pend t \<or> es' = [(t, y, pend t)] \<and> rest = [] \<Longrightarrow> kept es pend t [f] (es @ es') (pend(t := rest @ [f]))"
  by (auto simp: kept_def)

text \<open>The operations one after the other: each starts in a state that is related to a log and ends in one.\<close>

lemma flush_kept:
  assumes "recorder_rel lib fl anchors limit start k s es pend" and "sync_setup lib fl limit"
  shows "\<exists>s' es' pend'. flush_event_buffer fl False v s = Returns s' \<and> recorder_rel lib fl anchors limit start k s' es' pend'
    \<and> kept es pend t [] es' pend' \<and> pend' v = []"
  using flush_buffer_rel [where get_new = False, OF _ assms(2), of anchors start k s es pend "\<lambda>_. Sync_None" v] assms(1) kept_flush
  by (fastforce simp: fun_upd_idem)

lemma record_events_kept:
  assumes "recorder_rel lib fl anchors limit start (length fs + k) s es pend" and "sync_setup lib fl limit" and "\<forall>f \<in> set fs. size_ok f"
  shows "\<exists>s' es' pend'. record_events fl anchors t fs s = Returns s' \<and> recorder_rel lib fl anchors limit start k s' es' pend'
    \<and> kept es pend t fs es' pend'"
  using assms
proof (induction fs arbitrary: s es pend)
  case Nil
  then show ?case using kept_refl by force
next
  case (Cons f fs)
  from record_rel [of lib fl anchors limit start "length fs + k" s es pend f t] Cons.prems obtain s1 es1 rest where
    1: "record_event fl anchors t f s = Returns s1" "recorder_rel lib fl anchors limit start (length fs + k) s1 (es @ es1) (pend(t := rest @ [f]))"
    "es1 = [] \<and> rest = pend t \<or> es1 = [(t, Sync_None, pend t)] \<and> rest = []" by auto
  have "\<forall>f \<in> set fs. size_ok f" using Cons.prems(3) by simp
  from Cons.IH [OF 1(2) Cons.prems(2) this] obtain s2 es2 pend2 where
    2: "record_events fl anchors t fs s1 = Returns s2" "recorder_rel lib fl anchors limit start k s2 es2 pend2"
    "kept (es @ es1) (pend(t := rest @ [f])) t fs es2 pend2" by blast
  have "kept es pend t (f # fs) es2 pend2" 
    using kept_trans [OF kept_record [of es1 rest pend t Sync_None es f] 2(3)] 1(3) by simp
  with 1(1) 2(1,2) show ?case by auto
qed

lemma do_thread0_kept:
  assumes "recorder_rel lib fl anchors limit start (length (snd v) + k) s es pend" and "sync_setup lib fl limit"
    and "\<forall>f \<in> set (snd v). size_ok f"
  shows "\<exists>s' es' pend'. do_thread0 fl anchors t v s = Returns s' \<and> recorder_rel lib fl anchors limit start k s' es' pend'
    \<and> kept es pend t (snd v) es' pend' \<and> pend' (fst v) = []"
proof -
  from record_events_kept [OF assms] obtain s1 es1 pend1 where 1: "record_events fl anchors t (snd v) s = Returns s1"
    "recorder_rel lib fl anchors limit start k s1 es1 pend1" "kept es pend t (snd v) es1 pend1" by blast
  from flush_kept [OF 1(2) assms(2), of "fst v" t] obtain s2 es2 pend2 where 2: "flush_event_buffer fl False (fst v) s1 = Returns s2"
    "recorder_rel lib fl anchors limit start k s2 es2 pend2" "kept es1 pend1 t [] es2 pend2" "pend2 (fst v) = []" by blast
  with 1(1) kept_trans [OF 1(3) 2(3)] show ?thesis by (auto simp: do_thread0_def split_beta)
qed

lemma do_threads_kept:
  assumes "recorder_rel lib fl anchors limit start (length (concat (map snd (filter (\<lambda>v. fst v \<noteq> t \<and> condition (fst v)) vs))) + k) s es pend"
    and "sync_setup lib fl limit" and "\<forall>f \<in> set (concat (map snd (filter (\<lambda>v. fst v \<noteq> t \<and> condition (fst v)) vs))). size_ok f"
  shows "\<exists>s' es' pend'. do_threads fl anchors condition t vs s = Returns s' \<and> recorder_rel lib fl anchors limit start k s' es' pend'
    \<and> kept es pend t (concat (map snd (filter (\<lambda>v. fst v \<noteq> t \<and> condition (fst v)) vs))) es' pend'
    \<and> (\<forall>v \<in> set vs. fst v \<noteq> t \<longrightarrow> condition (fst v) \<longrightarrow> pend' (fst v) = [])"
  using assms
proof (induction vs arbitrary: s es pend)
  case Nil
  then show ?case using kept_refl by force
next
  case (Cons v vs)
  show ?case
  proof (cases "fst v \<noteq> t \<and> condition (fst v)")
    case False
    with Cons.IH [of s es pend] Cons.prems show ?thesis by auto
  next
    case True
    let ?rest = "concat (map snd (filter (\<lambda>v. fst v \<noteq> t \<and> condition (fst v)) vs))"
    from do_thread0_kept [of lib fl anchors limit start v "length ?rest + k" s es pend t] Cons.prems True obtain s1 es1 pend1 where
      1: "do_thread0 fl anchors t v s = Returns s1" "recorder_rel lib fl anchors limit start (length ?rest + k) s1 es1 pend1"
      "kept es pend t (snd v) es1 pend1" "pend1 (fst v) = []" by (auto simp: add.assoc)
    from Cons.IH [OF 1(2) Cons.prems(2)] Cons.prems(3) True obtain s2 es2 pend2 where
      2: "do_threads fl anchors condition t vs s1 = Returns s2" "recorder_rel lib fl anchors limit start k s2 es2 pend2"
      "kept es1 pend1 t ?rest es2 pend2" "\<forall>v \<in> set vs. fst v \<noteq> t \<longrightarrow> condition (fst v) \<longrightarrow> pend2 (fst v) = []" by auto
    have "pend2 (fst v) = []" using 2(3) 1(4) True by (simp add: kept_def)
    with 1(1) 2 kept_trans [OF 1(3) 2(3)] True show ?thesis by auto
  qed
qed

lemma closure_kept:
  assumes "recorder_rel lib fl anchors limit start (length (retired_events condition t visited own) + k) s es pend"
    and "sync_setup lib fl limit" and "\<forall>f \<in> set (retired_events condition t visited own). size_ok f"
  shows "\<exists>s' es' pend'. FlushBufferThreadClosure fl anchors condition t visited own s = Returns s'
    \<and> recorder_rel lib fl anchors limit start k s' es' pend' \<and> kept es pend t (retired_events condition t visited own) es' pend'
    \<and> (\<forall>u \<in> insert t (fst ` set visited). condition u \<longrightarrow> pend' u = [])"
proof -
  let ?rest = "concat (map snd (filter (\<lambda>v. fst v \<noteq> t \<and> condition (fst v)) visited))" and ?own = "if condition t then own else []"
  from do_threads_kept [of lib fl anchors limit start t condition visited "length ?own + k" s es pend] assms obtain s1 es1 pend1 where
    1: "do_threads fl anchors condition t visited s = Returns s1" "recorder_rel lib fl anchors limit start (length ?own + k) s1 es1 pend1"
    "kept es pend t ?rest es1 pend1" "\<forall>v \<in> set visited. fst v \<noteq> t \<longrightarrow> condition (fst v) \<longrightarrow> pend1 (fst v) = []"
    by (auto simp: retired_events_def add.assoc simp del: if_split)
  show ?thesis
  proof (cases "condition t")
    case True
    with do_thread0_kept [of lib fl anchors limit start "(t, own)" k s1 es1 pend1 t] 1(2) assms(2,3) obtain s2 es2 pend2 where
      2: "do_thread0 fl anchors t (t, own) s1 = Returns s2" "recorder_rel lib fl anchors limit start k s2 es2 pend2"
      "kept es1 pend1 t own es2 pend2" "pend2 t = []" by (auto simp: retired_events_def)
    have "pend2 u = []" if "u \<in> insert t (fst ` set visited)" "condition u" for u
      using that 1(4) 2(3,4) by (cases "u = t") (auto simp: kept_def)
    with 1(1) 2(1,2) kept_trans [OF 1(3) 2(3)] True show ?thesis
      by (auto simp: FlushBufferThreadClosure_def retired_events_def)
  next
    case False
    have "pend1 u = []" if "u \<in> insert t (fst ` set visited)" "condition u" for u using that 1(4) False by auto
    with 1(1-3) False show ?thesis by (auto simp: FlushBufferThreadClosure_def retired_events_def)
  qed
qed

lemma level_rel:
  assumes "recorder_rel lib fl anchors limit start k s es pend"
  shows "rec_rel lib fl anchors limit start k (set_buffer t ((rc_buffers s t)\<lparr>eb_sync := MAX2 (eb_sync (rc_buffers s t)) level\<rparr>) s) es pend
    ((\<lambda>_. Sync_None)(t := level))"
proof -
  let ?b = "(rc_buffers s t)\<lparr>eb_sync := MAX2 (eb_sync (rc_buffers s t)) level\<rparr>"
  from rec_rel_pool [OF assms] obtain xs where xs: "pool_holds lib fl (rc_lists s) (rc_world s) xs" "\<And>b. b \<in> set xs \<Longrightarrow> eb_end b \<le> limit"
    "\<And>t. EventBuffer_is_valid (rc_buffers s t) \<Longrightarrow> eb_bottom (rc_buffers s t) \<notin> eb_bottom ` set xs" by blast
  have max: "MAX2 Sync_None level = level" by (cases level) (simp_all add: MAX2_def)
  have "EventBuffer_is_valid (((rc_buffers s)(t := ?b)) u) = EventBuffer_is_valid (rc_buffers s u)"
    "eb_bottom (((rc_buffers s)(t := ?b)) u) = eb_bottom (rc_buffers s u)" for u by (simp_all add: EventBuffer_is_valid_def)
  moreover have "holds_events (w_mem (rc_world s)) anchors limit u (((rc_buffers s)(t := ?b)) u) (((\<lambda>_. Sync_None)(t := level)) u) (pend u)" for u
    using rec_relD(1) [OF assms, of u] max
    by (cases "u = t") (auto simp: holds_events_def EventBuffer_is_valid_def buffer_ok_def EventBuffer_assert_is_valid_def
        EventBuffer_get_raw_length_def EventBuffer_content_def split: if_splits)
  ultimately show ?thesis using xs rec_relD(2-6) [OF assms]
    by (intro rec_relI [of _ _ _ xs]) (simp_all add: set_buffer_def)
qed

lemma record_flush_kept:
  assumes "recorder_rel lib fl anchors limit start (Suc k) s es pend" and "sync_setup lib fl limit" and "size_ok f"
  shows "\<exists>s' rest es' pend'. and_then (record_event fl anchors t f s) (\<lambda>s. flush_event_buffer fl False t
        (set_buffer t ((rc_buffers s t)\<lparr>eb_sync := MAX2 (eb_sync (rc_buffers s t)) level\<rparr>) s)) = Returns s'
    \<and> recorder_rel lib fl anchors limit start k s' (es' @ [(t, level, rest @ [f])]) pend' \<and> kept es pend t [f] (es' @ [(t, level, rest @ [f])]) pend'
    \<and> pend' = pend(t := []) \<and> (pend t = [] \<longrightarrow> rest = [])"
proof -
  from record_rel [OF assms, of t] obtain s1 es1 rest where
    1: "record_event fl anchors t f s = Returns s1" "recorder_rel lib fl anchors limit start k s1 (es @ es1) (pend(t := rest @ [f]))"
    "es1 = [] \<and> rest = pend t \<or> es1 = [(t, Sync_None, pend t)] \<and> rest = []" by blast
  let ?s = "set_buffer t ((rc_buffers s1 t)\<lparr>eb_sync := MAX2 (eb_sync (rc_buffers s1 t)) level\<rparr>) s1"
  from flush_buffer_rel [where get_new = False and t = t, OF _ assms(2)] level_rel [OF 1(2), of t level] obtain s2 where
    2: "flush_event_buffer fl False t ?s = Returns s2"
    "recorder_rel lib fl anchors limit start k s2 (es @ es1 @ [(t, level, rest @ [f])]) (pend(t := []))"
    by (force simp: fun_upd_idem)
  have "kept es pend t [f] (es @ es1 @ [(t, level, rest @ [f])]) (pend(t := []))" using 1(3) by (auto simp: kept_def)
  with 1(1,3) 2 show ?thesis by (intro exI [of _ s2] exI [of _ rest] exI [of _ "es @ es1"] exI [of _ "pend(t := [])"]) auto
qed

lemma enter_kept:
  assumes "recorder_rel lib fl anchors limit start (length (enter_events gc t level gc_only visited own) + k) s es pend"
    and "sync_setup lib fl limit" and "\<forall>f \<in> set (enter_events gc t level gc_only visited own). size_ok f"
  shows "\<exists>s1 es1 pend1. (if gc_only then flush_gc_threads fl anchors gc t visited own s
              else if level = Sync_Full then flush_all fl anchors t visited own s else Returns s) = Returns s1
      \<and> recorder_rel lib fl anchors limit start k s1 es1 pend1 \<and> kept es pend t (enter_events gc t level gc_only visited own) es1 pend1
      \<and> (level = Sync_Full \<and> \<not> gc_only \<longrightarrow> (\<forall>u \<in> insert t (fst ` set visited). pend1 u = []))"
proof -
  consider "gc_only" | "\<not> gc_only" "level = Sync_Full" | "\<not> gc_only" "level \<noteq> Sync_Full" by blast
  then show ?thesis
  proof cases
    case 1
    then have "enter_events gc t level gc_only visited own = retired_events gc t visited own" by (simp add: enter_events_def)
    with closure_kept [of lib fl anchors limit start gc t visited own k s es pend] assms 1 show ?thesis
      unfolding flush_gc_threads_def by simp blast
  next
    case 2
    then have "enter_events gc t level gc_only visited own = retired_events (\<lambda>_. True) t visited own" by (simp add: enter_events_def)
    with closure_kept [of lib fl anchors limit start "\<lambda>_. True" t visited own k s es pend] assms 2 show ?thesis
      unfolding flush_all_def by simp
  next
    case 3
    then have "enter_events gc t level gc_only visited own = []" by (simp add: enter_events_def)
    with assms(1) 3 kept_refl [of es pend t] show ?thesis by auto
  qed
qed

lemma sync_kept:
  assumes "recorder_rel lib fl anchors limit start (length (op_events gc (Synchronize t level gc_only visited own f)) + k) s es pend"
    and "sync_setup lib fl limit" and "\<forall>f \<in> set (op_events gc (Synchronize t level gc_only visited own f)). size_ok f"
  shows "\<exists>s' rest es' pend'. record_event_sync fl anchors gc t level gc_only visited own f s = Returns s'
    \<and> recorder_rel lib fl anchors limit start k s' (es' @ [(t, level, rest @ [f])]) pend'
    \<and> kept es pend t (op_events gc (Synchronize t level gc_only visited own f)) (es' @ [(t, level, rest @ [f])]) pend'
    \<and> (level = Sync_Full \<and> \<not> gc_only \<longrightarrow> rest = [] \<and> (\<forall>u \<in> insert t (fst ` set visited). pend' u = []))"
proof -
  let ?first = "enter_events gc t level gc_only visited own"
  have "recorder_rel lib fl anchors limit start (length ?first + Suc k) s es pend" using assms(1) by simp
  moreover have ok: "\<forall>f \<in> set ?first. size_ok f" "size_ok f" using assms(3) by simp_all
  ultimately have "\<exists>s1 es1 pend1. (if gc_only then flush_gc_threads fl anchors gc t visited own s
              else if level = Sync_Full then flush_all fl anchors t visited own s else Returns s) = Returns s1
      \<and> recorder_rel lib fl anchors limit start (Suc k) s1 es1 pend1 \<and> kept es pend t ?first es1 pend1
      \<and> (level = Sync_Full \<and> \<not> gc_only \<longrightarrow> (\<forall>u \<in> insert t (fst ` set visited). pend1 u = []))"
    by (intro enter_kept [OF _ assms(2)])
  then obtain s1 es1 pend1 where 1: "(if gc_only then flush_gc_threads fl anchors gc t visited own s
              else if level = Sync_Full then flush_all fl anchors t visited own s else Returns s) = Returns s1"
      "recorder_rel lib fl anchors limit start (Suc k) s1 es1 pend1" "kept es pend t ?first es1 pend1"
      "level = Sync_Full \<and> \<not> gc_only \<longrightarrow> (\<forall>u \<in> insert t (fst ` set visited). pend1 u = [])" by blast
  from record_flush_kept [OF 1(2) assms(2) ok(2), of t level] obtain s2 rest es2 pend2 where
    2: "and_then (record_event fl anchors t f s1) (\<lambda>s. flush_event_buffer fl False t
        (set_buffer t ((rc_buffers s t)\<lparr>eb_sync := MAX2 (eb_sync (rc_buffers s t)) level\<rparr>) s)) = Returns s2"
    "recorder_rel lib fl anchors limit start k s2 (es2 @ [(t, level, rest @ [f])]) pend2"
    "kept es1 pend1 t [f] (es2 @ [(t, level, rest @ [f])]) pend2" "pend2 = pend1(t := [])" "pend1 t = [] \<longrightarrow> rest = []" by blast
  have "record_event_sync fl anchors gc t level gc_only visited own f s = Returns s2"
    unfolding record_event_sync_def 1(1) and_then.simps by (rule 2(1))
  moreover have "kept es pend t (op_events gc (Synchronize t level gc_only visited own f)) (es2 @ [(t, level, rest @ [f])]) pend2"
    using kept_trans [OF 1(3) 2(3)] by simp
  moreover have "level = Sync_Full \<and> \<not> gc_only \<longrightarrow> rest = [] \<and> (\<forall>u \<in> insert t (fst ` set visited). pend2 u = [])"
    using 1(4) 2(4,5) by auto
  ultimately show ?thesis using 2(2) by blast
qed

lemma perform_kept:
  assumes "recorder_rel lib fl anchors limit start (length (op_events gc op) + k) s es pend" and "sync_setup lib fl limit"
    and "\<forall>f \<in> set (op_events gc op). size_ok f"
  shows "\<exists>s' es' pend'. perform fl anchors gc op s = Returns s' \<and> recorder_rel lib fl anchors limit start k s' es' pend'
    \<and> kept es pend (op_thread op) (op_events gc op) es' pend'"
proof (cases op)
  case (Record t f)
  from record_rel [of lib fl anchors limit start k s es pend f t] assms obtain s1 es1 rest where
    1: "record_event fl anchors t f s = Returns s1" "recorder_rel lib fl anchors limit start k s1 (es @ es1) (pend(t := rest @ [f]))"
    "es1 = [] \<and> rest = pend t \<or> es1 = [(t, Sync_None, pend t)] \<and> rest = []" by (auto simp: Record)
  from kept_record [of es1 rest pend t Sync_None es f] 1(3) have "kept es pend (op_thread op) (op_events gc op) (es @ es1) (pend(t := rest @ [f]))" by (simp add: Record)
  with 1(1,2) show ?thesis unfolding Record perform.simps by blast
next
  case (Synchronize t level gc_only visited own f)
  from sync_kept [OF assms(1) [unfolded Synchronize] assms(2) assms(3) [unfolded Synchronize]] show ?thesis
    unfolding Synchronize perform.simps op_thread.simps by blast
next
  case (Flush_all t visited own)
  from closure_kept [OF assms(1) [unfolded Flush_all op_events.simps] assms(2) assms(3) [unfolded Flush_all op_events.simps]] show ?thesis
    unfolding Flush_all perform.simps op_thread.simps op_events.simps flush_all_def by blast
next
  case (Flush t)
  with assms(1) have "recorder_rel lib fl anchors limit start k s es pend" by simp
  from flush_kept [OF this assms(2), of t t] show ?thesis
    unfolding Flush perform.simps op_thread.simps op_events.simps by blast
qed

lemma perform_all_append:
  "perform_all fl anchors gc ops s = Returns s' \<Longrightarrow> perform_all fl anchors gc (ops @ ops') s = perform_all fl anchors gc ops' s'"
proof (induction ops arbitrary: s)
  case (Cons op ops)
  then show ?case by (cases "perform fl anchors gc op s") simp_all
qed simp

lemma perform_all_kept:
  assumes "recorder_rel lib fl anchors limit start (length (concat (map (op_events gc) ops)) + k) s es pend" and "sync_setup lib fl limit"
    and "\<forall>f \<in> set (concat (map (op_events gc) ops)). size_ok f"
  shows "\<exists>s' es' pend'. perform_all fl anchors gc ops s = Returns s' \<and> recorder_rel lib fl anchors limit start k s' es' pend'
    \<and> (\<forall>u. events_of u es' @ pend' u = events_of u es @ pend u @ recorded_by gc u ops)
    \<and> (\<forall>u. u \<notin> op_thread ` set ops \<longrightarrow> pend u = [] \<longrightarrow> pend' u = [])"
  using assms
proof (induction ops arbitrary: s es pend)
  case Nil
  then show ?case by (auto simp: recorded_by_def)
next
  case (Cons op ops)
  let ?n = "length (concat (map (op_events gc) ops)) + k"
  have n: "recorder_rel lib fl anchors limit start (length (op_events gc op) + ?n) s es pend" using Cons.prems(1) by (simp add: add.assoc)
  have ok: "\<forall>f \<in> set (op_events gc op). size_ok f" "\<forall>f \<in> set (concat (map (op_events gc) ops)). size_ok f" using Cons.prems(3) by auto
  from perform_kept [OF n Cons.prems(2) ok(1)] obtain s1 es1 pend1 where 1: "perform fl anchors gc op s = Returns s1"
    "recorder_rel lib fl anchors limit start ?n s1 es1 pend1" "kept es pend (op_thread op) (op_events gc op) es1 pend1" by blast
  from Cons.IH [OF 1(2) Cons.prems(2) ok(2)] obtain s2 es2 pend2 where 2: "perform_all fl anchors gc ops s1 = Returns s2"
    "recorder_rel lib fl anchors limit start k s2 es2 pend2"
    "\<And>u. events_of u es2 @ pend2 u = events_of u es1 @ pend1 u @ recorded_by gc u ops"
    "\<And>u. u \<notin> op_thread ` set ops \<Longrightarrow> pend1 u = [] \<Longrightarrow> pend2 u = []" by blast
  have "events_of u es2 @ pend2 u = events_of u es @ pend u @ recorded_by gc u (op # ops)" for u
  proof -
    have "events_of u es1 @ pend1 u = events_of u es @ pend u @ (if u = op_thread op then op_events gc op else [])"
      using 1(3) by (simp add: kept_def)
    with 2(3) [of u] show ?thesis by (simp add: recorded_by_def)
  qed
  moreover have "u \<notin> op_thread ` set (op # ops) \<Longrightarrow> pend u = [] \<Longrightarrow> pend2 u = []" for u using 2(4) [of u] 1(3) by (simp add: kept_def)
  ultimately show ?case using 1(1) 2(1,2) by auto
qed

section \<open>The trace file\<close>

lemma init_rel:
  assumes "open_content io = Some start" and "int k \<le> 2 ^ 31 - 1"
  shows "recorder_rel lib fl anchors limit start k (recorder_init lib fl io) [] (\<lambda>_. [])"
proof (rule rec_relI [of _ _ _ "[]"])
  have "memory_ok memory_init" by (simp add: memory_ok_def memory_init_def)
  then show "pool_holds lib fl (rc_lists (recorder_init lib fl io)) (rc_world (recorder_init lib fl io)) []"
    using holds_init [of "\<lparr>w_mem = memory_init, w_flush_overflows = 0\<rparr>"] by (simp add: recorder_init_def)
qed (use assms in \<open>simp_all add: recorder_init_def memory_init_def\<close>)

definition parsed_entry :: "bool \<Rightarrow> log_entry \<Rightarrow> QueueEntry" where
  "parsed_entry anchors = (\<lambda>(t, y, fs). \<lparr>qe_thread = of_nat t, qe_buffer = event_bytes anchors fs, qe_compressed = False, qe_sync = Some y\<rparr>)"

lemma parse_log:
  assumes "recorder_rel lib fl anchors MEMORY_LOAD (trace_header h 0) k s es pend" and "length h < 2 ^ 31"
  shows "Option.bind (open_content (rc_io s)) (TraceParser_parse h) = Some (map (parsed_entry anchors) es)"
proof -
  let ?entry = "\<lambda>(t, y, fs). (t, False, y, event_bytes anchors fs)"
  have "\<forall>(owner, c, y, data) \<in> set (map ?entry es). length data \<le> MEMORY_LOAD" using rec_relD(4) [OF assms(1)] by auto
  from dispatch_records [OF this] have "TraceParser_dispatch (concat (map (entry_bytes anchors) es)) = map (parsed_entry anchors) es"
    by (simp add: comp_def split_def entry_bytes_def parsed_entry_def)
  then show ?thesis using rec_relD(3) [OF assms(1)] by (simp add: TraceParser_parse_def header_read [OF assms(2)])
qed

lemma create_start:
  assumes "EventsWriter_create h path n disk time = Some io"
  shows "open_content io = Some (trace_header h 0)"
  using create_file_content [of h time "AllocationTracingIO_create path n disk"] assms
  by (auto simp: EventsWriter_create_def AllocationTracingIO_create_def)

text \<open>What the buffer of a thread holds.\<close>

definition buffered :: "recorder \<Rightarrow> nat \<Rightarrow> byte list option" where
  "buffered s u = (if EventBuffer_is_valid (rc_buffers s u) then EventBuffer_content (w_mem (rc_world s)) (rc_buffers s u) else Some [])"

lemma buffered_rel: "recorder_rel lib fl anchors limit start k s es pend \<Longrightarrow> buffered s u = Some (event_bytes anchors (pend u))"
  using rec_relD(1) [of lib fl anchors limit start k s es pend "\<lambda>_. Sync_None" u] by (auto simp: buffered_def holds_events_def)

lemma recorded_log:
  assumes "sync_setup lib fl MEMORY_LOAD" and "EventsWriter_create h path n disk time = Some io" and "length h < 2 ^ 31"
    and "\<forall>f \<in> set (concat (map (op_events gc) ops)). size_ok f" and "length (concat (map (op_events gc) ops)) < 2 ^ 31"
  shows "\<exists>s es. perform_all fl anchors gc ops (recorder_init lib fl io) = Returns s
    \<and> Option.bind (open_content (rc_io s)) (TraceParser_parse h) = Some (map (parsed_entry anchors) es)
    \<and> (\<forall>u. \<exists>pend. buffered s u = Some (event_bytes anchors pend) \<and> events_of u es @ pend = recorded_by gc u ops)"
proof -
  have "recorder_rel lib fl anchors MEMORY_LOAD (trace_header h 0) (length (concat (map (op_events gc) ops)) + 0) (recorder_init lib fl io) [] (\<lambda>_. [])"
    using init_rel [OF create_start [OF assms(2)]] assms(5) by simp
  from perform_all_kept [OF this assms(1,4)] obtain s es pend where s: "perform_all fl anchors gc ops (recorder_init lib fl io) = Returns s"
    "recorder_rel lib fl anchors MEMORY_LOAD (trace_header h 0) 0 s es pend" "\<And>u. events_of u es @ pend u = recorded_by gc u ops" by auto
  with parse_log [OF s(2) assms(3)] buffered_rel [OF s(2)] show ?thesis by blast
qed

section \<open>Correctness of recording\<close>

text \<open>C2. No event is lost, reordered or split while it is recorded with synchronous output: after any interleaving of the operations of any threads,
  none of which fails or blocks, the analyzer reads the trace file as a sequence of entries, each of which holds complete
  events of one thread, and the events of a thread in the file, followed by those in its buffer, are the ones that it recorded, in order.\<close>

theorem recording_complete:
  assumes "sync_setup lib fl MEMORY_LOAD" and "EventsWriter_create h path n disk time = Some io" and "length h < 2 ^ 31"
    and "\<forall>f \<in> set (concat (map (op_events gc) ops)). size_ok f" and "length (concat (map (op_events gc) ops)) < 2 ^ 31"
  shows "\<exists>s es. perform_all fl anchors gc ops (recorder_init lib fl io) = Returns s
    \<and> Option.bind (open_content (rc_io s)) (TraceParser_parse h) = Some (map (parsed_entry anchors) es)
    \<and> (\<forall>u. \<exists>pend. buffered s u = Some (event_bytes anchors pend) \<and> events_of u es @ pend = recorded_by gc u ops)"
  by (rule recorded_log [OF assms])

definition sample_flags :: trace_flags where
  "sample_flags = \<lparr>TraceObjectsBufferSize = 16384, TraceObjectsFuzzyBufferSizes = False, TraceObjectsAsyncIO = False,
    TraceObjectsCompressTrace = False, TraceObjectsCompressTraceAdaptively = False, TraceObjectsMaxFlushBacklog = 256,
    TraceObjectsMaxFreeBuffers = 1024, TraceObjectsEagerFlush = True\<rparr>"

definition sample_libc :: libc where
  "sample_libc = \<lparr>usable = (\<lambda>k. k), fuzzy = (\<lambda>k. k)\<rparr>"

lemma sample_setup: "sync_setup sample_libc sample_flags MEMORY_LOAD"
  by (simp add: sync_setup_def sample_flags_def sample_libc_def libc_ok_def buffer_bytes_def EventBuffers_create_def EventBuffer_create_def
      memory_init_def calloc_def MEMORY_LOAD_def MAX_EVENT_SIZE_def Let_def)

lemma sample_file: "\<exists>io. EventsWriter_create [1, 2] ''trace'' 1 (\<lambda>_. None) 7 = Some io"
  using create_file_content [of "[1, 2]" 7 "AllocationTracingIO_create ''trace'' 1 (\<lambda>_. None)"]
  by (auto simp: EventsWriter_create_def AllocationTracingIO_create_def)

text \<open>Two threads record tags.\<close>

definition sample_operations :: "operation list" where
  "sample_operations = [Record 5 (fire_tag [72, 105]), Record 6 (fire_tag []), Record 5 (fire_tag [65])]"

lemma sample_sizes: "list_all size_ok [fire_tag [72, 105], fire_tag [], fire_tag [65]]"
  by code_simp

theorem recording_complete_witness:
  "\<exists>io s es. perform_all sample_flags True (\<lambda>t. t = 9) sample_operations (recorder_init sample_libc sample_flags io) = Returns s
    \<and> Option.bind (open_content (rc_io s)) (TraceParser_parse [1, 2]) = Some (map (parsed_entry True) es)
    \<and> (\<exists>pend. buffered s 5 = Some (event_bytes True pend) \<and> events_of 5 es @ pend = [fire_tag [72, 105], fire_tag [65]])"
proof -
  from sample_file obtain io where io: "EventsWriter_create [1, 2] ''trace'' 1 (\<lambda>_. None) 7 = Some io" by blast
  have "\<forall>f \<in> set (concat (map (op_events (\<lambda>t. t = 9)) sample_operations)). size_ok f" using sample_sizes by (simp add: sample_operations_def)
  from recording_complete [OF sample_setup io _ this, of True] obtain s es where
    "perform_all sample_flags True (\<lambda>t. t = 9) sample_operations (recorder_init sample_libc sample_flags io) = Returns s"
    "Option.bind (open_content (rc_io s)) (TraceParser_parse [1, 2]) = Some (map (parsed_entry True) es)"
    "\<forall>u. \<exists>pend. buffered s u = Some (event_bytes True pend) \<and> events_of u es @ pend = recorded_by (\<lambda>t. t = 9) u sample_operations"
    by (auto simp: sample_operations_def)
  moreover have "recorded_by (\<lambda>t. t = 9) 5 sample_operations = [fire_tag [72, 105], fire_tag [65]]"
    by (simp add: recorded_by_def sample_operations_def)
  ultimately show ?thesis by metis
qed



end
