(* ===== verification/EventMoves.thy ===== *)
theory EventMoves
  imports EventKinds
begin

text \<open>
  \<open>GCMove\<close> of \<open>EventsGCRuntime.hpp\<close>: a collector that compacts a space announces each object it moves, and objects
  that lie side by side before and after the collection are written as one event.  The analyzer
  expands such a region again, with the sizes of the objects (\<open>doParseGCMoveRegion\<close> of \<open>HeapBuilder.java\<close>).
\<close>

section \<open>Collecting moves\<close>

record GCMove =
  gm_count :: uint
  gm_first_from :: u64
  gm_first_to :: u64
  gm_next_from :: u64
  gm_next_to :: u64

definition GCMove_create :: GCMove where
  "GCMove_create = \<lparr>gm_count = 0, gm_first_from = 0, gm_first_to = 0, gm_next_from = 0, gm_next_to = 0\<rparr>"

text \<open>The argument \<open>region\<close> is the call that writes a region: \<open>flush_g1_pointers\<close> when the pointers of a G1 heap are traced, and
  \<open>EventsGCRuntime::fire_gc_move_region\<close> otherwise.\<close>

definition GCMove_flush :: "(u64 \<Rightarrow> u64 \<Rightarrow> uint \<Rightarrow> fired list) \<Rightarrow> GCMove \<Rightarrow> GCMove \<times> fired list" where
  "GCMove_flush region s =
    (if 0 < sint (gm_count s)
     then (s\<lparr>gm_count := 0, gm_first_from := 0, gm_first_to := 0, gm_next_from := 0, gm_next_to := 0\<rparr>,
           region (gm_first_from s) (gm_first_to s) (gm_count s))
     else (s, []))"

text \<open>The flag \<open>TraceObjectsGCMoveRegionALot\<close> is the greatest number of objects of a region, 0 for no limit; sizes are in heap words
  of eight bytes.\<close>

definition GCMove_fire :: "bool \<Rightarrow> int \<Rightarrow> (u64 \<Rightarrow> u64 \<Rightarrow> uint \<Rightarrow> fired list) \<Rightarrow> GCMove \<Rightarrow> u64 \<times> u64 \<times> u64 \<Rightarrow> GCMove \<times> fired list" where
  "GCMove_fire TraceObjectsGC TraceObjectsGCMoveRegionALot region s = (\<lambda>(from_addr, to_addr, sz).
    if TraceObjectsGC then
      let (s, out) = (if gm_next_from s = from_addr \<and> gm_next_to s = to_addr then (s, [])
            else let (s, out) = GCMove_flush region s
              in (s\<lparr>gm_first_from := from_addr, gm_first_to := to_addr, gm_next_from := from_addr, gm_next_to := to_addr\<rparr>, out));
          s = s\<lparr>gm_next_from := gm_next_from s + 8 * sz, gm_next_to := gm_next_to s + 8 * sz, gm_count := gm_count s + 1\<rparr>
      in if 0 < TraceObjectsGCMoveRegionALot \<and> TraceObjectsGCMoveRegionALot \<le> sint (gm_count s)
         then let (s, out') = GCMove_flush region s in (s, out @ out')
         else (s, out)
    else (s, []))"

definition GCMove_destroy :: "bool \<Rightarrow> (u64 \<Rightarrow> u64 \<Rightarrow> uint \<Rightarrow> fired list) \<Rightarrow> GCMove \<Rightarrow> fired list" where
  "GCMove_destroy TraceObjectsGC region s = (if TraceObjectsGC then snd (GCMove_flush region s) else [])"

primrec GCMove_fire_all :: "bool \<Rightarrow> int \<Rightarrow> (u64 \<Rightarrow> u64 \<Rightarrow> uint \<Rightarrow> fired list) \<Rightarrow> GCMove \<Rightarrow> (u64 \<times> u64 \<times> u64) list \<Rightarrow> GCMove \<times> fired list" where
  "GCMove_fire_all gc alot region s [] = (s, [])"
| "GCMove_fire_all gc alot region s (mv # mvs) =
    (let (s, out) = GCMove_fire gc alot region s mv; (s, out') = GCMove_fire_all gc alot region s mvs in (s, out @ out'))"

text \<open>All events of a collection of moves, from the construction to the destruction.\<close>

definition move_events :: "bool \<Rightarrow> int \<Rightarrow> (u64 \<Rightarrow> u64 \<Rightarrow> uint \<Rightarrow> fired list) \<Rightarrow> (u64 \<times> u64 \<times> u64) list \<Rightarrow> fired list" where
  "move_events gc alot region mvs =
    (let (s, out) = GCMove_fire_all gc alot region GCMove_create mvs in out @ GCMove_destroy gc region s)"

text \<open>\<open>EventsGCRuntime::fire_gc_move_region\<close>.  While the virtual machine synchronizes, every object is written on its own; its size,
  its description and its allocation site are read from the heap.\<close>

record moved_objects =
  mo_size :: "u64 \<Rightarrow> u64 \<Rightarrow> u64"
  mo_oop :: "u64 \<Rightarrow> Oop"
  mo_site :: "u64 \<Rightarrow> uint"

primrec sync_region :: "bool \<Rightarrow> moved_objects \<Rightarrow> u64 \<Rightarrow> u64 \<Rightarrow> nat \<Rightarrow> fired list" where
  "sync_region save h from_addr to_addr 0 = []"
| "sync_region save h from_addr to_addr (Suc n) =
    (let sz = mo_size h from_addr to_addr
     in fire_sync_obj save (mo_site h to_addr) from_addr (mo_oop h to_addr) (ucast sz) # sync_region save h (from_addr + 8 * sz) (to_addr + 8 * sz) n)"

definition EventsGCRuntime_fire_gc_move_region :: "bool \<Rightarrow> bool \<Rightarrow> moved_objects \<Rightarrow> u64 \<Rightarrow> u64 \<Rightarrow> uint \<Rightarrow> fired list" where
  "EventsGCRuntime_fire_gc_move_region is_synchronizing save h from_addr to_addr num_of_objects =
    (if is_synchronizing then sync_region save h from_addr to_addr (nat (sint num_of_objects))
     else [fire_gc_move_region from_addr to_addr num_of_objects])"

text \<open>The loop of \<open>doParseGCMoveRegion\<close>, with the size in bytes of the object at an address.\<close>

primrec expand_region :: "(u64 \<Rightarrow> u64) \<Rightarrow> u64 \<Rightarrow> u64 \<Rightarrow> nat \<Rightarrow> (u64 \<times> u64) list" where
  "expand_region getSize fromAddr toAddr 0 = []"
| "expand_region getSize fromAddr toAddr (Suc n) =
    (fromAddr, toAddr) # expand_region getSize (fromAddr + getSize fromAddr) (toAddr + getSize fromAddr) n"

fun region_moves :: "(u64 \<Rightarrow> u64) \<Rightarrow> call \<Rightarrow> (u64 \<times> u64) list" where
  "region_moves getSize (GC (GCMoveRegion type fromAddr toAddr numOfObjects)) = expand_region getSize fromAddr toAddr (nat (sint numOfObjects))"
| "region_moves getSize _ = []"

section \<open>Regions are runs of adjacent objects\<close>

fun adjacent :: "u64 \<Rightarrow> u64 \<Rightarrow> (u64 \<times> u64 \<times> u64) list \<Rightarrow> u64 \<Rightarrow> u64 \<Rightarrow> bool" where
  "adjacent a b [] a' b' \<longleftrightarrow> a' = a \<and> b' = b"
| "adjacent a b ((from_addr, to_addr, sz) # mvs) a' b' \<longleftrightarrow> from_addr = a \<and> to_addr = b \<and> adjacent (a + 8 * sz) (b + 8 * sz) mvs a' b'"

lemma adjacent_snoc:
  "adjacent a b (mvs @ [(x, y, sz)]) c d \<longleftrightarrow> adjacent a b mvs x y \<and> c = x + 8 * sz \<and> d = y + 8 * sz"
  by (induction mvs arbitrary: a b) auto

lemma adjacent_expand:
  "adjacent a b mvs a' b' \<Longrightarrow> \<forall>(x, y, sz) \<in> set mvs. getSize x = 8 * sz \<Longrightarrow> expand_region getSize a b (length mvs) = map (\<lambda>(x, y, sz). (x, y)) mvs"
  by (induction a b mvs a' b' rule: adjacent.induct) auto

lemma adjacent_sync:
  "adjacent a b mvs a' b' \<Longrightarrow> \<forall>(x, y, sz) \<in> set mvs. mo_size h x y = sz \<Longrightarrow>
    sync_region save h a b (length mvs) = map (\<lambda>(x, y, sz). fire_sync_obj save (mo_site h y) x (mo_oop h y) (ucast sz)) mvs"
  by (induction a b mvs a' b' rule: adjacent.induct) auto

text \<open>The moves \<open>pend\<close> have been collected since the last region was written.\<close>

definition gm_rel :: "GCMove \<Rightarrow> (u64 \<times> u64 \<times> u64) list \<Rightarrow> bool" where
  "gm_rel s pend \<longleftrightarrow> (if pend = [] then s = GCMove_create
    else gm_count s = of_nat (length pend) \<and> adjacent (gm_first_from s) (gm_first_to s) pend (gm_next_from s) (gm_next_to s))"

definition is_region :: "(u64 \<times> u64 \<times> u64) list \<Rightarrow> bool" where
  "is_region mvs \<longleftrightarrow> mvs \<noteq> [] \<and> (\<exists>a' b'. adjacent (fst (hd mvs)) (fst (snd (hd mvs))) mvs a' b')"

definition write_region :: "(u64 \<Rightarrow> u64 \<Rightarrow> uint \<Rightarrow> fired list) \<Rightarrow> (u64 \<times> u64 \<times> u64) list \<Rightarrow> fired list" where
  "write_region region mvs = region (fst (hd mvs)) (fst (snd (hd mvs))) (of_nat (length mvs))"

lemma gm_rel_flush:
  assumes "gm_rel s pend" and "length pend < 2 ^ 31"
  shows "GCMove_flush region s = (GCMove_create, if pend = [] then [] else write_region region pend)" "pend \<noteq> [] \<Longrightarrow> is_region pend"
proof -
  have count: "sint (of_nat (length pend) :: uint) = int (length pend)"
    using assms(2) by (simp add: sint_uint unsigned_of_nat take_bit_nat_eq_self signed_take_bit_int_eq_self)
  show "GCMove_flush region s = (GCMove_create, if pend = [] then [] else write_region region pend)"
  proof (cases pend)
    case Nil
    then show ?thesis using assms(1) by (simp add: gm_rel_def GCMove_flush_def GCMove_create_def)
  next
    case (Cons mv mvs)
    then have first: "gm_first_from s = fst mv" "gm_first_to s = fst (snd mv)" "gm_count s = of_nat (length pend)"
      using assms(1) by (cases mv; simp add: gm_rel_def)+
    show ?thesis using Cons count first by (simp add: GCMove_flush_def GCMove_create_def write_region_def)
  qed
  assume "pend \<noteq> []"
  with assms(1) have "adjacent (fst (hd pend)) (fst (snd (hd pend))) pend (gm_next_from s) (gm_next_to s)"
    by (cases pend) (auto simp: gm_rel_def)
  with \<open>pend \<noteq> []\<close> show "is_region pend" unfolding is_region_def by blast
qed

text \<open>A move continues the run, or ends it and begins a new one.\<close>

lemma gm_rel_advance:
  assumes "gm_rel s pend" and "from_addr \<noteq> 0" and "length pend < 2 ^ 31"
    and p_def: "p = (if gm_next_from s = from_addr \<and> gm_next_to s = to_addr then (s, []) else let (s, out) = GCMove_flush region s
              in (s\<lparr>gm_first_from := from_addr, gm_first_to := to_addr, gm_next_from := from_addr, gm_next_to := to_addr\<rparr>, out))"
  shows "\<exists>ds rest. snd p = concat (map (write_region region) ds) \<and> list_all is_region ds \<and> concat ds @ rest = pend
    \<and> gm_rel ((fst p)\<lparr>gm_next_from := gm_next_from (fst p) + 8 * sz, gm_next_to := gm_next_to (fst p) + 8 * sz, gm_count := gm_count (fst p) + 1\<rparr>)
        (rest @ [(from_addr, to_addr, sz)])"
proof (cases "gm_next_from s = from_addr \<and> gm_next_to s = to_addr")
  case True
  with assms(1,2) have "pend \<noteq> []" by (auto simp: gm_rel_def GCMove_create_def)
  with True assms(1) show ?thesis
    by (intro exI [of _ "[]"] exI [of _ pend]) (auto simp: p_def gm_rel_def adjacent_snoc)
next
  case False
  with gm_rel_flush(1) [OF assms(1,3), of region] have p: "p = (GCMove_create\<lparr>gm_first_from := from_addr, gm_first_to := to_addr,
      gm_next_from := from_addr, gm_next_to := to_addr\<rparr>, if pend = [] then [] else write_region region pend)" by (auto simp: p_def)
  have new: "gm_rel ((fst p)\<lparr>gm_next_from := gm_next_from (fst p) + 8 * sz, gm_next_to := gm_next_to (fst p) + 8 * sz, gm_count := gm_count (fst p) + 1\<rparr>)
      [(from_addr, to_addr, sz)]" by (simp add: p gm_rel_def GCMove_create_def)
  then show ?thesis using gm_rel_flush(2) [OF assms(1,3)]
    by (intro exI [of _ "if pend = [] then [] else [pend]"] exI [of _ "[]"]) (simp add: p)
qed

lemma gm_rel_fire:
  assumes "gm_rel s pend" and "fst mv \<noteq> 0" and "length pend + 1 < 2 ^ 31"
  shows "\<exists>s' ds rest. GCMove_fire True alot region s mv = (s', concat (map (write_region region) ds)) \<and> list_all is_region ds
    \<and> concat ds @ rest = pend @ [mv] \<and> gm_rel s' rest"
proof -
  obtain a b sz where mv: "mv = (a, b, sz)" by (cases mv)
  define p where "p = (if gm_next_from s = a \<and> gm_next_to s = b then (s, []) else let (s, out) = GCMove_flush region s
              in (s\<lparr>gm_first_from := a, gm_first_to := b, gm_next_from := a, gm_next_to := b\<rparr>, out))"
  define s' where "s' = (fst p)\<lparr>gm_next_from := gm_next_from (fst p) + 8 * sz, gm_next_to := gm_next_to (fst p) + 8 * sz, gm_count := gm_count (fst p) + 1\<rparr>"
  have a: "a \<noteq> 0" "length pend < 2 ^ 31" using assms(2,3) by (simp_all add: mv)
  from gm_rel_advance [OF assms(1) a p_def, of sz, folded s'_def] obtain d rest where
    d: "snd p = concat (map (write_region region) d)" "list_all is_region d" "concat d @ rest = pend" "gm_rel s' (rest @ [mv])" by (auto simp: mv)
  have "length rest \<le> length pend" using d(3) by (metis le_add2 length_append)
  then have small: "length (rest @ [mv]) < 2 ^ 31" using assms(3) by simp
  have fire: "GCMove_fire True alot region s mv = (if 0 < alot \<and> alot \<le> sint (gm_count s')
         then (fst (GCMove_flush region s'), snd p @ snd (GCMove_flush region s')) else (s', snd p))"
    unfolding GCMove_fire_def mv prod.case if_True p_def [symmetric] s'_def by (simp only: Let_def case_prod_beta)
  show ?thesis
  proof (cases "0 < alot \<and> alot \<le> sint (gm_count s')")
    case True
    with fire gm_rel_flush(1) [OF d(4) small, of region] d(1)
    have "GCMove_fire True alot region s mv = (GCMove_create, concat (map (write_region region) (d @ [rest @ [mv]])))" by simp
    then show ?thesis using d(2,3) gm_rel_flush(2) [OF d(4) small]
      by (intro exI [of _ GCMove_create] exI [of _ "d @ [rest @ [mv]]"] exI [of _ "[]"]) (simp add: gm_rel_def)
  next
    case False
    with fire d show ?thesis by (intro exI [of _ s'] exI [of _ d] exI [of _ "rest @ [mv]"]) auto
  qed
qed

lemma gm_rel_fire_all:
  assumes "gm_rel s pend" and "\<forall>mv \<in> set mvs. fst mv \<noteq> 0" and "length pend + length mvs < 2 ^ 31"
  shows "\<exists>s' ds rest. GCMove_fire_all True alot region s mvs = (s', concat (map (write_region region) ds)) \<and> list_all is_region ds
    \<and> concat ds @ rest = pend @ mvs \<and> gm_rel s' rest"
  using assms
proof (induction mvs arbitrary: s pend)
  case Nil
  then show ?case by (intro exI [of _ s] exI [of _ "[]"] exI [of _ pend]) simp
next
  case (Cons mv mvs)
  from gm_rel_fire [of s pend mv alot region] Cons.prems obtain s1 d1 r1 where
    1: "GCMove_fire True alot region s mv = (s1, concat (map (write_region region) d1))" "list_all is_region d1" "concat d1 @ r1 = pend @ [mv]" "gm_rel s1 r1"
    by auto
  have "length r1 \<le> length pend + 1" using arg_cong [OF 1(3), of length] by simp
  with Cons.IH [OF 1(4)] Cons.prems(2,3) obtain s2 d2 r2 where
    2: "GCMove_fire_all True alot region s1 mvs = (s2, concat (map (write_region region) d2))" "list_all is_region d2" "concat d2 @ r2 = r1 @ mvs" "gm_rel s2 r2"
    by auto
  from 1(3) 2(3) have "concat (d1 @ d2) @ r2 = pend @ mv # mvs" by (metis append.assoc append_Cons append_Nil concat_append)
  with 1(1,2) 2(1,2,4) show ?case by (intro exI [of _ s2] exI [of _ "d1 @ d2"] exI [of _ r2]) simp
qed

lemma move_events_regions:
  assumes "\<forall>mv \<in> set mvs. fst mv \<noteq> 0" and "length mvs < 2 ^ 31"
  shows "\<exists>mss. move_events True alot region mvs = concat (map (write_region region) mss) \<and> list_all is_region mss \<and> concat mss = mvs"
proof -
  have "gm_rel GCMove_create []" by (simp add: gm_rel_def)
  from gm_rel_fire_all [OF this assms(1), of alot region] assms(2) obtain s d rest where
    d: "GCMove_fire_all True alot region GCMove_create mvs = (s, concat (map (write_region region) d))" "list_all is_region d" "concat d @ rest = mvs" "gm_rel s rest"
    by auto
  have "length rest < 2 ^ 31" using d(3) assms(2) by auto
  note flush = gm_rel_flush [OF d(4) this]
  show ?thesis
    by (intro exI [of _ "d @ (if rest = [] then [] else [rest])"])
      (use d flush(1) [of region] flush(2) in \<open>auto simp: move_events_def GCMove_destroy_def\<close>)
qed

section \<open>What the analyzer makes of the regions\<close>

lemma small_count: "n < 2 ^ 31 \<Longrightarrow> nat (sint (of_nat n :: uint)) = n"
  by (simp add: sint_uint unsigned_of_nat take_bit_nat_eq_self signed_take_bit_int_eq_self)

lemma region_read:
  assumes "is_region mvs" and "length mvs < 2 ^ 24" and "\<forall>(x, y, sz) \<in> set mvs. getSize x = 8 * sz"
  shows "\<exists>calls. reads_as sy m al base (write_region (EventsGCRuntime_fire_gc_move_region False save h) mvs) calls base
    \<and> concat (map (region_moves getSize) calls) = map (\<lambda>(x, y, sz). (x, y)) mvs"
proof -
  let ?a = "fst (hd mvs)" and ?b = "fst (snd (hd mvs))"
  from assms(1) obtain a' b' where "adjacent ?a ?b mvs a' b'" by (auto simp: is_region_def)
  from adjacent_expand [OF this assms(3)] have e: "expand_region getSize ?a ?b (length mvs) = map (\<lambda>(x, y, sz). (x, y)) mvs" .
  have "unat (of_nat (length mvs) :: uint) < 2 ^ 24" using assms(2) by (simp add: unsigned_of_nat take_bit_nat_eq_self)
  from reads_gc_move_region [OF this, of sy m al base ?a ?b] have
    "reads_as sy m al base (write_region (EventsGCRuntime_fire_gc_move_region False save h) mvs) [GC (GCMoveRegion 0x22 ?a ?b (of_nat (length mvs)))] base"
    by (simp add: write_region_def EventsGCRuntime_fire_gc_move_region_def)
  with e small_count [of "length mvs"] assms(2) show ?thesis by (intro exI) auto
qed

lemma regions_read:
  assumes "list_all is_region mss" and "length (concat mss) < 2 ^ 24" and "\<forall>(x, y, sz) \<in> set (concat mss). getSize x = 8 * sz"
  shows "\<exists>calls. reads_as sy m al base (concat (map (write_region (EventsGCRuntime_fire_gc_move_region False save h)) mss)) calls base
    \<and> concat (map (region_moves getSize) calls) = map (\<lambda>(x, y, sz). (x, y)) (concat mss)"
  using assms
proof (induction mss)
  case Nil
  then show ?case by (intro exI [of _ "[]"]) (simp add: reads_as_Nil)
next
  case (Cons mvs mss)
  have parts: "is_region mvs" "length mvs < 2 ^ 24" "\<forall>(x, y, sz) \<in> set mvs. getSize x = 8 * sz"
    "list_all is_region mss" "length (concat mss) < 2 ^ 24" "\<forall>(x, y, sz) \<in> set (concat mss). getSize x = 8 * sz"
    using Cons.prems by auto
  from region_read [OF parts(1-3), of sy m al base save h] obtain c1 where
    1: "reads_as sy m al base (write_region (EventsGCRuntime_fire_gc_move_region False save h) mvs) c1 base"
    "concat (map (region_moves getSize) c1) = map (\<lambda>(x, y, sz). (x, y)) mvs" by blast
  from Cons.IH [OF parts(4-6)] obtain c2 where
    2: "reads_as sy m al base (concat (map (write_region (EventsGCRuntime_fire_gc_move_region False save h)) mss)) c2 base"
    "concat (map (region_moves getSize) c2) = map (\<lambda>(x, y, sz). (x, y)) (concat mss)" by blast
  from reads_as_append [OF 1(1) 2(1)] 1(2) 2(2) show ?case by (intro exI [of _ "c1 @ c2"]) simp
qed

lemma regions_sync:
  assumes "list_all is_region mss" and "length (concat mss) < 2 ^ 31" and "\<forall>(x, y, sz) \<in> set (concat mss). mo_size h x y = sz"
  shows "concat (map (write_region (EventsGCRuntime_fire_gc_move_region True save h)) mss)
    = map (\<lambda>(x, y, sz). fire_sync_obj save (mo_site h y) x (mo_oop h y) (ucast sz)) (concat mss)"
  using assms
proof (induction mss)
  case (Cons mvs mss)
  then obtain a' b' where "adjacent (fst (hd mvs)) (fst (snd (hd mvs))) mvs a' b'" by (auto simp: is_region_def)
  from adjacent_sync [OF this, of h save] small_count [of "length mvs"] Cons.prems(2,3)
  have "write_region (EventsGCRuntime_fire_gc_move_region True save h) mvs
      = map (\<lambda>(x, y, sz). fire_sync_obj save (mo_site h y) x (mo_oop h y) (ucast sz)) mvs"
    by (simp add: write_region_def EventsGCRuntime_fire_gc_move_region_def)
  with Cons show ?case by simp
qed simp

text \<open>A run of adjacent objects is one region when the length of regions is not limited.\<close>

lemma fire_run:
  assumes "gm_rel s pend" and "pend \<noteq> []" and "adjacent (gm_next_from s) (gm_next_to s) mvs a' b'"
  shows "\<exists>s'. GCMove_fire_all True 0 region s mvs = (s', []) \<and> gm_rel s' (pend @ mvs)"
  using assms
proof (induction mvs arbitrary: s pend)
  case (Cons mv mvs)
  obtain x y sz where mv: "mv = (x, y, sz)" by (cases mv)
  from Cons.prems(3) have front: "x = gm_next_from s" "y = gm_next_to s"
    "adjacent (gm_next_from s + 8 * sz) (gm_next_to s + 8 * sz) mvs a' b'" by (simp_all add: mv)
  define s1 where "s1 = s\<lparr>gm_next_from := gm_next_from s + 8 * sz, gm_next_to := gm_next_to s + 8 * sz, gm_count := gm_count s + 1\<rparr>"
  have "GCMove_fire True 0 region s mv = (s1, [])" by (simp add: GCMove_fire_def mv front s1_def)
  moreover have "gm_rel s1 (pend @ [mv])" using Cons.prems(1,2) by (simp add: gm_rel_def s1_def mv front adjacent_snoc)
  ultimately show ?case using Cons.IH [of s1 "pend @ [mv]"] front(3) by (auto simp: s1_def)
qed simp

lemma run_is_one_region:
  assumes "is_region mvs" and "fst (hd mvs) \<noteq> 0" and "length mvs < 2 ^ 31"
  shows "move_events True 0 region mvs = write_region region mvs"
proof -
  from assms(1) obtain x y sz mvs' a' b' where mvs: "mvs = (x, y, sz) # mvs'" "adjacent (x + 8 * sz) (y + 8 * sz) mvs' a' b'"
    by (cases mvs) (auto simp: is_region_def)
  define s1 where "s1 = \<lparr>gm_count = 1, gm_first_from = x, gm_first_to = y, gm_next_from = x + 8 * sz, gm_next_to = y + 8 * sz\<rparr>"
  have "GCMove_fire True 0 region GCMove_create (x, y, sz) = (s1, [])"
    using assms(2) by (simp add: GCMove_fire_def GCMove_flush_def GCMove_create_def s1_def mvs)
  moreover have "gm_rel s1 [(x, y, sz)]" by (simp add: gm_rel_def s1_def)
  from fire_run [OF this, of mvs' a' b' region] mvs(2) obtain s' where
    s': "GCMove_fire_all True 0 region s1 mvs' = (s', [])" "gm_rel s' mvs" by (auto simp: s1_def mvs(1))
  moreover have "GCMove_flush region s' = (GCMove_create, write_region region mvs)"
    using gm_rel_flush(1) [OF s'(2) assms(3)] mvs(1) by simp
  ultimately show ?thesis by (simp add: move_events_def GCMove_destroy_def mvs(1))
qed

text \<open>The number of objects has 24 bits of the first word; higher bits get into the fields in front of it.\<close>

lemma header_overflow: "header t 0 n = header t (drop_bit 24 n) (take_bit 24 n)"
proof -
  have "push_bit 24 (drop_bit 24 n) OR take_bit 24 n = n" by (rule bit_word_eqI) (auto simp: bit_simps)
  then have "push_bit 24 (push_bit 2 (scast t) OR drop_bit 24 n) OR take_bit 24 n = push_bit 24 (push_bit 2 (scast t)) OR n"
    by (simp only: push_bit_or or.assoc)
  then show ?thesis
    by (simp only: header_def stuff_def StuffedWord_add_def event_field_def foldl.simps prod.case push_bit_of_0 or.left_neutral or.right_neutral)
qed

lemma reads_long_region:
  assumes "unat n < 2 ^ 26"
  shows "reads_as sy m al base [fire_gc_move_region from_addr to_addr n] [GC (GCMoveRegion 0x22 from_addr to_addr (take_bit 24 n))] base"
proof -
  have t: "unat EVENTS_GC_MOVE_REGION < 64" by simp
  have "unat (drop_bit 24 n) = unat n div 2 ^ 24" using unat_drop_bit_eq [of 24 n] drop_bit_eq_div [of 24 "unat n"] by simp
  then have g: "unat (drop_bit 24 n) < 4" using assms by (simp only:) (simp add: div_less_iff_less_mult)
  have x: "unat (take_bit 24 n) < 2 ^ 24" unfolding unsigned_take_bit_eq by (rule take_bit_nat_less_exp)
  have "recoverValue (scast (header EVENTS_GC_MOVE_REGION (drop_bit 24 n) (take_bit 24 n))) 1 3 = take_bit 24 n"
    by (rule recover_header(1) [OF t g x])
  then show ?thesis
    by (intro reads_as_event [of _ "drop_bit 24 n" "take_bit 24 n" "write_abs_addr from_addr @ write_abs_addr to_addr"])
      (use g x in \<open>simp_all add: fire_gc_move_region_def write_gc_move_event_def write_word_def stuff_header parse_event_gc parseGCMoveRegion_def
        write_abs_addr_def getNextDoubleWord_write header_overflow [of EVENTS_GC_MOVE_REGION n]\<close>)
qed

section \<open>Correctness of the collected moves\<close>

text \<open>C8. The moves of a compaction survive the way through the trace: whatever moves are announced to \<open>GCMove\<close>, up to \<open>2 ^ 24 - 1\<close> of them,
  \<open>TraceSlaveParser\<close> reads the events without an error, and the regions expand to exactly these moves, in order.  The analyzer knows the
  sizes of the objects.\<close>

theorem gc_moves_roundtrip:
  assumes "\<forall>(x, y, sz) \<in> set mvs. x \<noteq> 0 \<and> getSize x = 8 * sz" and "length mvs < 2 ^ 24"
  shows "\<exists>calls. evaluate_buffer sy m al base (concat (map (fire_event (sym_anchors sy))
        (move_events True alot (EventsGCRuntime_fire_gc_move_region False save h) mvs))) = Some (calls, base)
    \<and> concat (map (region_moves getSize) calls) = map (\<lambda>(x, y, sz). (x, y)) mvs"
proof -
  from move_events_regions [of mvs alot "EventsGCRuntime_fire_gc_move_region False save h"] assms obtain mss where
    mss: "move_events True alot (EventsGCRuntime_fire_gc_move_region False save h) mvs
        = concat (map (write_region (EventsGCRuntime_fire_gc_move_region False save h)) mss)" "list_all is_region mss" "concat mss = mvs"
    by fastforce
  have sizes: "\<forall>(x, y, sz) \<in> set (concat mss). getSize x = 8 * sz" using assms(1) mss(3) by auto
  from regions_read [OF mss(2) _ sizes, of sy m al base save h] assms(2) mss(1,3) reads_as_buffer show ?thesis by fastforce
qed

definition sample_objects :: moved_objects where
  "sample_objects = \<lparr>mo_size = (\<lambda>_ _. 2), mo_oop = (\<lambda>a. \<lparr>o_addr = a, o_is_array = False, o_length = 0, o_is_mirror = False, o_size = 2, o_type = 5\<rparr>),
     mo_site = (\<lambda>_. 20)\<rparr>"

theorem gc_moves_roundtrip_witness:
  "\<exists>calls. evaluate_buffer \<lparr>sym_site_type = (\<lambda>_. None), sym_types = (\<lambda>_. None), sym_heapWordSize = 8, sym_anchors = True\<rparr> (\<lambda>_ _ _ _. 0) 8 0
      (concat (map (fire_event True) (move_events True 0 (EventsGCRuntime_fire_gc_move_region False True sample_objects) [(64, 0, 2), (80, 16, 2), (160, 32, 2)]))) = Some (calls, 0)
    \<and> concat (map (region_moves (\<lambda>_. 16)) calls) = [(64, 0), (80, 16), (160, 32)]"
  using gc_moves_roundtrip [of "[(64, 0, 2), (80, 16, 2), (160, 32, 2)]" "\<lambda>_. 16"
      "\<lparr>sym_site_type = (\<lambda>_. None), sym_types = (\<lambda>_. None), sym_heapWordSize = 8, sym_anchors = True\<rparr>" "\<lambda>_ _ _ _. 0" 8 0 0 True]
  by simp

text \<open>C37. While the virtual machine synchronizes, each announced move is written as one event of its own, in order, however the moves
  are collected into regions.\<close>

theorem gc_moves_synchronizing:
  assumes "\<forall>(x, y, sz) \<in> set mvs. x \<noteq> 0 \<and> mo_size h x y = sz" and "length mvs < 2 ^ 31"
  shows "move_events True alot (EventsGCRuntime_fire_gc_move_region True save h) mvs
    = map (\<lambda>(x, y, sz). fire_sync_obj save (mo_site h y) x (mo_oop h y) (ucast sz)) mvs"
proof -
  from move_events_regions [of mvs alot "EventsGCRuntime_fire_gc_move_region True save h"] assms obtain mss where
    mss: "move_events True alot (EventsGCRuntime_fire_gc_move_region True save h) mvs
        = concat (map (write_region (EventsGCRuntime_fire_gc_move_region True save h)) mss)" "list_all is_region mss" "concat mss = mvs"
    by fastforce
  have "\<forall>(x, y, sz) \<in> set (concat mss). mo_size h x y = sz" using assms(1) mss(3) by auto
  from regions_sync [OF mss(2) _ this, of save] assms(2) mss(1,3) show ?thesis by simp
qed

theorem gc_moves_synchronizing_witness:
  "move_events True 2 (EventsGCRuntime_fire_gc_move_region True True sample_objects) [(64, 0, 2), (80, 16, 2), (96, 32, 2)]
    = map (\<lambda>(x, y). fire_sync_obj True 20 x (mo_oop sample_objects y) 2) [(64, 0), (80, 16), (96, 32)]"
  using gc_moves_synchronizing [of "[(64, 0, 2), (80, 16, 2), (96, 32, 2)]" sample_objects 2 True] by (simp add: sample_objects_def)


text \<open>A run of \<open>n\<close> objects of two words.\<close>

definition long_run :: "nat \<Rightarrow> (u64 \<times> u64 \<times> u64) list" where
  "long_run n = map (\<lambda>i. (0x10000 + 16 * of_nat i, 16 * of_nat i, 2)) [0..<n]"

lemma long_run_adjacent: "adjacent 0x10000 0 (long_run n) (0x10000 + 16 * of_nat n) (16 * of_nat n)"
proof (induction n)
  case (Suc n)
  have "long_run (Suc n) = long_run n @ [(0x10000 + 16 * of_nat n, 16 * of_nat n, 2)]" by (simp add: long_run_def)
  with Suc show ?case by (simp add: adjacent_snoc algebra_simps)
qed (simp add: long_run_def)


end
