(* ===== verification/Spec2Isabelle.thy ===== *)
theory Spec2Isabelle
  imports BufferCompression LZWDecompression PipelineFlush EventStream EventRecording EventMoves
begin

text \<open>
  \<^bold>\<open>The program.\<close>  AntTracks is a Java virtual machine (\<open>src/ant-tracks-jvm\<close>, a modified HotSpot 8) that records every allocation and every
  move of an object into a trace file, and an analyzer (\<open>src/ant-tracks-analyzer\<close>) that reads the file and rebuilds the heap.  This library models
  the path of an event from the call that fires it to the call of the analyzer's event handler, and shows that what is recorded is what is
  read.  The C++ files are under \<open>src/ant-tracks-jvm/src/src/share/vm/prims\<close> unless another directory is named; the Java and Kotlin files are under
  \<open>src/ant-tracks-analyzer/Tool/Parser/src/main/java/at/jku/anttracks\<close>.

  \<^bold>\<open>How the parts interact.\<close>  \<open>EventsRuntime\<close> packs an event into words, which go into the event buffer of the thread.  A full buffer is handed
  over: with synchronous output it is written at once, otherwise it goes to a compression thread and on to the worker that writes
  files.  Buffers are recycled through a free list.  The analyzer cuts the file into entries, decompresses them, and evaluates their words event by
  event.

  \<^bold>\<open>Conventions.\<close>  Classes are records, enumerations are datatypes, and operations are functions with the name of the class in front.  Machine
  integers are words of their width wherever they can wrap.  What the code writes at a cursor is returned as a list.  A result \<open>None\<close> is an
  exception, a failed \<open>guarantee\<close> or an access outside of an array.  Loops are recursive functions with termination proofs, or
  \<open>partial_function (option)\<close> where an argument can make them run forever.  No definition uses fuel.  Code that is not part of the sources, and the parts of
  HotSpot that the tracing only asks for values, are arguments: template arguments, \<open>malloc_usable_size\<close>, object headers, symbol tables.

  \<^bold>\<open>Coding of indices.\<close>  \<open>VarInt\<close>: the writer and the reader of \<open>VarInt.hpp\<close> and the reader of \<open>parser/Decompressor.java\<close>.

  \<^bold>\<open>Collections.\<close>  \<open>MapSpec\<close> holds the interfaces of \<open>Map.hpp\<close> as records of functions, and as locales what an implementation promises.
  \<open>SmallMap\<close>, \<open>HashMap\<close>, \<open>InflatableMap\<close>, \<open>SortedList\<close>, \<open>ListMap\<close>, \<open>NavigableHashMap\<close> and \<open>PrefixTreeMap\<close> model the headers of these names and
  interpret the locales; \<open>Sequences\<close> models \<open>Sequence.hpp\<close>, and \<open>LZWKeys\<close> the functions with which \<open>LZWCompression.cpp\<close> instantiates the templates.

  \<^bold>\<open>Compression.\<close>  \<open>LZW\<close>, \<open>LZWEncode\<close> and \<open>LZWStrategies\<close>: \<open>LZWCompression.cpp\<close>, first for any dictionary that keeps the contract of a
  navigable map, and then for each of its collection strategies; all of them compute one reference run.  \<open>QuyteTree\<close>, \<open>QuyteTreeCorrect\<close> and
  \<open>QuyteTreeLZW\<close>: the default compressor of \<open>QuyteTreeCompression.cpp\<close>; its array of nodes is large enough, and its stream is that of the
  reference run.  \<open>Decompressor\<close> and \<open>LZWDecompression\<close>: the decompressors of the analyzer and of the virtual machine.
  \<open>BufferCompression\<close>: \<open>Compression.cpp\<close> on event buffers; the contract of a compressor is a locale that both compressors interpret.  The bounds of the
  theorems (16129 bytes for the equality of the streams, 30080 bytes for the storage) come from the greatest index and from the
  16 bits of a node number.

  \<^bold>\<open>Buffers.\<close>  \<open>EventBuffer\<close>: \<open>EventBuffer.cpp\<close> and the memory behind it, a map from blocks to bytes that copies of a buffer share.  \<open>EventBufferList\<close> and
  \<open>EventBufferQueue\<close>: the ring buffers of \<open>EventBufferList.cpp\<close>, which refine a bag and, in the order-preserving mode, a queue.  \<open>EventBuffers\<close>: the free
  list and the queues of \<open>EventBuffers.cpp\<close>, and \<open>Thread::flush_event_buffer\<close> of \<open>runtime/thread.cpp\<close>.

  \<^bold>\<open>Threads.\<close>  \<open>Pipeline\<close>, \<open>PipelineOrder\<close> and \<open>PipelineFlush\<close>: the compression threads and the worker of \<open>runtime/thread.cpp\<close> as a transition system
  with one step per access to a shared object, for any number of threads.  The invariants give the order of the buffers of a thread,
  the barrier of a synchronization, and that \<open>EventBuffers::flush\<close> waits long enough.

  \<^bold>\<open>Files.\<close>  \<open>Bytes\<close>, \<open>TraceWriter\<close> and \<open>TraceReader\<close>: \<open>AllocationTracingIO.cpp\<close> and \<open>EventsWriter.cpp\<close> on a disk of named files, and how
  \<open>parser/TraceParser.java\<close> reads them.

  \<^bold>\<open>Events.\<close>  \<open>Events\<close>: all events of \<open>EventsRuntime.cpp\<close> with their words.  \<open>EventReader\<close>: \<open>evaluateEvent\<close> of \<open>parser/TraceSlaveParser.java\<close> with its
  parsers, up to the call of the event handler.  \<open>EventRoundtrip\<close>, \<open>EventAllocs\<close> and \<open>EventKinds\<close>: for each event, which call is made of it.
  \<open>EventPointerList\<close>, \<open>EventPointers\<close> and \<open>ObjectPointers\<close>: the pointers of an object, which are split over several events.  \<open>EventRoots\<close>: the roots of a
  collection (\<open>EventRootPointerList.cpp\<close>).  \<open>EventMoves\<close>: the moves of a compaction (\<open>GCMove\<close> of \<open>EventsGCRuntime.hpp\<close>).  \<open>EventStream\<close>: any sequence of all of
  these.

  \<^bold>\<open>Recording.\<close>  \<open>EventRecording\<close>: \<open>allocate_event\<close>, \<open>fire_event\<close> and \<open>fire_event_sync\<close>, and \<open>EventBuffersFlushAll.cpp\<close>, for any interleaving of any
  number of threads with synchronous output: no event is lost.  The theory at hand composes the parts: from the recorded event to the
  handler's call, and from a compressed buffer back to its content.

  \<^bold>\<open>Errors that the theorems show.\<close>  The LZW compressor is not reset between buffers; the virtual machine's own decompressor overruns its input; marks are
  rejected by the analyzer; small allocation sites are shifted in synchronization events; long regions are truncated; the table of owners overflows with more than
  ten compression threads; a full list is not visited; rotated files are never removed.

  \<^bold>\<open>Not modelled.\<close>  HotSpot itself: the compilers, the collectors, class loading and the ports.  The tables of allocation sites and types, the symbol
  and class definition files and the stack traces, because they consist of HotSpot's methods and classes; their numbers are arguments of the events.  The self monitoring, which
  only counts.  The entry points for generated code, which call \<open>EventsRuntime\<close>.  \<open>QuyteTreeDecompression\<close>, which nothing uses.  Destructors and arenas,
  which only release memory.  The analyzer behind the event handlers, the user interface, scripts and benchmarks.
\<close>

section \<open>The analyzer reads the entries of a thread\<close>

text \<open>The words of an entry: the buffer is decompressed, and read in little-endian byte order.\<close>

definition TraceSlaveParser_words :: "nat \<Rightarrow> QueueEntry \<Rightarrow> uint list option" where
  "TraceSlaveParser_words limit entry =
    Option.bind (TraceSlaveParser_buffer limit entry) (\<lambda>buffer.
      case read_jints (length buffer div jint_size) buffer of
        Some (ws, []) \<Rightarrow> Some ws
      | _ \<Rightarrow> None)"

primrec TraceSlaveParser_run :: "nat \<Rightarrow> Symbols \<Rightarrow> move_handler \<Rightarrow> u64 \<Rightarrow> u64 \<Rightarrow> QueueEntry list \<Rightarrow> (call list \<times> u64) option" where
  "TraceSlaveParser_run limit symbols doGCMove alignment base [] = Some ([], base)"
| "TraceSlaveParser_run limit symbols doGCMove alignment base (entry # entries) =
    Option.bind (TraceSlaveParser_words limit entry) (\<lambda>ws.
    Option.bind (evaluate_buffer symbols doGCMove alignment base ws) (\<lambda>(calls, base).
      map_option (map_prod ((@) calls) id) (TraceSlaveParser_run limit symbols doGCMove alignment base entries)))"

lemma words_of_entry: "TraceSlaveParser_words limit (parsed_entry anchors (t, y, fs)) = Some (concat (map (fire_event anchors) fs))"
  using read_jints_append [of "concat (map (fire_event anchors) fs)" _ "[]"]
  by (simp add: TraceSlaveParser_words_def TraceSlaveParser_buffer_def parsed_entry_def event_bytes_def)

lemma run_log:
  "reads_as sy m al base (concat (map (\<lambda>(t, y, fs). fs) es)) cs base' \<Longrightarrow>
    TraceSlaveParser_run limit sy m al base (map (parsed_entry (sym_anchors sy)) es) = Some (cs, base')"
proof (induction es arbitrary: base cs)
  case Nil
  then show ?case by (auto elim: reads_as_NilE)
next
  case (Cons e es)
  obtain t y fs where e: "e = (t, y, fs)" by (cases e)
  have "reads_as sy m al base (fs @ concat (map (\<lambda>(t, y, fs). fs) es)) cs base'" using Cons.prems by (simp add: e)
  from reads_as_split [OF this] obtain ds ds' b where
    s: "cs = ds @ ds'" "reads_as sy m al base fs ds b" "reads_as sy m al b (concat (map (\<lambda>(t, y, fs). fs) es)) ds' base'" by blast
  from Cons.IH [OF s(3)] reads_as_buffer [OF s(2)] show ?case by (simp add: e words_of_entry s(1))
qed

lemma only_thread:
  "(\<And>u. u \<noteq> t \<Longrightarrow> events_of u es = []) \<Longrightarrow> concat (map (\<lambda>(t, y, fs). fs) es) = events_of t es"
proof (induction es)
  case (Cons e es)
  obtain u y fs where e: "e = (u, y, fs)" by (cases e)
  have "events_of v es = [] \<and> (v = u \<longrightarrow> fs = [])" if "v \<noteq> t" for v
    using Cons.prems [OF that] events_of_simps(2) [of v "[e]" es] by (simp add: e split: if_splits)
  with Cons.IH events_of_simps(2) [of t "[e]" es] show ?case by (auto simp: e)
qed simp

lemma recorded_by_thread: "\<forall>op \<in> set ops. op_thread op = t \<Longrightarrow> recorded_by gc u ops = (if u = t then concat (map (op_events gc) ops) else [])"
  by (induction ops) (auto simp: recorded_by_def)

section \<open>From the recorded event to the call of the event handler\<close>

lemma recorded_and_read:
  assumes "sync_setup lib fl MEMORY_LOAD" and "EventsWriter_create h name n disk time = Some io" and "length h < 2 ^ 31"
    and "vms_ok sy m base la es" and "list_all vm_small es" and "length (fire_vms base la es) < 2 ^ 31"
    and "\<forall>op \<in> set ops. op_thread op = t" and "concat (map (op_events gc) ops) = fire_vms base la es"
  shows "\<exists>s entries css. perform_all fl (sym_anchors sy) gc (ops @ [Flush t]) (recorder_init lib fl io) = Returns s
    \<and> Option.bind (open_content (rc_io s)) (TraceParser_parse h) = Some entries
    \<and> TraceSlaveParser_run limit sy m (2 ^ la) base entries = Some (concat css, final_base base es) \<and> explain_all sy base la es css"
proof -
  from reads_vms [OF assms(4)] assms(5) obtain css where css: "reads_as sy m (2 ^ la) base (fire_vms base la es) (concat css) (final_base base es)"
    "explain_all sy base la es css" "\<forall>f \<in> set (fire_vms base la es). size_ok f" by blast
  let ?start = "trace_header h 0"
  have "recorder_rel lib fl (sym_anchors sy) MEMORY_LOAD ?start (length (concat (map (op_events gc) ops)) + 0) (recorder_init lib fl io) [] (\<lambda>_. [])"
    using init_rel [OF create_start [OF assms(2)]] assms(6,8) by simp
  from perform_all_kept [OF this assms(1)] css(3) assms(8) obtain s1 es1 pend1 where
    1: "perform_all fl (sym_anchors sy) gc ops (recorder_init lib fl io) = Returns s1"
    "recorder_rel lib fl (sym_anchors sy) MEMORY_LOAD ?start 0 s1 es1 pend1" "\<And>u. events_of u es1 @ pend1 u = recorded_by gc u ops" by auto
  from flush_kept [OF 1(2) assms(1), of t t] obtain s2 es2 pend2 where 2: "flush_event_buffer fl False t s1 = Returns s2"
    "recorder_rel lib fl (sym_anchors sy) MEMORY_LOAD ?start 0 s2 es2 pend2" "kept es1 pend1 t [] es2 pend2" "pend2 t = []" by blast
  have all: "events_of u es2 @ pend2 u = (if u = t then fire_vms base la es else [])" for u
    using 2(3) 1(3) [of u] recorded_by_thread [OF assms(7), of gc u] assms(8) by (simp add: kept_def)
  have "events_of u es2 = []" if "u \<noteq> t" for u using all [of u] that by simp
  with only_thread [of t es2] all [of t] 2(4) have "concat (map (\<lambda>(t, y, fs). fs) es2) = fire_vms base la es" by simp
  with css(1) have "TraceSlaveParser_run limit sy m (2 ^ la) base (map (parsed_entry (sym_anchors sy)) es2) = Some (concat css, final_base base es)"
    by (intro run_log) simp
  moreover have "perform_all fl (sym_anchors sy) gc (ops @ [Flush t]) (recorder_init lib fl io) = Returns s2"
    using perform_all_append [OF 1(1), of "[Flush t]"] 2(1) by simp
  ultimately show ?thesis using parse_log [OF 2(2) assms(3)] css(2) by blast
qed


definition short_events :: "vm_event list" where
  "short_events = [V_alloc (Normal sample_array 20 EVENTS_C1_ALLOC_NORMAL), V_gc (Start_end EVENTS_GC_START 1 0 3 False False 99 0x700000000),
     V_other (Tag [72, 105])]"

lemma short_ok: "vms_ok sample_symbols (\<lambda>_ _ _ _. 0) 0 3 short_events" "list_all vm_small short_events"
  by (simp_all add: short_events_def sample_symbols_def sample_array_def site_id_def array_ok_def is_big_allocation_site_def
      is_special_allocation_site_def site_type_def isArray_def MIRROR_CLASS_NAME_def)


section \<open>Compressed buffers\<close>

lemma encode_buffer_room:
  assumes "buffer_ok m src" and "buffer_ok m dest" and "\<not> eb_is_compressed src" and "0 < eb_top src" and "eb_top src \<le> 16129"
    and "2 * eb_top src + 14 \<le> eb_end dest" and "compressor_ok c"
  shows "\<exists>dest' m' c'. Compression_encode QuyteTreeCompression_encode c m src dest = Some (True, dest', m', c') \<and> eb_end dest' = eb_end dest"
proof -
  from content_ok [OF assms(1)] obtain bs where bs: "EventBuffer_content m src = Some bs" "length bs = eb_top src" by blast
  have len: "EventBuffer_get_length src * jint_size = eb_top src"
    using assms(1,3) by (auto simp: buffer_ok_def EventBuffer_assert_is_valid_def EventBuffer_get_length_def EventBuffer_get_raw_length_def)
  have cap: "EventBuffer_get_capacity dest * jint_size = eb_end dest" using assms(2) by (auto simp: buffer_ok_def EventBuffer_get_capacity_def)
  have "bs \<noteq> []" using assms(4) bs(2) by auto
  with encode_room [OF assms(7), of bs "eb_end dest"] bs(2) assms(5,6) obtain result out c' where
    e: "QuyteTreeCompression_encode c bs (eb_end dest) = Some (result, out, c')" "src_compressed_length result = length bs"
    "dest_length result = length out" "length out \<le> eb_end dest" by auto
  from assms(2) e(4) store_inside [of m "eb_bottom dest" _ 0 out] obtain m' where "store_bytes m (eb_bottom dest) 0 out = Some m'"
    by (auto simp: buffer_ok_def)
  with e bs len cap show ?thesis
    by (simp add: Compression_encode_def EventBuffer_content_def EventBuffer_get_data_def EventBuffer_set_compression_def)
qed



end
